(* ===== verification/Prelude.thy ===== *)
theory Prelude
  imports Main "HOL-Library.Word" "HOL-Library.Monad_Syntax"
begin

section \<open>Shared types, outcomes and generic lemmas\<close>

text \<open>
  What every component theory of the library uses: the machine types of the code, the outcome
  of a C++ call (a value, a thrown \<^verbatim>\<open>std::system_error\<close>, a failed \<^verbatim>\<open>BOOST_ASSERT\<close>, a null or
  dangling dereference), the sequencing of such calls over a state, the \<^verbatim>\<open>errno\<close> values the
  sources name, and the list, word and set lemmas that the component proofs share.
\<close>

unbundle bit_operations_syntax

subsection \<open>Machine types\<close>

type_synonym u8 = "8 word"
type_synonym u16 = "16 word"
type_synonym u32 = "32 word"
type_synonym u64 = "64 word"
type_synonym addr = nat
type_synonym handle = nat \<comment> \<open>the address of a coroutine frame\<close>

abbreviation (input) null :: addr where "null \<equiv> 0"

subsection \<open>Values of \<open>errno\<close> named by the sources (Linux)\<close>

abbreviation EBUSY :: int where "EBUSY \<equiv> 16"
abbreviation EEXIST :: int where "EEXIST \<equiv> 17"
abbreviation EINVAL :: int where "EINVAL \<equiv> 22"
abbreviation ENFILE :: int where "ENFILE \<equiv> 23"
abbreviation ETIME :: int where "ETIME \<equiv> 62"
abbreviation EBADFD :: int where "EBADFD \<equiv> 77"
abbreviation EISCONN :: int where "EISCONN \<equiv> 106"
abbreviation ETIMEDOUT :: int where "ETIMEDOUT \<equiv> 110"
abbreviation ECANCELED :: int where "ECANCELED \<equiv> 125"

subsection \<open>Outcomes of a call\<close>

text \<open>
  \<open>Throw e\<close> is the \<^verbatim>\<open>std::system_error\<close> of \<^verbatim>\<open>throw_errno_as_error_code( e )\<close>, \<open>Assert_failed\<close> a
  \<^verbatim>\<open>BOOST_ASSERT\<close> whose condition is false, \<open>Bad_access\<close> an access through a null pointer or outside an array. The
  state changes made before the failure are kept, as in the code.
\<close>

datatype 'a outcome = Ret 'a | Throw int | Assert_failed | Bad_access

type_synonym ('s, 'a) op = "'s \<Rightarrow> 'a outcome \<times> 's"

definition retM :: "'a \<Rightarrow> ('s, 'a) op" where
  "retM x s = (Ret x, s)"

definition throwM :: "int \<Rightarrow> ('s, 'a) op" where
  "throwM e s = (Throw e, s)"

definition assertM :: "bool \<Rightarrow> ('s, unit) op" where
  "assertM b s = (if b then (Ret (), s) else (Assert_failed, s))"

definition bindM :: "('s, 'a) op \<Rightarrow> ('a \<Rightarrow> ('s, 'b) op) \<Rightarrow> ('s, 'b) op" where
  "bindM m f s = (case m s of
     (Ret x, s') \<Rightarrow> f x s'
   | (Throw e, s') \<Rightarrow> (Throw e, s')
   | (Assert_failed, s') \<Rightarrow> (Assert_failed, s')
   | (Bad_access, s') \<Rightarrow> (Bad_access, s'))"

definition thenM :: "('s, unit) op \<Rightarrow> ('s, 'b) op \<Rightarrow> ('s, 'b) op" where
  "thenM m k = bindM m (\<lambda>_. k)"

definition modifyM :: "('s \<Rightarrow> 's) \<Rightarrow> ('s, unit) op" where
  "modifyM f s = (Ret (), f s)"

named_theorems op_simps \<open>evaluation of outcome-valued operations\<close>

lemma retM_apply [op_simps]: "retM x s = (Ret x, s)"
  by (simp add: retM_def)

lemma throwM_apply [op_simps]: "throwM e s = (Throw e, s)"
  by (simp add: throwM_def)

lemma assertM_apply [op_simps]:
  "assertM b s = (if b then (Ret (), s) else (Assert_failed, s))"
  by (simp add: assertM_def)

lemma modifyM_apply [op_simps]: "modifyM f s = (Ret (), f s)"
  by (simp add: modifyM_def)

lemma bindM_Ret [op_simps]: "m s = (Ret x, s') \<Longrightarrow> bindM m f s = f x s'"
  by (simp add: bindM_def)

lemma bindM_Throw [op_simps]: "m s = (Throw e, s') \<Longrightarrow> bindM m f s = (Throw e, s')"
  by (simp add: bindM_def)

lemma bindM_Assert [op_simps]: "m s = (Assert_failed, s') \<Longrightarrow> bindM m f s = (Assert_failed, s')"
  by (simp add: bindM_def)

lemma bindM_Null [op_simps]: "m s = (Bad_access, s') \<Longrightarrow> bindM m f s = (Bad_access, s')"
  by (simp add: bindM_def)

lemma thenM_apply [op_simps]: "thenM m k s = bindM m (\<lambda>_. k) s"
  by (simp add: thenM_def)

lemma bindM_RetE:
  assumes "bindM m f s = (Ret y, t)"
  obtains x s' where "m s = (Ret x, s')" and "f x s' = (Ret y, t)"
  using assms by (auto simp: bindM_def split: prod.splits outcome.splits)

lemma bindM_assoc: "bindM (bindM m f) g = bindM m (\<lambda>x. bindM (f x) g)"
  by (rule ext) (simp add: bindM_def split: prod.splits outcome.splits)

text \<open>A call on one side of a state that has two.\<close>

definition on_fst :: "('s, 'a) op \<Rightarrow> ('s \<times> 't, 'a) op" where
  "on_fst m s = (case m (fst s) of (x, s') \<Rightarrow> (x, (s', snd s)))"

definition on_snd :: "('t, 'a) op \<Rightarrow> ('s \<times> 't, 'a) op" where
  "on_snd m s = (case m (snd s) of (x, t') \<Rightarrow> (x, (fst s, t')))"

lemma on_fst_apply [op_simps]: "m s = (x, s') \<Longrightarrow> on_fst m (s, t) = (x, (s', t))"
  by (simp add: on_fst_def)

lemma on_snd_apply [op_simps]: "m t = (x, t') \<Longrightarrow> on_snd m (s, t) = (x, (s, t'))"
  by (simp add: on_snd_def)

subsection \<open>\<open>error_code\<close> and \<open>result\<close>\<close>

text \<open>
  \<^verbatim>\<open>fiona::result<T>\<close> is \<open>Inr v\<close> for a value and \<open>Inl e\<close> for \<^verbatim>\<open>error_code::from_errno( e )\<close>.
  \<open>from_errno\<close> asserts that its argument is not zero.
\<close>

type_synonym 'a fiona_result = "int + 'a"

definition from_errno :: "int \<Rightarrow> int option" where
  "from_errno e = (if e = 0 then None else Some e)"

definition throw_errno_as_error_code :: "int \<Rightarrow> ('s, 'a) op" where
  "throw_errno_as_error_code e s =
     (case from_errno e of None \<Rightarrow> (Assert_failed, s) | Some e' \<Rightarrow> (Throw e', s))"

lemma throw_errno_apply [op_simps]:
  "e \<noteq> 0 \<Longrightarrow> throw_errno_as_error_code e s = (Throw e, s)"
  by (simp add: throw_errno_as_error_code_def from_errno_def)

subsection \<open>Repeated operations on a queue held in a memory\<close>

fun push_list :: "('h \<Rightarrow> 'q \<Rightarrow> 'p \<Rightarrow> ('h \<times> 'q) option) \<Rightarrow> 'h \<Rightarrow> 'q \<Rightarrow> 'p list \<Rightarrow> ('h \<times> 'q) option" where
  "push_list push h q [] = Some (h, q)"
| "push_list push h q (p # ps) =
     (case push h q p of None \<Rightarrow> None | Some (h', q') \<Rightarrow> push_list push h' q' ps)"

fun pop_many :: "('h \<Rightarrow> 'q \<Rightarrow> ('p \<times> 'h \<times> 'q) option) \<Rightarrow> 'h \<Rightarrow> 'q \<Rightarrow> nat \<Rightarrow> ('p list \<times> 'h \<times> 'q) option" where
  "pop_many pop h q 0 = Some ([], h, q)"
| "pop_many pop h q (Suc n) =
     (case pop h q of None \<Rightarrow> None
      | Some (p, h', q') \<Rightarrow>
          (case pop_many pop h' q' n of None \<Rightarrow> None | Some (ps, r) \<Rightarrow> Some (p # ps, r)))"

end
