(* ===== verification/Uring.thy ===== *)
theory Uring
  imports Prelude
begin

section \<open>The interface to \<open>liburing\<close> (\<open>include/fiona/detail/get_sqe.hpp\<close>)\<close>

text \<open>
  Fiona talks to the kernel through \<^verbatim>\<open>liburing\<close>, which is not part of the sources. Its ring is a
  value of an arbitrary type \<open>'r\<close>, and the functions that the code calls on it are the fields of
  the record \<open>platform\<close>, an argument of every operation that uses them. A submission queue entry
  is recorded as what the code writes into it: the \<^verbatim>\<open>io_uring_prep_*\<close> call with its arguments, the
  flags and the user data. \<open>uring_laws\<close> states the documented behaviour of the submission queue
  that the code relies on, with respect to the list of all entries issued so far and the number
  of entries of the queue.
\<close>

subsection \<open>Entries and completions\<close>

datatype frame_tag =
    F_cancel | F_timeout_cancel | F_close | F_shutdown | F_send | F_recv | F_timeout
  | F_socket | F_connect | F_accept | F_acceptor_cancel | F_acceptor_close
  | F_timer | F_timer_cancel | F_open | F_write | F_read | F_pipe

text \<open>User data is null or a pointer to a frame (a base class sub-object) of an object.\<close>

datatype user_data = UD_null | UD nat frame_tag

datatype sa_family = AF_INET | AF_INET6 | AF_OTHER u16

definition is_inet :: "sa_family \<Rightarrow> bool" where
  "is_inet af = (af = AF_INET \<or> af = AF_INET6)"

text \<open>\<^verbatim>\<open>sizeof\<close> of the address structure of a family.\<close>

definition addr_len :: "sa_family \<Rightarrow> nat" where
  "addr_len af = (if af = AF_INET6 then 28 else 16)"

record sockaddr =
  sa_fam :: sa_family
  sa_port :: u16
  sa_addr :: "u8 list"

record timespec =
  tv_sec :: int
  tv_nsec :: int

text \<open>
  The calls that fill an entry. \<open>Prep_timeout\<close> and \<open>Prep_link_timeout\<close> receive a pointer to the
  \<^verbatim>\<open>ts_\<close> member of the frame they name; the Boolean of \<open>Prep_timeout\<close> is
  \<^verbatim>\<open>IORING_TIMEOUT_MULTISHOT\<close>. \<open>Prep_cancel_fd\<close> always carries
  \<^verbatim>\<open>IORING_ASYNC_CANCEL_ALL | IORING_ASYNC_CANCEL_FD_FIXED\<close>, \<open>Prep_recv_multishot\<close> the ioprio
  \<^verbatim>\<open>IORING_RECVSEND_POLL_FIRST\<close>. Reads and writes are at offset 0 and carry the length as the
  \<^verbatim>\<open>unsigned\<close> they pass.
\<close>

datatype sqe_op =
    Prep_timeout user_data bool
  | Prep_link_timeout user_data
  | Prep_timeout_remove user_data
  | Prep_cancel user_data
  | Prep_cancel_fd int
  | Prep_close_direct u32
  | Prep_shutdown int int
  | Prep_send int "u8 list"
  | Prep_recv_multishot int u16
  | Prep_accept_direct int u32
  | Prep_socket_direct sa_family u32
  | Prep_connect int sockaddr
  | Prep_openat_direct string int u32
  | Prep_write int "u8 list" u32
  | Prep_write_fixed int "u8 list" u32 int
  | Prep_read int addr u32
  | Prep_read_fixed int addr u32 int

datatype sqe_flag =
  IOSQE_FIXED_FILE | IOSQE_IO_LINK | IOSQE_IO_HARDLINK | IOSQE_CQE_SKIP_SUCCESS | IOSQE_BUFFER_SELECT

record sqe =
  sqe_prep :: sqe_op
  sqe_flags :: "sqe_flag list"
  sqe_data :: user_data

record cqe =
  cqe_res :: int
  cqe_flags :: u32
  cqe_data :: user_data

text \<open>\<^verbatim>\<open>IORING_CQE_F_BUFFER\<close> is bit 0, \<^verbatim>\<open>IORING_CQE_F_MORE\<close> bit 1, the buffer id the upper half.\<close>

definition cqe_f_buffer :: "cqe \<Rightarrow> bool" where
  "cqe_f_buffer c = (cqe_flags c AND 1 \<noteq> 0)"

definition cqe_f_more :: "cqe \<Rightarrow> bool" where
  "cqe_f_more c = (cqe_flags c AND 2 \<noteq> 0)"

definition cqe_buffer_id :: "cqe \<Rightarrow> nat" where
  "cqe_buffer_id c = unat (drop_bit 16 (cqe_flags c))"

subsection \<open>The functions the code calls\<close>

text \<open>
  \<open>io_uring_get_sqe\<close> takes the entry that the code writes into the slot it gets; \<open>None\<close> is a null
  pointer. \<open>cq_ready\<close> is the completions that \<^verbatim>\<open>io_uring_cq_ready\<close> counts and
  \<^verbatim>\<open>io_uring_peek_batch_cqe\<close> copies out. \<open>fds_begin\<close> is the element at \<^verbatim>\<open>begin()\<close> of Boost's
  \<^verbatim>\<open>unordered_flat_set\<close>.
\<close>

record 'r platform =
  sq_space_left :: "'r \<Rightarrow> nat"
  io_uring_get_sqe :: "'r \<Rightarrow> sqe \<Rightarrow> 'r option"
  io_uring_submit_and_get_events :: "'r \<Rightarrow> 'r"
  io_uring_submit :: "'r \<Rightarrow> 'r"
  io_uring_submit_and_wait :: "'r \<Rightarrow> 'r"
  cq_ready :: "'r \<Rightarrow> cqe list"
  io_uring_cq_advance :: "'r \<Rightarrow> nat \<Rightarrow> 'r"
  io_uring_setup_buf_ring :: "'r \<Rightarrow> nat \<Rightarrow> u16 \<Rightarrow> int + 'r"
  io_uring_buf_ring_add :: "'r \<Rightarrow> u16 \<Rightarrow> u32 \<Rightarrow> u16 \<Rightarrow> int \<Rightarrow> 'r"
  io_uring_buf_ring_advance :: "'r \<Rightarrow> u16 \<Rightarrow> int \<Rightarrow> 'r"
  io_uring_register_files_update :: "'r \<Rightarrow> u32 \<Rightarrow> int \<Rightarrow> int \<times> 'r"
  fds_begin :: "int set \<Rightarrow> int"

definition get_sqe_law :: "'r platform \<Rightarrow> ('r \<Rightarrow> sqe list) \<Rightarrow> 'r \<Rightarrow> sqe \<Rightarrow> bool" where
  "get_sqe_law E issued r e =
     (case io_uring_get_sqe E r e of
        None \<Rightarrow> sq_space_left E r = 0
      | Some r' \<Rightarrow> 0 < sq_space_left E r \<and> sq_space_left E r' = sq_space_left E r - 1 \<and>
                   issued r' = issued r @ [e])"

definition uring_laws :: "'r platform \<Rightarrow> ('r \<Rightarrow> sqe list) \<Rightarrow> nat \<Rightarrow> bool" where
  "uring_laws E issued entries =
     (3 \<le> entries \<and>
      (\<forall>r e. get_sqe_law E issued r e) \<and>
      (\<forall>r. sq_space_left E (io_uring_submit_and_get_events E r) = entries \<and>
           issued (io_uring_submit_and_get_events E r) = issued r) \<and>
      (\<forall>r g n i k. issued (io_uring_buf_ring_add E r g n i k) = issued r \<and>
           sq_space_left E (io_uring_buf_ring_add E r g n i k) = sq_space_left E r) \<and>
      (\<forall>r g k. issued (io_uring_buf_ring_advance E r g k) = issued r \<and>
           sq_space_left E (io_uring_buf_ring_advance E r g k) = sq_space_left E r) \<and>
      (\<forall>r i fd. issued (snd (io_uring_register_files_update E r i fd)) = issued r) \<and>
      (\<forall>S. S \<noteq> {} \<longrightarrow> finite S \<longrightarrow> fds_begin E S \<in> S))"

subsection \<open>\<open>get_sqe.hpp\<close>\<close>

definition submit_ring :: "'r platform \<Rightarrow> ('r, unit) op" where
  "submit_ring E r = (Ret (), io_uring_submit_and_get_events E r)"

definition reserve_sqes :: "'r platform \<Rightarrow> nat \<Rightarrow> ('r, unit) op" where
  "reserve_sqes E n r = (if sq_space_left E r < n then submit_ring E r else (Ret (), r))"

text \<open>
  \<open>put_sqe\<close> is \<^verbatim>\<open>io_uring_get_sqe\<close> followed by the calls that write the entry: with a null pointer
  they dereference it. \<open>get_sqe\<close> is the helper of the code that submits and retries once.
\<close>

definition put_sqe :: "'r platform \<Rightarrow> sqe \<Rightarrow> ('r, unit) op" where
  "put_sqe E e r = (case io_uring_get_sqe E r e of None \<Rightarrow> (Bad_access, r) | Some r' \<Rightarrow> (Ret (), r'))"

definition get_sqe :: "'r platform \<Rightarrow> sqe \<Rightarrow> ('r, unit) op" where
  "get_sqe E e r =
     (case io_uring_get_sqe E r e of
        Some r' \<Rightarrow> (Ret (), r')
      | None \<Rightarrow>
          (case io_uring_get_sqe E (snd (submit_ring E r)) e of
             None \<Rightarrow> (Assert_failed, snd (submit_ring E r))
           | Some r' \<Rightarrow> (Ret (), r')))"

subsection \<open>What the laws give\<close>

fun put_sqes :: "'r platform \<Rightarrow> sqe list \<Rightarrow> ('r, unit) op" where
  "put_sqes E [] = retM ()"
| "put_sqes E (e # es) = thenM (put_sqe E e) (put_sqes E es)"

lemma uring_get_sqe:
  assumes "uring_laws E issued n" and "0 < sq_space_left E r"
  obtains r' where "io_uring_get_sqe E r e = Some r'" and "issued r' = issued r @ [e]"
    and "sq_space_left E r' = sq_space_left E r - 1"
proof -
  have "get_sqe_law E issued r e" using assms(1) by (simp add: uring_laws_def)
  with assms(2) that show ?thesis by (auto simp: get_sqe_law_def split: option.splits)
qed

lemma uring_submit:
  assumes "uring_laws E issued n"
  shows "issued (io_uring_submit_and_get_events E r) = issued r"
    and "sq_space_left E (io_uring_submit_and_get_events E r) = n"
  using assms by (simp_all add: uring_laws_def)

lemma uring_entries: "uring_laws E issued n \<Longrightarrow> 3 \<le> n"
  by (simp add: uring_laws_def)

lemma uring_buf_ring:
  assumes "uring_laws E issued n"
  shows "issued (io_uring_buf_ring_add E r g m i k) = issued r"
    and "issued (io_uring_buf_ring_advance E r g k) = issued r"
  using assms by (simp_all add: uring_laws_def)

lemma uring_register_files: "uring_laws E issued n \<Longrightarrow> issued (snd (io_uring_register_files_update E r i fd)) = issued r"
  by (simp add: uring_laws_def)

lemma fds_begin_in: "uring_laws E issued n \<Longrightarrow> S \<noteq> {} \<Longrightarrow> finite S \<Longrightarrow> fds_begin E S \<in> S"
  by (simp add: uring_laws_def)

lemma reserve_sqes_ok:
  assumes "uring_laws E issued n" and "k \<le> 3"
  obtains r' where "reserve_sqes E k r = (Ret (), r')" and "issued r' = issued r"
    and "k \<le> sq_space_left E r'"
  using uring_submit [OF assms(1), of r] uring_entries [OF assms(1)] assms(2)
  by (cases "sq_space_left E r < k") (auto simp: reserve_sqes_def submit_ring_def)

lemma put_sqe_ok:
  assumes "uring_laws E issued n" and "0 < sq_space_left E r"
  obtains r' where "put_sqe E e r = (Ret (), r')" and "issued r' = issued r @ [e]"
    and "sq_space_left E r' = sq_space_left E r - 1"
proof -
  obtain r' where "io_uring_get_sqe E r e = Some r'" "issued r' = issued r @ [e]"
      "sq_space_left E r' = sq_space_left E r - 1"
    by (rule uring_get_sqe [OF assms])
  with that show ?thesis by (simp add: put_sqe_def)
qed

lemma submit_ring_ok:
  assumes "uring_laws E issued n"
  obtains r' where "submit_ring E r = (Ret (), r')" and "issued r' = issued r"
  using uring_submit [OF assms] by (simp add: submit_ring_def)

lemma get_sqe_ok:
  assumes "uring_laws E issued n"
  obtains r' where "get_sqe E e r = (Ret (), r')" and "issued r' = issued r @ [e]"
proof (cases "io_uring_get_sqe E r e")
  case (Some r')
  have "get_sqe_law E issued r e" using assms by (simp add: uring_laws_def)
  with Some have "issued r' = issued r @ [e]" by (simp add: get_sqe_law_def)
  with Some that show ?thesis by (simp add: get_sqe_def)
next
  case None
  let ?s = "io_uring_submit_and_get_events E r"
  have "0 < sq_space_left E ?s" using uring_submit [OF assms, of r] uring_entries [OF assms] by simp
  then obtain r' where "io_uring_get_sqe E ?s e = Some r'" "issued r' = issued ?s @ [e]"
    by (rule uring_get_sqe [OF assms])
  with None that show ?thesis
    by (simp add: get_sqe_def submit_ring_def uring_submit(1) [OF assms])
qed

text \<open>The usual prologue of a handler: reserve one entry, then write it.\<close>

definition issue_one :: "'r platform \<Rightarrow> sqe \<Rightarrow> ('r, unit) op" where
  "issue_one E e = thenM (reserve_sqes E 1) (put_sqe E e)"

lemma issue_one_ok:
  assumes "uring_laws E issued n"
  obtains r' where "issue_one E e r = (Ret (), r')" and "issued r' = issued r @ [e]"
proof -
  obtain r1 where r1: "reserve_sqes E 1 r = (Ret (), r1)" "issued r1 = issued r" "1 \<le> sq_space_left E r1"
    by (rule reserve_sqes_ok [OF assms, of 1 r]) simp
  obtain r2 where "put_sqe E e r1 = (Ret (), r2)" "issued r2 = issued r1 @ [e]"
    by (rule put_sqe_ok [OF assms, of r1 e]) (use r1 in simp)
  with r1 that show ?thesis by (simp add: issue_one_def op_simps)
qed

lemma put_sqes_ok:
  assumes laws: "uring_laws E issued n"
  shows "length es \<le> sq_space_left E q \<Longrightarrow>
      \<exists>r'. put_sqes E es q = (Ret (), r') \<and> issued r' = issued q @ es"
proof (induction es arbitrary: q)
  case Nil
  show ?case by (simp add: op_simps)
next
  case (Cons e es)
  obtain q' where q': "put_sqe E e q = (Ret (), q')" "issued q' = issued q @ [e]"
      "sq_space_left E q' = sq_space_left E q - 1"
    by (rule put_sqe_ok [OF laws, of q e]) (use Cons.prems in auto)
  have "\<exists>r'. put_sqes E es q' = (Ret (), r') \<and> issued r' = issued q' @ es"
    using Cons.prems q'(3) by (intro Cons.IH) auto
  with q' show ?case by (auto simp: op_simps)
qed

text \<open>
  With a submission queue of at least three entries, reserving up to three and then writing
  that many never meets a null entry; the entries are issued in the order of the calls.
\<close>

theorem reserved_entries_available:
  assumes laws: "uring_laws E issued n" and len: "length es \<le> 3"
  shows "\<exists>r'. thenM (reserve_sqes E (length es)) (put_sqes E es) r = (Ret (), r') \<and>
           issued r' = issued r @ es"
proof -
  obtain q where "reserve_sqes E (length es) r = (Ret (), q)" "issued q = issued r" "length es \<le> sq_space_left E q"
    by (rule reserve_sqes_ok [OF laws len])
  with put_sqes_ok [OF laws, of es q] show ?thesis by (simp add: op_simps)
qed

subsection \<open>A queue that satisfies the laws\<close>

text \<open>
  The laws are consistent: a queue with a counter of free entries and the list of issued ones.
  The witnesses of the properties that assume \<open>uring_laws\<close> use it.
\<close>

record list_ring =
  lr_free :: nat
  lr_issued :: "sqe list"
  lr_cq :: "cqe list"

definition list_platform :: "nat \<Rightarrow> list_ring platform" where
  "list_platform n = \<lparr>
     sq_space_left = lr_free,
     io_uring_get_sqe = (\<lambda>r e. if lr_free r = 0 then None
                               else Some (r\<lparr>lr_free := lr_free r - 1, lr_issued := lr_issued r @ [e]\<rparr>)),
     io_uring_submit_and_get_events = (\<lambda>r. r\<lparr>lr_free := n\<rparr>),
     io_uring_submit = (\<lambda>r. r\<lparr>lr_free := n\<rparr>),
     io_uring_submit_and_wait = (\<lambda>r. r\<lparr>lr_free := n\<rparr>),
     cq_ready = lr_cq,
     io_uring_cq_advance = (\<lambda>r k. r\<lparr>lr_cq := drop k (lr_cq r)\<rparr>),
     io_uring_setup_buf_ring = (\<lambda>r k g. Inr r),
     io_uring_buf_ring_add = (\<lambda>r g k i j. r),
     io_uring_buf_ring_advance = (\<lambda>r g k. r),
     io_uring_register_files_update = (\<lambda>r i k. (1, r)),
     fds_begin = (\<lambda>S. Min S)\<rparr>"

definition empty_ring :: "nat \<Rightarrow> list_ring" where
  "empty_ring n = \<lparr>lr_free = n, lr_issued = [], lr_cq = []\<rparr>"

lemma list_platform_laws: "3 \<le> n \<Longrightarrow> uring_laws (list_platform n) lr_issued n"
  by (auto simp: uring_laws_def get_sqe_law_def list_platform_def)

theorem reserved_entries_available_witness:
  "\<exists>r'. thenM (reserve_sqes (list_platform 4) 2)
          (put_sqes (list_platform 4)
            [\<lparr>sqe_prep = Prep_cancel_fd 3, sqe_flags = [], sqe_data = UD_null\<rparr>,
             \<lparr>sqe_prep = Prep_close_direct 3, sqe_flags = [], sqe_data = UD_null\<rparr>])
          (empty_ring 1) = (Ret (), r') \<and>
     map sqe_prep (lr_issued r') = [Prep_cancel_fd 3, Prep_close_direct 3]"
proof -
  let ?es = "[\<lparr>sqe_prep = Prep_cancel_fd 3, sqe_flags = [], sqe_data = UD_null\<rparr>,
    \<lparr>sqe_prep = Prep_close_direct 3, sqe_flags = [], sqe_data = UD_null\<rparr>]"
  have laws: "uring_laws (list_platform 4) lr_issued 4" by (rule list_platform_laws) simp
  have len: "length ?es = 2" "length ?es \<le> 3" by simp_all
  obtain r' where "thenM (reserve_sqes (list_platform 4) 2) (put_sqes (list_platform 4) ?es)
        (empty_ring 1) = (Ret (), r')"
      "lr_issued r' = lr_issued (empty_ring 1) @ ?es"
    using reserved_entries_available [OF laws len(2), of "empty_ring 1"] unfolding len(1) by blast
  then show ?thesis by (intro exI [of _ r'] conjI) (assumption, simp add: empty_ring_def)
qed

end
