(* ===== verification/Buffer.thy ===== *)
theory Buffer
  imports Prelude
begin

section \<open>Receive buffers and buffer sequences (\<open>include/fiona/buffer.hpp\<close>, \<open>src/buffer.cpp\<close>)\<close>

text \<open>
  The memory model of the receive buffers. A heap maps addresses to blocks; a block is the
  \<^verbatim>\<open>buf_header_impl\<close> at the start of an allocation followed by its bytes. Address 0 is the null
  pointer. An operation returns \<open>None\<close> where the code would dereference a null or dangling
  pointer, free a block twice or fail a \<^verbatim>\<open>BOOST_ASSERT\<close>. A \<^verbatim>\<open>recv_buffer\<close> (and a
  \<^verbatim>\<open>recv_buffer_view\<close>) is the address it holds; a \<^verbatim>\<open>recv_buffer_sequence\<close> is the intrusive,
  doubly linked list of the code with its sentry node, itself a block of the heap. The address
  that \<^verbatim>\<open>operator new\<close> returns and the bytes it leaves in the allocation are arguments.
\<close>

subsection \<open>Headers and the heap\<close>

record buf_header_impl =
  hdr_size :: nat
  hdr_capacity :: nat
  hdr_prev :: addr
  hdr_next :: addr

record block = buf_header_impl +
  blk_bytes :: "u8 list"

type_synonym heap = "addr \<rightharpoonup> block"

definition default_block :: block where
  "default_block = \<lparr>hdr_size = 0, hdr_capacity = 0, hdr_prev = null, hdr_next = null, blk_bytes = []\<rparr>"

definition default_buf_header :: addr where
  "default_buf_header = 1"

definition set_next :: "heap \<Rightarrow> addr \<Rightarrow> addr \<Rightarrow> heap option" where
  "set_next h buf nxt = (case h buf of None \<Rightarrow> None | Some b \<Rightarrow> Some (h(buf \<mapsto> b\<lparr>hdr_next := nxt\<rparr>)))"

definition set_prev :: "heap \<Rightarrow> addr \<Rightarrow> addr \<Rightarrow> heap option" where
  "set_prev h buf prv = (case h buf of None \<Rightarrow> None | Some b \<Rightarrow> Some (h(buf \<mapsto> b\<lparr>hdr_prev := prv\<rparr>)))"

definition get_next :: "heap \<Rightarrow> addr \<Rightarrow> addr option" where
  "get_next h buf = map_option hdr_next (h buf)"

definition get_prev :: "heap \<Rightarrow> addr \<Rightarrow> addr option" where
  "get_prev h buf = map_option hdr_prev (h buf)"

subsection \<open>\<open>recv_buffer_view\<close>\<close>

definition header_size :: nat where
  "header_size = 32"

definition is_defaulted :: "addr \<Rightarrow> bool" where
  "is_defaulted p = (p = default_buf_header)"

definition view_data :: "addr \<Rightarrow> addr" where
  "view_data p = p + header_size"

definition view_size :: "heap \<Rightarrow> addr \<Rightarrow> nat option" where
  "view_size h p = map_option hdr_size (h p)"

definition view_capacity :: "heap \<Rightarrow> addr \<Rightarrow> nat option" where
  "view_capacity h p = map_option hdr_capacity (h p)"

definition view_empty :: "heap \<Rightarrow> addr \<Rightarrow> bool option" where
  "view_empty h p = map_option (\<lambda>n. n = 0) (view_size h p)"

definition set_len :: "heap \<Rightarrow> addr \<Rightarrow> nat \<Rightarrow> heap option" where
  "set_len h p n =
     (if is_defaulted p then None
      else case h p of None \<Rightarrow> None | Some b \<Rightarrow> Some (h(p \<mapsto> b\<lparr>hdr_size := n\<rparr>)))"

text \<open>
  \<^verbatim>\<open>readable_bytes\<close> and \<^verbatim>\<open>as_str\<close> are the span of the first \<open>hdr_size\<close> bytes after the header; reading
  it is undefined when \<open>hdr_size\<close> is larger than the allocation.
\<close>

definition readable_bytes :: "heap \<Rightarrow> addr \<Rightarrow> u8 list option" where
  "readable_bytes h p =
     (case h p of None \<Rightarrow> None
      | Some b \<Rightarrow> if hdr_size b \<le> length (blk_bytes b) then Some (take (hdr_size b) (blk_bytes b)) else None)"

text \<open>
  \<^verbatim>\<open>spare_capacity_mut\<close>: offset and length of the unused rest. The length is a \<^verbatim>\<open>size_t\<close>
  difference, so it wraps around when \<open>hdr_size\<close> exceeds \<open>hdr_capacity\<close>.
\<close>

definition spare_capacity_mut :: "heap \<Rightarrow> addr \<Rightarrow> (addr \<times> nat) option" where
  "spare_capacity_mut h p =
     (case h p of None \<Rightarrow> None
      | Some b \<Rightarrow> Some (view_data p + hdr_size b,
                        (2 ^ 64 + hdr_capacity b - hdr_size b) mod 2 ^ 64))"

subsection \<open>\<open>recv_buffer\<close>\<close>

definition aligned_delete :: "heap \<Rightarrow> addr \<Rightarrow> heap option" where
  "aligned_delete h p = (case h p of None \<Rightarrow> None | Some _ \<Rightarrow> Some (h(p := None)))"

definition to_raw_parts :: "addr \<Rightarrow> addr \<times> addr" where
  "to_raw_parts p = (p, default_buf_header)"

definition recv_buffer_ctor :: "heap \<Rightarrow> addr \<Rightarrow> (nat \<Rightarrow> u8) \<Rightarrow> nat \<Rightarrow> heap" where
  "recv_buffer_ctor h p junk capacity =
     h(p \<mapsto> \<lparr>hdr_size = 0, hdr_capacity = capacity, hdr_prev = null, hdr_next = null,
             blk_bytes = map junk [0..<capacity]\<rparr>)"

text \<open>The move constructor returns the address of the new object and of the source after it.\<close>

definition recv_buffer_move :: "addr \<Rightarrow> addr \<times> addr" where
  "recv_buffer_move rhs = (rhs, default_buf_header)"

definition recv_buffer_assign :: "heap \<Rightarrow> addr \<Rightarrow> addr \<Rightarrow> (heap \<times> addr \<times> addr) option" where
  "recv_buffer_assign h self rhs =
     (case (if is_defaulted self then Some h else aligned_delete h self) of
        None \<Rightarrow> None
      | Some h' \<Rightarrow> Some (h', rhs, default_buf_header))"

definition recv_buffer_dtor :: "heap \<Rightarrow> addr \<Rightarrow> heap option" where
  "recv_buffer_dtor h p = (if is_defaulted p then Some h else aligned_delete h p)"

subsection \<open>\<open>recv_buffer_sequence\<close>\<close>

record recv_buffer_sequence =
  p_sentry :: addr
  head_p :: addr
  tail_p :: addr
  seq_num_bufs :: nat

definition seq_empty :: "recv_buffer_sequence \<Rightarrow> bool" where
  "seq_empty s = (seq_num_bufs s = 0)"

definition seq_end :: "recv_buffer_sequence \<Rightarrow> addr" where
  "seq_end s = p_sentry s"

definition seq_begin :: "recv_buffer_sequence \<Rightarrow> addr" where
  "seq_begin s = (if seq_empty s then seq_end s else head_p s)"

definition seq_front :: "recv_buffer_sequence \<Rightarrow> addr option" where
  "seq_front s = (if seq_empty s then None else Some (head_p s))"

definition seq_back :: "recv_buffer_sequence \<Rightarrow> addr option" where
  "seq_back s = (if seq_empty s then None else Some (tail_p s))"

text \<open>
  Iterators are node addresses. The constructor and the increments assert a non-null pointer;
  \<open>iter_incr_post\<close> and \<open>iter_decr_post\<close> also return the old iterator.
\<close>

definition iter_make :: "addr \<Rightarrow> addr option" where
  "iter_make p = (if p = null then None else Some p)"

definition iter_deref :: "addr \<Rightarrow> addr" where
  "iter_deref p = p"

definition iter_incr :: "heap \<Rightarrow> addr \<Rightarrow> addr option" where
  "iter_incr h p = (if p = null then None else get_next h p)"

definition iter_incr_post :: "heap \<Rightarrow> addr \<Rightarrow> (addr \<times> addr) option" where
  "iter_incr_post h p = (if p = null then None else do { q \<leftarrow> get_next h p; old \<leftarrow> iter_make p; Some (old, q) })"

definition iter_decr :: "heap \<Rightarrow> addr \<Rightarrow> addr option" where
  "iter_decr h p = get_prev h p"

definition iter_decr_post :: "heap \<Rightarrow> addr \<Rightarrow> (addr \<times> addr) option" where
  "iter_decr_post h p = do { q \<leftarrow> get_prev h p; old \<leftarrow> iter_make p; Some (old, q) }"

definition iter_eq :: "addr \<Rightarrow> addr \<Rightarrow> bool" where
  "iter_eq p q = (p = q)"

text \<open>The buffers visited by \<open>n\<close> increments, and by \<open>n\<close> decrements.\<close>

fun iter_forward :: "heap \<Rightarrow> nat \<Rightarrow> addr \<Rightarrow> (addr list \<times> addr) option" where
  "iter_forward h 0 p = Some ([], p)"
| "iter_forward h (Suc n) p =
     do { (old, q) \<leftarrow> iter_incr_post h p;
          (ps, e) \<leftarrow> iter_forward h n q;
          Some (iter_deref old # ps, e) }"

fun iter_backward :: "heap \<Rightarrow> nat \<Rightarrow> addr \<Rightarrow> addr list option" where
  "iter_backward h 0 p = Some []"
| "iter_backward h (Suc n) p =
     do { q \<leftarrow> iter_decr h p;
          ps \<leftarrow> iter_backward h n q;
          Some (iter_deref q # ps) }"

text \<open>The constructor, with the address of the new object's \<^verbatim>\<open>sentry_\<close> member.\<close>

definition seq_ctor :: "heap \<Rightarrow> addr \<Rightarrow> heap \<times> recv_buffer_sequence" where
  "seq_ctor h sn =
     (h(sn \<mapsto> default_block), \<lparr>p_sentry = sn, head_p = null, tail_p = null, seq_num_bufs = 0\<rparr>)"

partial_function (option) free_loop :: "heap \<Rightarrow> addr \<Rightarrow> addr \<Rightarrow> heap option" where
  "free_loop h sn p =
     (if p = sn then Some h
      else do { nxt \<leftarrow> get_next h p;
                h1 \<leftarrow> aligned_delete h p;
                free_loop h1 sn nxt })"

definition free_list :: "heap \<Rightarrow> recv_buffer_sequence \<Rightarrow> (heap \<times> recv_buffer_sequence) option" where
  "free_list h s =
     (if head_p s = null then Some (h, s)
      else do { h1 \<leftarrow> free_loop h (p_sentry s) (head_p s);
                h2 \<leftarrow> set_next h1 (p_sentry s) null;
                h3 \<leftarrow> set_prev h2 (p_sentry s) null;
                Some (h3, s\<lparr>head_p := null, tail_p := null, seq_num_bufs := 0\<rparr>) })"

text \<open>
  The common part of the move constructor and of move assignment: steal the list of \<open>rhs\<close> and
  re-point the sentries. Both return the new object and the moved-from one.
\<close>

definition seq_steal ::
  "heap \<Rightarrow> recv_buffer_sequence \<Rightarrow> recv_buffer_sequence \<Rightarrow>
     (heap \<times> recv_buffer_sequence \<times> recv_buffer_sequence) option" where
  "seq_steal h s rhs =
     (let s1 = s\<lparr>head_p := head_p rhs, tail_p := tail_p rhs, seq_num_bufs := seq_num_bufs rhs\<rparr>;
          rhs1 = rhs\<lparr>head_p := null, tail_p := null, seq_num_bufs := 0\<rparr>
      in do { h1 \<leftarrow> set_prev h (p_sentry rhs) null;
              h2 \<leftarrow> set_prev h1 (p_sentry s) (tail_p s1);
              h3 \<leftarrow> (if tail_p s1 \<noteq> null then set_next h2 (tail_p s1) (p_sentry s) else Some h2);
              Some (h3, s1, rhs1) })"

definition seq_move_ctor ::
  "heap \<Rightarrow> addr \<Rightarrow> recv_buffer_sequence \<Rightarrow>
     (heap \<times> recv_buffer_sequence \<times> recv_buffer_sequence) option" where
  "seq_move_ctor h sn rhs = (let (h1, s) = seq_ctor h sn in seq_steal h1 s rhs)"

text \<open>\<^verbatim>\<open>this != &rhs\<close>: two sequences are the same object when their sentries are.\<close>

definition seq_assign ::
  "heap \<Rightarrow> recv_buffer_sequence \<Rightarrow> recv_buffer_sequence \<Rightarrow>
     (heap \<times> recv_buffer_sequence \<times> recv_buffer_sequence) option" where
  "seq_assign h s rhs =
     (if p_sentry s = p_sentry rhs then Some (h, s, rhs)
      else do { (h1, s1) \<leftarrow> (if \<not> seq_empty s then free_list h s else Some (h, s));
                seq_steal h1 s1 rhs })"

definition push_back ::
  "heap \<Rightarrow> recv_buffer_sequence \<Rightarrow> addr \<Rightarrow> (heap \<times> recv_buffer_sequence) option" where
  "push_back h s rbuf =
     (if is_defaulted rbuf then None
      else let p = fst (to_raw_parts rbuf) in
        do { h1 \<leftarrow> (if tail_p s \<noteq> null
                    then do { h0 \<leftarrow> set_next h (tail_p s) p; set_prev h0 p (tail_p s) }
                    else Some h);
             h2 \<leftarrow> set_next h1 p (p_sentry s);
             h3 \<leftarrow> set_prev h2 (p_sentry s) p;
             Some (h3, s\<lparr>tail_p := p,
                         head_p := (if head_p s = null then p else head_p s),
                         seq_num_bufs := seq_num_bufs s + 1\<rparr>) })"

definition pop_front ::
  "heap \<Rightarrow> recv_buffer_sequence \<Rightarrow> (addr \<times> heap \<times> recv_buffer_sequence) option" where
  "pop_front h s =
     (if seq_empty s then None
      else let p = head_p s in
        do { hd' \<leftarrow> get_next h p;
             h1 \<leftarrow> set_next h p null;
             h2 \<leftarrow> set_prev h1 p null;
             h3 \<leftarrow> set_prev h2 hd' null;
             let n = seq_num_bufs s - 1;
             (if p = tail_p s
              then (if n \<noteq> 0 then None
                    else Some (p, h3, s\<lparr>head_p := null, tail_p := null, seq_num_bufs := n\<rparr>))
              else Some (p, h3, s\<lparr>head_p := hd', seq_num_bufs := n\<rparr>)) })"

definition seq_concat ::
  "heap \<Rightarrow> recv_buffer_sequence \<Rightarrow> recv_buffer_sequence \<Rightarrow>
     (heap \<times> recv_buffer_sequence \<times> recv_buffer_sequence) option" where
  "seq_concat h s rhs =
     (if seq_empty rhs then Some (h, s, rhs)
      else if seq_empty s then seq_assign h s rhs
      else do { h1 \<leftarrow> set_next h (tail_p s) (head_p rhs);
                h2 \<leftarrow> set_prev h1 (head_p rhs) (tail_p s);
                h3 \<leftarrow> set_next h2 (tail_p rhs) (p_sentry s);
                h4 \<leftarrow> set_prev h3 (p_sentry s) (tail_p rhs);
                h5 \<leftarrow> set_prev h4 (p_sentry rhs) null;
                Some (h5, s\<lparr>tail_p := tail_p rhs, seq_num_bufs := seq_num_bufs s + seq_num_bufs rhs\<rparr>,
                      rhs\<lparr>head_p := null, tail_p := null, seq_num_bufs := 0\<rparr>) })"

subsection \<open>\<open>buffer_size\<close>, \<open>buffer_copy\<close>, \<open>to_string\<close>, \<open>to_bytes\<close>\<close>

partial_function (option) size_loop :: "heap \<Rightarrow> addr \<Rightarrow> addr \<Rightarrow> nat \<Rightarrow> nat option" where
  "size_loop h pos fin n =
     (if pos = fin then Some n
      else do { m \<leftarrow> view_size h pos;
                nxt \<leftarrow> get_next h pos;
                size_loop h nxt fin (n + m) })"

definition buffer_size :: "heap \<Rightarrow> recv_buffer_sequence \<Rightarrow> nat option" where
  "buffer_size h s = size_loop h (seq_begin s) (seq_end s) 0"

text \<open>
  The destination span is given by the bytes written so far and the number of bytes that still
  fit; the result is what has been copied.
\<close>

partial_function (option) copy_loop ::
  "heap \<Rightarrow> addr \<Rightarrow> addr \<Rightarrow> u8 list \<Rightarrow> nat \<Rightarrow> u8 list option" where
  "copy_loop h pos fin out room =
     (if pos = fin then Some out
      else do { data \<leftarrow> readable_bytes h pos;
                nxt \<leftarrow> get_next h pos;
                (if data = [] then copy_loop h nxt fin out room
                 else let m = min room (length data);
                          out' = out @ take m data in
                   if m < length data then Some out'
                   else if room - m = 0 then Some out'
                   else copy_loop h nxt fin out' (room - m)) })"

definition buffer_copy :: "u8 list \<Rightarrow> heap \<Rightarrow> recv_buffer_sequence \<Rightarrow> (u8 list \<times> nat) option" where
  "buffer_copy dst h s =
     (case copy_loop h (seq_begin s) (seq_end s) [] (length dst) of
        None \<Rightarrow> None
      | Some out \<Rightarrow> Some (out @ drop (length out) dst, length out))"

definition to_bytes :: "heap \<Rightarrow> recv_buffer_sequence \<Rightarrow> u8 list option" where
  "to_bytes h s =
     do { n \<leftarrow> buffer_size h s;
          (dst, _) \<leftarrow> buffer_copy (replicate n 0) h s;
          Some dst }"

definition seq_to_string :: "heap \<Rightarrow> recv_buffer_sequence \<Rightarrow> string option" where
  "seq_to_string h s =
     do { n \<leftarrow> buffer_size h s;
          (dst, _) \<leftarrow> buffer_copy (replicate n 0) h s;
          Some (map (\<lambda>b. char_of (unat b)) dst) }"

subsection \<open>The representation of a sequence\<close>

text \<open>
  \<open>dlseg h pv xs e\<close>: the nodes \<open>xs\<close> are doubly linked in this order, the first one has
  predecessor \<open>pv\<close> and the last one has successor \<open>e\<close>. \<open>seq_rep h s xs\<close> is the invariant of
  the class: the list ends in the sentry, whose predecessor is the tail, and \<open>head_\<close>,
  \<open>tail_\<close> and \<open>num_bufs_\<close> agree with \<open>xs\<close>.
\<close>

fun dlseg :: "heap \<Rightarrow> addr \<Rightarrow> addr list \<Rightarrow> addr \<Rightarrow> bool" where
  "dlseg h pv [] e = True"
| "dlseg h pv (x # xs) e =
     (case h x of None \<Rightarrow> False
      | Some b \<Rightarrow> hdr_prev b = pv \<and> hdr_next b = hd (xs @ [e]) \<and> dlseg h x xs e)"

definition list_head :: "addr list \<Rightarrow> addr" where
  "list_head xs = (if xs = [] then null else hd xs)"

definition list_tail :: "addr list \<Rightarrow> addr" where
  "list_tail xs = (if xs = [] then null else last xs)"

definition seq_rep :: "heap \<Rightarrow> recv_buffer_sequence \<Rightarrow> addr list \<Rightarrow> bool" where
  "seq_rep h s xs =
     (distinct (p_sentry s # xs) \<and> null \<notin> set (p_sentry s # xs) \<and>
      default_buf_header \<notin> set (p_sentry s # xs) \<and>
      head_p s = list_head xs \<and> tail_p s = list_tail xs \<and> seq_num_bufs s = length xs \<and>
      dlseg h null xs (p_sentry s) \<and>
      map_option hdr_prev (h (p_sentry s)) = Some (list_tail xs))"

text \<open>A buffer outside every sequence: allocated, with null links.\<close>

definition detached :: "heap \<Rightarrow> addr \<Rightarrow> bool" where
  "detached h p =
     (p \<noteq> null \<and> p \<noteq> default_buf_header \<and>
      (case h p of None \<Rightarrow> False | Some b \<Rightarrow> hdr_prev b = null \<and> hdr_next b = null))"

named_theorems heap_simps \<open>evaluation of the pointer writes\<close>

lemma set_next_Some [heap_simps]: "h p = Some b \<Longrightarrow> set_next h p q = Some (h(p \<mapsto> b\<lparr>hdr_next := q\<rparr>))"
  by (simp add: set_next_def)

lemma set_prev_Some [heap_simps]: "h p = Some b \<Longrightarrow> set_prev h p q = Some (h(p \<mapsto> b\<lparr>hdr_prev := q\<rparr>))"
  by (simp add: set_prev_def)

lemma get_next_Some [heap_simps]: "h p = Some b \<Longrightarrow> get_next h p = Some (hdr_next b)"
  by (simp add: get_next_def)

lemma aligned_delete_Some [heap_simps]: "h p = Some b \<Longrightarrow> aligned_delete h p = Some (h(p := None))"
  by (simp add: aligned_delete_def)

lemma dlseg_cong:
  assumes "\<And>x. x \<in> set xs \<Longrightarrow> h' x = h x"
  shows "dlseg h' pv xs e = dlseg h pv xs e"
  using assms by (induction xs arbitrary: pv) (auto split: option.splits)

lemma dlseg_append:
  "dlseg h pv (xs @ ys) e = (dlseg h pv xs (hd (ys @ [e])) \<and> dlseg h (last (pv # xs)) ys e)"
proof (induction xs arbitrary: pv)
  case Nil
  show ?case by simp
next
  case (Cons x xs)
  have "hd ((xs @ ys) @ [e]) = hd (xs @ [hd (ys @ [e])])"
    by (cases xs) auto
  then show ?case using Cons.IH by (auto split: option.splits)
qed

lemma dlseg_allocated: "dlseg h pv xs e \<Longrightarrow> x \<in> set xs \<Longrightarrow> \<exists>b. h x = Some b"
  by (induction xs arbitrary: pv) (auto split: option.splits)

lemma dlseg_snoc:
  "dlseg h pv (xs @ [t]) e =
     (dlseg h pv xs t \<and> (\<exists>b. h t = Some b \<and> hdr_prev b = last (pv # xs) \<and> hdr_next b = e))"
  by (auto simp: dlseg_append split: option.splits)

lemma dlseg_set_next_last:
  assumes "dlseg h pv (xs @ [t]) e" and "t \<notin> set xs" and "h t = Some b"
  shows "dlseg (h(t \<mapsto> b\<lparr>hdr_next := e'\<rparr>)) pv (xs @ [t]) e'"
proof -
  have "dlseg (h(t \<mapsto> b\<lparr>hdr_next := e'\<rparr>)) pv xs t = dlseg h pv xs t"
    using assms(2) by (intro dlseg_cong) auto
  with assms show ?thesis by (simp add: dlseg_snoc)
qed

lemma iter_forward_dlseg:
  "dlseg h pv xs e \<Longrightarrow> null \<notin> set xs \<Longrightarrow> iter_forward h (length xs) (hd (xs @ [e])) = Some (xs, e)"
  by (induction xs arbitrary: pv)
    (auto simp: iter_incr_post_def iter_make_def iter_deref_def get_next_def split: option.splits)

lemma iter_backward_dlseg:
  "dlseg h null xs e \<Longrightarrow> get_prev h p = Some (list_tail xs) \<Longrightarrow> iter_backward h (length xs) p = Some (rev xs)"
proof (induction xs arbitrary: e p rule: rev_induct)
  case Nil
  then show ?case by simp
next
  case (snoc x xs)
  then have "dlseg h null xs x" "get_prev h x = Some (list_tail xs)"
    by (auto simp: dlseg_snoc get_prev_def list_tail_def)
  then have "iter_backward h (length xs) x = Some (rev xs)" by (rule snoc.IH)
  then show ?case using snoc.prems by (simp add: iter_decr_def iter_deref_def list_tail_def)
qed

lemma seq_rep_sentry:
  assumes "seq_rep h s xs"
  obtains b where "h (p_sentry s) = Some b" and "hdr_prev b = list_tail xs"
  using assms by (auto simp: seq_rep_def)

lemma seq_rep_empty_iff: "seq_rep h s xs \<Longrightarrow> seq_empty s = (xs = [])"
  by (simp add: seq_rep_def seq_empty_def)

text \<open>A sequence is not affected by writes outside its nodes and its sentry.\<close>

lemma seq_rep_cong:
  assumes "seq_rep h s xs" and "\<And>x. x \<in> set (p_sentry s # xs) \<Longrightarrow> h' x = h x"
  shows "seq_rep h' s xs"
proof -
  have "dlseg h' null xs (p_sentry s) = dlseg h null xs (p_sentry s)"
    using assms(2) by (intro dlseg_cong) simp
  with assms show ?thesis by (simp add: seq_rep_def)
qed

subsection \<open>Link updates do not touch sizes, capacities or bytes\<close>

text \<open>
  The value of a buffer, without its links: what the components that own buffers see. A sequence
  is for them the list of its buffers' values.
\<close>

record recv_buf =
  rb_size :: nat
  rb_capacity :: nat
  rb_bytes :: "u8 list"

definition payload :: "block \<Rightarrow> recv_buf" where
  "payload b = \<lparr>rb_size = hdr_size b, rb_capacity = hdr_capacity b, rb_bytes = blk_bytes b\<rparr>"

definition same_payload :: "heap \<Rightarrow> heap \<Rightarrow> bool" where
  "same_payload h h' = (\<forall>a. map_option payload (h' a) = map_option payload (h a))"

lemma same_payload_refl [simp]: "same_payload h h"
  by (simp add: same_payload_def)

lemma same_payload_trans: "same_payload h h' \<Longrightarrow> same_payload h' h'' \<Longrightarrow> same_payload h h''"
  by (simp add: same_payload_def)

lemma set_next_payload: "set_next h p q = Some h' \<Longrightarrow> same_payload h h'"
  by (auto simp: set_next_def same_payload_def payload_def split: option.splits)

lemma set_prev_payload: "set_prev h p q = Some h' \<Longrightarrow> same_payload h h'"
  by (auto simp: set_prev_def same_payload_def payload_def split: option.splits)

lemmas links_payload = set_next_payload set_prev_payload

lemma push_back_payload: "push_back h s p = Some (h', s') \<Longrightarrow> same_payload h h'"
  by (auto simp: push_back_def Let_def bind_eq_Some_conv split: if_splits dest!: links_payload)
    (blast intro: same_payload_trans)+

lemma pop_front_payload: "pop_front h s = Some (p, h', s') \<Longrightarrow> same_payload h h'"
  by (auto simp: pop_front_def Let_def bind_eq_Some_conv split: if_splits dest!: links_payload)
    (blast intro: same_payload_trans)+

subsection \<open>\<open>push_back\<close>\<close>

lemma push_back_nil:
  assumes rep: "seq_rep h s []" and p: "detached h p" and new: "p \<noteq> p_sentry s"
  shows "\<exists>h' s'. push_back h s p = Some (h', s') \<and> seq_rep h' s' [p] \<and> same_payload h h' \<and>
           p_sentry s' = p_sentry s \<and> (\<forall>a. a \<notin> {p, p_sentry s} \<longrightarrow> h' a = h a)"
proof -
  obtain sb where sb: "h (p_sentry s) = Some sb" using rep by (rule seq_rep_sentry)
  obtain b where b: "h p = Some b" "hdr_prev b = null" "p \<noteq> null" "p \<noteq> default_buf_header"
    using p by (auto simp: detached_def split: option.splits)
  let ?h1 = "h(p \<mapsto> b\<lparr>hdr_next := p_sentry s\<rparr>)"
  let ?h2 = "?h1(p_sentry s \<mapsto> sb\<lparr>hdr_prev := p\<rparr>)"
  have run: "push_back h s p =
      Some (?h2, s\<lparr>tail_p := p, head_p := p, seq_num_bufs := seq_num_bufs s + 1\<rparr>)"
    using rep b sb new
    by (simp add: push_back_def is_defaulted_def to_raw_parts_def seq_rep_def list_head_def
        list_tail_def heap_simps)
  have "seq_rep ?h2 (s\<lparr>tail_p := p, head_p := p, seq_num_bufs := seq_num_bufs s + 1\<rparr>) [p]"
    using rep b new by (simp add: seq_rep_def list_head_def list_tail_def)
  then show ?thesis using run push_back_payload pop_front_payload by auto
qed

lemma push_back_snoc:
  assumes rep: "seq_rep h s (xs @ [t])" and p: "detached h p" and new: "p \<notin> set (p_sentry s # xs @ [t])"
  shows "\<exists>h' s'. push_back h s p = Some (h', s') \<and> seq_rep h' s' (xs @ [t, p]) \<and> same_payload h h' \<and>
           p_sentry s' = p_sentry s \<and> (\<forall>a. a \<notin> {p, t, p_sentry s} \<longrightarrow> h' a = h a)"
proof -
  obtain sb where sb: "h (p_sentry s) = Some sb" using rep by (rule seq_rep_sentry)
  obtain b where b: "h p = Some b" "hdr_prev b = null" "p \<noteq> null" "p \<noteq> default_buf_header"
    using p by (auto simp: detached_def split: option.splits)
  have seg: "dlseg h null (xs @ [t]) (p_sentry s)" using rep by (simp add: seq_rep_def)
  obtain tb where tb: "h t = Some tb" using dlseg_allocated [OF seg] by fastforce
  have neq: "t \<noteq> p_sentry s" "t \<notin> set xs" "t \<noteq> null" "p \<noteq> t" "p \<noteq> p_sentry s" "p_sentry s \<notin> set xs"
    "p \<notin> set xs"
    "hd (xs @ [t]) \<noteq> null"
    using rep new by (cases xs; auto simp: seq_rep_def)+
  let ?s' = "s\<lparr>tail_p := p, head_p := head_p s, seq_num_bufs := seq_num_bufs s + 1\<rparr>"
  let ?h1 = "h(t \<mapsto> tb\<lparr>hdr_next := p\<rparr>)"
  let ?h2 = "?h1(p \<mapsto> b\<lparr>hdr_prev := t\<rparr>, p \<mapsto> b\<lparr>hdr_prev := t, hdr_next := p_sentry s\<rparr>)"
  let ?h3 = "?h2(p_sentry s \<mapsto> sb\<lparr>hdr_prev := p\<rparr>)"
  have run: "push_back h s p = Some (?h3, ?s')"
    using rep b sb tb neq
    by (simp add: push_back_def is_defaulted_def to_raw_parts_def seq_rep_def list_head_def
        list_tail_def heap_simps)
  have "dlseg ?h1 null (xs @ [t]) p"
    using dlseg_set_next_last [OF seg neq(2) tb] .
  moreover have "dlseg ?h3 null (xs @ [t]) p = dlseg ?h1 null (xs @ [t]) p"
    using neq by (intro dlseg_cong) auto
  ultimately have "dlseg ?h3 null (xs @ [t, p]) (p_sentry s)"
    using neq dlseg_append [of ?h3 null "xs @ [t]" "[p]" "p_sentry s"] by simp
  then have "seq_rep ?h3 ?s' (xs @ [t, p])"
    using rep b neq by (auto simp: seq_rep_def list_head_def list_tail_def hd_append)
  then show ?thesis using run push_back_payload pop_front_payload by auto
qed

lemma push_back_rep:
  assumes "seq_rep h s xs" and "detached h p" and "p \<notin> set (p_sentry s # xs)"
  shows "\<exists>h' s'. push_back h s p = Some (h', s') \<and> seq_rep h' s' (xs @ [p]) \<and> same_payload h h' \<and>
           p_sentry s' = p_sentry s \<and> (\<forall>a. a \<notin> set (p_sentry s # p # xs) \<longrightarrow> h' a = h a)"
proof (cases xs rule: rev_cases)
  case Nil
  with assms push_back_nil [of h s p] show ?thesis by auto
next
  case (snoc ys t)
  with assms push_back_snoc [of h s ys t p] show ?thesis by auto
qed

subsection \<open>\<open>pop_front\<close>\<close>

lemma pop_front_single:
  assumes rep: "seq_rep h s [x]"
  shows "\<exists>h' s'. pop_front h s = Some (x, h', s') \<and> seq_rep h' s' [] \<and> detached h' x \<and>
           same_payload h h' \<and> p_sentry s' = p_sentry s \<and> (\<forall>a. a \<notin> {x, p_sentry s} \<longrightarrow> h' a = h a)"
proof -
  obtain sb where sb: "h (p_sentry s) = Some sb" using rep by (rule seq_rep_sentry)
  obtain b where b: "h x = Some b" "hdr_next b = p_sentry s"
    using rep by (auto simp: seq_rep_def split: option.splits)
  have neq: "x \<noteq> p_sentry s" "x \<noteq> null" "x \<noteq> default_buf_header" using rep by (auto simp: seq_rep_def)
  let ?h2 = "h(x \<mapsto> b\<lparr>hdr_next := null\<rparr>, x \<mapsto> b\<lparr>hdr_next := null, hdr_prev := null\<rparr>)"
  let ?h3 = "?h2(p_sentry s \<mapsto> sb\<lparr>hdr_prev := null\<rparr>)"
  let ?s' = "s\<lparr>head_p := null, tail_p := null, seq_num_bufs := 0\<rparr>"
  have run: "pop_front h s = Some (x, ?h3, ?s')"
    using rep b sb neq
    by (simp add: pop_front_def seq_empty_def seq_rep_def list_head_def list_tail_def heap_simps)
  have "seq_rep ?h3 ?s' []" using rep by (simp add: seq_rep_def list_head_def list_tail_def)
  then show ?thesis using run push_back_payload pop_front_payload neq by (auto simp: detached_def)
qed

lemma pop_front_cons:
  assumes rep: "seq_rep h s (x # y # xs)"
  shows "\<exists>h' s'. pop_front h s = Some (x, h', s') \<and> seq_rep h' s' (y # xs) \<and> detached h' x \<and>
           same_payload h h' \<and> p_sentry s' = p_sentry s \<and> (\<forall>a. a \<notin> {x, y} \<longrightarrow> h' a = h a)"
proof -
  obtain b where b: "h x = Some b" "hdr_next b = y"
    using rep by (auto simp: seq_rep_def split: option.splits)
  obtain yb where yb: "h y = Some yb" "hdr_next yb = hd (xs @ [p_sentry s])" "dlseg h y xs (p_sentry s)"
    using rep by (auto simp: seq_rep_def split: option.splits)
  have neq: "x \<noteq> y" "x \<noteq> null" "x \<noteq> default_buf_header" "y \<notin> set xs" "x \<notin> set xs"
    "x \<noteq> p_sentry s" "y \<noteq> p_sentry s" "tail_p s \<noteq> x"
    using rep by (auto simp: seq_rep_def list_tail_def)
  let ?h2 = "h(x \<mapsto> b\<lparr>hdr_next := null\<rparr>, x \<mapsto> b\<lparr>hdr_next := null, hdr_prev := null\<rparr>)"
  let ?h3 = "?h2(y \<mapsto> yb\<lparr>hdr_prev := null\<rparr>)"
  let ?s' = "s\<lparr>head_p := y, seq_num_bufs := seq_num_bufs s - 1\<rparr>"
  have run: "pop_front h s = Some (x, ?h3, ?s')"
    using rep b yb neq
    by (simp add: pop_front_def seq_empty_def seq_rep_def list_head_def heap_simps)
  have "dlseg ?h3 y xs (p_sentry s) = dlseg h y xs (p_sentry s)"
    using neq by (intro dlseg_cong) auto
  then have "seq_rep ?h3 ?s' (y # xs)"
    using rep yb neq by (simp add: seq_rep_def list_head_def list_tail_def)
  then show ?thesis using run push_back_payload pop_front_payload neq by (auto simp: detached_def)
qed

lemma pop_front_rep:
  assumes "seq_rep h s (x # xs)"
  shows "\<exists>h' s'. pop_front h s = Some (x, h', s') \<and> seq_rep h' s' xs \<and> detached h' x \<and>
           same_payload h h' \<and> p_sentry s' = p_sentry s \<and>
           (\<forall>a. a \<notin> set (p_sentry s # x # xs) \<longrightarrow> h' a = h a)"
  using assms pop_front_single [of h s x] pop_front_cons [of h s x] by (cases xs) fastforce+

subsection \<open>Moves, \<open>free_list\<close> and \<open>concat\<close>\<close>

lemma seq_ctor_rep:
  assumes "sn \<noteq> null" and "sn \<noteq> default_buf_header" and "seq_ctor h sn = (h', s)"
  shows "seq_rep h' s []" and "p_sentry s = sn" and "\<And>a. a \<noteq> sn \<Longrightarrow> h' a = h a"
  using assms by (auto simp: seq_ctor_def seq_rep_def list_head_def list_tail_def default_block_def)

text \<open>
  Stealing a list moves every node to the new owner, without touching a buffer, and leaves the
  source an empty sequence that can be used again.
\<close>

lemma seq_steal_rep:
  assumes s: "seq_rep h s []" and r: "seq_rep h rhs xs" and disj: "p_sentry s \<notin> set (p_sentry rhs # xs)"
  shows "\<exists>h' s' rhs'. seq_steal h s rhs = Some (h', s', rhs') \<and> seq_rep h' s' xs \<and> seq_rep h' rhs' [] \<and>
           p_sentry s' = p_sentry s \<and> p_sentry rhs' = p_sentry rhs \<and> same_payload h h' \<and>
           (\<forall>a. a \<notin> set (p_sentry s # p_sentry rhs # xs) \<longrightarrow> h' a = h a)"
proof -
  obtain sb where sb: "h (p_sentry s) = Some sb" using s by (rule seq_rep_sentry)
  obtain rb where rb: "h (p_sentry rhs) = Some rb" using r by (rule seq_rep_sentry)
  let ?h2 = "h(p_sentry rhs \<mapsto> rb\<lparr>hdr_prev := null\<rparr>, p_sentry s \<mapsto> sb\<lparr>hdr_prev := list_tail xs\<rparr>)"
  let ?s' = "s\<lparr>head_p := head_p rhs, tail_p := tail_p rhs, seq_num_bufs := seq_num_bufs rhs\<rparr>"
  let ?r' = "rhs\<lparr>head_p := null, tail_p := null, seq_num_bufs := 0\<rparr>"
  have tl: "tail_p rhs = list_tail xs" using r by (simp add: seq_rep_def)
  have payload: "\<And>h' s' r'. seq_steal h s rhs = Some (h', s', r') \<Longrightarrow> same_payload h h'"
    by (auto simp: seq_steal_def Let_def bind_eq_Some_conv split: if_splits dest!: links_payload)
      (blast intro: same_payload_trans)+
  show ?thesis
  proof (cases xs rule: rev_cases)
    case Nil
    then have run: "seq_steal h s rhs = Some (?h2, ?s', ?r')"
      using sb rb disj tl by (simp add: seq_steal_def Let_def heap_simps list_tail_def)
    have "seq_rep ?h2 ?s' xs" "seq_rep ?h2 ?r' []"
      using Nil s r disj by (auto simp: seq_rep_def list_head_def list_tail_def)
    with run payload show ?thesis by auto
  next
    case (snoc ys t)
    have seg: "dlseg h null (ys @ [t]) (p_sentry rhs)" using r snoc by (simp add: seq_rep_def)
    then obtain tb where tb: "h t = Some tb" using dlseg_allocated by fastforce
    have neq: "t \<noteq> p_sentry s" "t \<noteq> p_sentry rhs" "t \<notin> set ys" "t \<noteq> null"
      using r snoc disj by (auto simp: seq_rep_def)
    let ?h3 = "?h2(t \<mapsto> tb\<lparr>hdr_next := p_sentry s\<rparr>)"
    have run: "seq_steal h s rhs = Some (?h3, ?s', ?r')"
      using sb rb tb disj tl snoc neq by (simp add: seq_steal_def Let_def heap_simps list_tail_def)
    have "dlseg ?h3 null (ys @ [t]) (p_sentry s) =
          dlseg (h(t \<mapsto> tb\<lparr>hdr_next := p_sentry s\<rparr>)) null (ys @ [t]) (p_sentry s)"
      using r snoc disj by (intro dlseg_cong) (auto simp: seq_rep_def)
    then have "dlseg ?h3 null xs (p_sentry s)"
      using dlseg_set_next_last [OF seg neq(3) tb] snoc by simp
    then have "seq_rep ?h3 ?s' xs" "seq_rep ?h3 ?r' []"
      using s r disj snoc neq by (auto simp: seq_rep_def list_head_def list_tail_def)
    moreover have "\<forall>a. a \<notin> set (p_sentry s # p_sentry rhs # xs) \<longrightarrow> ?h3 a = h a" using snoc by auto
    ultimately show ?thesis using run payload by auto
  qed
qed

lemma free_loop_dlseg:
  "dlseg h pv xs sn \<Longrightarrow> distinct xs \<Longrightarrow> sn \<notin> set xs \<Longrightarrow>
     free_loop h sn (hd (xs @ [sn])) = Some (\<lambda>a. if a \<in> set xs then None else h a)"
proof (induction xs arbitrary: h pv)
  case Nil
  show ?case by (simp add: free_loop.simps)
next
  case (Cons x xs)
  obtain b where b: "h x = Some b" "hdr_next b = hd (xs @ [sn])" "dlseg h x xs sn"
    using Cons.prems(1) by (auto split: option.splits)
  have "dlseg (h(x := None)) x xs sn"
    using b(3) Cons.prems(2) by (subst dlseg_cong [of xs _ h]) auto
  then have "free_loop (h(x := None)) sn (hd (xs @ [sn])) =
      Some (\<lambda>a. if a \<in> set xs then None else (h(x := None)) a)"
    by (rule Cons.IH) (use Cons.prems in auto)
  moreover have "(\<lambda>a. if a \<in> set xs then None else (h(x := None)) a) =
      (\<lambda>a. if a \<in> set (x # xs) then None else h a)"
    by auto
  ultimately show ?case
    using b Cons.prems by (simp add: free_loop.simps [of h sn x] heap_simps)
qed

lemma free_list_rep:
  assumes rep: "seq_rep h s xs"
  shows "\<exists>h' s'. free_list h s = Some (h', s') \<and> seq_rep h' s' [] \<and> p_sentry s' = p_sentry s \<and>
           (\<forall>a. a \<noteq> p_sentry s \<longrightarrow> h' a = (if a \<in> set xs then None else h a))"
proof (cases "xs = []")
  case True
  with rep show ?thesis by (auto simp: free_list_def seq_rep_def list_head_def)
next
  case False
  obtain sb where sb: "h (p_sentry s) = Some sb" using rep by (rule seq_rep_sentry)
  let ?h1 = "\<lambda>a. if a \<in> set xs then None else h a"
  have hd: "head_p s = hd (xs @ [p_sentry s])" "head_p s \<noteq> null" "p_sentry s \<notin> set xs"
    using rep False by (cases xs; auto simp: seq_rep_def list_head_def)+
  have "free_loop h (p_sentry s) (head_p s) = Some ?h1"
    unfolding hd(1) using rep by (intro free_loop_dlseg) (auto simp: seq_rep_def)
  then have "free_list h s =
      Some (?h1(p_sentry s \<mapsto> sb\<lparr>hdr_next := null\<rparr>, p_sentry s \<mapsto> sb\<lparr>hdr_next := null, hdr_prev := null\<rparr>),
            s\<lparr>head_p := null, tail_p := null, seq_num_bufs := 0\<rparr>)"
    using hd sb by (simp add: free_list_def heap_simps)
  then show ?thesis using rep by (auto simp: seq_rep_def list_head_def list_tail_def)
qed

lemma seq_assign_rep:
  assumes s: "seq_rep h s ys" and r: "seq_rep h rhs xs"
    and disj: "set (p_sentry s # ys) \<inter> set (p_sentry rhs # xs) = {}"
  shows "\<exists>h' s' rhs'. seq_assign h s rhs = Some (h', s', rhs') \<and> seq_rep h' s' xs \<and> seq_rep h' rhs' [] \<and>
           (\<forall>y \<in> set ys. h' y = None)"
proof -
  obtain h1 s1 where f: "(if \<not> seq_empty s then free_list h s else Some (h, s)) = Some (h1, s1)"
      "seq_rep h1 s1 []" "p_sentry s1 = p_sentry s"
      "\<And>a. a \<noteq> p_sentry s \<Longrightarrow> h1 a = (if a \<in> set ys then None else h a)"
    using free_list_rep [OF s] s seq_rep_empty_iff [OF s] by (cases "ys = []") auto
  have "h1 a = h a" if "a \<in> set (p_sentry rhs # xs)" for a
  proof -
    have "a \<noteq> p_sentry s" "a \<notin> set ys" using that disj by auto
    then show ?thesis using f(4) by simp
  qed
  then have "seq_rep h1 rhs xs" by (rule seq_rep_cong [OF r])
  moreover have "p_sentry s1 \<notin> set (p_sentry rhs # xs)" using disj f(3) by auto
  ultimately obtain h' s' rhs' where st: "seq_steal h1 s1 rhs = Some (h', s', rhs')"
      "seq_rep h' s' xs" "seq_rep h' rhs' []"
      "\<forall>a. a \<notin> set (p_sentry s1 # p_sentry rhs # xs) \<longrightarrow> h' a = h1 a"
    using seq_steal_rep [OF f(2)] by blast
  have "h' y = None" if "y \<in> set ys" for y
  proof -
    have "y \<notin> set (p_sentry s1 # p_sentry rhs # xs)" "y \<noteq> p_sentry s"
      using that disj s f(3) by (auto simp: seq_rep_def)
    then show ?thesis using st(4) f(4) that by simp
  qed
  moreover have "p_sentry s \<noteq> p_sentry rhs" using disj by auto
  ultimately show ?thesis using st f(1) by (simp add: seq_assign_def)
qed

text \<open>Linking the last node of one segment to the first node of another joins them.\<close>

lemma dlseg_link:
  assumes a: "dlseg h pv (ys @ [t]) e'" and b: "dlseg h pv' (x # xs) e"
    and dist: "distinct ((ys @ [t]) @ x # xs)" and tb: "h t = Some tb" and xb: "h x = Some xb"
  shows "dlseg (h(t \<mapsto> tb\<lparr>hdr_next := x\<rparr>, x \<mapsto> xb\<lparr>hdr_prev := t\<rparr>)) pv ((ys @ [t]) @ x # xs) e"
proof -
  let ?h = "h(t \<mapsto> tb\<lparr>hdr_next := x\<rparr>, x \<mapsto> xb\<lparr>hdr_prev := t\<rparr>)"
  have "dlseg ?h pv (ys @ [t]) x = dlseg (h(t \<mapsto> tb\<lparr>hdr_next := x\<rparr>)) pv (ys @ [t]) x"
    using dist by (intro dlseg_cong) auto
  then have "dlseg ?h pv (ys @ [t]) x"
    using dlseg_set_next_last [OF a _ tb] dist by simp
  moreover have "dlseg ?h x xs e = dlseg h x xs e"
    using dist by (intro dlseg_cong) auto
  then have "dlseg ?h t (x # xs) e" using b xb by simp
  ultimately show ?thesis by (subst dlseg_append) simp
qed

lemma seq_concat_both:
  assumes s: "seq_rep h s (ys @ [t])" and r: "seq_rep h rhs (x # xs)"
    and disj: "set (p_sentry s # ys @ [t]) \<inter> set (p_sentry rhs # x # xs) = {}"
  shows "\<exists>h' s' rhs'. seq_concat h s rhs = Some (h', s', rhs') \<and>
           seq_rep h' s' ((ys @ [t]) @ x # xs) \<and> seq_rep h' rhs' []"
proof -
  obtain us u where xu: "x # xs = us @ [u]" by (cases "x # xs" rule: rev_cases) auto
  define zs where "zs = (ys @ [t]) @ us"
  have zu: "(ys @ [t]) @ x # xs = zs @ [u]" by (simp add: zs_def xu)
  obtain sb where sb: "h (p_sentry s) = Some sb" using s by (rule seq_rep_sentry)
  obtain rb where rb: "h (p_sentry rhs) = Some rb" using r by (rule seq_rep_sentry)
  have segs: "dlseg h null (ys @ [t]) (p_sentry s)" and segr: "dlseg h null (x # xs) (p_sentry rhs)"
    using s r by (simp_all add: seq_rep_def)
  obtain tb where tb: "h t = Some tb" using dlseg_allocated [OF segs] by fastforce
  obtain xb where xb: "h x = Some xb" using dlseg_allocated [OF segr] by fastforce
  have sets: "distinct (p_sentry s # p_sentry rhs # zs @ [u])" "null \<notin> set (p_sentry s # zs @ [u])"
    "default_buf_header \<notin> set (p_sentry s # zs @ [u])"
    unfolding zu [symmetric] using s r disj by (auto simp: seq_rep_def)
  have sel: "\<not> seq_empty s" "\<not> seq_empty rhs" "tail_p s = t" "head_p rhs = x" "tail_p rhs = u"
      "head_p s = hd (zs @ [u])" "seq_num_bufs s + seq_num_bufs rhs = length (zs @ [u])"
    using s r arg_cong [OF xu, of last] arg_cong [OF xu, of length]
    by (auto simp: seq_empty_def seq_rep_def list_head_def list_tail_def zs_def hd_append)
  let ?h2 = "h(t \<mapsto> tb\<lparr>hdr_next := x\<rparr>, x \<mapsto> xb\<lparr>hdr_prev := t\<rparr>)"
  have dl2: "dlseg ?h2 null (zs @ [u]) (p_sentry rhs)"
    unfolding zu [symmetric] using sets(1) zu
    by (intro dlseg_link [OF segs segr _ tb xb]) auto
  obtain ub where ub: "?h2 u = Some ub" using dlseg_allocated [OF dl2, of u] by auto
  let ?h3 = "?h2(u \<mapsto> ub\<lparr>hdr_next := p_sentry s\<rparr>)"
  let ?h5 = "?h3(p_sentry s \<mapsto> sb\<lparr>hdr_prev := u\<rparr>, p_sentry rhs \<mapsto> rb\<lparr>hdr_prev := null\<rparr>)"
  let ?s' = "s\<lparr>tail_p := u, seq_num_bufs := seq_num_bufs s + seq_num_bufs rhs\<rparr>"
  let ?r' = "rhs\<lparr>head_p := null, tail_p := null, seq_num_bufs := 0\<rparr>"
  have neq: "t \<noteq> x" "p_sentry s \<noteq> p_sentry rhs" "p_sentry s \<noteq> t" "p_sentry s \<noteq> x" "p_sentry s \<noteq> u"
    "p_sentry rhs \<noteq> t" "p_sentry rhs \<noteq> x" "p_sentry rhs \<noteq> u"
    using sets(1) zu s r disj by (auto simp: seq_rep_def)
  have run: "seq_concat h s rhs = Some (?h5, ?s', ?r')"
    using sel tb xb sb rb ub neq by (simp add: seq_concat_def set_next_def set_prev_def)
  have "dlseg ?h3 null (zs @ [u]) (p_sentry s)"
    by (rule dlseg_set_next_last [OF dl2 _ ub]) (use sets(1) in simp)
  moreover have "dlseg ?h5 null (zs @ [u]) (p_sentry s) = dlseg ?h3 null (zs @ [u]) (p_sentry s)"
    using sets(1) by (intro dlseg_cong) auto
  ultimately have dl5: "dlseg ?h5 null (zs @ [u]) (p_sentry s)" by simp
  have "map_option hdr_prev (?h5 (p_sentry s)) = Some u" using neq by simp
  then have "seq_rep ?h5 ?s' (zs @ [u])"
    unfolding seq_rep_def using dl5 sets sel(6,7) by (simp add: list_head_def list_tail_def)
  moreover have "seq_rep ?h5 ?r' []" using r by (simp add: seq_rep_def list_head_def list_tail_def)
  ultimately show ?thesis using run zu by auto
qed

lemma seq_concat_rep:
  assumes s: "seq_rep h s ys" and r: "seq_rep h rhs xs"
    and disj: "set (p_sentry s # ys) \<inter> set (p_sentry rhs # xs) = {}"
  shows "\<exists>h' s' rhs'. seq_concat h s rhs = Some (h', s', rhs') \<and>
           seq_rep h' s' (ys @ xs) \<and> seq_rep h' rhs' []"
proof (cases "xs = []")
  case True
  with s r show ?thesis by (simp add: seq_concat_def seq_rep_empty_iff)
next
  case xs: False
  show ?thesis
  proof (cases "ys = []")
    case True
    with s r xs seq_assign_rep [OF s r disj] show ?thesis
      by (auto simp: seq_concat_def seq_rep_empty_iff)
  next
    case False
    with xs obtain zs t x xs' where "ys = zs @ [t]" "xs = x # xs'"
      by (metis rev_exhaust list.exhaust)
    with s r disj seq_concat_both [of h s zs t rhs x xs'] show ?thesis by simp
  qed
qed


subsection \<open>Iteration: \<open>buffer_size\<close> and \<open>buffer_copy\<close>\<close>

text \<open>A buffer whose length fits its capacity, and whose capacity is the size of its allocation.\<close>

definition block_ok :: "block \<Rightarrow> bool" where
  "block_ok b = (hdr_size b \<le> hdr_capacity b \<and> length (blk_bytes b) = hdr_capacity b)"

definition bufs_ok :: "heap \<Rightarrow> addr list \<Rightarrow> bool" where
  "bufs_ok h xs = (\<forall>x \<in> set xs. case h x of None \<Rightarrow> False | Some b \<Rightarrow> block_ok b)"

definition node_bytes :: "heap \<Rightarrow> addr \<Rightarrow> u8 list" where
  "node_bytes h x = (case h x of None \<Rightarrow> [] | Some b \<Rightarrow> take (hdr_size b) (blk_bytes b))"

definition seq_bytes :: "heap \<Rightarrow> addr list \<Rightarrow> u8 list" where
  "seq_bytes h xs = concat (map (node_bytes h) xs)"

lemma node_readable: "bufs_ok h [x] \<Longrightarrow> readable_bytes h x = Some (node_bytes h x)"
  by (auto simp: bufs_ok_def node_bytes_def readable_bytes_def block_ok_def split: option.splits)

lemma node_size: "bufs_ok h [x] \<Longrightarrow> view_size h x = Some (length (node_bytes h x))"
  by (auto simp: bufs_ok_def node_bytes_def view_size_def block_ok_def split: option.splits)

lemma bufs_ok_Cons: "bufs_ok h (x # xs) = (bufs_ok h [x] \<and> bufs_ok h xs)"
  by (auto simp: bufs_ok_def)

lemma dlseg_Cons_next:
  "dlseg h pv (x # xs) e \<Longrightarrow> get_next h x = Some (hd (xs @ [e])) \<and> dlseg h x xs e"
  by (auto simp: get_next_def split: option.splits)

lemma size_loop_dlseg:
  "dlseg h pv xs e \<Longrightarrow> e \<notin> set xs \<Longrightarrow> bufs_ok h xs \<Longrightarrow>
     size_loop h (hd (xs @ [e])) e n = Some (n + length (seq_bytes h xs))"
proof (induction xs arbitrary: pv n)
  case Nil
  show ?case by (simp add: size_loop.simps seq_bytes_def)
next
  case (Cons x xs)
  from dlseg_Cons_next [OF Cons.prems(1)] Cons.prems(2,3) Cons.IH [of x "n + length (node_bytes h x)"]
  show ?case
    by (simp add: size_loop.simps [of h x] bufs_ok_Cons [of h x xs] node_size seq_bytes_def)
qed

lemma copy_loop_dlseg:
  "dlseg h pv xs e \<Longrightarrow> e \<notin> set xs \<Longrightarrow> bufs_ok h xs \<Longrightarrow>
     copy_loop h (hd (xs @ [e])) e out room = Some (out @ take room (seq_bytes h xs))"
proof (induction xs arbitrary: pv out room)
  case Nil
  show ?case by (simp add: copy_loop.simps seq_bytes_def)
next
  case (Cons x xs)
  have nxt: "get_next h x = Some (hd (xs @ [e]))" and seg: "dlseg h x xs e"
    using dlseg_Cons_next [OF Cons.prems(1)] by auto
  have ok: "bufs_ok h [x]" "bufs_ok h xs" and neq: "x \<noteq> e" "e \<notin> set xs"
    using Cons.prems(2,3) by (auto simp: bufs_ok_Cons [of h x xs])
  let ?d = "node_bytes h x"
  have IH: "copy_loop h (hd (xs @ [e])) e out' room' = Some (out' @ take room' (seq_bytes h xs))" for out' room'
    using Cons.IH [OF seg neq(2) ok(2)] .
  have "copy_loop h x e out room =
      (if ?d = [] then copy_loop h (hd (xs @ [e])) e out room
       else if room < length ?d then Some (out @ take room ?d)
       else if room - length ?d = 0 then Some (out @ ?d)
       else copy_loop h (hd (xs @ [e])) e (out @ ?d) (room - length ?d))"
    using neq(1) nxt node_readable [OF ok(1)]
    by (subst copy_loop.simps) (auto simp: Let_def min_def)
  then show ?case by (auto simp: IH seq_bytes_def)
qed

lemma seq_begin_hd: "seq_rep h s xs \<Longrightarrow> seq_begin s = hd (xs @ [p_sentry s])"
  by (cases xs) (auto simp: seq_begin_def seq_end_def seq_empty_def seq_rep_def list_head_def)

lemma buffer_size_rep:
  "seq_rep h s xs \<Longrightarrow> bufs_ok h xs \<Longrightarrow> buffer_size h s = Some (length (seq_bytes h xs))"
  using size_loop_dlseg [of h null xs "p_sentry s" 0]
  by (simp add: buffer_size_def seq_begin_hd seq_end_def) (simp add: seq_rep_def)

lemma buffer_copy_rep:
  assumes "seq_rep h s xs" and "bufs_ok h xs"
  shows "buffer_copy dst h s =
           Some (take (length dst) (seq_bytes h xs) @ drop (length (seq_bytes h xs)) dst,
                 min (length dst) (length (seq_bytes h xs)))"
proof -
  have "copy_loop h (seq_begin s) (seq_end s) [] (length dst) = Some (take (length dst) (seq_bytes h xs))"
    using copy_loop_dlseg [of h null xs "p_sentry s" "[]" "length dst"] assms
    by (simp add: seq_begin_hd seq_end_def) (simp add: seq_rep_def)
  then show ?thesis by (simp add: buffer_copy_def min_def)
qed

lemma to_bytes_rep:
  "seq_rep h s xs \<Longrightarrow> bufs_ok h xs \<Longrightarrow> to_bytes h s = Some (seq_bytes h xs)"
  by (simp add: to_bytes_def buffer_size_rep buffer_copy_rep)

lemma seq_bytes_same_payload:
  assumes "same_payload h h'"
  shows "seq_bytes h' xs = seq_bytes h xs"
proof -
  have "node_bytes h' x = node_bytes h x" for x
  proof -
    have "map_option payload (h' x) = map_option payload (h x)"
      using assms by (simp add: same_payload_def)
    then show ?thesis by (cases "h x"; cases "h' x") (auto simp: node_bytes_def payload_def)
  qed
  then have "node_bytes h' = node_bytes h" by (rule ext)
  then show ?thesis by (simp add: seq_bytes_def)
qed

lemma bufs_ok_same_payload:
  assumes "same_payload h h'"
  shows "bufs_ok h' xs = bufs_ok h xs"
proof -
  have "(case h' x of None \<Rightarrow> False | Some b \<Rightarrow> block_ok b) =
        (case h x of None \<Rightarrow> False | Some b \<Rightarrow> block_ok b)" for x
  proof -
    have "map_option payload (h' x) = map_option payload (h x)"
      using assms by (simp add: same_payload_def)
    then show ?thesis by (cases "h x"; cases "h' x") (auto simp: block_ok_def payload_def)
  qed
  then show ?thesis by (simp add: bufs_ok_def)
qed


subsection \<open>The queue interface\<close>

text \<open>
  What the receive path relies on: a first-in first-out queue of buffers over a memory. \<open>rep\<close>
  relates the memory and the queue object to the buffers in it, \<open>free_buf\<close> says that a buffer is
  outside every queue, \<open>ext\<close> that an address is not part of the queue object itself.
\<close>

locale buffer_queue =
  fixes rep :: "'h \<Rightarrow> 'q \<Rightarrow> 'p list \<Rightarrow> bool"
    and free_buf :: "'h \<Rightarrow> 'p \<Rightarrow> bool"
    and ext :: "'q \<Rightarrow> 'p \<Rightarrow> bool"
    and push :: "'h \<Rightarrow> 'q \<Rightarrow> 'p \<Rightarrow> ('h \<times> 'q) option"
    and pop :: "'h \<Rightarrow> 'q \<Rightarrow> ('p \<times> 'h \<times> 'q) option"
  assumes push_law: "rep h q xs \<Longrightarrow> free_buf h p \<Longrightarrow> ext q p \<Longrightarrow> p \<notin> set xs \<Longrightarrow>
      \<exists>h' q'. push h q p = Some (h', q') \<and> rep h' q' (xs @ [p]) \<and> ext q' = ext q \<and>
        (\<forall>r. ext q r \<longrightarrow> r \<notin> set (p # xs) \<longrightarrow> free_buf h' r = free_buf h r)"
    and pop_law: "rep h q (x # xs) \<Longrightarrow>
      \<exists>h' q'. pop h q = Some (x, h', q') \<and> rep h' q' xs \<and> ext q' = ext q \<and> free_buf h' x"
begin

lemma push_list_ok:
  "rep h q xs \<Longrightarrow> distinct (xs @ ps) \<Longrightarrow> (\<And>p. p \<in> set ps \<Longrightarrow> free_buf h p \<and> ext q p) \<Longrightarrow>
     \<exists>h' q'. push_list push h q ps = Some (h', q') \<and> rep h' q' (xs @ ps) \<and> ext q' = ext q"
proof (induction ps arbitrary: h q xs)
  case Nil
  then show ?case by simp
next
  case (Cons p ps)
  obtain h1 q1 where step: "push h q p = Some (h1, q1)" "rep h1 q1 (xs @ [p])" "ext q1 = ext q"
      "\<forall>r. ext q r \<longrightarrow> r \<notin> set (p # xs) \<longrightarrow> free_buf h1 r = free_buf h r"
    using push_law [OF Cons.prems(1), of p] Cons.prems(2,3) by auto
  have "\<exists>h' q'. push_list push h1 q1 ps = Some (h', q') \<and> rep h' q' ((xs @ [p]) @ ps) \<and> ext q' = ext q1"
  proof (rule Cons.IH [OF step(2)])
    show "distinct ((xs @ [p]) @ ps)" using Cons.prems(2) by auto
    show "free_buf h1 r \<and> ext q1 r" if "r \<in> set ps" for r
    proof -
      have "r \<notin> set (p # xs)" using that Cons.prems(2) by auto
      then show ?thesis using that Cons.prems(3) [of r] step(3,4) by simp
    qed
  qed
  with step show ?case by auto
qed

lemma pop_many_ok:
  "rep h q (xs @ ys) \<Longrightarrow>
     \<exists>h' q'. pop_many pop h q (length xs) = Some (xs, h', q') \<and> rep h' q' ys \<and> ext q' = ext q"
proof (induction xs arbitrary: h q)
  case Nil
  then show ?case by simp
next
  case (Cons x xs)
  then obtain h1 q1 where "pop h q = Some (x, h1, q1)" "rep h1 q1 (xs @ ys)" "ext q1 = ext q"
    using pop_law [of h q x "xs @ ys"] by auto
  with Cons.IH show ?case by fastforce
qed

lemma fifo:
  assumes "rep h q []" and "distinct ps" and "\<And>p. p \<in> set ps \<Longrightarrow> free_buf h p \<and> ext q p"
  shows "\<exists>h1 q1 h2 q2. push_list push h q ps = Some (h1, q1) \<and>
           pop_many pop h1 q1 (length ps) = Some (ps, h2, q2) \<and> rep h2 q2 []"
proof -
  obtain h1 q1 where p: "push_list push h q ps = Some (h1, q1)" "rep h1 q1 ps"
    using push_list_ok [OF assms(1), of ps] assms(2,3) by auto
  then show ?thesis using pop_many_ok [of h1 q1 ps "[]"] by auto
qed

end

text \<open>The linked list implements the interface.\<close>

interpretation rbs: buffer_queue seq_rep detached "\<lambda>s p. p \<noteq> p_sentry s" push_back pop_front
proof
  fix h s xs p
  assume "seq_rep h s xs" "detached h p" "p \<noteq> p_sentry s" "p \<notin> set xs"
  then obtain h' s' where r: "push_back h s p = Some (h', s')" "seq_rep h' s' (xs @ [p])"
      "p_sentry s' = p_sentry s" "\<forall>a. a \<notin> set (p_sentry s # p # xs) \<longrightarrow> h' a = h a"
    using push_back_rep [of h s xs p] by auto
  then show "\<exists>h' q'. push_back h s p = Some (h', q') \<and> seq_rep h' q' (xs @ [p]) \<and>
      (\<lambda>p. p \<noteq> p_sentry q') = (\<lambda>p. p \<noteq> p_sentry s) \<and>
      (\<forall>r. r \<noteq> p_sentry s \<longrightarrow> r \<notin> set (p # xs) \<longrightarrow> detached h' r = detached h r)"
    by (auto simp: detached_def)
next
  fix h s x xs
  assume "seq_rep h s (x # xs)"
  then show "\<exists>h' q'. pop_front h s = Some (x, h', q') \<and> seq_rep h' q' xs \<and>
      (\<lambda>p. p \<noteq> p_sentry q') = (\<lambda>p. p \<noteq> p_sentry s) \<and> detached h' x"
    using pop_front_rep [of h s x xs] by auto
qed

subsection \<open>Correctness of the buffer sequence\<close>

text \<open>
  A concrete memory for the witnesses: two empty sequences with sentries 5 and 6, and three
  detached buffers at 100, 200 and 300.
\<close>

definition ex_heap :: heap where
  "ex_heap = [5 \<mapsto> default_block, 6 \<mapsto> default_block,
     100 \<mapsto> \<lparr>hdr_size = 2, hdr_capacity = 4, hdr_prev = null, hdr_next = null, blk_bytes = [104, 105, 0, 0]\<rparr>,
     200 \<mapsto> \<lparr>hdr_size = 1, hdr_capacity = 1, hdr_prev = null, hdr_next = null, blk_bytes = [33]\<rparr>,
     300 \<mapsto> \<lparr>hdr_size = 0, hdr_capacity = 0, hdr_prev = null, hdr_next = null, blk_bytes = []\<rparr>]"

definition ex_seq :: "addr \<Rightarrow> recv_buffer_sequence" where
  "ex_seq sn = \<lparr>p_sentry = sn, head_p = null, tail_p = null, seq_num_bufs = 0\<rparr>"

text \<open>The same memory with the buffers at 100 and 200 linked into the sequence with sentry 5.\<close>

definition ex_heap2 :: heap where
  "ex_heap2 = ex_heap(
     5 \<mapsto> default_block\<lparr>hdr_prev := 200\<rparr>,
     100 \<mapsto> \<lparr>hdr_size = 2, hdr_capacity = 4, hdr_prev = null, hdr_next = 200, blk_bytes = [104, 105, 0, 0]\<rparr>,
     200 \<mapsto> \<lparr>hdr_size = 1, hdr_capacity = 1, hdr_prev = 100, hdr_next = 5, blk_bytes = [33]\<rparr>)"

definition ex_seq2 :: recv_buffer_sequence where
  "ex_seq2 = \<lparr>p_sentry = 5, head_p = 100, tail_p = 200, seq_num_bufs = 2\<rparr>"

lemmas ex_defs = ex_heap_def ex_seq_def ex_heap2_def ex_seq2_def default_block_def
  default_buf_header_def list_head_def list_tail_def

lemma ex_seq_rep: "seq_rep ex_heap (ex_seq 5) []" "seq_rep ex_heap (ex_seq 6) []"
  by (simp_all add: ex_defs seq_rep_def)

lemma ex_seq2_rep: "seq_rep ex_heap2 ex_seq2 [100, 200]" "seq_rep ex_heap2 (ex_seq 6) []"
  by (simp_all add: ex_defs seq_rep_def)

lemma ex_detached: "detached ex_heap 100" "detached ex_heap 200" "detached ex_heap 300"
  "detached ex_heap2 300"
  by (simp_all add: ex_defs detached_def)

lemma ex_bufs_ok: "bufs_ok ex_heap [100]" "bufs_ok ex_heap2 [100, 200]"
  by (simp_all add: ex_defs bufs_ok_def block_ok_def)

text \<open>
  C15: \<^verbatim>\<open>push_back\<close> of a detached buffer onto a well-formed sequence never dereferences a null
  pointer, yields a well-formed sequence with the buffer at its end, and appends the buffer's
  readable bytes to what \<^verbatim>\<open>to_bytes\<close> returns.
\<close>

theorem push_back_correct:
  assumes "seq_rep h s xs" and "detached h p" and "p \<notin> set (p_sentry s # xs)" and "bufs_ok h (xs @ [p])"
  shows "\<exists>h' s'. push_back h s p = Some (h', s') \<and> seq_rep h' s' (xs @ [p]) \<and>
           to_bytes h' s' = Some (seq_bytes h xs @ node_bytes h p)"
proof -
  obtain h' s' where r: "push_back h s p = Some (h', s')" "seq_rep h' s' (xs @ [p])" "same_payload h h'"
    using push_back_rep [OF assms(1-3)] by blast
  then have "to_bytes h' s' = Some (seq_bytes h' (xs @ [p]))"
    using assms(4) by (intro to_bytes_rep) (simp_all add: bufs_ok_same_payload)
  then show ?thesis
    using r seq_bytes_same_payload [OF r(3), of "xs @ [p]"] by (simp add: seq_bytes_def)
qed

theorem push_back_correct_witness:
  "\<exists>h' s'. push_back ex_heap (ex_seq 5) 100 = Some (h', s') \<and> seq_rep h' s' [100] \<and>
     to_bytes h' s' = Some [104, 105]"
  using push_back_correct [OF ex_seq_rep(1) ex_detached(1)] ex_bufs_ok(1)
  by (simp add: seq_bytes_def node_bytes_def) (simp add: ex_defs)

text \<open>
  C16: \<^verbatim>\<open>pop_front\<close> of a non-empty well-formed sequence returns its first buffer, detached and with
  its bytes intact, and leaves a well-formed sequence of the others in the same order.
\<close>

theorem pop_front_correct:
  assumes "seq_rep h s (x # xs)" and "bufs_ok h (x # xs)"
  shows "\<exists>h' s'. pop_front h s = Some (x, h', s') \<and> detached h' x \<and> seq_rep h' s' xs \<and>
           readable_bytes h' x = Some (node_bytes h x) \<and> to_bytes h' s' = Some (seq_bytes h xs)"
proof -
  obtain h' s' where r: "pop_front h s = Some (x, h', s')" "seq_rep h' s' xs" "detached h' x"
      "same_payload h h'"
    using pop_front_rep [OF assms(1)] by blast
  have ok: "bufs_ok h' [x]" "bufs_ok h' xs"
    using assms(2) by (simp_all add: bufs_ok_same_payload [OF r(4)] bufs_ok_Cons [of h x xs])
  have "node_bytes h' x = node_bytes h x"
    using seq_bytes_same_payload [OF r(4), of "[x]"] by (simp add: seq_bytes_def)
  then show ?thesis
    using r node_readable [OF ok(1)] to_bytes_rep [OF r(2) ok(2)] seq_bytes_same_payload [OF r(4)] by simp
qed

theorem pop_front_correct_witness:
  "\<exists>h' s'. pop_front ex_heap2 ex_seq2 = Some (100, h', s') \<and> to_bytes h' s' = Some [33]"
proof -
  have "seq_bytes ex_heap2 [200] = [33]" by (simp add: seq_bytes_def node_bytes_def ex_defs)
  then show ?thesis using pop_front_correct [OF ex_seq2_rep(1) ex_bufs_ok(2)] by auto
qed

text \<open>
  The sequence is a first-in first-out queue: pushing any list of distinct detached buffers
  onto an empty sequence and popping as many returns them in the same order and leaves it empty.
\<close>

theorem seq_fifo:
  assumes "seq_rep h s []" and "distinct ps" and "\<And>p. p \<in> set ps \<Longrightarrow> detached h p \<and> p \<noteq> p_sentry s"
  shows "\<exists>h1 s1 h2 s2. push_list push_back h s ps = Some (h1, s1) \<and>
           pop_many pop_front h1 s1 (length ps) = Some (ps, h2, s2) \<and> seq_rep h2 s2 []"
  using assms by (rule rbs.fifo)

theorem seq_fifo_witness:
  "\<exists>h1 s1 h2 s2. push_list push_back ex_heap (ex_seq 5) [200, 100, 300] = Some (h1, s1) \<and>
     pop_many pop_front h1 s1 3 = Some ([200, 100, 300], h2, s2) \<and> seq_rep h2 s2 []"
proof -
  have "detached ex_heap p \<and> p \<noteq> p_sentry (ex_seq 5)" if "p \<in> set [200, 100, 300]" for p
    using that ex_detached by (auto simp: ex_seq_def)
  moreover have l: "length [200 :: addr, 100, 300] = 3" "distinct [200 :: addr, 100, 300]" by simp_all
  ultimately show ?thesis
    using seq_fifo [OF ex_seq_rep(1) l(2)] unfolding l(1) by blast
qed

text \<open>
  \<^verbatim>\<open>concat\<close> of two well-formed, disjoint sequences appends the second list to the first and
  leaves the argument empty, so that its destructor frees nothing.
\<close>

theorem concat_correct:
  assumes "seq_rep h s ys" and "seq_rep h rhs xs"
    and "set (p_sentry s # ys) \<inter> set (p_sentry rhs # xs) = {}"
  shows "\<exists>h' s' rhs'. seq_concat h s rhs = Some (h', s', rhs') \<and> seq_rep h' s' (ys @ xs) \<and>
           seq_rep h' rhs' [] \<and> free_list h' rhs' = Some (h', rhs')"
proof -
  obtain h' s' rhs' where r: "seq_concat h s rhs = Some (h', s', rhs')" "seq_rep h' s' (ys @ xs)"
      "seq_rep h' rhs' []"
    using seq_concat_rep [OF assms] by blast
  then have "free_list h' rhs' = Some (h', rhs')"
    by (simp add: free_list_def seq_rep_def list_head_def)
  with r show ?thesis by simp
qed

theorem concat_correct_witness:
  "\<exists>h' s' rhs'. seq_concat ex_heap2 (ex_seq 6) ex_seq2 = Some (h', s', rhs') \<and>
     seq_rep h' s' [100, 200] \<and> seq_rep h' rhs' [] \<and> free_list h' rhs' = Some (h', rhs')"
  using concat_correct [OF ex_seq2_rep(2) ex_seq2_rep(1)] by (simp add: ex_seq_def ex_seq2_def)

text \<open>
  Move assignment frees every buffer the target held, moves every buffer of the source to the
  target in order, and leaves the source an empty sequence.
\<close>

theorem seq_assign_correct:
  assumes "seq_rep h s ys" and "seq_rep h rhs xs"
    and "set (p_sentry s # ys) \<inter> set (p_sentry rhs # xs) = {}"
  shows "\<exists>h' s' rhs'. seq_assign h s rhs = Some (h', s', rhs') \<and> seq_rep h' s' xs \<and> seq_rep h' rhs' [] \<and>
           (\<forall>y. y \<in> set ys \<longrightarrow> h' y = None)"
  using seq_assign_rep [OF assms] by blast

theorem seq_assign_correct_witness:
  "\<exists>h' s' rhs'. seq_assign ex_heap2 ex_seq2 (ex_seq 6) = Some (h', s', rhs') \<and>
     seq_rep h' s' [] \<and> h' 100 = None \<and> h' 200 = None"
  using seq_assign_correct [OF ex_seq2_rep(1) ex_seq2_rep(2)] by (auto simp: ex_seq_def ex_seq2_def)

text \<open>
  The destructor (\<^verbatim>\<open>free_list\<close>) terminates, frees each buffer of the sequence exactly once and
  changes nothing else but the sentry.
\<close>

theorem free_list_correct:
  assumes "seq_rep h s xs"
  shows "\<exists>h' s'. free_list h s = Some (h', s') \<and> seq_rep h' s' [] \<and>
           (\<forall>a. a \<noteq> p_sentry s \<longrightarrow> h' a = (if a \<in> set xs then None else h a))"
  using free_list_rep [OF assms] by blast

theorem free_list_correct_witness:
  "\<exists>h' s'. free_list ex_heap2 ex_seq2 = Some (h', s') \<and> seq_rep h' s' [] \<and> h' 100 = None \<and>
     h' 200 = None \<and> h' 300 = ex_heap2 300"
  using free_list_correct [OF ex_seq2_rep(1)] by (auto simp: ex_seq2_def)

text \<open>
  \<^verbatim>\<open>buffer_copy\<close> terminates and copies exactly the prefix of the sequence's bytes that fits the
  destination, leaves the rest of the destination alone, and returns the number of bytes copied.
\<close>

theorem buffer_copy_prefix:
  assumes "seq_rep h s xs" and "bufs_ok h xs"
  shows "buffer_copy dst h s =
           Some (take (length dst) (seq_bytes h xs) @ drop (length (seq_bytes h xs)) dst,
                 min (length dst) (length (seq_bytes h xs)))"
  using assms by (rule buffer_copy_rep)

theorem buffer_copy_prefix_witness:
  "buffer_copy [9, 9] ex_heap2 ex_seq2 = Some ([104, 105], 2) \<and>
   buffer_copy [9, 9, 9, 9] ex_heap2 ex_seq2 = Some ([104, 105, 33, 9], 3)"
proof -
  have b: "seq_bytes ex_heap2 [100, 200] = [104, 105, 33]"
    by (simp add: seq_bytes_def node_bytes_def ex_defs)
  show ?thesis using buffer_copy_prefix [OF ex_seq2_rep(1) ex_bufs_ok(2)] by (simp add: b)
qed

text \<open>
  Iterating a well-formed sequence of \<open>n\<close> buffers: \<open>n\<close> increments from \<^verbatim>\<open>begin()\<close> visit its
  buffers in order and arrive at \<^verbatim>\<open>end()\<close>; \<open>n\<close> decrements from \<^verbatim>\<open>end()\<close> visit them in reverse order.
\<close>

theorem iterate_both_ways:
  assumes "seq_rep h s xs"
  shows "iter_forward h (length xs) (seq_begin s) = Some (xs, seq_end s) \<and>
         iter_backward h (length xs) (seq_end s) = Some (rev xs)"
proof
  have "seq_begin s = hd (xs @ [seq_end s])"
    using assms by (cases xs) (auto simp: seq_begin_def seq_empty_def seq_rep_def list_head_def)
  then show "iter_forward h (length xs) (seq_begin s) = Some (xs, seq_end s)"
    using assms iter_forward_dlseg [of h null xs "seq_end s"] by (simp add: seq_rep_def seq_end_def)
  show "iter_backward h (length xs) (seq_end s) = Some (rev xs)"
    using assms iter_backward_dlseg [of h xs "p_sentry s" "seq_end s"]
    by (auto simp: seq_rep_def seq_end_def get_prev_def)
qed

theorem iterate_both_ways_witness:
  "iter_forward ex_heap2 2 100 = Some ([100, 200], 5) \<and> iter_backward ex_heap2 2 5 = Some [200, 100]"
  using iterate_both_ways [OF ex_seq2_rep(1)]
  by (simp add: seq_begin_def seq_end_def seq_empty_def ex_seq2_def numeral_2_eq_2)

end
