(* ===== verification/Buf_Ring.thy ===== *)
theory Buf_Ring
  imports Uring Buffer
begin

section \<open>Registered buffers (\<open>include/fiona/detail/common.hpp\<close>, \<open>src/common.cpp\<close>)\<close>

text \<open>
  The two pools of registered buffers: \<^verbatim>\<open>fixed_buffers\<close> for file I/O, and \<^verbatim>\<open>buf_ring\<close>, the provided
  buffers of multishot receives. Both keep a vector of buffers and a vector of buffer ids used as
  a stack, whose top is a raw pointer into the vector; the pointer is modelled by its offset. A
  buffer of a \<^verbatim>\<open>buf_ring\<close> that has been moved out (a defaulted \<^verbatim>\<open>recv_buffer\<close>, capacity 0) is
  \<open>None\<close>. The bytes that an allocation holds before anything is written to it are the argument
  \<open>junk\<close>.
\<close>

subsection \<open>Buffer values\<close>

definition rb_new :: "(nat \<Rightarrow> u8) \<Rightarrow> nat \<Rightarrow> recv_buf" where
  "rb_new junk cap = \<lparr>rb_size = 0, rb_capacity = cap, rb_bytes = map junk [0..<cap]\<rparr>"

definition cap_of :: "recv_buf option \<Rightarrow> nat" where
  "cap_of b = (case b of None \<Rightarrow> 0 | Some b \<Rightarrow> rb_capacity b)"

lemma payload_recv_buffer_ctor:
  "map_option payload (recv_buffer_ctor h p junk cap p) = Some (rb_new junk cap)"
  by (simp add: recv_buffer_ctor_def payload_def rb_new_def)

subsection \<open>\<open>fixed_buffers\<close>\<close>

record fixed_buffer =
  fxb_buf :: "u8 list"
  fxb_len :: nat
  fxb_index :: nat
  fxb_avail :: nat

record fixed_buffers =
  fxs_bufs :: "u8 list list"
  fxs_ids :: "nat list"
  fxs_avail :: nat

definition fixed_buffers_ctor :: "nat \<Rightarrow> nat \<Rightarrow> fixed_buffers" where
  "fixed_buffers_ctor num_bufs buf_size =
     \<lparr>fxs_bufs = replicate num_bufs (replicate buf_size 0), fxs_ids = [0..<num_bufs],
      fxs_avail = num_bufs\<rparr>"

definition get_avail_buf :: "(fixed_buffers, fixed_buffer) op" where
  "get_avail_buf fx =
     (if fxs_avail fx = 0 then (Assert_failed, fx)
      else let pos = fxs_avail fx - 1; i = fxs_ids fx ! pos in
        (Ret \<lparr>fxb_buf = fxs_bufs fx ! i, fxb_len = length (fxs_bufs fx ! i), fxb_index = i,
              fxb_avail = pos\<rparr>,
         fx\<lparr>fxs_avail := pos\<rparr>))"

text \<open>
  The destructor writes the id through, and increments, the buffer's own copy of the pointer; the
  pool's pointer is not changed.
\<close>

definition fixed_buffer_dtor :: "fixed_buffer \<Rightarrow> fixed_buffers \<Rightarrow> fixed_buffers" where
  "fixed_buffer_dtor b fx = fx\<lparr>fxs_ids := (fxs_ids fx)[fxb_avail b := fxb_index b]\<rparr>"

definition fixed_buffer_as_bytes :: "fixed_buffer \<Rightarrow> u8 list option" where
  "fixed_buffer_as_bytes b = (if fxb_len b \<le> length (fxb_buf b) then Some (take (fxb_len b) (fxb_buf b)) else None)"

definition fixed_buffer_set_len :: "nat \<Rightarrow> fixed_buffer \<Rightarrow> fixed_buffer" where
  "fixed_buffer_set_len n b = b\<lparr>fxb_len := n\<rparr>"

fun get_bufs :: "nat \<Rightarrow> (fixed_buffers, fixed_buffer list) op" where
  "get_bufs 0 = retM []"
| "get_bufs (Suc n) = bindM get_avail_buf (\<lambda>b. bindM (get_bufs n) (\<lambda>bs. retM (b # bs)))"

text \<open>One use of a buffer: take it, and destroy it at the end of the scope.\<close>

definition use_one_buf :: "(fixed_buffers, unit) op" where
  "use_one_buf = bindM get_avail_buf (\<lambda>b. modifyM (fixed_buffer_dtor b))"

fun use_bufs :: "nat \<Rightarrow> (fixed_buffers, unit) op" where
  "use_bufs 0 = retM ()"
| "use_bufs (Suc n) = thenM use_one_buf (use_bufs n)"

subsection \<open>\<open>buf_ring\<close>\<close>

record buf_ring =
  br_bufs :: "recv_buf option list"
  br_ids :: "nat list"
  br_pos :: nat
  br_buf_size :: nat
  br_bgid :: u16

definition num_ring_bufs :: "buf_ring \<Rightarrow> u32" where
  "num_ring_bufs br = of_nat (length (br_bufs br))"

definition buf_ring_ctor1 :: "'r platform \<Rightarrow> nat \<Rightarrow> u16 \<Rightarrow> ('r, buf_ring) op" where
  "buf_ring_ctor1 E num_bufs bgid r =
     (case io_uring_setup_buf_ring E r num_bufs bgid of
        Inl ret \<Rightarrow> throw_errno_as_error_code (- ret) r
      | Inr r' \<Rightarrow> (Ret \<lparr>br_bufs = replicate num_bufs None, br_ids = replicate num_bufs 0, br_pos = 0,
                       br_buf_size = 0, br_bgid = bgid\<rparr>, r'))"

fun add_bufs :: "'r platform \<Rightarrow> u16 \<Rightarrow> nat \<Rightarrow> recv_buf option list \<Rightarrow> ('r, unit) op" where
  "add_bufs E bgid i [] = retM ()"
| "add_bufs E bgid i (b # bs) =
     thenM (assertM (cap_of b > 0))
      (thenM (modifyM (\<lambda>r. io_uring_buf_ring_add E r bgid (of_nat (cap_of b)) (of_nat i) (int i)))
        (add_bufs E bgid (Suc i) bs))"

definition buf_ring_ctor :: "'r platform \<Rightarrow> (nat \<Rightarrow> u8) \<Rightarrow> nat \<Rightarrow> nat \<Rightarrow> u16 \<Rightarrow> ('r, buf_ring) op" where
  "buf_ring_ctor E junk num_bufs buf_size bgid =
     bindM (buf_ring_ctor1 E num_bufs bgid)
       (\<lambda>br. let br' = br\<lparr>br_buf_size := buf_size,
                          br_bufs := replicate num_bufs (Some (rb_new junk buf_size))\<rparr> in
         thenM (add_bufs E bgid 0 (br_bufs br'))
           (thenM (modifyM (\<lambda>r. io_uring_buf_ring_advance E r bgid (int num_bufs)))
             (retM br')))"

text \<open>
  \<open>pop_id\<close> is \<^verbatim>\<open>*( --buf_id_pos_ )\<close> with the reference \<^verbatim>\<open>get_buf( buffer_id )\<close> that always follows, and
  the assertion that the slot is empty; \<open>fill_slot\<close> gives the new buffer to the kernel and stores it.
\<close>

definition pop_id :: "('r \<times> buf_ring, nat) op" where
  "pop_id s = (case s of (r, br) \<Rightarrow>
     (let pos = br_pos br - 1; i = br_ids br ! pos in
      if pos \<ge> length (br_ids br) \<or> i \<ge> length (br_bufs br) then (Bad_access, s)
      else if cap_of (br_bufs br ! i) \<noteq> 0 then (Assert_failed, (r, br\<lparr>br_pos := pos\<rparr>))
      else (Ret i, (r, br\<lparr>br_pos := pos\<rparr>))))"

definition fill_slot :: "'r platform \<Rightarrow> nat \<Rightarrow> recv_buf \<Rightarrow> int \<Rightarrow> ('r \<times> buf_ring, unit) op" where
  "fill_slot E i b off s = (case s of (r, br) \<Rightarrow>
     if rb_capacity b = 0 then (Assert_failed, s)
     else (Ret (), (io_uring_buf_ring_add E r (br_bgid br) (of_nat (rb_capacity b)) (of_nat i) off,
                    br\<lparr>br_bufs := (br_bufs br)[i := Some b]\<rparr>)))"

definition ring_advance :: "'r platform \<Rightarrow> int \<Rightarrow> ('r \<times> buf_ring, unit) op" where
  "ring_advance E k s = (case s of (r, br) \<Rightarrow> (Ret (), (io_uring_buf_ring_advance E r (br_bgid br) k, br)))"

definition recycle_buffer :: "'r platform \<Rightarrow> recv_buf \<Rightarrow> ('r \<times> buf_ring, unit) op" where
  "recycle_buffer E buf s =
     (if br_pos (snd s) = 0 then (Ret (), s)
      else bindM pop_id (\<lambda>i. thenM (fill_slot E i buf 0) (ring_advance E 1)) s)"

text \<open>
  The part of \<^verbatim>\<open>recv_frame::await_process_cqe\<close> that moves a filled buffer out of the ring: the
  buffer with its new length, and the id pushed on the stack.
\<close>

definition take_buffer :: "nat \<Rightarrow> nat \<Rightarrow> (buf_ring, recv_buf) op" where
  "take_buffer i n br =
     (if i \<ge> length (br_bufs br) then (Bad_access, br)
      else case br_bufs br ! i of
        None \<Rightarrow> (Assert_failed, br)
      | Some b \<Rightarrow>
          if rb_capacity b = 0 then (Assert_failed, br)
          else if br_pos br \<ge> length (br_ids br) then (Bad_access, br\<lparr>br_bufs := (br_bufs br)[i := None]\<rparr>)
          else (Ret (b\<lparr>rb_size := n\<rparr>),
                br\<lparr>br_bufs := (br_bufs br)[i := None], br_ids := (br_ids br)[br_pos br := i],
                   br_pos := br_pos br + 1\<rparr>))"

text \<open>
  The loop of \<^verbatim>\<open>recv_awaitable::await_resume\<close> that replaces the buffers about to be handed to the
  caller: it stops at the end-of-file marker and when no slot is free, and counts what it added.
\<close>

fun replenish_loop :: "'r platform \<Rightarrow> (nat \<Rightarrow> u8) \<Rightarrow> recv_buf list \<Rightarrow> nat \<Rightarrow> ('r \<times> buf_ring, nat) op" where
  "replenish_loop E junk [] len s = (Ret len, s)"
| "replenish_loop E junk (b # bs) len s =
     (if rb_size b = 0 then (Ret len, s)
      else if br_pos (snd s) = 0 then (Ret len, s)
      else if br_buf_size (snd s) = 0 then (Assert_failed, s)
      else bindM pop_id
             (\<lambda>i. thenM (fill_slot E i (rb_new junk (br_buf_size (snd s))) (int len))
                    (replenish_loop E junk bs (len + 1))) s)"

definition replenish :: "'r platform \<Rightarrow> (nat \<Rightarrow> u8) \<Rightarrow> recv_buf list \<Rightarrow> ('r \<times> buf_ring, unit) op" where
  "replenish E junk bs =
     bindM (replenish_loop E junk bs 0)
       (\<lambda>len. if len > 0 then ring_advance E (int len) else retM ())"

subsection \<open>The invariant of a ring\<close>

text \<open>
  The ids below \<open>buf_id_pos_\<close> are exactly the empty slots, each once; so the stack never overflows
  its vector, and every slot that holds a buffer holds one of positive capacity.
\<close>

definition free_ids :: "buf_ring \<Rightarrow> nat list" where
  "free_ids br = take (br_pos br) (br_ids br)"

definition empty_slots :: "buf_ring \<Rightarrow> nat set" where
  "empty_slots br = {i. i < length (br_bufs br) \<and> br_bufs br ! i = None}"

definition ring_inv :: "buf_ring \<Rightarrow> bool" where
  "ring_inv br =
     (length (br_ids br) = length (br_bufs br) \<and> br_pos br \<le> length (br_ids br) \<and>
      distinct (free_ids br) \<and> set (free_ids br) = empty_slots br \<and>
      (\<forall>b. Some b \<in> set (br_bufs br) \<longrightarrow> rb_capacity b > 0))"

lemma take_nth_update: "k < length xs \<Longrightarrow> take (Suc k) (xs[k := x]) = take k xs @ [x]"
  by (simp add: take_Suc_conv_app_nth)

lemma take_pred: "0 < n \<Longrightarrow> n \<le> length xs \<Longrightarrow> take n xs = take (n - 1) xs @ [xs ! (n - 1)]"
  by (cases n) (auto simp: take_Suc_conv_app_nth)

lemma set_update_None: "Some b \<in> set (xs[i := None]) \<Longrightarrow> Some b \<in> set xs"
  using set_update_subset_insert [of xs i None] by auto

lemma empty_slots_take:
  assumes "i < length (br_bufs br)"
  shows "empty_slots (br\<lparr>br_bufs := (br_bufs br)[i := None], br_ids := ids, br_pos := p\<rparr>) = insert i (empty_slots br)"
  using assms
  by (auto simp: empty_slots_def nth_list_update)

lemma empty_slots_fill:
  "empty_slots (br\<lparr>br_bufs := (br_bufs br)[i := Some b]\<rparr>) = empty_slots br - {i}"
  by (cases "i < length (br_bufs br)")
    (auto simp: empty_slots_def nth_list_update list_update_beyond)

lemma ring_stack_room:
  assumes "ring_inv br" and "i < length (br_bufs br)" and "br_bufs br ! i \<noteq> None"
  shows "br_pos br < length (br_ids br)"
proof -
  have "set (free_ids br) \<subseteq> {..<length (br_bufs br)} - {i}"
    using assms by (auto simp: ring_inv_def empty_slots_def)
  then have "card (set (free_ids br)) \<le> card ({..<length (br_bufs br)} - {i})"
    by (intro card_mono) auto
  moreover have "card (set (free_ids br)) = br_pos br"
  proof -
    have "distinct (free_ids br)" "length (free_ids br) = br_pos br"
      using assms(1) by (auto simp: ring_inv_def free_ids_def)
    then show ?thesis by (simp only: distinct_card)
  qed
  ultimately show ?thesis using assms by (simp add: ring_inv_def)
qed

lemma take_buffer_ok:
  assumes inv: "ring_inv br" and i: "i < length (br_bufs br)" and b: "br_bufs br ! i = Some b"
  shows "\<exists>br'. take_buffer i n br = (Ret (b\<lparr>rb_size := n\<rparr>), br') \<and> ring_inv br' \<and>
           empty_slots br' = insert i (empty_slots br) \<and> br_pos br' = br_pos br + 1 \<and>
           br_buf_size br' = br_buf_size br \<and> br_bgid br' = br_bgid br \<and>
           length (br_bufs br') = length (br_bufs br)"
proof -
  let ?br = "br\<lparr>br_bufs := (br_bufs br)[i := None], br_ids := (br_ids br)[br_pos br := i], br_pos := br_pos br + 1\<rparr>"
  have room: "br_pos br < length (br_ids br)" using ring_stack_room [OF inv i] b by simp
  have cap: "rb_capacity b > 0" using inv i b nth_mem [OF i] by (auto simp: ring_inv_def)
  have ids: "free_ids ?br = free_ids br @ [i]"
    using room by (simp add: free_ids_def take_nth_update)
  have "i \<notin> set (free_ids br)" using inv b by (auto simp: ring_inv_def empty_slots_def)
  then have "ring_inv ?br"
    using inv room i ids empty_slots_take [OF i]
    by (auto simp: ring_inv_def dest: set_update_None)
  moreover have "take_buffer i n br = (Ret (b\<lparr>rb_size := n\<rparr>), ?br)"
    using i b cap room by (simp add: take_buffer_def)
  ultimately show ?thesis
    using empty_slots_take [OF i] by auto
qed

text \<open>Taking an id off the stack and filling its slot keeps the invariant.\<close>

lemma refill_ok:
  assumes inv: "ring_inv br" and pos: "0 < br_pos br" and cap: "0 < rb_capacity b"
  shows "\<exists>i br'. bindM pop_id (\<lambda>i. thenM (fill_slot E i b off) (k i)) (r, br) =
             k i (io_uring_buf_ring_add E r (br_bgid br) (of_nat (rb_capacity b)) (of_nat i) off, br') \<and>
           i \<in> empty_slots br \<and> ring_inv br' \<and> empty_slots br' = empty_slots br - {i} \<and>
           br_pos br' = br_pos br - 1 \<and> br_buf_size br' = br_buf_size br \<and> br_bgid br' = br_bgid br \<and>
           length (br_bufs br') = length (br_bufs br)"
proof -
  let ?p = "br_pos br - 1"
  define i where "i = br_ids br ! (br_pos br - Suc 0)"
  let ?br = "br\<lparr>br_pos := ?p, br_bufs := (br_bufs br)[i := Some b]\<rparr>"
  have ids: "free_ids br = take ?p (br_ids br) @ [i]"
    using inv pos take_pred [of "br_pos br" "br_ids br"] by (simp add: ring_inv_def free_ids_def i_def)
  have slot: "i \<in> empty_slots br" using inv ids by (auto simp: ring_inv_def)
  then have i: "i < length (br_bufs br)" "br_bufs br ! i = None" by (auto simp: empty_slots_def)
  have es: "empty_slots ?br = empty_slots br - {i}"
    using empty_slots_fill [of "br\<lparr>br_pos := ?p\<rparr>" i b] by (simp add: empty_slots_def)
  have "set (free_ids ?br) = empty_slots br - {i}"
    using inv ids by (auto simp: ring_inv_def free_ids_def)
  moreover have "distinct (free_ids ?br)" using inv ids by (auto simp: ring_inv_def free_ids_def)
  moreover have "rb_capacity c > 0" if "Some c \<in> set ((br_bufs br)[i := Some b])" for c
    using that inv cap set_update_subset_insert [of "br_bufs br" i "Some b"] by (auto simp: ring_inv_def)
  ultimately have "ring_inv ?br"
    unfolding ring_inv_def es using inv by (auto simp: ring_inv_def)
  moreover have "pop_id (r, br) = (Ret i, (r, br\<lparr>br_pos := ?p\<rparr>))"
  proof -
    have "br_pos br - Suc 0 < length (br_ids br)" using inv pos by (auto simp: ring_inv_def)
    then show ?thesis using i by (simp add: pop_id_def Let_def i_def [symmetric] cap_of_def)
  qed
  moreover have "bindM pop_id (\<lambda>i. thenM (fill_slot E i b off) (k i)) (r, br) =
      k i (io_uring_buf_ring_add E r (br_bgid br) (of_nat (rb_capacity b)) (of_nat i) off, ?br)"
    using cap calculation(2) by (simp add: bindM_def thenM_def fill_slot_def)
  ultimately show ?thesis using slot es by (intro exI [of _ i] exI [of _ ?br]) simp
qed

lemma replenish_loop_ok:
  assumes "ring_inv br" and "0 < br_buf_size br"
  shows "\<exists>m r' br'. replenish_loop E junk bs len (r, br) = (Ret (len + m), (r', br')) \<and> ring_inv br' \<and>
           m = min (length (takeWhile (\<lambda>b. rb_size b \<noteq> 0) bs)) (br_pos br) \<and> br_pos br' = br_pos br - m \<and>
           br_buf_size br' = br_buf_size br \<and> br_bgid br' = br_bgid br"
  using assms
proof (induction bs arbitrary: br r len)
  case Nil
  then show ?case by auto
next
  case (Cons b bs)
  show ?case
  proof (cases "rb_size b = 0 \<or> br_pos br = 0")
    case True
    then show ?thesis using Cons.prems by auto
  next
    case False
    let ?b = "rb_new junk (br_buf_size br)"
    have cap: "0 < rb_capacity ?b" using Cons.prems by (simp add: rb_new_def)
    obtain i br1 where s1: "bindM pop_id (\<lambda>i. thenM (fill_slot E i ?b (int len)) (replenish_loop E junk bs (len + 1))) (r, br) =
        replenish_loop E junk bs (len + 1)
          (io_uring_buf_ring_add E r (br_bgid br) (of_nat (rb_capacity ?b)) (of_nat i) (int len), br1)"
        "ring_inv br1" "br_pos br1 = br_pos br - 1" "br_buf_size br1 = br_buf_size br" "br_bgid br1 = br_bgid br"
      using refill_ok [OF Cons.prems(1) _ cap, where E = E and off = "int len" and r = r
          and k = "\<lambda>_. replenish_loop E junk bs (len + 1)"] False by blast
    have pos: "0 < br_buf_size br1" using s1 Cons.prems by simp
    obtain m r' br' where IH: "replenish_loop E junk bs (len + 1)
          (io_uring_buf_ring_add E r (br_bgid br) (of_nat (rb_capacity ?b)) (of_nat i) (int len), br1) =
            (Ret (len + 1 + m), (r', br'))" "ring_inv br'"
        "m = min (length (takeWhile (\<lambda>b. rb_size b \<noteq> 0) bs)) (br_pos br1)"
        "br_pos br' = br_pos br1 - m" "br_buf_size br' = br_buf_size br1" "br_bgid br' = br_bgid br1"
      using Cons.IH [OF s1(2) pos] by blast
    have "replenish_loop E junk (b # bs) len (r, br) = (Ret (len + Suc m), (r', br'))"
      using False Cons.prems s1(1) IH(1) by simp
    moreover have "Suc m = min (length (takeWhile (\<lambda>b. rb_size b \<noteq> 0) (b # bs))) (br_pos br)"
      using False IH(3) s1(3) by auto
    ultimately show ?thesis using IH s1 by (intro exI [of _ "Suc m"] exI [of _ r'] exI [of _ br']) auto
  qed
qed


lemma replenish_ok:
  assumes "ring_inv br" and "0 < br_buf_size br"
  shows "\<exists>r' br'. replenish E junk bs (r, br) = (Ret (), (r', br')) \<and> ring_inv br' \<and>
           br_pos br' = br_pos br - min (length (takeWhile (\<lambda>b. rb_size b \<noteq> 0) bs)) (br_pos br) \<and>
           br_buf_size br' = br_buf_size br \<and> br_bgid br' = br_bgid br"
proof -
  obtain m r' br' where l: "replenish_loop E junk bs 0 (r, br) = (Ret m, (r', br'))" "ring_inv br'"
      "m = min (length (takeWhile (\<lambda>b. rb_size b \<noteq> 0) bs)) (br_pos br)" "br_pos br' = br_pos br - m"
      "br_buf_size br' = br_buf_size br" "br_bgid br' = br_bgid br"
    using replenish_loop_ok [OF assms, of E junk bs 0 r] by auto
  then show ?thesis by (cases "m = 0") (auto simp: replenish_def op_simps ring_advance_def)
qed

subsection \<open>Properties\<close>

text \<open>
  C17: when a completion hands over the buffer of an occupied slot, moving it out of the ring
  succeeds: the assertion holds, the id is written inside \<^verbatim>\<open>buf_ids_\<close> (the stack cannot overflow),
  the buffer keeps its bytes and gets the received length, and the invariant is kept.
\<close>

theorem take_buffer_safe:
  assumes "ring_inv br" and "i < length (br_bufs br)" and "br_bufs br ! i = Some b"
  shows "\<exists>br'. take_buffer i n br = (Ret (b\<lparr>rb_size := n\<rparr>), br') \<and> ring_inv br' \<and>
           empty_slots br' = insert i (empty_slots br)"
  using take_buffer_ok [OF assms] by blast

definition ex_buf :: recv_buf where
  "ex_buf = \<lparr>rb_size = 0, rb_capacity = 4, rb_bytes = [1, 2, 3, 4]\<rparr>"

definition ex_ring :: buf_ring where
  "ex_ring = \<lparr>br_bufs = [Some ex_buf, None], br_ids = [1, 0], br_pos = 1, br_buf_size = 4, br_bgid = 7\<rparr>"

lemma ex_ring_inv: "ring_inv ex_ring"
  by (auto simp: ring_inv_def ex_ring_def ex_buf_def free_ids_def empty_slots_def less_Suc_eq nth_Cons')

theorem take_buffer_safe_witness:
  "\<exists>br'. take_buffer 0 3 ex_ring = (Ret (ex_buf\<lparr>rb_size := 3\<rparr>), br') \<and> ring_inv br' \<and>
     empty_slots br' = insert 0 (empty_slots ex_ring)"
  using take_buffer_safe [OF ex_ring_inv, of 0 ex_buf 3] by (simp add: ex_ring_def)

text \<open>
  C18: the loop of \<^verbatim>\<open>recv_awaitable::await_resume\<close> that replaces received buffers never fails an
  assertion or leaves the vectors; it refills one free slot per non-empty buffer before the
  end-of-file marker, as long as slots are free, and keeps the invariant.
\<close>

theorem replenish_safe:
  assumes "ring_inv br" and "0 < br_buf_size br"
  shows "\<exists>r' br'. replenish E junk bs (r, br) = (Ret (), (r', br')) \<and> ring_inv br' \<and>
           br_pos br' = br_pos br - min (length (takeWhile (\<lambda>b. rb_size b \<noteq> 0) bs)) (br_pos br)"
  using replenish_ok [OF assms, of E junk bs r] by auto

theorem replenish_safe_witness:
  "\<exists>r' br'. replenish (list_platform 4) (\<lambda>_. 0) [ex_buf\<lparr>rb_size := 2\<rparr>] (empty_ring 4, ex_ring) =
       (Ret (), (r', br')) \<and> ring_inv br' \<and> br_pos br' = 0"
  using replenish_safe [OF ex_ring_inv, of "list_platform 4" "\<lambda>_. 0" "[ex_buf\<lparr>rb_size := 2\<rparr>]" "empty_ring 4"]
  by (simp add: ex_ring_def)

text \<open>
  \<^verbatim>\<open>recycle_buffer\<close> of a buffer with positive capacity never fails: with a free slot it stores
  the buffer there and pops the slot's id, without one it drops the buffer; the invariant is kept.
\<close>

theorem recycle_buffer_safe:
  assumes inv: "ring_inv br" and cap: "0 < rb_capacity b"
  shows "\<exists>r' br'. recycle_buffer E b (r, br) = (Ret (), (r', br')) \<and> ring_inv br' \<and>
           br_pos br' = br_pos br - 1 \<and>
           (br_pos br = 0 \<and> br' = br \<or>
            (\<exists>i. i \<in> empty_slots br \<and> empty_slots br' = empty_slots br - {i}))"
proof (cases "br_pos br = 0")
  case True
  then show ?thesis using inv by (simp add: recycle_buffer_def)
next
  case False
  then show ?thesis
    using refill_ok [OF inv _ cap, where E = E and off = 0 and r = r and k = "\<lambda>_. ring_advance E 1"]
    by (auto simp: recycle_buffer_def ring_advance_def)
qed

theorem recycle_buffer_safe_witness:
  "\<exists>r' br'. recycle_buffer (list_platform 4) ex_buf (empty_ring 4, ex_ring) = (Ret (), (r', br')) \<and>
     ring_inv br' \<and> br_pos br' = 0"
proof -
  have "0 < rb_capacity ex_buf" "br_pos ex_ring = 1" by (simp_all add: ex_buf_def ex_ring_def)
  then show ?thesis
    using recycle_buffer_safe [OF ex_ring_inv, of ex_buf "list_platform 4" "empty_ring 4"] by auto
qed

text \<open>A pool of fixed buffers before any destructor ran: the first \<open>avail\<close> ids are \<open>0, 1, ...\<close>\<close>

definition fixed_fresh :: "fixed_buffers \<Rightarrow> bool" where
  "fixed_fresh fx = (fxs_avail fx \<le> length (fxs_ids fx) \<and> length (fxs_ids fx) = length (fxs_bufs fx) \<and>
     take (fxs_avail fx) (fxs_ids fx) = [0..<fxs_avail fx])"

lemma fixed_fresh_ctor: "fixed_fresh (fixed_buffers_ctor n m)"
  by (simp add: fixed_fresh_def fixed_buffers_ctor_def)

lemma get_avail_buf_fresh:
  assumes "fixed_fresh fx" and "0 < fxs_avail fx"
  shows "\<exists>b. get_avail_buf fx = (Ret b, fx\<lparr>fxs_avail := fxs_avail fx - 1\<rparr>) \<and>
           fxb_index b = fxs_avail fx - 1 \<and> fxb_buf b = fxs_bufs fx ! (fxs_avail fx - 1)"
    and "fixed_fresh (fx\<lparr>fxs_avail := fxs_avail fx - 1\<rparr>)"
proof -
  let ?k = "fxs_avail fx - 1"
  have "take (Suc ?k) (fxs_ids fx) = [0..<Suc ?k]" "?k < length (fxs_ids fx)"
    using assms by (auto simp: fixed_fresh_def)
  then have "fxs_ids fx ! ?k = ?k" "take ?k (fxs_ids fx) = [0..<?k]"
    by (simp_all add: take_Suc_conv_app_nth)
  then show "\<exists>b. get_avail_buf fx = (Ret b, fx\<lparr>fxs_avail := ?k\<rparr>) \<and> fxb_index b = ?k \<and> fxb_buf b = fxs_bufs fx ! ?k"
    and "fixed_fresh (fx\<lparr>fxs_avail := ?k\<rparr>)"
    using assms by (auto simp: get_avail_buf_def Let_def fixed_fresh_def)
qed

lemma get_bufs_fresh:
  "fixed_fresh fx \<Longrightarrow> k \<le> fxs_avail fx \<Longrightarrow>
     \<exists>bs. get_bufs k fx = (Ret bs, fx\<lparr>fxs_avail := fxs_avail fx - k\<rparr>) \<and>
       map fxb_index bs = rev [fxs_avail fx - k..<fxs_avail fx]"
proof (induction k arbitrary: fx)
  case 0
  then show ?case by (simp add: op_simps)
next
  case (Suc k)
  obtain b where b: "get_avail_buf fx = (Ret b, fx\<lparr>fxs_avail := fxs_avail fx - 1\<rparr>)"
      "fxb_index b = fxs_avail fx - 1"
    using get_avail_buf_fresh(1) [OF Suc.prems(1)] Suc.prems(2) by auto
  obtain bs where bs: "get_bufs k (fx\<lparr>fxs_avail := fxs_avail fx - 1\<rparr>) =
        (Ret bs, fx\<lparr>fxs_avail := fxs_avail fx - 1 - k\<rparr>)"
      "map fxb_index bs = rev [fxs_avail fx - 1 - k..<fxs_avail fx - 1]"
    using Suc.IH [OF get_avail_buf_fresh(2) [OF Suc.prems(1)]] Suc.prems(2) by fastforce
  have "rev [fxs_avail fx - Suc k..<fxs_avail fx] = (fxs_avail fx - 1) # rev [fxs_avail fx - Suc k..<fxs_avail fx - 1]"
    using Suc.prems(2) by (cases "fxs_avail fx") auto
  then show ?case using b bs by (simp add: op_simps)
qed

text \<open>
  Buffers held at the same time are pairwise different: taking any number of buffers, up to
  the size of a new pool, succeeds and returns distinct indices.
\<close>

theorem fixed_buffers_distinct:
  assumes "k \<le> n"
  shows "\<exists>bs fx. get_bufs k (fixed_buffers_ctor n m) = (Ret bs, fx) \<and> length bs = k \<and>
           distinct (map fxb_index bs)"
proof -
  obtain bs where bs: "get_bufs k (fixed_buffers_ctor n m) =
        (Ret bs, (fixed_buffers_ctor n m)\<lparr>fxs_avail := n - k\<rparr>)"
      "map fxb_index bs = rev [n - k..<n]"
    using get_bufs_fresh [OF fixed_fresh_ctor, of k n m] assms by (auto simp: fixed_buffers_ctor_def)
  have "length (map fxb_index bs) = k" "distinct (map fxb_index bs)" using assms by (simp_all add: bs(2))
  then show ?thesis using bs(1) by auto
qed

theorem fixed_buffers_distinct_witness:
  "\<exists>bs fx. get_bufs 2 (fixed_buffers_ctor 3 8) = (Ret bs, fx) \<and> length bs = 2 \<and>
     distinct (map fxb_index bs)"
  using fixed_buffers_distinct [of 2 3 8] by simp

lemma use_one_buf_avail:
  assumes "0 < fxs_avail fx"
  shows "\<exists>fx'. use_one_buf fx = (Ret (), fx') \<and> fxs_avail fx' = fxs_avail fx - 1"
  using assms
  by (simp add: use_one_buf_def op_simps get_avail_buf_def Let_def fixed_buffer_dtor_def)

lemma use_bufs_avail:
  "k \<le> fxs_avail fx \<Longrightarrow> \<exists>fx'. use_bufs k fx = (Ret (), fx') \<and> fxs_avail fx' = fxs_avail fx - k"
proof (induction k arbitrary: fx)
  case 0
  then show ?case by (simp add: op_simps)
next
  case (Suc k)
  obtain fx1 where "use_one_buf fx = (Ret (), fx1)" "fxs_avail fx1 = fxs_avail fx - 1"
    using use_one_buf_avail [of fx] Suc.prems by auto
  with Suc.IH [of fx1] Suc.prems show ?case by (auto simp: op_simps)
qed

text \<open>
  A fixed buffer that is destroyed does not return to the pool: after a pool of \<open>n\<close> buffers has
  been used \<open>n\<close> times, one buffer at a time, each destroyed before the next is taken, the next
  \<^verbatim>\<open>get_avail_buf\<close> fails its assertion.
\<close>

theorem fixed_buffers_exhausted:
  "\<exists>fx. use_bufs n (fixed_buffers_ctor n m) = (Ret (), fx) \<and> fst (get_avail_buf fx) = Assert_failed"
proof -
  obtain fx where "use_bufs n (fixed_buffers_ctor n m) = (Ret (), fx)" "fxs_avail fx = 0"
    using use_bufs_avail [of n "fixed_buffers_ctor n m"] by (auto simp: fixed_buffers_ctor_def)
  then show ?thesis by (simp add: get_avail_buf_def)
qed

end
