(* ===== verification/Executor.thy ===== *)
theory Executor
  imports Buf_Ring
begin

section \<open>The runtime's shared state (\<open>executor.hpp\<close>, \<open>common.hpp\<close>, \<open>params.hpp\<close>)\<close>

text \<open>
  The \<^verbatim>\<open>io_context_frame\<close> that every I/O object reaches through its executor: the ring, the table of
  free direct descriptors, the registered buffer groups, the run queue, the set of live tasks and
  the pending exception; the operations of \<^verbatim>\<open>executor\<close> and \<^verbatim>\<open>executor_access_policy\<close> on it; and the
  words that a \<^verbatim>\<open>waker\<close> and \<^verbatim>\<open>executor::post\<close> write into the pipe. The keys of the \<^verbatim>\<open>task_map\<close>
  are the handles; its values are pointers to the reference counts of the handles' promises.
\<close>

record io_context_params =
  sq_entries :: u32
  cq_entries :: u32
  num_files :: u32

definition default_params :: io_context_params where
  "default_params = \<lparr>sq_entries = 4096, cq_entries = 4096, num_files = 1024\<rparr>"

record 'r io_context_frame =
  io_ring :: 'r
  tasks :: "handle set"
  params :: io_context_params
  frame_fixed_buffers :: "fixed_buffers option"
  buf_rings :: "u16 \<rightharpoonup> buf_ring"
  fds :: "int set"
  run_queue :: "handle list"
  exception_ptr :: "nat option"
  pipefd :: "int \<times> int"

text \<open>An operation on the ring, run on the frame of an object.\<close>

definition on_ring :: "('r, 'a) op \<Rightarrow> ('r io_context_frame \<times> 'o, 'a) op" where
  "on_ring m s = (case s of (fr, ob) \<Rightarrow> (case m (io_ring fr) of (x, r) \<Rightarrow> (x, (fr\<lparr>io_ring := r\<rparr>, ob))))"

definition on_frame :: "('r io_context_frame, 'a) op \<Rightarrow> ('r io_context_frame \<times> 'o, 'a) op" where
  "on_frame m s = (case s of (fr, ob) \<Rightarrow> (case m fr of (x, fr') \<Rightarrow> (x, (fr', ob))))"

definition on_obj :: "('o \<Rightarrow> 'o) \<Rightarrow> ('r io_context_frame \<times> 'o, unit) op" where
  "on_obj f s = (case s of (fr, ob) \<Rightarrow> (Ret (), (fr, f ob)))"

lemma on_ring_apply [op_simps]: "m (io_ring fr) = (x, r) \<Longrightarrow> on_ring m (fr, ob) = (x, (fr\<lparr>io_ring := r\<rparr>, ob))"
  by (simp add: on_ring_def)

lemma on_frame_apply [op_simps]: "m fr = (x, fr') \<Longrightarrow> on_frame m (fr, ob) = (x, (fr', ob))"
  by (simp add: on_frame_def)

lemma on_obj_apply [op_simps]: "on_obj f (fr, ob) = (Ret (), (fr, f ob))"
  by (simp add: on_obj_def)

subsection \<open>Direct descriptors\<close>

definition get_available_fd :: "'r platform \<Rightarrow> ('r io_context_frame, int) op" where
  "get_available_fd E fr =
     (if fds fr = {} then (Ret (- 1), fr)
      else let fd = fds_begin E (fds fr); fr' = fr\<lparr>fds := fds fr - {fd}\<rparr> in
        if \<not> (fd \<ge> 0) then (Assert_failed, fr')
        else if \<not> (nat fd < unat (num_files (params fr))) then (Assert_failed, fr')
        else (Ret fd, fr'))"

definition release_fd :: "int \<Rightarrow> ('r io_context_frame, unit) op" where
  "release_fd fd fr =
     (if fd < 0 then (Ret (), fr)
      else if \<not> (nat fd < unat (num_files (params fr))) then (Assert_failed, fr)
      else if fd \<in> fds fr then (Assert_failed, fr)
      else (Ret (), fr\<lparr>fds := insert fd (fds fr)\<rparr>))"

text \<open>The constructor's loop inserts \<open>0 .. num_files - 1\<close> (an \<^verbatim>\<open>int\<close> loop bound).\<close>

definition initial_fds :: "u32 \<Rightarrow> int set" where
  "initial_fds n = {0..<sint n}"

definition fd_inv :: "'r io_context_frame \<Rightarrow> bool" where
  "fd_inv fr = (fds fr \<subseteq> {0..<int (unat (num_files (params fr)))})"

definition begin_ok :: "'r platform \<Rightarrow> bool" where
  "begin_ok E = (\<forall>S. S \<noteq> {} \<longrightarrow> finite S \<longrightarrow> fds_begin E S \<in> S)"

lemma begin_ok_laws: "uring_laws E issued n \<Longrightarrow> begin_ok E"
  by (simp add: uring_laws_def begin_ok_def)

lemma fd_inv_finite: "fd_inv fr \<Longrightarrow> finite (fds fr)"
  unfolding fd_inv_def by (rule finite_subset) auto

subsection \<open>The descriptor pool as an interface\<close>

text \<open>
  What acceptors, clients and files rely on: an acquired descriptor is a free one and leaves the
  pool, a released one returns to it. \<open>avail\<close> is the set of free descriptors, \<open>owns\<close> the range
  of descriptors the pool manages, \<open>ok\<close> its invariant.
\<close>

locale fd_pool =
  fixes acquire :: "('s, int) op"
    and release :: "int \<Rightarrow> ('s, unit) op"
    and avail :: "'s \<Rightarrow> int set"
    and owns :: "'s \<Rightarrow> int \<Rightarrow> bool"
    and ok :: "'s \<Rightarrow> bool"
  assumes acquire_none: "avail s = {} \<Longrightarrow> acquire s = (Ret (- 1), s)"
    and acquire_some: "ok s \<Longrightarrow> avail s \<noteq> {} \<Longrightarrow>
      \<exists>fd s'. acquire s = (Ret fd, s') \<and> fd \<in> avail s \<and> 0 \<le> fd \<and> avail s' = avail s - {fd} \<and>
        ok s' \<and> owns s' = owns s"
    and release_none: "fd < 0 \<Longrightarrow> release fd s = (Ret (), s)"
    and release_some: "ok s \<Longrightarrow> 0 \<le> fd \<Longrightarrow> owns s fd \<Longrightarrow> fd \<notin> avail s \<Longrightarrow>
      \<exists>s'. release fd s = (Ret (), s') \<and> avail s' = insert fd (avail s) \<and> ok s' \<and> owns s' = owns s"
    and avail_owns: "ok s \<Longrightarrow> fd \<in> avail s \<Longrightarrow> owns s fd"
begin

text \<open>A descriptor that is acquired and released again leaves the pool as it was.\<close>

lemma acquire_release:
  assumes "ok s" and "avail s \<noteq> {}"
  shows "\<exists>fd s1 s2. acquire s = (Ret fd, s1) \<and> release fd s1 = (Ret (), s2) \<and> avail s2 = avail s \<and> ok s2"
proof -
  obtain fd s1 where a: "acquire s = (Ret fd, s1)" "fd \<in> avail s" "0 \<le> fd" "avail s1 = avail s - {fd}"
      "ok s1" "owns s1 = owns s"
    using acquire_some [OF assms] by blast
  have "owns s1 fd" using a avail_owns [OF assms(1)] by simp
  then obtain s2 where "release fd s1 = (Ret (), s2)" "avail s2 = insert fd (avail s1)" "ok s2"
    using release_some [of s1 fd] a by auto
  with a show ?thesis by auto
qed

text \<open>Descriptors acquired one after the other are different.\<close>

lemma acquire_distinct:
  assumes "ok s" and "acquire s = (Ret fd, s1)" and "acquire s1 = (Ret fd', s2)" and "0 \<le> fd" and "0 \<le> fd'"
  shows "fd \<noteq> fd'"
proof -
  have ne: "avail s \<noteq> {}" using assms(2,4) acquire_none [of s] by auto
  then have s1: "avail s1 = avail s - {fd}" "ok s1" using acquire_some [OF assms(1)] assms(2) by auto
  have "avail s1 \<noteq> {}" using assms(3,5) acquire_none [of s1] by auto
  then have "fd' \<in> avail s1" using acquire_some [OF s1(2)] assms(3) by auto
  then show ?thesis using s1 by auto
qed

end

interpretation fdp: fd_pool "get_available_fd E" release_fd fds
  "\<lambda>fr fd. fd < int (unat (num_files (params fr)))" "\<lambda>fr. fd_inv fr \<and> begin_ok E" for E
proof
  fix fr :: "'a io_context_frame"
  assume "fds fr = {}"
  then show "get_available_fd E fr = (Ret (- 1), fr)" by (simp add: get_available_fd_def)
next
  fix fr :: "'a io_context_frame"
  assume inv: "fd_inv fr \<and> begin_ok E" and ne: "fds fr \<noteq> {}"
  let ?fd = "fds_begin E (fds fr)"
  have "?fd \<in> fds fr" using inv ne fd_inv_finite by (auto simp: begin_ok_def)
  moreover from this have "0 \<le> ?fd" "?fd < int (unat (num_files (params fr)))" using inv by (auto simp: fd_inv_def)
  ultimately show "\<exists>fd s'. get_available_fd E fr = (Ret fd, s') \<and> fd \<in> fds fr \<and> 0 \<le> fd \<and>
      fds s' = fds fr - {fd} \<and> (fd_inv s' \<and> begin_ok E) \<and>
      (\<lambda>fd. fd < int (unat (num_files (params s')))) = (\<lambda>fd. fd < int (unat (num_files (params fr))))"
    using inv ne by (auto simp: get_available_fd_def Let_def fd_inv_def nat_less_iff)
next
  fix fd :: int and fr :: "'a io_context_frame"
  assume "fd < 0"
  then show "release_fd fd fr = (Ret (), fr)" by (simp add: release_fd_def)
next
  fix fd :: int and fr :: "'a io_context_frame"
  assume "fd_inv fr \<and> begin_ok E" "0 \<le> fd" "fd < int (unat (num_files (params fr)))" "fd \<notin> fds fr"
  then show "\<exists>s'. release_fd fd fr = (Ret (), s') \<and> fds s' = insert fd (fds fr) \<and> (fd_inv s' \<and> begin_ok E) \<and>
      (\<lambda>fd. fd < int (unat (num_files (params s')))) = (\<lambda>fd. fd < int (unat (num_files (params fr))))"
    by (auto simp: release_fd_def fd_inv_def nat_less_iff)
next
  fix fd :: int and fr :: "'a io_context_frame"
  assume "fd_inv fr \<and> begin_ok E" "fd \<in> fds fr"
  then show "fd < int (unat (num_files (params fr)))" by (auto simp: fd_inv_def)
qed

lemma get_available_fd_ok:
  assumes "fd_inv fr" and "begin_ok E" and "fds fr \<noteq> {}"
  obtains fd where "get_available_fd E fr = (Ret fd, fr\<lparr>fds := fds fr - {fd}\<rparr>)" and "fd \<in> fds fr" and "0 \<le> fd"
proof -
  have "fds_begin E (fds fr) \<in> fds fr"
    using assms fd_inv_finite by (auto simp: begin_ok_def)
  then show ?thesis
    using that assms fdp.acquire_some [of fr E] by (auto simp: get_available_fd_def Let_def split: if_splits)
qed

lemma release_fd_ok:
  "fd_inv fr \<Longrightarrow> 0 \<le> fd \<Longrightarrow> fd < int (unat (num_files (params fr))) \<Longrightarrow> fd \<notin> fds fr \<Longrightarrow>
     release_fd fd fr = (Ret (), fr\<lparr>fds := insert fd (fds fr)\<rparr>)"
  by (simp add: release_fd_def nat_less_iff)

subsection \<open>Buffer groups\<close>

definition get_buffer_group :: "'r io_context_frame \<Rightarrow> nat \<Rightarrow> buf_ring option" where
  "get_buffer_group fr bgid = buf_rings fr (of_nat bgid)"

text \<open>
  \<^verbatim>\<open>try_emplace\<close> constructs the ring only when the key is new; a constructor that throws leaves the
  map as it was.
\<close>

definition register_buf_ring ::
  "'r platform \<Rightarrow> (nat \<Rightarrow> u8) \<Rightarrow> nat \<Rightarrow> nat \<Rightarrow> u16 \<Rightarrow> ('r io_context_frame, unit) op" where
  "register_buf_ring E junk n buf_size bgid fr =
     (case buf_rings fr bgid of
        Some _ \<Rightarrow> throw_errno_as_error_code EEXIST fr
      | None \<Rightarrow>
          (case buf_ring_ctor E junk (unat (of_nat n :: u32)) buf_size bgid (io_ring fr) of
             (Ret br, r) \<Rightarrow> (Ret (), fr\<lparr>io_ring := r, buf_rings := (buf_rings fr)(bgid \<mapsto> br)\<rparr>)
           | (Throw e, r) \<Rightarrow> (Throw e, fr\<lparr>io_ring := r\<rparr>)
           | (Assert_failed, r) \<Rightarrow> (Assert_failed, fr\<lparr>io_ring := r\<rparr>)
           | (Bad_access, r) \<Rightarrow> (Bad_access, fr\<lparr>io_ring := r\<rparr>)))"

definition executor_recycle_buffer ::
  "'r platform \<Rightarrow> recv_buf \<Rightarrow> u16 \<Rightarrow> ('r io_context_frame, unit) op" where
  "executor_recycle_buffer E buf bgid fr =
     (case get_buffer_group fr (unat bgid) of
        None \<Rightarrow> throw_errno_as_error_code EINVAL fr
      | Some br \<Rightarrow>
          (case recycle_buffer E buf (io_ring fr, br) of
             (x, (r, br')) \<Rightarrow> (x, fr\<lparr>io_ring := r, buf_rings := (buf_rings fr)(bgid \<mapsto> br')\<rparr>)))"

definition register_fixed_buffers :: "nat \<Rightarrow> nat \<Rightarrow> ('r io_context_frame, unit) op" where
  "register_fixed_buffers n buf_size fr =
     (case frame_fixed_buffers fr of
        Some _ \<Rightarrow> throw_errno_as_error_code EEXIST fr
      | None \<Rightarrow> (Ret (), fr\<lparr>frame_fixed_buffers := Some (fixed_buffers_ctor (unat (of_nat n :: u32)) buf_size)\<rparr>))"

definition groups_inv :: "'r io_context_frame \<Rightarrow> bool" where
  "groups_inv fr = (\<forall>g br. buf_rings fr g = Some br \<longrightarrow> ring_inv br \<and> 0 < br_buf_size br \<and> br_bgid br = g)"

subsection \<open>The pending exception\<close>

definition unhandled_exception :: "nat \<Rightarrow> 'r io_context_frame \<Rightarrow> 'r io_context_frame" where
  "unhandled_exception ep fr =
     (if exception_ptr fr = None then fr\<lparr>exception_ptr := Some ep\<rparr> else fr)"

subsection \<open>Wakers and posts: words written to the pipe\<close>

definition wake_mask :: u64 where "wake_mask = 1"
definition post_mask :: u64 where "post_mask = 2"
definition ptr_mask :: u64 where "ptr_mask = NOT (wake_mask + post_mask)"

text \<open>
  \<^verbatim>\<open>write\<close> is a system call: \<open>res\<close> is its result, \<open>Inl errno\<close> or the word that enters the pipe.
  \<open>alive\<close> says whether the runtime still exists (\<^verbatim>\<open>p_.lock()\<close>).
\<close>

definition waker_wake :: "bool \<Rightarrow> (u64 \<Rightarrow> int option) \<Rightarrow> handle \<Rightarrow> (u64 list, unit) op" where
  "waker_wake alive wr h pipe =
     (if \<not> alive then throw_errno_as_error_code EINVAL pipe
      else let data = (of_nat h :: u64) OR wake_mask in
        case wr data of Some e \<Rightarrow> throw_errno_as_error_code e pipe | None \<Rightarrow> (Ret (), pipe @ [data]))"

definition executor_post :: "(u64 \<Rightarrow> int option) \<Rightarrow> handle \<Rightarrow> (u64 list, unit) op" where
  "executor_post wr t pipe =
     (let data = (of_nat t :: u64) OR post_mask in
      case wr data of Some e \<Rightarrow> throw_errno_as_error_code e pipe | None \<Rightarrow> (Ret (), pipe @ [data]))"

text \<open>The reading end (\<^verbatim>\<open>frame::await_process_cqe\<close> of \<open>io_context.cpp\<close>) tests the wake bit first.\<close>

datatype pipe_msg = Wake_handle handle | Post_task handle | No_message

definition decode_pipe :: "u64 \<Rightarrow> pipe_msg" where
  "decode_pipe data =
     (if data AND wake_mask \<noteq> 0 then Wake_handle (unat (data AND ptr_mask))
      else if data AND post_mask \<noteq> 0 then Post_task (unat (data AND ptr_mask))
      else No_message)"

lemma tag_untag:
  fixes w :: u64
  assumes "w AND 3 = 0"
  shows "(w OR 1) AND NOT 3 = w" "(w OR 2) AND NOT 3 = w" "(w OR 1) AND 1 = 1" "(w OR 2) AND 1 = 0"
    "(w OR 2) AND 2 = 2"
proof -
  have "w = w AND (3 OR NOT 3)" by simp
  also have "\<dots> = (w AND 3) OR (w AND NOT 3)" by (rule bit.conj_disj_distrib)
  finally have w: "w AND - 4 = w" using assms by simp
  show "(w OR 1) AND NOT 3 = w" "(w OR 2) AND NOT 3 = w"
    by (simp_all add: bit.conj_disj_distrib2 w)
  have "w AND 1 = (w AND 3) AND 1" "w AND 2 = (w AND 3) AND 2" by (simp_all add: and.assoc)
  then have "w AND 1 = 0" "w AND 2 = 0" using assms by simp_all
  then show "(w OR 1) AND 1 = 1" "(w OR 2) AND 1 = 0" "(w OR 2) AND 2 = 2"
    by (simp_all add: bit.conj_disj_distrib2)
qed

lemma of_nat_aligned:
  assumes "h < 2 ^ 64" and "4 dvd h"
  shows "(of_nat h :: u64) AND 3 = 0"
proof -
  have "(mask 2 :: u64) = 3" by (simp add: mask_eq_exp_minus_1)
  then have "(of_nat h :: u64) AND 3 = take_bit 2 (of_nat h)" by (simp add: take_bit_eq_mask)
  also have "\<dots> = of_nat (take_bit 2 h)" by (simp add: take_bit_of_nat)
  also have "take_bit 2 h = 0" using assms(2) by (simp add: take_bit_eq_mod)
  finally show ?thesis by simp
qed


subsection \<open>Properties\<close>

text \<open>
  The pool of direct descriptors: while a descriptor is free, \<^verbatim>\<open>get_available_fd\<close> returns a free
  one below \<^verbatim>\<open>num_files\<close> without failing an assertion, and \<^verbatim>\<open>release_fd\<close> of it restores the pool;
  with no free descriptor the result is -1 and the pool is unchanged.
\<close>

theorem fd_acquire_release:
  assumes "fd_inv fr" and "begin_ok E"
  shows "fds fr = {} \<and> get_available_fd E fr = (Ret (- 1), fr) \<or>
         (\<exists>fd fr1 fr2. get_available_fd E fr = (Ret fd, fr1) \<and> fd \<in> fds fr \<and> fd \<notin> fds fr1 \<and>
           0 \<le> fd \<and> fd < int (unat (num_files (params fr))) \<and>
           release_fd fd fr1 = (Ret (), fr2) \<and> fds fr2 = fds fr \<and> fd_inv fr2)"
proof (cases "fds fr = {}")
  case True
  then show ?thesis by (simp add: fdp.acquire_none)
next
  case False
  obtain fd where fd: "get_available_fd E fr = (Ret fd, fr\<lparr>fds := fds fr - {fd}\<rparr>)" "fd \<in> fds fr" "0 \<le> fd"
    using get_available_fd_ok [OF assms False] .
  have lim: "fd < int (unat (num_files (params fr)))" using assms(1) fd(2) by (auto simp: fd_inv_def)
  then have "release_fd fd (fr\<lparr>fds := fds fr - {fd}\<rparr>) = (Ret (), fr\<lparr>fds := fds fr - {fd}, fds := insert fd (fds fr - {fd})\<rparr>)"
    using fd(3) assms(1) by (subst release_fd_ok) (auto simp: fd_inv_def)
  then show ?thesis using fd lim assms(1) by (auto simp: fd_inv_def insert_absorb)
qed

definition ex_frame :: "list_ring io_context_frame" where
  "ex_frame = \<lparr>io_ring = empty_ring 4, tasks = {}, params = default_params\<lparr>num_files := 2\<rparr>,
     frame_fixed_buffers = None, buf_rings = [7 \<mapsto> ex_ring], fds = {0, 1}, run_queue = [],
     exception_ptr = None, pipefd = (8, 9)\<rparr>"

lemma ex_frame_inv: "fd_inv ex_frame" "begin_ok (list_platform 4)" "groups_inv ex_frame"
proof -
  show "fd_inv ex_frame" by (simp add: fd_inv_def ex_frame_def default_params_def)
  show "begin_ok (list_platform 4)" by (rule begin_ok_laws [OF list_platform_laws]) simp
  show "groups_inv ex_frame"
    using ex_ring_inv by (auto simp: groups_inv_def ex_frame_def) (simp_all add: ex_ring_def)
qed

theorem fd_acquire_release_witness:
  "\<exists>fd fr1 fr2. get_available_fd (list_platform 4) ex_frame = (Ret fd, fr1) \<and> fd \<in> {0, 1} \<and>
     release_fd fd fr1 = (Ret (), fr2) \<and> fds fr2 = {0, 1}"
  using fd_acquire_release [OF ex_frame_inv(1,2)] by (auto simp: ex_frame_def)

text \<open>
  A message through the pipe arrives as it was sent: for a frame address below \<^verbatim>\<open>2^64\<close> that is
  aligned to four bytes, what \<^verbatim>\<open>waker::wake\<close> writes is decoded as a wake-up of that handle, and what
  \<^verbatim>\<open>executor::post\<close> writes as a post of that task.
\<close>

theorem pipe_roundtrip:
  assumes "h < 2 ^ 64" and "4 dvd h" and "\<And>d. wr d = None"
  shows "(\<exists>d. waker_wake True wr h pipe = (Ret (), pipe @ [d]) \<and> decode_pipe d = Wake_handle h) \<and>
         (\<exists>d. executor_post wr h pipe = (Ret (), pipe @ [d]) \<and> decode_pipe d = Post_task h)"
proof (intro conjI)
  have al: "(of_nat h :: u64) AND 3 = 0" by (rule of_nat_aligned [OF assms(1,2)])
  have un: "unat (of_nat h :: u64) = h" using assms(1) by (simp add: unat_of_nat)
  show "\<exists>d. waker_wake True wr h pipe = (Ret (), pipe @ [d]) \<and> decode_pipe d = Wake_handle h"
    using tag_untag [OF al] un assms(3)
    by (simp add: waker_wake_def Let_def decode_pipe_def wake_mask_def post_mask_def ptr_mask_def)
  show "\<exists>d. executor_post wr h pipe = (Ret (), pipe @ [d]) \<and> decode_pipe d = Post_task h"
    using tag_untag [OF al] un assms(3)
    by (simp add: executor_post_def Let_def decode_pipe_def wake_mask_def post_mask_def ptr_mask_def)
qed

theorem pipe_roundtrip_witness:
  "(\<exists>d. waker_wake True (\<lambda>_. None) 4096 [] = (Ret (), [d]) \<and> decode_pipe d = Wake_handle 4096) \<and>
   (\<exists>d. executor_post (\<lambda>_. None) 4096 [] = (Ret (), [d]) \<and> decode_pipe d = Post_task 4096)"
  using pipe_roundtrip [of 4096 "\<lambda>_. None" "[]"] by simp

text \<open>
  Registering a buffer group: a new group of at least one buffer of positive size is added with
  every slot filled and the invariant of all groups is kept; a group id that is taken throws
  \<^verbatim>\<open>EEXIST\<close> and changes nothing.
\<close>

theorem register_buf_ring_ok:
  assumes "groups_inv fr" and "0 < buf_size" and "\<And>k g. io_uring_setup_buf_ring E (io_ring fr) k g = Inr (r0 k g)"
  shows "case buf_rings fr bgid of
      Some _ \<Rightarrow> register_buf_ring E junk n buf_size bgid fr = (Throw EEXIST, fr)
    | None \<Rightarrow> (\<exists>fr'. register_buf_ring E junk n buf_size bgid fr = (Ret (), fr') \<and> groups_inv fr' \<and>
        map_option empty_slots (buf_rings fr' bgid) = Some {})"
proof (cases "buf_rings fr bgid")
  case (Some br)
  then show ?thesis by (simp add: register_buf_ring_def op_simps)
next
  case None
  let ?n = "unat (of_nat n :: u32)"
  let ?br = "\<lparr>br_bufs = replicate ?n (Some (rb_new junk buf_size)), br_ids = replicate ?n 0, br_pos = 0,
     br_buf_size = buf_size, br_bgid = bgid\<rparr>"
  have add: "\<exists>r'. add_bufs E bgid i (replicate m (Some (rb_new junk buf_size))) r = (Ret (), r')" for i m r
    using assms(2) by (induction m arbitrary: i r) (auto simp: op_simps cap_of_def rb_new_def)
  obtain r1 where "add_bufs E bgid 0 (replicate ?n (Some (rb_new junk buf_size))) (r0 ?n bgid) = (Ret (), r1)"
    using add by blast
  then have "buf_ring_ctor E junk ?n buf_size bgid (io_ring fr) =
      (Ret ?br, io_uring_buf_ring_advance E r1 bgid (int ?n))"
    by (simp add: buf_ring_ctor_def buf_ring_ctor1_def assms(3) op_simps Let_def)
  moreover have "ring_inv ?br" "empty_slots ?br = {}"
    using assms(2) by (auto simp: ring_inv_def free_ids_def empty_slots_def rb_new_def)
  ultimately show ?thesis
    using None assms(1,2) by (auto simp: register_buf_ring_def groups_inv_def)
qed

theorem register_buf_ring_ok_witness:
  "(\<exists>fr'. register_buf_ring (list_platform 4) (\<lambda>_. 0) 8 64 3 ex_frame = (Ret (), fr') \<and> groups_inv fr') \<and>
   register_buf_ring (list_platform 4) (\<lambda>_. 0) 8 64 7 ex_frame = (Throw EEXIST, ex_frame)"
proof -
  have stp: "\<And>k g. io_uring_setup_buf_ring (list_platform 4) (io_ring ex_frame) k g = Inr (empty_ring 4)"
    by (simp add: list_platform_def ex_frame_def)
  have "buf_rings ex_frame 3 = None" "buf_rings ex_frame 7 = Some ex_ring" by (simp_all add: ex_frame_def)
  then show ?thesis
    using register_buf_ring_ok [OF ex_frame_inv(3) _ stp, of 64, where bgid = 3 and junk = "\<lambda>_. 0" and n = 8]
      register_buf_ring_ok [OF ex_frame_inv(3) _ stp, of 64, where bgid = 7 and junk = "\<lambda>_. 0" and n = 8]
    by auto
qed

end
