(* ===== verification/Task.thy ===== *)
theory Task
  imports Executor
begin

section \<open>Coroutine tasks (\<open>task.hpp\<close>, \<open>executor.hpp\<close>, \<open>common.hpp\<close>)\<close>

text \<open>
  The ownership protocol of coroutine frames. The state is the shared frame together with the
  promises of the live scheduler coroutines; a handle that is not in this map has been destroyed,
  and touching it is \<open>Bad_access\<close>. An exception is identified by a number. The bodies of user
  coroutines are client code and not part of this theory: \<open>return\<close>, \<open>throw\<close> and reaching the final suspension point are the
  operations below.
\<close>

subsection \<open>Results of a promise\<close>

datatype 'v variant = V_uninitialized | V_ok 'v | V_error nat

definition variant_emplace :: "'v \<Rightarrow> ('v variant, unit) op" where
  "variant_emplace v w = (if w = V_uninitialized then (Ret (), V_ok v) else (Assert_failed, w))"

definition variant_set_error :: "nat \<Rightarrow> 'v variant \<Rightarrow> 'v variant" where
  "variant_set_error ep w = V_error ep"

definition variant_has_error :: "'v variant \<Rightarrow> bool" where
  "variant_has_error w = (case w of V_error _ \<Rightarrow> True | _ \<Rightarrow> False)"

definition variant_get_error :: "('v variant, nat) op" where
  "variant_get_error w = (case w of V_error ep \<Rightarrow> (Ret ep, w) | _ \<Rightarrow> (Assert_failed, w))"

text \<open>\<open>result\<close> rethrows (\<open>Inl\<close>), returns the value, or reads a value that was never constructed.\<close>

definition variant_result :: "('v variant, nat + 'v) op" where
  "variant_result w = (case w of V_error ep \<Rightarrow> (Ret (Inl ep), w) | V_ok v \<Rightarrow> (Ret (Inr v), w)
     | V_uninitialized \<Rightarrow> (Bad_access, w))"

text \<open>The specialisation for \<^verbatim>\<open>void\<close> only holds the exception; \<open>emplace\<close> does nothing.\<close>

type_synonym void_variant = "nat option"

definition void_set_error :: "nat \<Rightarrow> void_variant \<Rightarrow> void_variant" where
  "void_set_error ep w = Some ep"

definition void_result :: "void_variant \<Rightarrow> nat + unit" where
  "void_result w = (case w of Some ep \<Rightarrow> Inl ep | None \<Rightarrow> Inr ())"

subsection \<open>\<open>task<T>\<close> and its promise\<close>

record 'v promise =
  pr_result :: "'v variant"
  pr_continuation :: "handle option"
  pr_done :: bool

definition promise_new :: "'v promise" where
  "promise_new = \<lparr>pr_result = V_uninitialized, pr_continuation = None, pr_done = False\<rparr>"

definition promise_return_value :: "'v \<Rightarrow> 'v promise \<Rightarrow> 'v promise" where
  "promise_return_value v p = p\<lparr>pr_result := V_ok v\<rparr>"

definition promise_unhandled_exception :: "nat \<Rightarrow> 'v promise \<Rightarrow> 'v promise" where
  "promise_unhandled_exception ep p = p\<lparr>pr_result := V_error ep\<rparr>"

definition set_continuation :: "handle \<Rightarrow> ('v promise, unit) op" where
  "set_continuation c p = (if pr_continuation p = None then (Ret (), p\<lparr>pr_continuation := Some c\<rparr>) else (Assert_failed, p))"

text \<open>\<open>co_await t\<close>: ready when the task is empty or finished; otherwise the child runs next.\<close>

definition task_await_ready :: "handle option \<Rightarrow> 'v promise \<Rightarrow> bool" where
  "task_await_ready h p = (h = None \<or> pr_done p)"

definition task_await_suspend :: "handle \<Rightarrow> handle \<Rightarrow> ('v promise, handle) op" where
  "task_await_suspend h awaiting = bindM (set_continuation awaiting) (\<lambda>_. retM h)"

definition promise_final_suspend :: "('v promise, handle option) op" where
  "promise_final_suspend p = (Ret (pr_continuation p), p\<lparr>pr_done := True\<rparr>)"

definition promise_result :: "'v promise \<Rightarrow> (nat + 'v) outcome" where
  "promise_result p = fst (variant_result (pr_result p))"

definition task_await_resume :: "handle option \<Rightarrow> ('v promise, nat + 'v) op" where
  "task_await_resume h = thenM (assertM (h \<noteq> None)) (\<lambda>p. (promise_result p, p))"

text \<open>A task owns its handle: move construction and \<open>into_address\<close> give it away, assignment swaps.\<close>

definition task_move :: "handle option \<Rightarrow> handle option \<times> handle option" where
  "task_move rhs = (rhs, None)"

definition task_assign :: "handle option \<Rightarrow> handle option \<Rightarrow> handle option \<times> handle option" where
  "task_assign self rhs = (rhs, self)"

text \<open>\<^verbatim>\<open>~task\<close>, over the set of frames that exist.\<close>

definition task_dtor :: "handle option \<Rightarrow> (handle set, unit) op" where
  "task_dtor t live =
     (case t of None \<Rightarrow> (Ret (), live)
      | Some h \<Rightarrow> if h \<in> live then (Ret (), live - {h}) else (Bad_access, live))"

definition task_into_address :: "(handle option, addr) op" where
  "task_into_address t = (case t of None \<Rightarrow> (Assert_failed, t) | Some h \<Rightarrow> (Ret h, None))"

definition task_from_address :: "addr \<Rightarrow> handle option" where
  "task_from_address p = Some p"

subsection \<open>Scheduler coroutines: \<open>internal_promise\<close>, \<open>internal_task\<close>, \<open>task_map\<close>\<close>

record 'v internal_promise =
  ip_variant :: "'v variant"
  ip_continuation :: "handle option"
  ip_count :: int

type_synonym 'v coros = "handle \<rightharpoonup> 'v internal_promise"
type_synonym ('r, 'v) runtime = "'r io_context_frame \<times> 'v coros"

definition promise_of :: "handle \<Rightarrow> (('r, 'v) runtime, 'v internal_promise) op" where
  "promise_of h s = (case snd s h of None \<Rightarrow> (Bad_access, s) | Some p \<Rightarrow> (Ret p, s))"

definition put_promise :: "handle \<Rightarrow> 'v internal_promise \<Rightarrow> (('r, 'v) runtime, unit) op" where
  "put_promise h p s = (Ret (), (fst s, (snd s)(h \<mapsto> p)))"

definition destroy :: "handle \<Rightarrow> (('r, 'v) runtime, unit) op" where
  "destroy h s = (Ret (), (fst s, (snd s)(h := None)))"

definition add_count :: "handle \<Rightarrow> int \<Rightarrow> (('r, 'v) runtime, unit) op" where
  "add_count h k = bindM (promise_of h) (\<lambda>p. put_promise h (p\<lparr>ip_count := ip_count p + k\<rparr>))"

text \<open>\<^verbatim>\<open>--count == 0\<close> followed by \<^verbatim>\<open>h.destroy()\<close>.\<close>

definition drop_count :: "handle \<Rightarrow> (('r, 'v) runtime, unit) op" where
  "drop_count h =
     bindM (promise_of h)
       (\<lambda>p. if ip_count p - 1 = 0 then destroy h
            else put_promise h (p\<lparr>ip_count := ip_count p - 1\<rparr>))"

definition internal_task_ctor :: "handle \<Rightarrow> (('r, 'v) runtime, unit) op" where
  "internal_task_ctor h =
     bindM (promise_of h)
       (\<lambda>p. thenM (assertM (ip_count p = 0)) (put_promise h (p\<lparr>ip_count := 1\<rparr>)))"

definition internal_task_dtor :: "handle option \<Rightarrow> (('r, 'v) runtime, unit) op" where
  "internal_task_dtor t = (case t of None \<Rightarrow> retM () | Some h \<Rightarrow> drop_count h)"

definition internal_task_copy :: "handle \<Rightarrow> (('r, 'v) runtime, handle) op" where
  "internal_task_copy h = bindM (add_count h 1) (\<lambda>_. retM h)"

definition internal_task_copy_assign :: "handle \<Rightarrow> handle \<Rightarrow> (('r, 'v) runtime, handle) op" where
  "internal_task_copy_assign self rhs =
     bindM (drop_count self) (\<lambda>_. bindM (add_count rhs 1) (\<lambda>_. retM rhs))"

text \<open>A move does not touch the count; move assignment swaps, so the old handle is released by \<open>rhs\<close>.\<close>

definition internal_task_move :: "handle option \<Rightarrow> handle option \<times> handle option" where
  "internal_task_move rhs = (rhs, None)"

definition internal_task_move_assign :: "handle option \<Rightarrow> handle option \<Rightarrow> handle option \<times> handle option" where
  "internal_task_move_assign self rhs = (rhs, self)"

definition add_task :: "handle \<Rightarrow> (('r, 'v) runtime, unit) op" where
  "add_task h =
     bindM (promise_of h)
       (\<lambda>p s. put_promise h (p\<lparr>ip_count := ip_count p + 1\<rparr>) ((fst s)\<lparr>tasks := insert h (tasks (fst s))\<rparr>, snd s))"

definition erase_task :: "handle \<Rightarrow> (('r, 'v) runtime, unit) op" where
  "erase_task h s =
     (if h \<notin> tasks (fst s) then (Assert_failed, s)
      else bindM (promise_of h)
        (\<lambda>p. thenM (assertM (ip_count p > 0))
          (thenM (drop_count h)
            (modifyM (\<lambda>(fr, c). (fr\<lparr>tasks := tasks fr - {h}\<rparr>, c))))) s)"

text \<open>
  \<^verbatim>\<open>task_map::clear\<close>, in the order in which the table is iterated. The destructors of the locals
  of a destroyed frame are not modelled.
\<close>

fun clear_tasks :: "handle list \<Rightarrow> (('r, 'v) runtime, unit) op" where
  "clear_tasks [] = retM ()"
| "clear_tasks (h # hs) =
     thenM (drop_count h)
       (thenM (modifyM (\<lambda>(fr, c). (fr\<lparr>tasks := tasks fr - {h}\<rparr>, c))) (clear_tasks hs))"

text \<open>
  The scheduler coroutine finished with a value, or an exception left its body: with more than
  the task map's reference the exception is kept for the awaiter, otherwise it is rethrown out of
  \<^verbatim>\<open>resume()\<close> (\<open>True\<close>).
\<close>

definition internal_return_value :: "handle \<Rightarrow> 'v \<Rightarrow> (('r, 'v) runtime, unit) op" where
  "internal_return_value h v =
     bindM (promise_of h)
       (\<lambda>p. thenM (assertM (ip_variant p = V_uninitialized)) (put_promise h (p\<lparr>ip_variant := V_ok v\<rparr>)))"

definition internal_unhandled_exception :: "handle \<Rightarrow> nat \<Rightarrow> (('r, 'v) runtime, bool) op" where
  "internal_unhandled_exception h ep =
     bindM (promise_of h)
       (\<lambda>p. if ip_count p > 1
            then bindM (put_promise h (p\<lparr>ip_variant := variant_set_error ep (ip_variant p)\<rparr>)) (\<lambda>_. retM False)
            else retM True)"

definition internal_final_suspend :: "handle \<Rightarrow> (('r, 'v) runtime, handle option) op" where
  "internal_final_suspend h =
     bindM (promise_of h) (\<lambda>p. bindM (erase_task h) (\<lambda>_. retM (ip_continuation p)))"

subsection \<open>\<open>spawn\<close> and \<open>spawn_awaitable\<close>\<close>

record spawn_awaitable =
  sa_task :: handle
  sa_was_awaited :: bool

text \<open>
  \<^verbatim>\<open>executor::spawn\<close> with \<open>h\<close> the address of the new scheduler frame. The awaitable's constructor
  receives a copy of the local \<^verbatim>\<open>internal_task\<close> and copies it into its member; the parameter and the
  local are destroyed at the end.
\<close>

definition scheduler :: "handle \<Rightarrow> (('r, 'v) runtime, unit) op" where
  "scheduler h =
     thenM (put_promise h \<lparr>ip_variant = V_uninitialized, ip_continuation = None, ip_count = 0\<rparr>)
       (internal_task_ctor h)"

definition push_run_queue :: "handle \<Rightarrow> (('r, 'v) runtime, unit) op" where
  "push_run_queue h = modifyM (\<lambda>(fr, c). (fr\<lparr>run_queue := run_queue fr @ [h]\<rparr>, c))"

definition spawn :: "handle \<Rightarrow> (('r, 'v) runtime, spawn_awaitable) op" where
  "spawn h =
     thenM (scheduler h)
      (thenM (add_task h)
       (thenM (push_run_queue h)
        (bindM (internal_task_copy h) (\<lambda>param.
          bindM (internal_task_copy param) (\<lambda>member.
            thenM (internal_task_dtor (Some param))
              (thenM (internal_task_dtor (Some h))
                (retM \<lparr>sa_task = member, sa_was_awaited = False\<rparr>)))))))"

definition spawn_await_suspend :: "handle \<Rightarrow> spawn_awaitable \<Rightarrow> (('r, 'v) runtime, bool) op" where
  "spawn_await_suspend awaiting sa =
     bindM (promise_of (sa_task sa))
       (\<lambda>p. thenM (assertM (ip_count p > 0))
         (thenM (put_promise (sa_task sa) (p\<lparr>ip_continuation := Some awaiting\<rparr>))
           (retM (\<not> (ip_count p < 2)))))"

definition spawn_await_resume :: "spawn_awaitable \<Rightarrow> (('r, 'v) runtime, (nat + 'v) \<times> spawn_awaitable) op" where
  "spawn_await_resume sa =
     bindM (promise_of (sa_task sa))
       (\<lambda>p s. case variant_result (ip_variant p) of
          (Ret x, _) \<Rightarrow> (Ret (x, sa\<lparr>sa_was_awaited := True\<rparr>), s)
        | _ \<Rightarrow> (Bad_access, s))"

definition spawn_awaitable_dtor :: "spawn_awaitable \<Rightarrow> (('r, 'v) runtime, unit) op" where
  "spawn_awaitable_dtor sa =
     bindM (promise_of (sa_task sa))
       (\<lambda>p. thenM (modifyM (\<lambda>(fr, c).
                case ip_variant p of
                  V_error ep \<Rightarrow> if \<not> sa_was_awaited sa then (unhandled_exception ep fr, c) else (fr, c)
                | _ \<Rightarrow> (fr, c)))
             (internal_task_dtor (Some (sa_task sa))))"

subsection \<open>Evaluation of the operations\<close>

lemma promise_of_Some [op_simps]: "c h = Some p \<Longrightarrow> promise_of h (fr, c) = (Ret p, (fr, c))"
  by (simp add: promise_of_def)

lemma put_promise_apply [op_simps]: "put_promise h p (fr, c) = (Ret (), (fr, c(h \<mapsto> p)))"
  by (simp add: put_promise_def)

lemma add_count_apply [op_simps]:
  "c h = Some p \<Longrightarrow> add_count h k (fr, c) = (Ret (), (fr, c(h \<mapsto> p\<lparr>ip_count := ip_count p + k\<rparr>)))"
  by (simp add: add_count_def op_simps)

lemma drop_count_last [op_simps]:
  "c h = Some p \<Longrightarrow> ip_count p = 1 \<Longrightarrow> drop_count h (fr, c) = (Ret (), (fr, c(h := None)))"
  by (simp add: drop_count_def op_simps destroy_def)

lemma drop_count_more [op_simps]:
  "c h = Some p \<Longrightarrow> ip_count p \<noteq> 1 \<Longrightarrow>
     drop_count h (fr, c) = (Ret (), (fr, c(h \<mapsto> p\<lparr>ip_count := ip_count p - 1\<rparr>)))"
  by (simp add: drop_count_def op_simps)

lemma internal_task_dtor_apply [op_simps]: "internal_task_dtor (Some h) s = drop_count h s"
  by (simp add: internal_task_dtor_def)

lemma internal_task_copy_apply [op_simps]:
  "c h = Some p \<Longrightarrow> internal_task_copy h (fr, c) = (Ret h, (fr, c(h \<mapsto> p\<lparr>ip_count := ip_count p + 1\<rparr>)))"
  by (simp add: internal_task_copy_def op_simps)

lemma spawn_apply:
  "spawn h (fr, c) =
     (Ret \<lparr>sa_task = h, sa_was_awaited = False\<rparr>,
      (fr\<lparr>tasks := insert h (tasks fr), run_queue := run_queue fr @ [h]\<rparr>,
       c(h \<mapsto> \<lparr>ip_variant = V_uninitialized, ip_continuation = None, ip_count = 2\<rparr>)))"
  by (simp add: spawn_def scheduler_def internal_task_ctor_def add_task_def push_run_queue_def op_simps)

lemma erase_task_last:
  assumes "h \<in> tasks fr" and "c h = Some p" and "ip_count p = 1"
  shows "erase_task h (fr, c) = (Ret (), (fr\<lparr>tasks := tasks fr - {h}\<rparr>, c(h := None)))"
  using assms by (simp add: erase_task_def op_simps)

lemma erase_task_more:
  assumes "h \<in> tasks fr" and "c h = Some p" and "1 < ip_count p"
  shows "erase_task h (fr, c) =
           (Ret (), (fr\<lparr>tasks := tasks fr - {h}\<rparr>, c(h \<mapsto> p\<lparr>ip_count := ip_count p - 1\<rparr>)))"
  using assms by (simp add: erase_task_def op_simps)

lemma internal_final_suspend_last:
  "h \<in> tasks fr \<Longrightarrow> c h = Some p \<Longrightarrow> ip_count p = 1 \<Longrightarrow>
     internal_final_suspend h (fr, c) = (Ret (ip_continuation p), (fr\<lparr>tasks := tasks fr - {h}\<rparr>, c(h := None)))"
  by (simp add: internal_final_suspend_def op_simps erase_task_last)

lemma internal_final_suspend_more:
  "h \<in> tasks fr \<Longrightarrow> c h = Some p \<Longrightarrow> 1 < ip_count p \<Longrightarrow>
     internal_final_suspend h (fr, c) =
       (Ret (ip_continuation p), (fr\<lparr>tasks := tasks fr - {h}\<rparr>, c(h \<mapsto> p\<lparr>ip_count := ip_count p - 1\<rparr>)))"
  by (simp add: internal_final_suspend_def op_simps erase_task_more)

lemma internal_return_value_apply [op_simps]:
  "c h = Some p \<Longrightarrow> ip_variant p = V_uninitialized \<Longrightarrow>
     internal_return_value h v (fr, c) = (Ret (), (fr, c(h \<mapsto> p\<lparr>ip_variant := V_ok v\<rparr>)))"
  by (simp add: internal_return_value_def op_simps)

lemma internal_unhandled_exception_apply [op_simps]:
  "c h = Some p \<Longrightarrow> internal_unhandled_exception h ep (fr, c) =
     (if ip_count p > 1 then (Ret False, (fr, c(h \<mapsto> p\<lparr>ip_variant := V_error ep\<rparr>))) else (Ret True, (fr, c)))"
  by (simp add: internal_unhandled_exception_def variant_set_error_def op_simps)

lemma spawn_await_suspend_apply [op_simps]:
  "c (sa_task sa) = Some p \<Longrightarrow> 0 < ip_count p \<Longrightarrow>
     spawn_await_suspend a sa (fr, c) =
       (Ret (\<not> ip_count p < 2), (fr, c(sa_task sa \<mapsto> p\<lparr>ip_continuation := Some a\<rparr>)))"
  by (simp add: spawn_await_suspend_def op_simps)

lemma spawn_await_resume_apply [op_simps]:
  "c (sa_task sa) = Some p \<Longrightarrow> variant_result (ip_variant p) = (Ret x, w) \<Longrightarrow>
     spawn_await_resume sa (fr, c) = (Ret (x, sa\<lparr>sa_was_awaited := True\<rparr>), (fr, c))"
  by (simp add: spawn_await_resume_def op_simps)

lemma spawn_awaitable_dtor_apply [op_simps]:
  "c (sa_task sa) = Some p \<Longrightarrow>
     spawn_awaitable_dtor sa (fr, c) =
       drop_count (sa_task sa)
         (case ip_variant p of V_error ep \<Rightarrow> if \<not> sa_was_awaited sa then unhandled_exception ep fr else fr | _ \<Rightarrow> fr, c)"
  by (auto simp: spawn_awaitable_dtor_def op_simps split: variant.split)

text \<open>Whatever is moved, the frames that two tasks own are destroyed once each.\<close>

lemma task_destroyed_once:
  assumes "set_option t \<union> set_option u \<subseteq> live" and "t \<noteq> u \<or> t = None"
  shows "(case task_move t of (a, b) \<Rightarrow> thenM (task_dtor a) (task_dtor b) live) = (Ret (), live - set_option t)"
    and "(case task_assign t u of (a, b) \<Rightarrow> thenM (task_dtor a) (task_dtor b) live) = (Ret (), live - set_option t - set_option u)"
  using assms by (cases t; cases u; auto simp: task_move_def task_assign_def task_dtor_def thenM_def bindM_def)+

subsection \<open>The life of a task as a state machine\<close>

text \<open>
  \<open>task_reach h n s\<close>: the runtime state \<open>s\<close> is reached from a \<^verbatim>\<open>spawn\<close> of \<open>h\<close> by copies and
  destructions of the \<^verbatim>\<open>internal_task\<close> handles (of which \<open>n\<close> exist) and the end of the coroutine.
\<close>

inductive task_reach :: "handle \<Rightarrow> nat \<Rightarrow> ('r, 'v) runtime \<Rightarrow> bool" for h where
  spawned: "spawn h (fr, c) = (Ret sa, s) \<Longrightarrow> task_reach h 1 s"
| copied: "task_reach h n s \<Longrightarrow> 0 < n \<Longrightarrow> internal_task_copy h s = (Ret t, s') \<Longrightarrow> task_reach h (n + 1) s'"
| dropped: "task_reach h n s \<Longrightarrow> 0 < n \<Longrightarrow> internal_task_dtor (Some h) s = (Ret (), s') \<Longrightarrow> task_reach h (n - 1) s'"
| finished: "task_reach h n s \<Longrightarrow> h \<in> tasks (fst s) \<Longrightarrow> internal_final_suspend h s = (Ret k, s') \<Longrightarrow> task_reach h n s'"

definition task_refs :: "handle \<Rightarrow> nat \<Rightarrow> ('r, 'v) runtime \<Rightarrow> int" where
  "task_refs h n s = int n + (if h \<in> tasks (fst s) then 1 else 0)"

definition task_inv :: "handle \<Rightarrow> nat \<Rightarrow> ('r, 'v) runtime \<Rightarrow> bool" where
  "task_inv h n s =
     (case snd s h of None \<Rightarrow> task_refs h n s = 0
      | Some p \<Rightarrow> ip_count p = task_refs h n s \<and> 0 < task_refs h n s)"

lemma task_inv_alive:
  assumes "task_inv h n s" and "0 < n \<or> h \<in> tasks (fst s)"
  obtains p where "snd s h = Some p" and "ip_count p = task_refs h n s"
  using assms by (auto simp: task_inv_def task_refs_def split: option.splits if_splits)

lemma task_inv_drop:
  assumes "task_inv h n s" and "0 < n"
  shows "\<exists>s'. internal_task_dtor (Some h) s = (Ret (), s') \<and> task_inv h (n - 1) s'"
proof -
  obtain fr c where s: "s = (fr, c)" by (cases s)
  obtain p where p: "c h = Some p" "ip_count p = task_refs h n s"
    using task_inv_alive [OF assms(1)] assms(2) s by auto
  show ?thesis
    using p s assms(2) by (cases "ip_count p = 1")
      (auto simp: op_simps task_inv_def task_refs_def split: if_splits)
qed

lemma task_inv_finish:
  assumes "task_inv h n s" and "h \<in> tasks (fst s)"
  shows "\<exists>k s'. internal_final_suspend h s = (Ret k, s') \<and> task_inv h n s' \<and> h \<notin> tasks (fst s')"
proof -
  obtain fr c where s: "s = (fr, c)" by (cases s)
  obtain p where p: "c h = Some p" "ip_count p = int n + 1"
    using task_inv_alive [OF assms(1)] assms(2) s by (auto simp: task_refs_def)
  show ?thesis
  proof (cases "n = 0")
    case True
    then show ?thesis
      using internal_final_suspend_last [of h fr c p] p s assms(2)
      by (auto simp: task_inv_def task_refs_def)
  next
    case False
    then show ?thesis
      using internal_final_suspend_more [of h fr c p] p s assms(2)
      by (auto simp: task_inv_def task_refs_def)
  qed
qed

lemma task_inv_copy:
  assumes "task_inv h n s" and "0 < n"
  shows "\<exists>s'. internal_task_copy h s = (Ret h, s') \<and> task_inv h (n + 1) s'"
proof -
  obtain fr c where s: "s = (fr, c)" by (cases s)
  obtain p where p: "c h = Some p" "ip_count p = task_refs h n s"
    using task_inv_alive [OF assms(1)] assms(2) s by auto
  then show ?thesis using s assms(2) by (auto simp: op_simps task_inv_def task_refs_def)
qed

lemma task_reach_inv: "task_reach h n s \<Longrightarrow> task_inv h n s"
proof (induction rule: task_reach.induct)
  case (spawned fr c sa s)
  then show ?case by (auto simp: spawn_apply task_inv_def task_refs_def)
next
  case (copied n s t s')
  then show ?case using task_inv_copy by fastforce
next
  case (dropped n s s')
  then show ?case using task_inv_drop by fastforce
next
  case (finished n s k s')
  then show ?case using task_inv_finish by fastforce
qed

subsection \<open>Properties\<close>

text \<open>
  C13: the frame of a spawned coroutine lives exactly as long as it is referenced: in every state
  reached from \<^verbatim>\<open>spawn\<close> by copying and destroying handles and by the end of the coroutine, the
  frame has been destroyed if and only if no handle is left and the task map no longer holds it;
  while a handle is left, destroying it succeeds, and while the map holds the task, its final
  suspension succeeds (no assertion fails, no destroyed frame is touched).
\<close>

theorem task_frame_lifetime:
  assumes "task_reach h n s"
  shows "(snd s h = None \<longleftrightarrow> n = 0 \<and> h \<notin> tasks (fst s)) \<and>
         (\<forall>p. snd s h = Some p \<longrightarrow> ip_count p = task_refs h n s) \<and>
         (0 < n \<longrightarrow> (\<exists>s'. internal_task_dtor (Some h) s = (Ret (), s'))) \<and>
         (h \<in> tasks (fst s) \<longrightarrow> (\<exists>k s'. internal_final_suspend h s = (Ret k, s') \<and> h \<notin> tasks (fst s')))"
proof -
  have inv: "task_inv h n s" using assms by (rule task_reach_inv)
  then have "snd s h = None \<longleftrightarrow> n = 0 \<and> h \<notin> tasks (fst s)"
    and "\<forall>p. snd s h = Some p \<longrightarrow> ip_count p = task_refs h n s"
    by (auto simp: task_inv_def task_refs_def split: option.splits if_splits)
  then show ?thesis using task_inv_drop [OF inv] task_inv_finish [OF inv] by blast
qed

lemma ex_task_reach:
  "task_reach 64 0 (ex_frame\<lparr>run_queue := [64]\<rparr>, Map.empty :: (unit coros))"
proof -
  let ?p = "\<lparr>ip_variant = V_uninitialized, ip_continuation = None, ip_count = 2\<rparr> :: unit internal_promise"
  let ?fr = "ex_frame\<lparr>tasks := {64}, run_queue := [64]\<rparr>"
  have "task_reach 64 1 (?fr, [64 \<mapsto> ?p])"
    by (rule task_reach.spawned [of _ ex_frame Map.empty]) (simp add: spawn_apply ex_frame_def)
  moreover have "internal_task_dtor (Some 64) (?fr, [64 \<mapsto> ?p]) = (Ret (), (?fr, [64 \<mapsto> ?p\<lparr>ip_count := 1\<rparr>]))"
    by (simp add: op_simps)
  ultimately have "task_reach 64 0 (?fr, [64 \<mapsto> ?p\<lparr>ip_count := 1\<rparr>])"
    using task_reach.dropped [of 64 1] by simp
  moreover have "internal_final_suspend 64 (?fr, [64 \<mapsto> ?p\<lparr>ip_count := 1\<rparr>]) =
      (Ret None, (ex_frame\<lparr>run_queue := [64]\<rparr>, Map.empty))"
    by (subst internal_final_suspend_last) (auto simp: ex_frame_def)
  ultimately show ?thesis using task_reach.finished [of 64 0] by fastforce
qed

theorem task_frame_lifetime_witness:
  "64 \<notin> tasks (fst (ex_frame\<lparr>run_queue := [64]\<rparr>, Map.empty :: (unit coros)))"
  using task_frame_lifetime [OF ex_task_reach] by auto

text \<open>
  C31: awaiting a spawned task yields its result in both orders. If the awaiter comes first it is
  suspended, the end of the coroutine hands control to it, and the value is read; if the coroutine
  ends first, the awaiter does not suspend and reads the value. In both cases the destructor of the
  awaitable then destroys the frame, and the task has left the task map.
\<close>

theorem spawn_await_value:
  fixes fr :: "'r io_context_frame" and c :: "'v coros"
  shows "\<exists>fr'. tasks fr' = tasks fr - {h} \<and> run_queue fr' = run_queue fr @ [h] \<and>
     bindM (spawn h) (\<lambda>sa. bindM (spawn_await_suspend a sa) (\<lambda>suspended.
       thenM (internal_return_value h v) (bindM (internal_final_suspend h) (\<lambda>k.
         bindM (spawn_await_resume sa) (\<lambda>(x, sa'). thenM (spawn_awaitable_dtor sa') (retM (suspended, k, x))))))) (fr, c)
       = (Ret (True, Some a, Inr v), (fr', c(h := None))) \<and>
     bindM (spawn h) (\<lambda>sa. thenM (internal_return_value h v) (bindM (internal_final_suspend h) (\<lambda>k.
       bindM (spawn_await_suspend a sa) (\<lambda>suspended.
         bindM (spawn_await_resume sa) (\<lambda>(x, sa'). thenM (spawn_awaitable_dtor sa') (retM (suspended, k, x))))))) (fr, c)
       = (Ret (False, None, Inr v), (fr', c(h := None)))"
  by (intro exI [of _ "fr\<lparr>tasks := tasks fr - {h}, run_queue := run_queue fr @ [h]\<rparr>"])
    (simp add: spawn_apply internal_final_suspend_more variant_result_def bindM_def op_simps)


text \<open>
  \<^verbatim>\<open>co_await\<close> of a \<^verbatim>\<open>task\<close>: a fresh task is not ready; awaiting it runs the task itself next and
  the end of its body continues the awaiter, which then finds the value or the exception; a second
  awaiter fails the assertion of \<^verbatim>\<open>set_continuation\<close>.
\<close>

theorem task_await_protocol:
  "\<not> task_await_ready (Some h) (promise_new :: 'v promise) \<and>
   (case task_await_suspend h a (promise_new :: 'v promise) of (o1, p1) \<Rightarrow>
      o1 = Ret h \<and>
      fst (task_await_suspend h b p1) = Assert_failed \<and>
      (case promise_final_suspend (promise_return_value v p1) of (o2, p2) \<Rightarrow>
         o2 = Ret (Some a) \<and> task_await_ready (Some h) p2 \<and> promise_result p2 = Ret (Inr v)) \<and>
      (case promise_final_suspend (promise_unhandled_exception ep p1) of (o2, p2) \<Rightarrow>
         o2 = Ret (Some a) \<and> task_await_ready (Some h) p2 \<and> promise_result p2 = Ret (Inl ep)))"
  by (simp add: task_await_ready_def task_await_suspend_def set_continuation_def promise_new_def
      promise_final_suspend_def promise_return_value_def promise_unhandled_exception_def promise_result_def
      variant_result_def op_simps)

end
