(* ===== verification/Frames.thy ===== *)
theory Frames
  imports Executor
begin

section \<open>Reference counts and completion frames (\<open>detail/awaitable_base.hpp\<close>)\<close>

text \<open>
  Every I/O object is a \<^verbatim>\<open>ref_count\<close> with several frames as base classes. A frame is what the
  kernel's user data points to: starting an operation writes an entry with a pointer to the frame
  and adds a reference; the run loop adopts that reference when the completion arrives
  (\<^verbatim>\<open>await_process_cqe\<close>, then \<^verbatim>\<open>handle\<close>) and releases it. This theory holds the reference count, the
  fields and members that the frames share, and two interfaces as locales: \<open>one_shot\<close>, the
  contract of one asynchronous operation of an object, and \<open>guarded_one_shot\<close>, which adds the
  \<^verbatim>\<open>EBUSY\<close> guard. The objects' theories interpret them on their own operations.
\<close>

subsection \<open>\<open>ref_count\<close>\<close>

record ref_count =
  rc_this :: addr
  rc_count :: int

definition use_count :: "'a ref_count_scheme \<Rightarrow> int" where
  "use_count ob = rc_count ob"

definition intrusive_ptr_add_ref :: "('r io_context_frame \<times> 'a ref_count_scheme, unit) op" where
  "intrusive_ptr_add_ref = on_obj (\<lambda>ob. ob\<lparr>rc_count := rc_count ob + 1\<rparr>)"

text \<open>\<open>dtor\<close> is the virtual destructor; the result says whether the object has been deleted.\<close>

definition intrusive_ptr_release ::
  "('r io_context_frame \<times> 'a ref_count_scheme, unit) op \<Rightarrow> ('r io_context_frame \<times> 'a ref_count_scheme, bool) op" where
  "intrusive_ptr_release dtor =
     thenM (on_obj (\<lambda>ob. ob\<lparr>rc_count := rc_count ob - 1\<rparr>))
       (\<lambda>s. if rc_count (snd s) = 0 then thenM dtor (retM True) s else (Ret False, s))"

lemma add_ref_apply [op_simps]:
  "intrusive_ptr_add_ref (fr, ob) = (Ret (), (fr, ob\<lparr>rc_count := rc_count ob + 1\<rparr>))"
  by (simp add: intrusive_ptr_add_ref_def op_simps)

lemma release_apply:
  "intrusive_ptr_release dtor (fr, ob) =
     (if rc_count ob = 1 then thenM dtor (retM True) (fr, ob\<lparr>rc_count := 0\<rparr>)
      else (Ret False, (fr, ob\<lparr>rc_count := rc_count ob - 1\<rparr>)))"
  by (simp add: intrusive_ptr_release_def op_simps)

text \<open>An operation that reads the object before it runs.\<close>

definition with_obj :: "('o \<Rightarrow> ('r io_context_frame \<times> 'o, 'a) op) \<Rightarrow> ('r io_context_frame \<times> 'o, 'a) op" where
  "with_obj f s = f (snd s) s"

lemma with_obj_apply [op_simps]: "with_obj f (fr, ob) = f ob (fr, ob)"
  by (simp add: with_obj_def)

subsection \<open>The members the frames share\<close>

text \<open>
  \<^verbatim>\<open>cancel_frame\<close>, \<^verbatim>\<open>close_frame\<close>, \<^verbatim>\<open>socket_frame\<close>, \<^verbatim>\<open>connect_frame\<close> and \<^verbatim>\<open>acceptor_close_frame\<close> have
  exactly these fields; \<^verbatim>\<open>shutdown_frame\<close> and \<^verbatim>\<open>send_frame\<close> extend them.
\<close>

record op_frame =
  of_h :: "handle option"
  of_res :: int
  of_initiated :: bool
  of_done :: bool

definition op_frame_new :: op_frame where
  "op_frame_new = \<lparr>of_h = None, of_res = 0, of_initiated = False, of_done = False\<rparr>"

definition op_frame_reset :: "'a op_frame_scheme \<Rightarrow> 'a op_frame_scheme" where
  "op_frame_reset f = f\<lparr>of_h := None, of_res := 0, of_initiated := False, of_done := False\<rparr>"

definition op_frame_process :: "cqe \<Rightarrow> 'a op_frame_scheme \<Rightarrow> 'a op_frame_scheme" where
  "op_frame_process c f = f\<lparr>of_done := True, of_res := cqe_res c\<rparr>"

definition op_frame_handle :: "'a op_frame_scheme \<Rightarrow> handle option \<times> 'a op_frame_scheme" where
  "op_frame_handle f = (of_h f, f\<lparr>of_h := None\<rparr>)"

definition op_frame_active :: "'a op_frame_scheme \<Rightarrow> bool" where
  "op_frame_active f = (of_initiated f \<and> \<not> of_done f)"

definition op_frame_start :: "handle \<Rightarrow> 'a op_frame_scheme \<Rightarrow> 'a op_frame_scheme" where
  "op_frame_start h f = f\<lparr>of_initiated := True, of_h := Some h\<rparr>"

lemmas op_frame_defs = op_frame_reset_def op_frame_process_def op_frame_handle_def op_frame_active_def
  op_frame_start_def

text \<open>The two ways in which \<^verbatim>\<open>await_resume\<close> turns \<^verbatim>\<open>res_\<close> into a result.\<close>

definition result_of_res :: "int \<Rightarrow> int fiona_result" where
  "result_of_res res = (if res < 0 then Inl (- res) else Inr res)"

definition void_result_of_res :: "int \<Rightarrow> unit fiona_result" where
  "void_result_of_res res = (if res = 0 then Inr () else Inl (- res))"

subsection \<open>Issuing entries from an object\<close>

text \<open>Reserve \<open>n\<close> entries, then write the entries \<open>es\<close>.\<close>

definition issue_sqes :: "'r platform \<Rightarrow> nat \<Rightarrow> sqe list \<Rightarrow> ('r, unit) op" where
  "issue_sqes E n es = thenM (reserve_sqes E n) (put_sqes E es)"

lemma on_issue_one:
  assumes "uring_laws E issued n"
  obtains r' where "on_ring (issue_one E e) (fr, ob) = (Ret (), (fr\<lparr>io_ring := r'\<rparr>, ob))"
    and "issued r' = issued (io_ring fr) @ [e]"
  by (rule issue_one_ok [OF assms, of e "io_ring fr"]) (use that in \<open>auto simp: op_simps\<close>)

lemma on_get_sqe:
  assumes "uring_laws E issued n"
  obtains r' where "on_ring (get_sqe E e) (fr, ob) = (Ret (), (fr\<lparr>io_ring := r'\<rparr>, ob))"
    and "issued r' = issued (io_ring fr) @ [e]"
  by (rule get_sqe_ok [OF assms, of e "io_ring fr"]) (use that in \<open>auto simp: op_simps\<close>)

lemma on_submit_ring:
  assumes "uring_laws E issued n"
  obtains r' where "on_ring (submit_ring E) (fr, ob) = (Ret (), (fr\<lparr>io_ring := r'\<rparr>, ob))"
    and "issued r' = issued (io_ring fr)"
  by (rule submit_ring_ok [OF assms, of "io_ring fr"]) (use that in \<open>auto simp: op_simps\<close>)

lemma on_issue_sqes:
  assumes "uring_laws E issued n" and "length es \<le> k" and "k \<le> 3"
  obtains r' where "on_ring (issue_sqes E k es) (fr, ob) = (Ret (), (fr\<lparr>io_ring := r'\<rparr>, ob))"
    and "issued r' = issued (io_ring fr) @ es"
proof -
  obtain q where q: "reserve_sqes E k (io_ring fr) = (Ret (), q)" "issued q = issued (io_ring fr)"
      "k \<le> sq_space_left E q"
    by (rule reserve_sqes_ok [OF assms(1,3)])
  then obtain r' where "put_sqes E es q = (Ret (), r')" "issued r' = issued q @ es"
    using put_sqes_ok [OF assms(1), of es q] assms(2) by auto
  with q that show ?thesis by (auto simp: issue_sqes_def op_simps)
qed

text \<open>The cancellation that the destructor of an awaitable submits for an operation in flight.\<close>

definition cancel_sqe :: "user_data \<Rightarrow> sqe" where
  "cancel_sqe ud = \<lparr>sqe_prep = Prep_cancel ud, sqe_flags = [IOSQE_CQE_SKIP_SUCCESS], sqe_data = UD_null\<rparr>"

definition cancel_in_flight :: "'r platform \<Rightarrow> user_data \<Rightarrow> ('r io_context_frame \<times> 'o, unit) op" where
  "cancel_in_flight E ud = thenM (on_ring (issue_one E (cancel_sqe ud))) (on_ring (submit_ring E))"

lemma cancel_in_flight_ok:
  assumes "uring_laws E issued n"
  obtains r' where "cancel_in_flight E ud (fr, ob) = (Ret (), (fr\<lparr>io_ring := r'\<rparr>, ob))"
    and "issued r' = issued (io_ring fr) @ [cancel_sqe ud]"
proof -
  obtain r1 where r1: "on_ring (issue_one E (cancel_sqe ud)) (fr, ob) = (Ret (), (fr\<lparr>io_ring := r1\<rparr>, ob))"
      "issued r1 = issued (io_ring fr) @ [cancel_sqe ud]"
    by (rule on_issue_one [OF assms])
  obtain r2 where "on_ring (submit_ring E) (fr\<lparr>io_ring := r1\<rparr>, ob) = (Ret (), (fr\<lparr>io_ring := r1, io_ring := r2\<rparr>, ob))"
      "issued r2 = issued r1"
    using on_submit_ring [OF assms, of "fr\<lparr>io_ring := r1\<rparr>" ob] by auto
  with r1 that show ?thesis by (simp add: cancel_in_flight_def op_simps)
qed

text \<open>
  The destructor of an object that owns a direct descriptor: close it without a completion, give
  the number back to the pool.
\<close>

definition close_sqe :: "int \<Rightarrow> sqe" where
  "close_sqe fd = \<lparr>sqe_prep = Prep_close_direct (of_int fd), sqe_flags = [IOSQE_CQE_SKIP_SUCCESS], sqe_data = UD_null\<rparr>"

definition close_owned_fd :: "'r platform \<Rightarrow> int \<Rightarrow> ('r io_context_frame \<times> 'o, unit) op" where
  "close_owned_fd E fd =
     thenM (on_ring (get_sqe E (close_sqe fd)))
       (thenM (on_ring (submit_ring E)) (on_frame (release_fd fd)))"

definition owned_fd_ok :: "'r io_context_frame \<Rightarrow> int \<Rightarrow> bool" where
  "owned_fd_ok fr fd = (0 \<le> fd \<and> fd < int (unat (num_files (params fr))) \<and> fd \<notin> fds fr)"

lemma frame_update_simps [simp]:
  "owned_fd_ok (fr\<lparr>io_ring := r\<rparr>) fd = owned_fd_ok fr fd"
  "owned_fd_ok (fr\<lparr>buf_rings := b\<rparr>) fd = owned_fd_ok fr fd"
  "fd_inv (fr\<lparr>io_ring := r\<rparr>) = fd_inv fr"
  "fd_inv (fr\<lparr>buf_rings := b\<rparr>) = fd_inv fr"
  "groups_inv (fr\<lparr>io_ring := r\<rparr>) = groups_inv fr"
  "groups_inv (fr\<lparr>fds := f\<rparr>) = groups_inv fr"
  by (simp_all add: owned_fd_ok_def fd_inv_def groups_inv_def)

lemma close_owned_fd_ok:
  assumes "uring_laws E issued n" and "fd_inv fr" and "owned_fd_ok fr fd"
  obtains r' where "close_owned_fd E fd (fr, ob) = (Ret (), (fr\<lparr>io_ring := r', fds := insert fd (fds fr)\<rparr>, ob))"
    and "issued r' = issued (io_ring fr) @ [close_sqe fd]"
proof -
  obtain r1 where r1: "on_ring (get_sqe E (close_sqe fd)) (fr, ob) = (Ret (), (fr\<lparr>io_ring := r1\<rparr>, ob))"
      "issued r1 = issued (io_ring fr) @ [close_sqe fd]"
    by (rule on_get_sqe [OF assms(1)])
  obtain r2 where r2: "on_ring (submit_ring E) (fr\<lparr>io_ring := r1\<rparr>, ob) = (Ret (), (fr\<lparr>io_ring := r1, io_ring := r2\<rparr>, ob))"
      "issued r2 = issued r1"
    using on_submit_ring [OF assms(1), of "fr\<lparr>io_ring := r1\<rparr>" ob] by auto
  have "release_fd fd (fr\<lparr>io_ring := r2\<rparr>) = (Ret (), fr\<lparr>io_ring := r2, fds := insert fd (fds fr)\<rparr>)"
    using assms(2,3) by (subst release_fd_ok) (auto simp: owned_fd_ok_def fd_inv_def)
  with r1 r2 that show ?thesis by (simp add: close_owned_fd_def op_simps)
qed

subsection \<open>The contract of one asynchronous operation\<close>

text \<open>
  One operation from its start to the result: \<open>run_op\<close> is what happens between \<^verbatim>\<open>co_await\<close> and the
  next statement of the coroutine, when nothing else touches the object. It returns the handle
  that the run loop resumes and the result of \<^verbatim>\<open>await_resume\<close>.
\<close>

definition finish_op ::
  "(cqe \<Rightarrow> ('s, unit) op) \<Rightarrow> ('s, handle option) op \<Rightarrow> ('s, 'a) op \<Rightarrow> cqe \<Rightarrow> ('s, handle option \<times> 'a) op" where
  "finish_op process take_handle resume c =
     thenM (process c) (bindM take_handle (\<lambda>k. bindM resume (\<lambda>v. retM (k, v))))"

definition run_op ::
  "(handle \<Rightarrow> ('s, unit) op) \<Rightarrow> (cqe \<Rightarrow> ('s, unit) op) \<Rightarrow> ('s, handle option) op \<Rightarrow> ('s, 'a) op \<Rightarrow>
     handle \<Rightarrow> cqe \<Rightarrow> ('s, handle option \<times> 'a) op" where
  "run_op start process take_handle resume h c = thenM (start h) (finish_op process take_handle resume c)"

text \<open>
  An operation of an object is \<open>idle\<close>, then \<open>waiting\<close> for its completion on behalf of a coroutine,
  then \<open>completed\<close>, then \<open>finished\<close> once the run loop has taken the handle; \<^verbatim>\<open>await_resume\<close> returns
  the value of the completion and makes it idle again. \<open>refs\<close> is the object's reference count:
  only the start adds one, which belongs to the completion.
\<close>

locale one_shot =
  fixes ok :: "'s \<Rightarrow> bool"
    and refs :: "'s \<Rightarrow> int"
    and idle :: "'s \<Rightarrow> bool"
    and waiting :: "handle \<Rightarrow> 's \<Rightarrow> bool"
    and completed :: "handle \<Rightarrow> cqe \<Rightarrow> 's \<Rightarrow> bool"
    and finished :: "cqe \<Rightarrow> 's \<Rightarrow> bool"
    and start :: "handle \<Rightarrow> ('s, unit) op"
    and process :: "cqe \<Rightarrow> ('s, unit) op"
    and take_handle :: "('s, handle option) op"
    and resume :: "('s, 'a) op"
    and admissible :: "cqe \<Rightarrow> bool"
    and val :: "cqe \<Rightarrow> 'a"
  assumes start_ok: "ok s \<Longrightarrow> idle s \<Longrightarrow>
      \<exists>s'. start h s = (Ret (), s') \<and> ok s' \<and> waiting h s' \<and> refs s' = refs s + 1"
    and process_ok: "ok s \<Longrightarrow> waiting h s \<Longrightarrow> admissible c \<Longrightarrow>
      \<exists>s'. process c s = (Ret (), s') \<and> ok s' \<and> completed h c s' \<and> refs s' = refs s"
    and handle_ok: "ok s \<Longrightarrow> completed h c s \<Longrightarrow>
      \<exists>s'. take_handle s = (Ret (Some h), s') \<and> ok s' \<and> finished c s' \<and> refs s' = refs s"
    and resume_ok: "ok s \<Longrightarrow> finished c s \<Longrightarrow> admissible c \<Longrightarrow>
      \<exists>s'. resume s = (Ret (val c), s') \<and> ok s' \<and> idle s' \<and> refs s' = refs s"
begin

text \<open>
  The whole operation: the coroutine that started it is the one resumed, it receives the value of
  the completion, and the operation can be started again. The reference added at the start is
  still held: it is the one the run loop releases.
\<close>

lemma run_op_ok:
  assumes "ok s" and "idle s" and "admissible c"
  shows "\<exists>s'. run_op start process take_handle resume h c s = (Ret (Some h, val c), s') \<and> ok s' \<and> idle s' \<and> refs s' = refs s + 1"
proof -
  obtain s1 where s1: "start h s = (Ret (), s1)" "ok s1" "waiting h s1" "refs s1 = refs s + 1"
    using start_ok [OF assms(1,2)] by blast
  obtain s2 where s2: "process c s1 = (Ret (), s2)" "ok s2" "completed h c s2" "refs s2 = refs s1"
    using process_ok [OF s1(2,3) assms(3)] by blast
  obtain s3 where s3: "take_handle s2 = (Ret (Some h), s3)" "ok s3" "finished c s3" "refs s3 = refs s2"
    using handle_ok [OF s2(2,3)] by blast
  obtain s4 where s4: "resume s3 = (Ret (val c), s4)" "ok s4" "idle s4" "refs s4 = refs s3"
    using resume_ok [OF s3(2,3) assms(3)] by blast
  have "run_op start process take_handle resume h c s = (Ret (Some h, val c), s4)"
    using s1(1) s2(1) s3(1) s4(1) by (simp add: run_op_def finish_op_def op_simps)
  then show ?thesis using s1 s2 s3 s4 by auto
qed

end

locale guarded_one_shot = one_shot +
  assumes start_busy: "ok s \<Longrightarrow> waiting h s \<Longrightarrow> start k s = (Throw EBUSY, s)"
begin

text \<open>
  A second start while the first is in flight throws \<^verbatim>\<open>EBUSY\<close> and changes nothing, so the first
  operation still completes for its own coroutine.
\<close>

lemma second_start_harmless:
  assumes "ok s" and "idle s" and "admissible c"
  shows "\<exists>s1 s'. start h s = (Ret (), s1) \<and> start k s1 = (Throw EBUSY, s1) \<and>
           finish_op process take_handle resume c s1 = (Ret (Some h, val c), s') \<and>
           idle s' \<and> refs s' = refs s + 1"
proof -
  obtain s1 where s1: "start h s = (Ret (), s1)" "ok s1" "waiting h s1" using start_ok [OF assms(1,2)] by blast
  moreover obtain s' where s': "run_op start process take_handle resume h c s = (Ret (Some h, val c), s')" "idle s'" "refs s' = refs s + 1"
    using run_op_ok [OF assms] by blast
  ultimately show ?thesis
    using start_busy [OF s1(2,3)] s1(1) by (auto simp: run_op_def op_simps)
qed

end

end
