(* ===== verification/Run_Loop.thy ===== *)
theory Run_Loop
  imports Frames "HOL-Library.Multiset"
begin

section \<open>The run loop (\<open>io_context.hpp\<close>, \<open>io_context.cpp\<close>)\<close>

text \<open>
  \<^verbatim>\<open>io_context::run\<close> over a world of objects and coroutines: the state is the shared frame of the
  runtime and whatever the objects keep. What the loop calls through pointers is the record
  \<open>objects\<close>: the virtual functions of the frames, the release of a pointer, and \<^verbatim>\<open>resume()\<close> of a
  coroutine. The loops that need not end are partial functions: \<open>None\<close> is a run that never returns.
  An exception that is rethrown is the value \<open>Some x\<close> of the result; the number \<open>x\<close> names it.
\<close>

type_synonym ('r, 'w) world = "'r io_context_frame \<times> 'w"

record ('r, 'w) objects =
  ob_process :: "user_data \<Rightarrow> cqe \<Rightarrow> (('r, 'w) world, unit) op"
  ob_handle :: "user_data \<Rightarrow> (('r, 'w) world, handle option) op"
  ob_use_count :: "user_data \<Rightarrow> 'w \<Rightarrow> int"
  ob_release :: "user_data \<Rightarrow> (('r, 'w) world, unit) op"
  co_resume :: "handle \<Rightarrow> (('r, 'w) world, unit) op"
  clear_map :: "(('r, 'w) world, unit) op"
  pipe_enter :: "(('r, 'w) world, unit) op"
  pipe_leave :: "(('r, 'w) world, unit) op"

definition cq_advance :: "'r platform \<Rightarrow> nat \<Rightarrow> (('r, 'w) world, unit) op" where
  "cq_advance E k = on_ring (\<lambda>r. (Ret (), io_uring_cq_advance E r k))"

subsection \<open>One batch of completions\<close>

text \<open>
  One completion: its pointer is adopted, the frame processes it and gives up its handle, and the pending
  exception is looked at while the pointer is still held; leaving the block releases it, by
  an exception as well.
\<close>

definition deliver_one :: "('r, 'w) objects \<Rightarrow> cqe \<Rightarrow> (('r, 'w) world, nat + handle option) op" where
  "deliver_one R c s =
     (case thenM (with_obj (\<lambda>w. assertM (ob_use_count R (cqe_data c) w \<ge> 1)))
             (thenM (ob_process R (cqe_data c) c) (ob_handle R (cqe_data c))) s of
        (Ret k, s1) \<Rightarrow>
          thenM (ob_release R (cqe_data c))
            (retM (case exception_ptr (fst s1) of Some x \<Rightarrow> Inl x | None \<Rightarrow> Inr k)) s1
      | (Throw e, s1) \<Rightarrow> thenM (ob_release R (cqe_data c)) (throwM e) s1
      | (Assert_failed, s1) \<Rightarrow> (Assert_failed, s1)
      | (Bad_access, s1) \<Rightarrow> (Bad_access, s1))"

text \<open>The loop with its \<^verbatim>\<open>advance_guard\<close>: only the completions before an exception are consumed.\<close>

fun batch_loop ::
  "'r platform \<Rightarrow> ('r, 'w) objects \<Rightarrow> nat \<Rightarrow> handle list \<Rightarrow> cqe list \<Rightarrow> (('r, 'w) world, nat + handle list) op" where
  "batch_loop E R seen hs [] s = thenM (cq_advance E seen) (retM (Inr hs)) s"
| "batch_loop E R seen hs (c # cs) s =
     (if cqe_data c = UD_null then batch_loop E R (seen + 1) hs cs s
      else case deliver_one R c s of
        (Ret (Inr k), s1) \<Rightarrow> batch_loop E R (seen + 1) (case k of None \<Rightarrow> hs | Some h \<Rightarrow> hs @ [h]) cs s1
      | (Ret (Inl x), s1) \<Rightarrow> thenM (cq_advance E seen) (retM (Inl x)) s1
      | (Throw e, s1) \<Rightarrow> thenM (cq_advance E seen) (throwM e) s1
      | (Assert_failed, s1) \<Rightarrow> (Assert_failed, s1)
      | (Bad_access, s1) \<Rightarrow> (Bad_access, s1))"

text \<open>
  The vectors for the completions and the handles have \<^verbatim>\<open>params_.cq_entries\<close> elements; more
  completions than that are written past their end.
\<close>

definition run_batch :: "'r platform \<Rightarrow> ('r, 'w) objects \<Rightarrow> (('r, 'w) world, nat + handle list) op" where
  "run_batch E R s =
     (let cs = cq_ready E (io_ring (fst s)) in
      if length cs > unat (cq_entries (params (fst s))) then (Bad_access, s) else batch_loop E R 0 [] cs s)"

fun resume_all :: "('r, 'w) objects \<Rightarrow> handle list \<Rightarrow> (('r, 'w) world, unit) op" where
  "resume_all R [] = retM ()"
| "resume_all R (h # hs) = thenM (co_resume R h) (resume_all R hs)"

subsection \<open>The run queue\<close>

definition pop_run_queue :: "(('r, 'w) world, unit) op" where
  "pop_run_queue s =
     (case run_queue (fst s) of [] \<Rightarrow> (Bad_access, s) | _ # q \<Rightarrow> (Ret (), ((fst s)\<lparr>run_queue := q\<rparr>, snd s)))"

partial_function (option) run_queue_loop ::
  "('r, 'w) objects \<Rightarrow> ('r, 'w) world \<Rightarrow> (nat option outcome \<times> ('r, 'w) world) option" where
  "run_queue_loop R s =
     (case run_queue (fst s) of
        [] \<Rightarrow> Some (Ret None, s)
      | h # _ \<Rightarrow>
          (case thenM (co_resume R h) pop_run_queue s of
             (Ret _, s1) \<Rightarrow>
               (case exception_ptr (fst s1) of
                  Some x \<Rightarrow> Some (Ret (Some x), s1)
                | None \<Rightarrow> run_queue_loop R s1)
           | (Throw e, s1) \<Rightarrow> Some (Throw e, s1)
           | (Assert_failed, s1) \<Rightarrow> Some (Assert_failed, s1)
           | (Bad_access, s1) \<Rightarrow> Some (Bad_access, s1)))"

subsection \<open>\<open>run\<close>\<close>

definition submit_and_wait :: "'r platform \<Rightarrow> (('r, 'w) world, unit) op" where
  "submit_and_wait E = on_ring (\<lambda>r. (Ret (), io_uring_submit_and_wait E r))"

text \<open>One iteration after the run queue is empty: wait, process a batch, resume its coroutines.\<close>

definition wait_and_deliver :: "'r platform \<Rightarrow> ('r, 'w) objects \<Rightarrow> (('r, 'w) world, nat option) op" where
  "wait_and_deliver E R =
     thenM (submit_and_wait E) (bindM (run_batch E R)
       (\<lambda>b. case b of Inl x \<Rightarrow> retM (Some x) | Inr hs \<Rightarrow> thenM (resume_all R hs) (retM None)))"

partial_function (option) run_loop ::
  "'r platform \<Rightarrow> ('r, 'w) objects \<Rightarrow> ('r, 'w) world \<Rightarrow> (nat option outcome \<times> ('r, 'w) world) option" where
  "run_loop E R s =
     (if tasks (fst s) = {} then Some (Ret (exception_ptr (fst s)), s)
      else if exception_ptr (fst s) \<noteq> None then Some (Ret (exception_ptr (fst s)), s)
      else Option.bind (run_queue_loop R s) (\<lambda>(x, s1).
        if x \<noteq> Ret None then Some (x, s1)
        else if tasks (fst s1) = {} then Some (Ret (exception_ptr (fst s1)), s1)
        else case wait_and_deliver E R s1 of
          (Ret None, s2) \<Rightarrow> run_loop E R s2
        | (x2, s2) \<Rightarrow> Some (x2, s2)))"

text \<open>
  The guard of \<^verbatim>\<open>run\<close>: submit, clear the task map, then release the object of every completion that is
  left, once per object.
\<close>

partial_function (option) drain_loop ::
  "'r platform \<Rightarrow> ('r, 'w) objects \<Rightarrow> user_data list \<Rightarrow> ('r, 'w) world \<Rightarrow> (unit outcome \<times> ('r, 'w) world) option" where
  "drain_loop E R blacklist s =
     (case cq_ready E (io_ring (fst s)) of
        [] \<Rightarrow> Some (Ret (), s)
      | c # _ \<Rightarrow>
          (if cqe_data c = UD_null \<or> cqe_data c \<in> set blacklist
           then drain_loop E R blacklist (snd (cq_advance E 1 s))
           else case ob_release R (cqe_data c) s of
             (Ret _, s1) \<Rightarrow> drain_loop E R (cqe_data c # blacklist) (snd (cq_advance E 1 s1))
           | (y, s1) \<Rightarrow> Some (y, s1)))"

definition guard_dtor ::
  "'r platform \<Rightarrow> ('r, 'w) objects \<Rightarrow> ('r, 'w) world \<Rightarrow> (unit outcome \<times> ('r, 'w) world) option" where
  "guard_dtor E R s =
     (case thenM (on_ring (\<lambda>r. (Ret (), io_uring_submit E r))) (clear_map R) s of
        (Ret _, s1) \<Rightarrow> drain_loop E R [] s1
      | (y, s1) \<Rightarrow> Some (y, s1))"

text \<open>
  An exception that leaves a destructor terminates the program. A failed assertion or a bad access
  ends it at once, without destructors.
\<close>

definition after_dtor :: "unit outcome \<Rightarrow> 'a outcome \<Rightarrow> 'a outcome" where
  "after_dtor y x = (case y of Ret _ \<Rightarrow> x | Bad_access \<Rightarrow> Bad_access | _ \<Rightarrow> Assert_failed)"

definition aborted :: "'a outcome \<Rightarrow> bool" where
  "aborted x = (case x of Assert_failed \<Rightarrow> True | Bad_access \<Rightarrow> True | _ \<Rightarrow> False)"

definition run ::
  "'r platform \<Rightarrow> ('r, 'w) objects \<Rightarrow> ('r, 'w) world \<Rightarrow> (nat option outcome \<times> ('r, 'w) world) option" where
  "run E R s =
     Option.bind
       (case pipe_enter R s of
          (Ret _, s1) \<Rightarrow>
            Option.bind (run_loop E R s1) (\<lambda>(x, s2).
              if aborted x then Some (x, s2)
              else case pipe_leave R s2 of (y, s3) \<Rightarrow> Some (after_dtor y x, s3))
        | (Throw e, s1) \<Rightarrow> Some (Throw e, s1)
        | (Assert_failed, s1) \<Rightarrow> Some (Assert_failed, s1)
        | (Bad_access, s1) \<Rightarrow> Some (Bad_access, s1))
       (\<lambda>(x, s3). if aborted x then Some (x, s3)
          else map_option (\<lambda>(y, s4). (after_dtor y x, s4)) (guard_dtor E R s3))"

text \<open>\<^verbatim>\<open>~io_context\<close> runs the guard once more.\<close>

definition io_context_dtor ::
  "'r platform \<Rightarrow> ('r, 'w) objects \<Rightarrow> ('r, 'w) world \<Rightarrow> (unit outcome \<times> ('r, 'w) world) option" where
  "io_context_dtor E R s = guard_dtor E R s"

subsection \<open>Properties\<close>

text \<open>
  When a resumed coroutine only appends coroutines of smaller rank, and each of them keeps \<open>P\<close>,
  the queue loop returns with an empty queue.
\<close>

lemma run_queue_loop_inv:
  assumes step: "\<And>h q s. P s \<Longrightarrow> run_queue (fst s) = h # q \<Longrightarrow> exception_ptr (fst s) = None \<Longrightarrow>
      \<exists>s' new. co_resume R h s = (Ret (), s') \<and> run_queue (fst s') = run_queue (fst s) @ new \<and>
        (\<forall>k \<in> set new. rank k < (rank h :: nat)) \<and> exception_ptr (fst s') = None \<and>
        P ((fst s')\<lparr>run_queue := q @ new\<rparr>, snd s')"
    and "P s" and "exception_ptr (fst s) = None"
  shows "\<exists>s'. run_queue_loop R s = Some (Ret None, s') \<and> run_queue (fst s') = [] \<and>
     exception_ptr (fst s') = None \<and> P s'"
  using assms(2,3)
proof (induction "mset (map rank (run_queue (fst s)))" arbitrary: s rule: wf_induct_rule [OF wf_mult [OF wf_less_than]])
  case (1 s)
  show ?case
  proof (cases "run_queue (fst s)")
    case Nil
    then show ?thesis using 1(2,3) by (subst run_queue_loop.simps) simp
  next
    case (Cons h q)
    obtain s1 new where s1: "co_resume R h s = (Ret (), s1)" "run_queue (fst s1) = run_queue (fst s) @ new"
        "\<forall>k \<in> set new. rank k < rank h" "exception_ptr (fst s1) = None" "P ((fst s1)\<lparr>run_queue := q @ new\<rparr>, snd s1)"
      using step [OF 1(2) Cons 1(3)] by blast
    let ?s2 = "((fst s1)\<lparr>run_queue := q @ new\<rparr>, snd s1)"
    have run: "thenM (co_resume R h) pop_run_queue s = (Ret (), ?s2)"
      using s1(1,2) Cons by (simp add: pop_run_queue_def op_simps)
    have ne: "mset (map rank [h]) \<noteq> {#}" by simp
    have "\<forall>k \<in> set_mset (mset (map rank new)). \<exists>j \<in> set_mset (mset (map rank [h])). (k, j) \<in> less_than" using s1(3) by auto
    from one_step_implies_mult [OF ne this, of "mset (map rank q)"]
    have less: "(mset (map rank (run_queue (fst ?s2))), mset (map rank (run_queue (fst s)))) \<in> mult less_than"
      using Cons by (simp add: ac_simps)
    have exc: "exception_ptr (fst ?s2) = None" using s1(4) by simp
    obtain s' where s': "run_queue_loop R ?s2 = Some (Ret None, s')" "run_queue (fst s') = []"
        "exception_ptr (fst s') = None" "P s'"
      using 1(1) [OF less s1(5) exc] by blast
    have "run_queue_loop R s = Some (Ret None, s')"
      using Cons run exc s'(1) by (subst run_queue_loop.simps) simp
    then show ?thesis using s' by blast
  qed
qed

text \<open>
  The run queue is served first in, first out, and is emptied: when a resumed coroutine only
  appends coroutines of smaller rank to the queue (a spawned task that spawns again does so a bounded number of
  times), the loop returns, with an empty queue and no exception, and the coroutines that were
  queued at its start have been resumed in order before every one queued later.
\<close>

theorem run_queue_served:
  assumes resume: "\<And>h s. \<exists>s' new. co_resume R h s = (Ret (), s') \<and> run_queue (fst s') = run_queue (fst s) @ new \<and>
        (\<forall>k \<in> set new. rank k < (rank h :: nat)) \<and> exception_ptr (fst s') = exception_ptr (fst s) \<and>
        resumed (snd s') = resumed (snd s) @ [h]"
    and "exception_ptr (fst s) = None"
  shows "\<exists>s' later. run_queue_loop R s = Some (Ret None, s') \<and> run_queue (fst s') = [] \<and>
     exception_ptr (fst s') = None \<and> resumed (snd s') = resumed (snd s) @ run_queue (fst s) @ later"
proof -
  let ?P = "\<lambda>s'. \<exists>later. resumed (snd s') @ run_queue (fst s') = resumed (snd s) @ run_queue (fst s) @ later"
  have "\<exists>s2 new. co_resume R h s1 = (Ret (), s2) \<and> run_queue (fst s2) = run_queue (fst s1) @ new \<and>
      (\<forall>k \<in> set new. rank k < rank h) \<and> exception_ptr (fst s2) = None \<and> ?P ((fst s2)\<lparr>run_queue := q @ new\<rparr>, snd s2)"
    if s1: "?P s1" "run_queue (fst s1) = h # q" "exception_ptr (fst s1) = None" for h q s1
  proof -
    obtain s2 new where s2: "co_resume R h s1 = (Ret (), s2)" "run_queue (fst s2) = run_queue (fst s1) @ new"
        "\<forall>k \<in> set new. rank k < rank h" "exception_ptr (fst s2) = exception_ptr (fst s1)"
        "resumed (snd s2) = resumed (snd s1) @ [h]"
      using resume by blast
    obtain later where "resumed (snd s1) @ h # q = resumed (snd s) @ run_queue (fst s) @ later" using s1(1,2) by auto
    then have "resumed (snd s1) @ h # q @ new = resumed (snd s) @ run_queue (fst s) @ later @ new"
      by (metis append.assoc append_Cons)
    then have p: "?P ((fst s2)\<lparr>run_queue := q @ new\<rparr>, snd s2)" using s2(5) by (intro exI [of _ "later @ new"]) simp
    have "exception_ptr (fst s2) = None" using s2(4) s1(3) by simp
    then show ?thesis using s2(1-3) p by blast
  qed
  note step = this
  have "?P s" by simp
  from run_queue_loop_inv [where P = ?P and R = R and rank = rank, OF step this assms(2)]
  obtain s' where s': "run_queue_loop R s = Some (Ret None, s')" "run_queue (fst s') = []" "exception_ptr (fst s') = None" "?P s'"
    by blast
  then have "\<exists>later. resumed (snd s') = resumed (snd s) @ run_queue (fst s) @ later" by simp
  then show ?thesis using s'(1-3) by blast
qed

lemma run_queue_exc:
  assumes "run_queue_loop R s = Some y"
  shows "fst y = Ret (Some x) \<longrightarrow> exception_ptr (fst (snd y)) = Some x"
proof (rule run_queue_loop.raw_induct [where P = "\<lambda>R s y. fst y = Ret (Some x) \<longrightarrow> exception_ptr (fst (snd y)) = Some x", OF _ assms])
  fix loop :: "('a, 'b) objects \<Rightarrow> ('a, 'b) world \<Rightarrow> (nat option outcome \<times> ('a, 'b) world) option" and R s y
  assume "\<And>R s y. loop R s = Some y \<Longrightarrow> fst y = Ret (Some x) \<longrightarrow> exception_ptr (fst (snd y)) = Some x"
    and "(case run_queue (fst s) of [] \<Rightarrow> Some (Ret None, s)
      | h # _ \<Rightarrow> (case thenM (co_resume R h) pop_run_queue s of
           (Ret _, s1) \<Rightarrow> (case exception_ptr (fst s1) of None \<Rightarrow> loop R s1 | Some x \<Rightarrow> Some (Ret (Some x), s1))
         | (Throw e, s1) \<Rightarrow> Some (Throw e, s1) | (Assert_failed, s1) \<Rightarrow> Some (Assert_failed, s1)
         | (Bad_access, s1) \<Rightarrow> Some (Bad_access, s1))) = Some y"
  then show "fst y = Ret (Some x) \<longrightarrow> exception_ptr (fst (snd y)) = Some x"
    by (auto split: list.splits prod.splits outcome.splits option.splits)
qed

text \<open>Releasing a pointer does not clear a pending exception.\<close>

definition keeps_exception :: "('r, 'w) objects \<Rightarrow> bool" where
  "keeps_exception R =
     (\<forall>ud s x. exception_ptr (fst s) = Some x \<longrightarrow> exception_ptr (fst (snd (ob_release R ud s))) = Some x)"

lemma deliver_one_exc:
  assumes "keeps_exception R" and "deliver_one R c s = (Ret (Inl x), s')"
  shows "exception_ptr (fst s') = Some x"
proof -
  obtain s1 where "ob_release R (cqe_data c) s1 = (Ret (), s')" "exception_ptr (fst s1) = Some x"
    using assms(2)
    by (auto simp: deliver_one_def [of R c s] thenM_def [of "ob_release R (cqe_data c)"] bindM_def [of "ob_release R (cqe_data c)"]
        retM_def throwM_def split: prod.splits outcome.splits option.splits)
  then show ?thesis using assms(1) unfolding keeps_exception_def by (metis snd_conv)
qed

lemma batch_loop_exc:
  assumes "keeps_exception R"
  shows "batch_loop E R n hs cs s = (Ret (Inl x), s') \<Longrightarrow> exception_ptr (fst s') = Some x"
proof (induction cs arbitrary: n hs s)
  case Nil
  then show ?case by (auto simp: cq_advance_def on_ring_def thenM_def bindM_def retM_def split: prod.splits)
next
  case (Cons c cs)
  have one: "exception_ptr (fst s1) = Some x" if "deliver_one R c s = (Ret (Inl x), s1)" for s1 x
    using deliver_one_exc [OF assms that] .
  show ?case using Cons one
    by (auto simp: cq_advance_def on_ring_def thenM_def bindM_def retM_def throwM_def
        split: if_splits prod.splits outcome.splits sum.splits)
qed

lemma wait_and_deliver_exc:
  assumes "keeps_exception R" and "wait_and_deliver E R s = (Ret (Some x), s')"
  shows "exception_ptr (fst s') = Some x"
  using assms(2) batch_loop_exc [OF assms(1)]
  by (auto simp: wait_and_deliver_def thenM_def bindM_def retM_def run_batch_def Let_def
      split: if_splits prod.splits outcome.splits sum.splits)

lemma run_loop_exc:
  assumes keeps: "keeps_exception R" and run: "run_loop E R s = Some y"
  shows "fst y = Ret (Some x) \<longrightarrow> exception_ptr (fst (snd y)) = Some x"
proof -
  have "R = R0 \<longrightarrow> fst y = Ret (Some x) \<longrightarrow> exception_ptr (fst (snd y)) = Some x" if k: "keeps_exception R0" for R0
  proof (rule run_loop.raw_induct [where P = "\<lambda>E R s y. R = R0 \<longrightarrow> fst y = Ret (Some x) \<longrightarrow> exception_ptr (fst (snd y)) = Some x", OF _ run])
    fix loop :: "'a platform \<Rightarrow> ('a, 'b) objects \<Rightarrow> ('a, 'b) world \<Rightarrow> (nat option outcome \<times> ('a, 'b) world) option" and E R s y
    assume IH: "\<And>E R s y. loop E R s = Some y \<Longrightarrow> R = R0 \<longrightarrow> fst y = Ret (Some x) \<longrightarrow> exception_ptr (fst (snd y)) = Some x"
      and step: "(if tasks (fst s) = {} then Some (Ret (exception_ptr (fst s)), s)
        else if exception_ptr (fst s) \<noteq> None then Some (Ret (exception_ptr (fst s)), s)
        else Option.bind (run_queue_loop R s) (\<lambda>(x, s1).
          if x \<noteq> Ret None then Some (x, s1)
          else if tasks (fst s1) = {} then Some (Ret (exception_ptr (fst s1)), s1)
          else case wait_and_deliver E R s1 of
            (Ret None, s2) \<Rightarrow> loop E R s2
          | (x2, s2) \<Rightarrow> Some (x2, s2))) = Some y"
    obtain v fr w where "y = (v, fr, w)" by (cases y)
    then show "R = R0 \<longrightarrow> fst y = Ret (Some x) \<longrightarrow> exception_ptr (fst (snd y)) = Some x"
      using step IH run_queue_exc [of R s _ x] wait_and_deliver_exc [OF k, of E _ x]
      by (auto split: if_splits prod.splits outcome.splits option.splits simp: bind_eq_Some_conv)
  qed
  then show ?thesis using keeps by simp
qed

text \<open>
  An exception that ends \<^verbatim>\<open>run\<close> stays recorded: when the loop rethrows \<open>x\<close>, the pending exception of
  the frame is still \<open>x\<close>, and every later run that starts with that frame rethrows \<open>x\<close> again before
  it resumes anything, whatever has been spawned in between.
\<close>

theorem run_exception_sticky:
  assumes "keeps_exception R" and "run_loop E R s = Some (Ret (Some x), s1)"
  shows "exception_ptr (fst s1) = Some x \<and>
     (\<forall>s2. exception_ptr (fst s2) = exception_ptr (fst s1) \<longrightarrow> run_loop E R s2 = Some (Ret (Some x), s2))"
proof
  show "exception_ptr (fst s1) = Some x" using run_loop_exc [OF assms, of x] by simp
  then show "\<forall>s2. exception_ptr (fst s2) = exception_ptr (fst s1) \<longrightarrow> run_loop E R s2 = Some (Ret (Some x), s2)"
    by (simp add: run_loop.simps)
qed

text \<open>A world for the examples: it logs what is resumed and counts references; coroutine 2 throws.\<close>

record ex_world =
  ew_log :: "handle list"
  ew_released :: "user_data list"

definition ex_objects :: "(handle \<Rightarrow> handle list) \<Rightarrow> (list_ring, ex_world) objects" where
  "ex_objects spawns = \<lparr>
     ob_process = (\<lambda>ud c. if cqe_res c < 0 then throw_errno_as_error_code (- cqe_res c) else retM ()),
     ob_handle = (\<lambda>ud. retM None), ob_use_count = (\<lambda>ud w. 1),
     ob_release = (\<lambda>ud. on_obj (\<lambda>w. w\<lparr>ew_released := ew_released w @ [ud]\<rparr>)),
     co_resume = (\<lambda>h s. (Ret (), ((fst s)\<lparr>run_queue := run_queue (fst s) @ spawns h\<rparr>,
        (snd s)\<lparr>ew_log := ew_log (snd s) @ [h]\<rparr>))),
     clear_map = retM (), pipe_enter = retM (), pipe_leave = retM ()\<rparr>"

theorem run_queue_served_witness:
  "\<exists>s' later. run_queue_loop (ex_objects (\<lambda>h. if h = 8 then [4] else [])) (ex_frame\<lparr>run_queue := [8, 12]\<rparr>, \<lparr>ew_log = [], ew_released = []\<rparr>) =
     Some (Ret None, s') \<and> run_queue (fst s') = [] \<and> ew_log (snd s') = [8, 12] @ later"
proof -
  let ?R = "ex_objects (\<lambda>h. if h = 8 then [4] else [])"
  have r: "\<exists>s' new. co_resume ?R h s = (Ret (), s') \<and>
      run_queue (fst s') = run_queue (fst s) @ new \<and> (\<forall>k \<in> set new. id k < id h) \<and>
      exception_ptr (fst s') = exception_ptr (fst s) \<and> ew_log (snd s') = ew_log (snd s) @ [h]"
    for h and s :: "list_ring io_context_frame \<times> ex_world"
    by (simp add: ex_objects_def)
  have "exception_ptr (fst (ex_frame\<lparr>run_queue := [8, 12]\<rparr>, \<lparr>ew_log = [], ew_released = []\<rparr>)) = None"
    by (simp add: ex_frame_def)
  from run_queue_served [of ?R id ew_log, OF r this] show ?thesis by simp blast
qed

lemma drain_ok:
  assumes advance: "\<And>r k. cq_ready E (io_uring_cq_advance E r k) = drop k (cq_ready E r)"
    and release: "\<And>ud s. \<exists>s'. ob_release R ud s = (Ret (), s') \<and> cq_ready E (io_ring (fst s')) = cq_ready E (io_ring (fst s)) \<and>
        released (snd s') = released (snd s) @ [ud]"
  shows "\<exists>s'. drain_loop E R [] s = Some (Ret (), s') \<and> cq_ready E (io_ring (fst s')) = [] \<and>
     released (snd s') = released (snd s) @
       rev (remdups (rev (filter (\<lambda>ud. ud \<noteq> UD_null) (map cqe_data (cq_ready E (io_ring (fst s)))))))"
proof -
  have adv: "cq_advance E (Suc 0) s = (Ret (), ((fst s)\<lparr>io_ring := io_uring_cq_advance E (io_ring (fst s)) (Suc 0)\<rparr>, snd s))" for s :: "('a, 'b) world"
    by (cases s) (simp add: cq_advance_def op_simps)
  have "\<exists>s'. drain_loop E R bl s = Some (Ret (), s') \<and> cq_ready E (io_ring (fst s')) = [] \<and>
     released (snd s') = released (snd s) @ rev (remdups (rev (filter (\<lambda>ud. ud \<noteq> UD_null \<and> ud \<notin> set bl) (map cqe_data cs))))"
    if "cq_ready E (io_ring (fst s)) = cs" for cs bl s
    using that
  proof (induction cs arbitrary: bl s)
    case Nil
    then show ?case by (subst drain_loop.simps) simp
  next
    case (Cons c cs)
    let ?d = "\<lambda>s. snd (cq_advance E 1 s)"
    show ?case
    proof (cases "cqe_data c = UD_null \<or> cqe_data c \<in> set bl")
      case True
      have "cq_ready E (io_ring (fst (?d s))) = cs" using Cons.prems by (simp add: adv advance)
      from Cons.IH [OF this, of bl] Cons.prems True show ?thesis
        by (subst drain_loop.simps) (auto simp: adv)
    next
      case False
      obtain s1 where s1: "ob_release R (cqe_data c) s = (Ret (), s1)" "cq_ready E (io_ring (fst s1)) = c # cs"
          "released (snd s1) = released (snd s) @ [cqe_data c]"
        using release Cons.prems by metis
      have "cq_ready E (io_ring (fst (?d s1))) = cs" using s1(2) by (simp add: adv advance)
      from Cons.IH [OF this, of "cqe_data c # bl"] obtain s' where
          s': "drain_loop E R (cqe_data c # bl) (?d s1) = Some (Ret (), s')" "cq_ready E (io_ring (fst s')) = []"
            "released (snd s') = released (snd (?d s1)) @
               rev (remdups (rev (filter (\<lambda>ud. ud \<noteq> UD_null \<and> ud \<notin> set (cqe_data c # bl)) (map cqe_data cs))))"
        by blast
      have loop: "drain_loop E R bl s = Some (Ret (), s')"
        using False Cons.prems s1(1) s'(1) by (subst drain_loop.simps) simp
      have "remdups (xs @ [x]) = remdups (filter (\<lambda>y. y \<noteq> x) xs) @ [x]" for xs and x :: user_data
        by (induction xs) auto
      then have "rev (remdups (rev (filter (\<lambda>ud. ud \<noteq> UD_null \<and> ud \<notin> set bl) (map cqe_data (c # cs))))) =
          cqe_data c # rev (remdups (rev (filter (\<lambda>ud. ud \<noteq> UD_null \<and> ud \<notin> set (cqe_data c # bl)) (map cqe_data cs))))"
        using False by (simp add: rev_filter [symmetric] conj_ac)
      then show ?thesis using loop s'(2,3) s1(3) by (simp add: adv)
    qed
  qed
  from this [of s "cq_ready E (io_ring (fst s))" "[]"] show ?thesis by simp
qed

text \<open>
  The guard that ends a run releases every object once: when releasing adds no completions, the
  loop terminates with an empty completion queue, and the objects named by the completions that
  were left have been released in the order in which they first occur, each of them one time
  however many completions a multishot operation has posted.
\<close>

theorem drain_releases_once:
  assumes advance: "\<And>r k. cq_ready E (io_uring_cq_advance E r k) = drop k (cq_ready E r)"
    and release: "\<And>ud s. \<exists>s'. ob_release R ud s = (Ret (), s') \<and> cq_ready E (io_ring (fst s')) = cq_ready E (io_ring (fst s)) \<and>
        released (snd s') = released (snd s) @ [ud]"
  shows "\<exists>s'. drain_loop E R [] s = Some (Ret (), s') \<and> cq_ready E (io_ring (fst s')) = [] \<and>
     released (snd s') = released (snd s) @
       rev (remdups (rev (filter (\<lambda>ud. ud \<noteq> UD_null) (map cqe_data (cq_ready E (io_ring (fst s)))))))"
  using assms by (rule drain_ok)

theorem drain_releases_once_witness:
  "\<exists>s'. drain_loop (list_platform 4) (ex_objects (\<lambda>_. [])) []
      (ex_frame\<lparr>io_ring := \<lparr>lr_free = 4, lr_issued = [], lr_cq = map (\<lambda>ud. \<lparr>cqe_res = 0, cqe_flags = 0, cqe_data = ud\<rparr>)
         [UD 640 F_recv, UD_null, UD 320 F_accept, UD 640 F_recv]\<rparr>\<rparr>, \<lparr>ew_log = [], ew_released = []\<rparr>) = Some (Ret (), s') \<and>
     ew_released (snd s') = [UD 640 F_recv, UD 320 F_accept]"
proof -
  let ?s = "(ex_frame\<lparr>io_ring := \<lparr>lr_free = 4, lr_issued = [], lr_cq = map (\<lambda>ud. \<lparr>cqe_res = 0, cqe_flags = 0, cqe_data = ud\<rparr>)
         [UD 640 F_recv, UD_null, UD 320 F_accept, UD 640 F_recv]\<rparr>\<rparr>, \<lparr>ew_log = [], ew_released = []\<rparr>)"
  have a: "cq_ready (list_platform 4) (io_uring_cq_advance (list_platform 4) r k) = drop k (cq_ready (list_platform 4) r)" for r k
    by (simp add: list_platform_def)
  have r: "\<exists>s'. ob_release (ex_objects (\<lambda>_. [])) ud s = (Ret (), s') \<and>
      cq_ready (list_platform 4) (io_ring (fst s')) = cq_ready (list_platform 4) (io_ring (fst s)) \<and>
      ew_released (snd s') = ew_released (snd s) @ [ud]" for ud and s :: "list_ring io_context_frame \<times> ex_world"
    by (cases s) (simp add: ex_objects_def op_simps)
  from drain_releases_once [of "list_platform 4" "ex_objects (\<lambda>_. [])" ew_released, OF a r, of ?s]
  show ?thesis by (simp add: list_platform_def) blast
qed

text \<open>
  C19: a completion whose processing throws is released twice: leaving the batch by the exception
  releases the adopted pointer but does not consume the completion, so the guard of \<^verbatim>\<open>run\<close> finds it again
  and releases the same object once more, although the completion holds one reference.
\<close>

theorem failed_completion_released_twice:
  assumes advance: "\<And>r k. cq_ready E (io_uring_cq_advance E r k) = drop k (cq_ready E r)"
    and release: "\<And>ud s. \<exists>s'. ob_release R ud s = (Ret (), s') \<and> cq_ready E (io_ring (fst s')) = cq_ready E (io_ring (fst s)) \<and>
        released (snd s') = released (snd s) @ [ud]"
    and "cq_ready E (io_ring (fst s)) = [c]" and "cqe_data c \<noteq> UD_null" and "1 \<le> unat (cq_entries (params (fst s)))"
    and "1 \<le> ob_use_count R (cqe_data c) (snd s)" and "ob_process R (cqe_data c) c s = (Throw e, s)"
  shows "\<exists>s1 s2. run_batch E R s = (Throw e, s1) \<and> drain_loop E R [] s1 = Some (Ret (), s2) \<and>
     released (snd s2) = released (snd s) @ [cqe_data c, cqe_data c]"
proof -
  obtain s1 where s1: "ob_release R (cqe_data c) s = (Ret (), s1)" "cq_ready E (io_ring (fst s1)) = [c]"
      "released (snd s1) = released (snd s) @ [cqe_data c]"
    using release assms(3) by metis
  let ?s2 = "((fst s1)\<lparr>io_ring := io_uring_cq_advance E (io_ring (fst s1)) 0\<rparr>, snd s1)"
  have "with_obj (\<lambda>w. assertM (ob_use_count R (cqe_data c) w \<ge> 1)) s = (Ret (), s)"
    using assms(6) by (simp add: with_obj_def op_simps)
  then have "deliver_one R c s = (Throw e, s1)"
    using assms(7) s1(1) by (simp add: deliver_one_def op_simps)
  then have run: "run_batch E R s = (Throw e, ?s2)"
    using assms(3-5) by (cases s1) (simp add: run_batch_def cq_advance_def op_simps)
  have cq: "cq_ready E (io_ring (fst ?s2)) = [c]" using s1(2) by (simp add: advance)
  obtain s' where "drain_loop E R [] ?s2 = Some (Ret (), s')" "released (snd s') = released (snd ?s2) @ [cqe_data c]"
    using drain_ok [OF advance release, where s = ?s2] assms(4) unfolding cq by auto
  then show ?thesis using run s1(3) by (intro exI [of _ ?s2] exI [of _ s']) simp
qed

theorem failed_completion_released_twice_witness:
  "\<exists>s1 s2. run_batch (list_platform 4) (ex_objects (\<lambda>_. []))
      (ex_frame\<lparr>io_ring := \<lparr>lr_free = 4, lr_issued = [], lr_cq = [\<lparr>cqe_res = - ECANCELED, cqe_flags = 0, cqe_data = UD 640 F_pipe\<rparr>]\<rparr>\<rparr>,
       \<lparr>ew_log = [], ew_released = []\<rparr>) = (Throw ECANCELED, s1) \<and>
     drain_loop (list_platform 4) (ex_objects (\<lambda>_. [])) [] s1 = Some (Ret (), s2) \<and>
     ew_released (snd s2) = [UD 640 F_pipe, UD 640 F_pipe]"
proof -
  let ?c = "\<lparr>cqe_res = - ECANCELED, cqe_flags = 0, cqe_data = UD 640 F_pipe\<rparr>"
  let ?s = "(ex_frame\<lparr>io_ring := \<lparr>lr_free = 4, lr_issued = [], lr_cq = [?c]\<rparr>\<rparr>, \<lparr>ew_log = [], ew_released = []\<rparr>)"
  have a: "cq_ready (list_platform 4) (io_uring_cq_advance (list_platform 4) r k) = drop k (cq_ready (list_platform 4) r)" for r k
    by (simp add: list_platform_def)
  have r: "\<exists>s'. ob_release (ex_objects (\<lambda>_. [])) ud s = (Ret (), s') \<and>
      cq_ready (list_platform 4) (io_ring (fst s')) = cq_ready (list_platform 4) (io_ring (fst s)) \<and>
      ew_released (snd s') = ew_released (snd s) @ [ud]" for ud and s :: "list_ring io_context_frame \<times> ex_world"
    by (cases s) (simp add: ex_objects_def op_simps)
  have h: "cq_ready (list_platform 4) (io_ring (fst ?s)) = [?c]" "cqe_data ?c \<noteq> UD_null"
      "1 \<le> unat (cq_entries (params (fst ?s)))" "1 \<le> ob_use_count (ex_objects (\<lambda>_. [])) (cqe_data ?c) (snd ?s)"
      "ob_process (ex_objects (\<lambda>_. [])) (cqe_data ?c) ?c ?s = (Throw ECANCELED, ?s)"
    by (simp_all add: list_platform_def ex_frame_def default_params_def ex_objects_def op_simps)
  from failed_completion_released_twice [of "list_platform 4" "ex_objects (\<lambda>_. [])" ew_released, OF a r h]
  show ?thesis by simp
qed

theorem run_exception_sticky_witness:
  "\<exists>s1. run_loop (list_platform 4) (ex_objects (\<lambda>_. [])) (ex_frame\<lparr>tasks := {4}, exception_ptr := Some 7\<rparr>, \<lparr>ew_log = [], ew_released = []\<rparr>) =
     Some (Ret (Some 7), s1) \<and>
   run_loop (list_platform 4) (ex_objects (\<lambda>_. [])) ((fst s1)\<lparr>tasks := {8}, run_queue := [8]\<rparr>, snd s1) =
     Some (Ret (Some 7), ((fst s1)\<lparr>tasks := {8}, run_queue := [8]\<rparr>, snd s1))"
proof -
  let ?s = "(ex_frame\<lparr>tasks := {4}, exception_ptr := Some 7\<rparr>, \<lparr>ew_log = [], ew_released = []\<rparr>)"
  have k: "keeps_exception (ex_objects (\<lambda>_. []))" by (auto simp: keeps_exception_def ex_objects_def on_obj_def)
  have run: "run_loop (list_platform 4) (ex_objects (\<lambda>_. [])) ?s = Some (Ret (Some 7), ?s)"
    by (subst run_loop.simps) simp
  from run_exception_sticky [OF k run] show ?thesis
    by (intro exI [of _ ?s] conjI run) simp
qed

subsection \<open>Construction of the shared frame\<close>

text \<open>
  The system calls of the constructor: their result or \<^verbatim>\<open>errno\<close>, and the ring. The state is the set
  of open descriptors; the ring itself counts through its initialisation.
\<close>

record 'r ring_setup =
  su_pipe :: "int + int \<times> int"
  su_queue_init :: "u32 \<Rightarrow> u32 \<Rightarrow> int \<times> 'r"
  su_register_ring_fd :: "'r \<Rightarrow> int \<times> 'r"
  su_register_files :: "'r \<Rightarrow> u32 \<Rightarrow> int \<times> 'r"

definition io_context_frame_ctor :: "'r ring_setup \<Rightarrow> io_context_params \<Rightarrow> (int set, 'r io_context_frame) op" where
  "io_context_frame_ctor S p opened =
     (case su_pipe S of
        Inl e \<Rightarrow> throw_errno_as_error_code e opened
      | Inr (rd, wr) \<Rightarrow>
          let opened' = insert rd (insert wr opened) in
          (case su_queue_init S (sq_entries p) (cq_entries p) of (ret, r) \<Rightarrow>
             if ret \<noteq> 0 then throw_errno_as_error_code (- ret) opened'
             else (case su_register_ring_fd S r of (ret, r1) \<Rightarrow>
               if ret \<noteq> 1 then throw_errno_as_error_code (- ret) opened'
               else (case su_register_files S r1 (num_files p) of (ret, r2) \<Rightarrow>
                 if ret \<noteq> 0 then throw_errno_as_error_code (- ret) opened'
                 else (Ret \<lparr>io_ring = r2, tasks = {}, params = p, frame_fixed_buffers = None, buf_rings = Map.empty,
                        fds = initial_fds (num_files p), run_queue = [], exception_ptr = None, pipefd = (rd, wr)\<rparr>, opened')))))"

definition io_context_frame_dtor :: "'r io_context_frame \<Rightarrow> (int set, unit) op" where
  "io_context_frame_dtor fr opened = (Ret (), opened - {fst (pipefd fr), snd (pipefd fr)})"

text \<open>
  C40: a constructed frame: when every system call succeeds it satisfies the invariants of the
  descriptor pool and the buffer groups, has nothing to run and no pending exception, and its pool
  holds exactly the numbers below \<^verbatim>\<open>num_files\<close>, or none at all when that does not fit an \<^verbatim>\<open>int\<close>;
  destroying it closes the pipe. When the ring cannot be set up, the exception leaves the
  pipe open.
\<close>

theorem io_context_frame_ctor_ok:
  fixes S :: "'r ring_setup"
  assumes "su_pipe S = Inr (rd, wr)" and "rd \<notin> opened" and "wr \<notin> opened"
  shows "case io_context_frame_ctor S p opened of
      (Ret fr, opened') \<Rightarrow> fd_inv fr \<and> groups_inv fr \<and> tasks fr = {} \<and> run_queue fr = [] \<and> exception_ptr fr = None \<and>
        fds fr = (if unat (num_files p) < 2 ^ 31 then {0..<int (unat (num_files p))} else {}) \<and>
        io_context_frame_dtor fr opened' = (Ret (), opened)
    | (_, opened') \<Rightarrow> rd \<in> opened' \<and> wr \<in> opened'"
proof -
  have init: "initial_fds n = (if unat n < 2 ^ 31 then {0..<int (unat n)} else {})" for n :: u32
  proof -
    have u: "uint n = take_bit 32 (sint n)" using uint_sint [of n] by simp
    have s: "sint n < 2 ^ 31" "sint n = signed_take_bit 31 (uint n)" using sint_lt [of n] sint_uint [of n] by simp_all
    have i: "uint n = int (unat n)" by simp
    have n: "(unat n < 2 ^ 31) = (uint n < 2 ^ 31)" 
      using of_nat_less_iff [where 'a = int, of "unat n" "2 ^ 31"] unfolding i [symmetric] by simp
    show ?thesis
    proof (cases "uint n < 2 ^ 31")
      case True
      then have "sint n = uint n" unfolding s(2) by (subst signed_take_bit_int_eq_self_iff) (simp add: order_trans [OF _ uint_ge_0])
      then show ?thesis using True n by (simp add: initial_fds_def)
    next
      case False
      have "sint n < 0"
      proof (rule ccontr)
        assume "\<not> sint n < 0"
        then have "take_bit 32 (sint n) = sint n" using s(1) by (simp add: take_bit_int_eq_self_iff)
        then show False using False s(1) u by simp
      qed
      then show ?thesis using False n by (simp add: initial_fds_def)
    qed
  qed
  have throw: "\<exists>x. throw_errno_as_error_code e s = (x, s) \<and> (\<forall>fr. x \<noteq> Ret fr)" for e and s :: "int set"
    by (cases "e = 0") (simp_all add: throw_errno_as_error_code_def from_errno_def)
  obtain a r where q: "su_queue_init S (sq_entries p) (cq_entries p) = (a, r)" by fastforce
  obtain b r1 where g: "su_register_ring_fd S r = (b, r1)" by fastforce
  obtain c r2 where f: "su_register_files S r1 (num_files p) = (c, r2)" by fastforce
  let ?o = "insert rd (insert wr opened)"
  let ?fr = "\<lparr>io_ring = r2, tasks = {}, params = p, frame_fixed_buffers = None, buf_rings = Map.empty,
     fds = initial_fds (num_files p), run_queue = [], exception_ptr = None, pipefd = (rd, wr)\<rparr>"
  show ?thesis
  proof (cases "a = 0 \<and> b = 1 \<and> c = 0")
    case True
    then have "io_context_frame_ctor S p opened = (Ret ?fr, ?o)"
      using assms(1) q g f by (simp add: io_context_frame_ctor_def)
    moreover have "fd_inv ?fr" "groups_inv ?fr" by (auto simp: fd_inv_def groups_inv_def init)
    moreover have "io_context_frame_dtor ?fr ?o = (Ret (), opened)"
      using assms(2,3) by (auto simp: io_context_frame_dtor_def)
    ultimately show ?thesis by (simp add: init)
  next
    case False
    then have "io_context_frame_ctor S p opened =
        throw_errno_as_error_code (if a \<noteq> 0 then - a else if b \<noteq> 1 then - b else - c) ?o"
      using assms(1) q g f by (simp add: io_context_frame_ctor_def Let_def)
    then obtain e where "io_context_frame_ctor S p opened = throw_errno_as_error_code e ?o" by blast
    moreover obtain x where "throw_errno_as_error_code e ?o = (x, ?o)" "\<forall>fr :: 'r io_context_frame. x \<noteq> Ret fr" using throw by blast
    ultimately show ?thesis by (cases x) simp_all
  qed
qed

theorem io_context_frame_ctor_ok_witness:
  "(case io_context_frame_ctor \<lparr>su_pipe = Inr (8, 9), su_queue_init = (\<lambda>_ _. (0, empty_ring 4)),
        su_register_ring_fd = (\<lambda>r. (1, r)), su_register_files = (\<lambda>r n. (0, r))\<rparr> default_params {} of
      (Ret fr, opened) \<Rightarrow> fd_inv fr \<and> fds fr = {0..<1024}
    | _ \<Rightarrow> False)"
proof -
  let ?S = "\<lparr>su_pipe = Inr (8, 9), su_queue_init = (\<lambda>_ _. (0, empty_ring 4)),
        su_register_ring_fd = (\<lambda>r. (1, r)), su_register_files = (\<lambda>r n. (0, r))\<rparr>"
  have "su_pipe ?S = Inr (8, 9)" "8 \<notin> ({} :: int set)" "9 \<notin> ({} :: int set)" by simp_all
  from io_context_frame_ctor_ok [OF this, of default_params] show ?thesis
    unfolding io_context_frame_ctor_def by (simp add: default_params_def fd_inv_def)
qed

end
