(* ===== verification/Task_Loop.thy ===== *)
theory Task_Loop
  imports Task Run_Loop
begin

section \<open>Programs of spawned coroutines under the run loop\<close>

text \<open>
  The composition of \<open>Task\<close> and \<open>Run_Loop\<close>: the run loop resumes user coroutines that spawn, await
  and drop other coroutines. The body of a coroutine is arbitrary client code, so it is a parameter:
  any value of type \<open>prog\<close>. What a body does to the runtime is done by the operations of
  \<open>Task\<close>, that is by the code of \<^verbatim>\<open>spawn\<close>, of \<^verbatim>\<open>spawn_awaitable\<close> and of \<^verbatim>\<open>internal_promise\<close>. The properties
  say that every coroutine of every program runs to its end under \<open>run_loop\<close>, with the value of the
  direct-style reference \<open>prog_value\<close>, and that no frame is left.
\<close>

subsection \<open>Client programs\<close>

text \<open>
  A body is a list of actions and the value it returns: a function of the values it has awaited, in
  order. \<open>Detach q\<close> is \<^verbatim>\<open>ex.spawn( q );\<close>, \<open>Fork q\<close> keeps the awaitable in a local of the body, and
  \<open>Await\<close> awaits the oldest awaitable that is kept and then destroys it.
\<close>

datatype 'v prog = Prog "'v act list" "'v list \<Rightarrow> 'v"
and 'v act = Detach "'v prog" | Fork "'v prog" | Await

text \<open>The reference: a spawned coroutine is a function call, an awaitable is the value of that call.\<close>

fun prog_value :: "'v prog \<Rightarrow> 'v" and awaited :: "'v act list \<Rightarrow> 'v list \<Rightarrow> 'v list \<Rightarrow> 'v list" where
  "prog_value (Prog as f) = f (awaited as [] [])"
| "awaited [] held env = env"
| "awaited (Detach q # as) held env = awaited as held env"
| "awaited (Fork q # as) held env = awaited as (held @ [prog_value q]) env"
| "awaited (Await # as) [] env = awaited as [] env"
| "awaited (Await # as) (v # held) env = awaited as held (env @ [v])"

text \<open>The number of coroutines a program consists of, and a bound for its steps.\<close>

fun prog_tasks :: "'v prog \<Rightarrow> nat" and act_tasks :: "'v act list \<Rightarrow> nat" where
  "prog_tasks (Prog as f) = Suc (act_tasks as)"
| "act_tasks [] = 0"
| "act_tasks (Detach q # as) = prog_tasks q + act_tasks as"
| "act_tasks (Fork q # as) = prog_tasks q + act_tasks as"
| "act_tasks (Await # as) = act_tasks as"

fun prog_work :: "'v prog \<Rightarrow> nat" and act_work :: "'v act list \<Rightarrow> nat" where
  "prog_work (Prog as f) = Suc (act_work as)"
| "act_work [] = 0"
| "act_work (Detach q # as) = 3 + prog_work q + act_work as"
| "act_work (Fork q # as) = 3 + prog_work q + act_work as"
| "act_work (Await # as) = Suc (act_work as)"

subsection \<open>Frames of the bodies\<close>

text \<open>
  What the frame of a body stores: the rest of its actions, its locals, and what it has awaited.
  The world has the promises, the bodies that have not ended, every program that was spawned, and the
  values the coroutines have returned in the order of their ends. The frame of the \<open>n\<close>-th coroutine has
  the address \<open>n\<close>, counted from one.
\<close>

record 'v body =
  bd_acts :: "'v act list"
  bd_ret :: "'v list \<Rightarrow> 'v"
  bd_held :: "spawn_awaitable list"
  bd_env :: "'v list"

record 'v task_world =
  tw_coros :: "'v coros"
  tw_bodies :: "handle \<rightharpoonup> 'v body"
  tw_spawned :: "'v prog list"
  tw_log :: "(handle \<times> 'v) list"

definition empty_world :: "'v task_world" where
  "empty_world = \<lparr>tw_coros = Map.empty, tw_bodies = Map.empty, tw_spawned = [], tw_log = []\<rparr>"

type_synonym ('r, 'v) tw = "'r io_context_frame \<times> 'v task_world"

definition on_task :: "(('r, 'v) runtime, 'a) op \<Rightarrow> (('r, 'v) tw, 'a) op" where
  "on_task m s = (case m (fst s, tw_coros (snd s)) of (x, (fr, c)) \<Rightarrow> (x, (fr, (snd s)\<lparr>tw_coros := c\<rparr>)))"

definition set_body :: "handle \<Rightarrow> 'v body \<Rightarrow> (('r, 'v) tw, unit) op" where
  "set_body h b = on_obj (\<lambda>w. w\<lparr>tw_bodies := (tw_bodies w)(h \<mapsto> b)\<rparr>)"

fun new_body :: "'v prog \<Rightarrow> 'v body" where
  "new_body (Prog as f) = \<lparr>bd_acts = as, bd_ret = f, bd_held = [], bd_env = []\<rparr>"

definition spawn_prog :: "'v prog \<Rightarrow> (('r, 'v) tw, spawn_awaitable) op" where
  "spawn_prog q s =
     (let h = Suc (length (tw_spawned (snd s))) in
      bindM (on_task (spawn h))
        (\<lambda>sa. thenM (on_obj (\<lambda>w. w\<lparr>tw_spawned := tw_spawned w @ [q], tw_bodies := (tw_bodies w)(h \<mapsto> new_body q)\<rparr>))
           (retM sa)) s)"

definition detach_prog :: "'v prog \<Rightarrow> (('r, 'v) tw, unit) op" where
  "detach_prog q = bindM (spawn_prog q) (\<lambda>sa. on_task (spawn_awaitable_dtor sa))"

fun detach_all :: "'v prog list \<Rightarrow> (('r, 'v) tw, unit) op" where
  "detach_all [] = retM ()"
| "detach_all (q # qs) = thenM (detach_prog q) (detach_all qs)"

text \<open>\<^verbatim>\<open>await_resume\<close>, and the end of the awaitable; an exception leaves the body.\<close>

definition take_result :: "handle \<Rightarrow> (('r, 'v) tw, unit) op" where
  "take_result h s =
     (case tw_bodies (snd s) h of
        Some b \<Rightarrow>
          (case bd_held b of
             [] \<Rightarrow> (Bad_access, s)
           | sa # sas \<Rightarrow>
               bindM (on_task (spawn_await_resume sa))
                 (\<lambda>(x, sa'). thenM (on_task (spawn_awaitable_dtor sa'))
                    (case x of Inl ep \<Rightarrow> throwM (int ep)
                     | Inr v \<Rightarrow> set_body h (b\<lparr>bd_acts := tl (bd_acts b), bd_held := sas, bd_env := bd_env b @ [v]\<rparr>))) s)
      | None \<Rightarrow> (Bad_access, s))"

text \<open>The end of a coroutine whose locals are gone: its value, and the final suspension point.\<close>

definition finish_body :: "handle \<Rightarrow> 'v body \<Rightarrow> (('r, 'v) tw, handle option) op" where
  "finish_body h b =
     (let v = bd_ret b (bd_env b) in
      thenM (on_task (internal_return_value h v))
       (thenM (on_obj (\<lambda>w. w\<lparr>tw_bodies := (tw_bodies w)(h := None), tw_log := tw_log w @ [(h, v)]\<rparr>))
         (on_task (internal_final_suspend h))))"

text \<open>
  \<^verbatim>\<open>resume()\<close>: the body runs to its next suspension point; at its end the locals are destroyed in reverse
  order, and the final suspension point transfers control to the awaiter within the same call. The
  number of steps is bounded by the first argument.
\<close>

fun run_body :: "nat \<Rightarrow> handle \<Rightarrow> (('r, 'v) tw, unit) op" where
  "run_body 0 h s = (Bad_access, s)"
| "run_body (Suc n) h s =
     (case tw_bodies (snd s) h of
        None \<Rightarrow> (Bad_access, s)
      | Some b \<Rightarrow>
          (case bd_acts b of
             Detach q # as \<Rightarrow> thenM (set_body h (b\<lparr>bd_acts := as\<rparr>)) (thenM (detach_prog q) (run_body n h)) s
           | Fork q # as \<Rightarrow>
               bindM (spawn_prog q)
                 (\<lambda>sa. thenM (set_body h (b\<lparr>bd_acts := as, bd_held := bd_held b @ [sa]\<rparr>)) (run_body n h)) s
           | Await # as \<Rightarrow>
               (case bd_held b of
                  [] \<Rightarrow> thenM (set_body h (b\<lparr>bd_acts := as\<rparr>)) (run_body n h) s
                | sa # _ \<Rightarrow>
                    bindM (on_task (spawn_await_suspend h sa))
                      (\<lambda>suspended. if suspended then retM () else thenM (take_result h) (run_body n h)) s)
           | [] \<Rightarrow>
               if bd_held b \<noteq> []
               then thenM (on_task (spawn_awaitable_dtor (last (bd_held b))))
                      (thenM (set_body h (b\<lparr>bd_held := butlast (bd_held b)\<rparr>)) (run_body n h)) s
               else bindM (finish_body h b)
                      (\<lambda>k. case k of None \<Rightarrow> retM () | Some a \<Rightarrow> thenM (take_result a) (run_body n a)) s))"

definition body_work :: "'v body \<Rightarrow> nat" where
  "body_work b = Suc (act_work (bd_acts b) + length (bd_held b))"

definition body_sum :: "('v body \<Rightarrow> nat) \<Rightarrow> nat \<Rightarrow> (handle \<rightharpoonup> 'v body) \<Rightarrow> nat" where
  "body_sum f N B = (\<Sum>h\<leftarrow>[1..<N]. case B h of None \<Rightarrow> 0 | Some b \<Rightarrow> f b)"

definition world_work :: "'v task_world \<Rightarrow> nat" where
  "world_work w = body_sum body_work (Suc (length (tw_spawned w))) (tw_bodies w)"

definition resume_body :: "handle \<Rightarrow> (('r, 'v) tw, unit) op" where
  "resume_body h s = run_body (world_work (snd s)) h s"

definition task_objects :: "('r, 'v task_world) objects \<Rightarrow> ('r, 'v task_world) objects" where
  "task_objects R = R\<lparr>co_resume := resume_body\<rparr>"

subsection \<open>The invariant\<close>

text \<open>
  \<open>E\<close> gives the value every coroutine has to return, \<open>N\<close> is the next address, \<open>rs\<close> the coroutines that
  are to be resumed. A body that is not to be resumed waits for a coroutine that has not ended; a
  promise has one reference of the task map while its coroutine has not ended and one of the awaitable.
\<close>

definition held_by :: "(handle \<rightharpoonup> 'v body) \<Rightarrow> handle \<Rightarrow> handle \<Rightarrow> bool" where
  "held_by B a h = (\<exists>b. B h = Some b \<and> a \<in> set (map sa_task (bd_held b)))"

definition waits_for :: "(handle \<rightharpoonup> 'v body) \<Rightarrow> handle \<Rightarrow> handle \<Rightarrow> bool" where
  "waits_for B h a =
     (\<exists>b as sa sas. B h = Some b \<and> bd_acts b = Await # as \<and> bd_held b = sa # sas \<and> sa_task sa = a)"

definition body_ok :: "(handle \<Rightarrow> 'v) \<Rightarrow> nat \<Rightarrow> handle \<Rightarrow> 'v body \<Rightarrow> bool" where
  "body_ok E N h b =
     (0 < h \<and> h < N \<and> distinct (map sa_task (bd_held b)) \<and> (\<forall>a \<in> set (map sa_task (bd_held b)). h < a \<and> a < N) \<and>
      E h = bd_ret b (awaited (bd_acts b) (map (\<lambda>sa. E (sa_task sa)) (bd_held b)) (bd_env b)))"

definition bodies_ok :: "(handle \<Rightarrow> 'v) \<Rightarrow> nat \<Rightarrow> (handle \<rightharpoonup> 'v body) \<Rightarrow> bool" where
  "bodies_ok E N B =
     ((\<forall>h b. B h = Some b \<longrightarrow> body_ok E N h b) \<and> (\<forall>a h k. held_by B a h \<longrightarrow> held_by B a k \<longrightarrow> h = k))"

definition coro_ok :: "(handle \<Rightarrow> 'v) \<Rightarrow> handle list \<Rightarrow> (handle \<rightharpoonup> 'v body) \<Rightarrow> handle \<Rightarrow> 'v internal_promise option \<Rightarrow> bool" where
  "coro_ok E rs B a q =
     (case q of
        None \<Rightarrow> B a = None \<and> (\<forall>h. \<not> held_by B a h)
      | Some p \<Rightarrow> (B a \<noteq> None \<or> (\<exists>h. held_by B a h)) \<and>
          ip_variant p = (if B a = None then V_ok (E a) else V_uninitialized) \<and>
          ip_count p = of_bool (B a \<noteq> None) + of_bool (\<exists>h. held_by B a h) \<and>
          (B a \<noteq> None \<longrightarrow> (\<forall>h. ip_continuation p = Some h \<longleftrightarrow> h \<notin> set rs \<and> waits_for B h a)))"

definition coros_ok :: "(handle \<Rightarrow> 'v) \<Rightarrow> handle list \<Rightarrow> 'v coros \<Rightarrow> (handle \<rightharpoonup> 'v body) \<Rightarrow> bool" where
  "coros_ok E rs c B = (\<forall>a. coro_ok E rs B a (c a))"

definition sched_ok :: "handle list \<Rightarrow> (handle \<rightharpoonup> 'v body) \<Rightarrow> bool" where
  "sched_ok rs B =
     (distinct rs \<and> set rs \<subseteq> dom B \<and> (\<forall>h. B h \<noteq> None \<longrightarrow> h \<notin> set rs \<longrightarrow> (\<exists>a. B a \<noteq> None \<and> waits_for B h a)))"

definition log_ok :: "(handle \<Rightarrow> 'v) \<Rightarrow> nat \<Rightarrow> (handle \<rightharpoonup> 'v body) \<Rightarrow> (handle \<times> 'v) list \<Rightarrow> bool" where
  "log_ok E N B l = (distinct (map fst l) \<and> set l = (\<lambda>h. (h, E h)) ` {h. 0 < h \<and> h < N \<and> B h = None})"

lemma held_by_upd [simp]:
  "held_by (B(h \<mapsto> b)) a k = (if k = h then a \<in> set (map sa_task (bd_held b)) else held_by B a k)"
  "held_by (B(h := None)) a k = (k \<noteq> h \<and> held_by B a k)"
  by (auto simp: held_by_def)

lemma waits_for_upd [simp]:
  "waits_for (B(h \<mapsto> b)) k a =
     (if k = h then \<exists>as sa sas. bd_acts b = Await # as \<and> bd_held b = sa # sas \<and> sa_task sa = a else waits_for B k a)"
  "waits_for (B(h := None)) k a = (k \<noteq> h \<and> waits_for B k a)"
  by (auto simp: waits_for_def)

lemma waits_held: "waits_for B h a \<Longrightarrow> held_by B a h"
  by (auto simp: waits_for_def held_by_def)

lemma held_by_Some: "B h = Some b \<Longrightarrow> held_by B a h \<longleftrightarrow> a \<in> set (map sa_task (bd_held b))"
  by (simp add: held_by_def)

lemma held_bounds:
  assumes "bodies_ok E N B" and "held_by B a h"
  shows "0 < h" and "h < a" and "a < N"
  using assms by (auto simp: bodies_ok_def held_by_def body_ok_def)

lemma held_unique: "bodies_ok E N B \<Longrightarrow> held_by B a h \<Longrightarrow> held_by B a k \<Longrightarrow> h = k"
  by (auto simp: bodies_ok_def)

lemma bodies_okD: "bodies_ok E N B \<Longrightarrow> B h = Some b \<Longrightarrow> body_ok E N h b"
  by (auto simp: bodies_ok_def)

lemma not_held_fresh: "bodies_ok E N B \<Longrightarrow> \<not> held_by B N h"
  using held_bounds(3) by fastforce

lemma no_body_fresh: "bodies_ok E N B \<Longrightarrow> B N = None"
  using bodies_okD [of E N B N] by (cases "B N") (auto simp: body_ok_def)

subsection \<open>Every step keeps it\<close>

lemma bodies_ok_upd:
  assumes "bodies_ok E N B" and "B h = Some b" and "body_ok E N h b'"
    and "set (map sa_task (bd_held b')) \<subseteq> set (map sa_task (bd_held b))"
  shows "bodies_ok E N (B(h \<mapsto> b'))"
proof -
  have "held_by B a k" if "held_by (B(h \<mapsto> b')) a k" for a k
    using that assms(2,4) held_by_Some [of B h b] by (auto split: if_splits)
  then show ?thesis using assms(1,3) unfolding bodies_ok_def by (metis fun_upd_apply option.inject)
qed

text \<open>A step that only moves the body forward.\<close>

lemma coro_ok_cong:
  assumes "(B d = None) = (B' d = None)" and "\<And>k. held_by B' d k = held_by B d k"
    and "\<And>k. (k \<notin> set rs' \<and> waits_for B' k d) = (k \<notin> set rs \<and> waits_for B k d)"
  shows "coro_ok E rs' B' d q = coro_ok E rs B d q"
  unfolding coro_ok_def assms(1) assms(2) assms(3) ..

lemma coros_ok_upd:
  assumes "coros_ok E rs c B" and "coro_ok E rs' B' a q"
    and "\<And>d. d \<noteq> a \<Longrightarrow> (B d = None) = (B' d = None)" and "\<And>d k. d \<noteq> a \<Longrightarrow> held_by B' d k = held_by B d k"
    and "\<And>d k. d \<noteq> a \<Longrightarrow> (k \<notin> set rs' \<and> waits_for B' k d) = (k \<notin> set rs \<and> waits_for B k d)"
  shows "coros_ok E rs' (c(a := q)) B'"
  unfolding coros_ok_def
proof
  fix d
  show "coro_ok E rs' B' d ((c(a := q)) d)"
  proof (cases "d = a")
    case False
    then have "coro_ok E rs' B' d (c d) = coro_ok E rs B d (c d)" by (intro coro_ok_cong assms(3-5))
    then show ?thesis using False assms(1) by (simp add: coros_ok_def)
  qed (simp add: assms(2))
qed

lemma coros_okD: "coros_ok E rs c B \<Longrightarrow> coro_ok E rs B a (c a)"
  by (simp add: coros_ok_def)

lemma coros_ok_held:
  assumes "coros_ok E rs c B" and "held_by B a h"
  obtains p where "c a = Some p" and "ip_count p = (if B a = None then 1 else 2)"
    and "ip_variant p = (if B a = None then V_ok (E a) else V_uninitialized)"
proof (cases "c a")
  case None
  then show thesis using coros_okD [OF assms(1), of a] assms(2) by (auto simp: coro_ok_def)
next
  case (Some p)
  have "\<exists>h. held_by B a h" using assms(2) by blast
  then show thesis using coros_okD [OF assms(1), of a] Some that [of p] by (cases "B a") (simp_all add: coro_ok_def)
qed

lemma coros_ok_forward:
  assumes "coros_ok E rs c B" and "B h = Some b" and "h \<in> set rs" and "bd_held b' = bd_held b"
  shows "coros_ok E rs c (B(h \<mapsto> b'))"
  unfolding coros_ok_def
proof
  fix d
  have "coro_ok E rs (B(h \<mapsto> b')) d (c d) = coro_ok E rs B d (c d)"
    using assms(2-4) by (intro coro_ok_cong) (auto simp: held_by_def)
  then show "coro_ok E rs (B(h \<mapsto> b')) d (c d)" using coros_okD [OF assms(1)] by simp
qed

lemma sched_ok_forward:
  assumes "sched_ok rs B" and "h \<in> set rs"
  shows "sched_ok rs (B(h \<mapsto> b'))"
  using assms unfolding sched_ok_def by (auto simp: subset_iff) (metis assms(2) domIff option.distinct(1))

lemma log_ok_forward: "log_ok E N B l \<Longrightarrow> B h = Some b \<Longrightarrow> log_ok E N (B(h \<mapsto> b')) l"
proof -
  assume "log_ok E N B l" and "B h = Some b"
  moreover from this have "(B(h \<mapsto> b')) a = None \<longleftrightarrow> B a = None" for a by auto
  ultimately show ?thesis unfolding log_ok_def by presburger
qed

text \<open>A new coroutine, with its awaitable destroyed at once or kept by the coroutine that runs.\<close>

definition promise_spawned :: "int \<Rightarrow> 'v internal_promise" where
  "promise_spawned n = \<lparr>ip_variant = V_uninitialized, ip_continuation = None, ip_count = n\<rparr>"

lemma body_ok_new: "0 < N \<Longrightarrow> E N = prog_value q \<Longrightarrow> body_ok E (Suc N) N (new_body q)"
  by (cases q) (simp add: body_ok_def)

lemma bodies_ok_Suc: "bodies_ok E N B \<Longrightarrow> bodies_ok E (Suc N) B"
  unfolding bodies_ok_def body_ok_def by (meson less_Suc_eq)

lemma bodies_ok_spawn:
  assumes "bodies_ok E N B" and "0 < N" and "E N = prog_value q"
  shows "bodies_ok E (Suc N) (B(N \<mapsto> new_body q))"
proof -
  have n: "bd_held (new_body q) = []" by (cases q) simp
  have "body_ok E (Suc N) h b" if "(B(N \<mapsto> new_body q)) h = Some b" for h b
  proof (cases "h = N")
    case True
    then show ?thesis using that body_ok_new [of N E q] assms(2,3) by simp
  next
    case False
    then show ?thesis using that bodies_okD [OF bodies_ok_Suc [OF assms(1)]] by simp
  qed
  moreover have "h = k" if "held_by (B(N \<mapsto> new_body q)) a h" and "held_by (B(N \<mapsto> new_body q)) a k" for a h k
    using that n held_unique [OF assms(1), of a h k] by (simp split: if_splits)
  ultimately show ?thesis unfolding bodies_ok_def by blast
qed

lemma sched_ok_spawn:
  assumes "sched_ok rs B" and "B N = None"
  shows "sched_ok (rs @ [N]) (B(N \<mapsto> b))"
proof -
  have "N \<notin> set rs" using assms by (auto simp: sched_ok_def)
  moreover have "\<exists>a. (B(N \<mapsto> b)) a \<noteq> None \<and> waits_for (B(N \<mapsto> b)) h a"
    if "(B(N \<mapsto> b)) h \<noteq> None" and "h \<notin> set (rs @ [N])" for h
  proof -
    have h: "B h \<noteq> None" "h \<notin> set rs" "h \<noteq> N" using that by auto
    obtain a where "B a \<noteq> None" and "waits_for B h a" using assms(1) h unfolding sched_ok_def by blast
    then show ?thesis using h assms(2) by (intro exI [of _ a]) auto
  qed
  moreover have "set (rs @ [N]) \<subseteq> dom (B(N \<mapsto> b))" using assms(1) by (auto simp: sched_ok_def)
  ultimately show ?thesis using assms(1) unfolding sched_ok_def by auto
qed

lemma log_ok_spawn:
  assumes "log_ok E N B l"
  shows "log_ok E (Suc N) (B(N \<mapsto> b)) l"
proof -
  have "{h. 0 < h \<and> h < Suc N \<and> (B(N \<mapsto> b)) h = None} = {h. 0 < h \<and> h < N \<and> B h = None}" by auto
  then show ?thesis using assms by (simp add: log_ok_def)
qed

lemma coros_ok_detach:
  assumes ok: "coros_ok E rs c B" "bodies_ok E N B" and "bd_held b = []"
  shows "coros_ok E (rs @ [N]) (c(N \<mapsto> promise_spawned 1)) (B(N \<mapsto> b))"
proof -
  have B: "B N = None" and h: "\<not> held_by B N k" and w: "\<not> waits_for B k N" for k
    using no_body_fresh [OF ok(2)] not_held_fresh [OF ok(2)] waits_held by blast+
  show ?thesis
  proof (rule coros_ok_upd [OF ok(1)])
    show "coro_ok E (rs @ [N]) (B(N \<mapsto> b)) N (Some (promise_spawned 1))"
      using assms(3) h w by (simp add: coro_ok_def promise_spawned_def)
    show "held_by (B(N \<mapsto> b)) d k = held_by B d k" for d k using B assms(3) by (auto simp: held_by_def)
    show "(k \<notin> set (rs @ [N]) \<and> waits_for (B(N \<mapsto> b)) k d) = (k \<notin> set rs \<and> waits_for B k d)" for d k
      using B assms(3) by (auto simp: waits_for_def)
  qed auto
qed

lemma coros_ok_fork:
  assumes ok: "coros_ok E rs c B" "bodies_ok E N B" and new: "bd_held b = []"
    and run: "B h = Some b1" "h \<in> set rs" and b2: "map sa_task (bd_held b2) = map sa_task (bd_held b1) @ [N]"
  shows "coros_ok E (rs @ [N]) (c(N \<mapsto> promise_spawned 2)) (B(N \<mapsto> b, h \<mapsto> b2))"
proof -
  let ?B = "B(N \<mapsto> b, h \<mapsto> b2)"
  have B: "B N = None" and h: "\<not> held_by B N k" and w: "\<not> waits_for B k N" for k
    using no_body_fresh [OF ok(2)] not_held_fresh [OF ok(2)] waits_held by blast+
  have hN: "h \<noteq> N" using B run(1) by auto
  have hb: "held_by B a h \<longleftrightarrow> a \<in> set (map sa_task (bd_held b1))" for a using held_by_Some [of B h b1] run(1) by simp
  have held: "held_by ?B a k \<longleftrightarrow> held_by B a k \<or> (a = N \<and> k = h)" for a k
    using B new hN hb [of a] b2 [THEN arg_cong [of _ _ set]] by (auto simp: held_by_def)
  have waits: "k \<notin> set (rs @ [N]) \<and> waits_for ?B k a \<longleftrightarrow> k \<notin> set rs \<and> waits_for B k a" for a k
    using B run by (auto simp: waits_for_def)
  show ?thesis
  proof (rule coros_ok_upd [OF ok(1)])
    show "coro_ok E (rs @ [N]) ?B N (Some (promise_spawned 2))"
      unfolding coro_ok_def waits held using hN h w by (simp add: promise_spawned_def)
    show "held_by ?B d k = held_by B d k" if "d \<noteq> N" for d k using that held by simp
  qed (use waits run in auto)
qed

text \<open>The running coroutine suspends on a child that has not ended.\<close>

lemma coros_ok_suspend:
  assumes "coros_ok E (h # rs) c B" and "bodies_ok E N B" and "waits_for B h a" and "c a = Some p" and "h \<notin> set rs"
  shows "coros_ok E rs (c(a \<mapsto> p\<lparr>ip_continuation := Some h\<rparr>)) B"
proof -
  have a: "waits_for B k a \<longleftrightarrow> k = h" for k
    using assms(3) held_unique [OF assms(2)] waits_held [of B _ a] by blast
  have b: "waits_for B h d \<longleftrightarrow> d = a" for d using assms(3) by (auto simp: waits_for_def)
  have "coro_ok E rs B a (Some (p\<lparr>ip_continuation := Some h\<rparr>))"
    using coros_okD [OF assms(1), of a] assms(4,5) a by (auto simp: coro_ok_def)
  then show ?thesis using b by (intro coros_ok_upd [OF assms(1)]) auto
qed

lemma sched_ok_suspend:
  assumes "sched_ok (h # rs) B" and "waits_for B h a" and "B a \<noteq> None"
  shows "sched_ok rs B"
  using assms unfolding sched_ok_def by auto

text \<open>The running coroutine takes the result of a child that has ended.\<close>

lemma coros_ok_take:
  assumes "coros_ok E rs c B" and "bodies_ok E N B" and run: "B h = Some b" "h \<in> set rs" and "bd_held b = sa # sas"
    and "B (sa_task sa) = None" and "bd_held b' = sas"
  shows "coros_ok E rs (c(sa_task sa := None)) (B(h \<mapsto> b'))"
proof -
  let ?a = "sa_task sa"
  have hb: "held_by B d h \<longleftrightarrow> d \<in> set (map sa_task (bd_held b))" for d using held_by_Some [of B h b] run(1) by simp
  have u: "held_by B ?a k \<longleftrightarrow> k = h" for k using held_unique [OF assms(2)] hb assms(5) by (metis list.set_intros(1) list.simps(9))
  have dist: "?a \<notin> set (map sa_task sas)" using bodies_okD [OF assms(2) run(1)] assms(5) by (simp add: body_ok_def)
  have held: "held_by (B(h \<mapsto> b')) d k \<longleftrightarrow> held_by B d k \<and> d \<noteq> ?a" for d k
    using u hb [of d] dist assms(5,7) by (cases "k = h") auto
  show ?thesis
  proof (rule coros_ok_upd [OF assms(1)])
    show "coro_ok E rs (B(h \<mapsto> b')) ?a None" unfolding coro_ok_def held using assms(6) run(1) by auto
    show "held_by (B(h \<mapsto> b')) d k = held_by B d k" if "d \<noteq> ?a" for d k using that held by simp
  qed (use run in auto)
qed

text \<open>A local awaitable of a body that has returned is destroyed; its coroutine goes on without it.\<close>

lemma coros_ok_drop:
  assumes "coros_ok E rs c B" and "bodies_ok E N B" and run: "B h = Some b" "h \<in> set rs" and "bd_held b = sas @ [sa]"
    and "bd_held b' = sas" and "c (sa_task sa) = Some p"
  shows "coros_ok E rs (c(sa_task sa := if B (sa_task sa) = None then None else Some (p\<lparr>ip_count := 1\<rparr>))) (B(h \<mapsto> b'))"
proof -
  let ?a = "sa_task sa"
  have hb: "held_by B d h \<longleftrightarrow> d \<in> set (map sa_task (bd_held b))" for d using held_by_Some [of B h b] run(1) by simp
  have "held_by B ?a h" using hb assms(5) by simp
  then have u: "held_by B ?a k \<longleftrightarrow> k = h" for k using held_unique [OF assms(2)] by blast
  have dist: "?a \<notin> set (map sa_task sas)" using bodies_okD [OF assms(2) run(1)] assms(5) by (auto simp: body_ok_def)
  have held: "held_by (B(h \<mapsto> b')) d k \<longleftrightarrow> held_by B d k \<and> d \<noteq> ?a" for d k
    using u hb [of d] dist assms(5,6) by (cases "k = h") auto
  have dom: "(B(h \<mapsto> b')) d = None \<longleftrightarrow> B d = None" for d using run(1) by auto
  have waits: "k \<notin> set rs \<and> waits_for (B(h \<mapsto> b')) k d \<longleftrightarrow> k \<notin> set rs \<and> waits_for B k d" for k d using run(2) by auto
  show ?thesis
  proof (rule coros_ok_upd [OF assms(1)])
    show "coro_ok E rs (B(h \<mapsto> b')) ?a (if B ?a = None then None else Some (p\<lparr>ip_count := 1\<rparr>))"
      using coros_okD [OF assms(1), of ?a] assms(7) unfolding coro_ok_def held dom waits by auto
    show "held_by (B(h \<mapsto> b')) d k = held_by B d k" if "d \<noteq> ?a" for d k using that held by simp
  qed (use dom waits in auto)
qed

text \<open>The end of a coroutine: its awaiter, when there is one, is to be resumed.\<close>

definition next_of :: "handle option \<Rightarrow> handle list" where
  "next_of k = (case k of None \<Rightarrow> [] | Some g \<Rightarrow> [g])"

lemma next_of_set [simp]: "set (next_of k) = {g. k = Some g}" "distinct (next_of k)"
  by (auto simp: next_of_def split: option.split)

lemma bodies_ok_end: "bodies_ok E N B \<Longrightarrow> bodies_ok E N (B(h := None))"
  by (auto simp: bodies_ok_def)

lemma log_ok_end:
  assumes "log_ok E N B l" and "B h = Some b" and "body_ok E N h b" and "v = E h"
  shows "log_ok E N (B(h := None)) (l @ [(h, v)])"
proof -
  have "{g. 0 < g \<and> g < N \<and> (B(h := None)) g = None} = insert h {g. 0 < g \<and> g < N \<and> B g = None}"
    using assms(3) by (auto simp: body_ok_def)
  moreover have "h \<notin> fst ` set l" using assms(1,2) by (auto simp: log_ok_def)
  ultimately show ?thesis using assms(1,4) unfolding log_ok_def by simp
qed

lemma coros_ok_cont:
  assumes "coros_ok E rs c B" and "B h = Some b" and "c h = Some p"
  shows "ip_continuation p = Some g \<longleftrightarrow> g \<notin> set rs \<and> waits_for B g h"
  using coros_okD [OF assms(1), of h] assms(2,3) by (simp add: coro_ok_def)

lemma coros_ok_end:
  assumes ok: "coros_ok E (h # rs) c B" "bodies_ok E N B" and run: "B h = Some b" "bd_held b = []"
    and p: "c h = Some p" and p': "p' = (if ip_count p = 1 then None else Some (p\<lparr>ip_variant := V_ok (E h), ip_count := ip_count p - 1\<rparr>))"
  shows "coros_ok E (next_of (ip_continuation p) @ rs) (c(h := p')) (B(h := None))"
proof -
  let ?B = "B(h := None)"
  have nh: "\<not> held_by B d h" for d using held_by_Some [of B h b] run by simp
  have held: "held_by ?B d k = held_by B d k" for d k using nh by auto
  have nw: "\<not> waits_for B h d" for d using nh waits_held by blast
  have uniq: "waits_for B k d \<Longrightarrow> waits_for B k d' \<Longrightarrow> d = d'" for k d d' by (auto simp: waits_for_def)
  show ?thesis
  proof (rule coros_ok_upd [OF ok(1)])
    show "coro_ok E (next_of (ip_continuation p) @ rs) ?B h p'"
      using coros_okD [OF ok(1), of h] p run(1) unfolding coro_ok_def held p' by auto
    show "(k \<notin> set (next_of (ip_continuation p) @ rs) \<and> waits_for ?B k d) = (k \<notin> set (h # rs) \<and> waits_for B k d)"
      if "d \<noteq> h" for d k
      using that coros_ok_cont [OF ok(1) run(1) p] nw uniq [of k d h]
      by (cases "ip_continuation p") (auto simp: next_of_def)
  qed (use held in auto)
qed

lemma sched_ok_end:
  assumes ok: "coros_ok E (h # rs) c B" "sched_ok (h # rs) B" and run: "B h = Some b"
    and p: "c h = Some p"
  shows "sched_ok (next_of (ip_continuation p) @ rs) (B(h := None))"
proof -
  have cont: "ip_continuation p = Some g \<longleftrightarrow> g \<notin> set (h # rs) \<and> waits_for B g h" for g
    by (rule coros_ok_cont [OF ok(1) run p])
  have nx: "set (next_of (ip_continuation p)) = {g. g \<notin> set (h # rs) \<and> waits_for B g h}"
    unfolding next_of_set cont ..
  have "\<exists>a. (B(h := None)) a \<noteq> None \<and> waits_for (B(h := None)) k a"
    if "(B(h := None)) k \<noteq> None" and "k \<notin> set (next_of (ip_continuation p) @ rs)" for k
  proof -
    have k: "B k \<noteq> None" "k \<noteq> h" "k \<notin> set (h # rs)" "\<not> waits_for B k h" using that nx by (auto split: if_splits)
    then obtain a where "B a \<noteq> None" "waits_for B k a" using ok(2) unfolding sched_ok_def by blast
    then show ?thesis using k by (intro exI [of _ a]) auto
  qed
  moreover have "set (next_of (ip_continuation p) @ rs) \<subseteq> dom (B(h := None))"
    using ok(2) nx by (auto simp: waits_for_def sched_ok_def)
  moreover have "distinct (next_of (ip_continuation p) @ rs)" using ok(2) nx by (auto simp: sched_ok_def)
  ultimately show ?thesis unfolding sched_ok_def by blast
qed

subsection \<open>The steps of the world\<close>

definition value_at :: "'v prog list \<Rightarrow> handle \<Rightarrow> 'v" where
  "value_at sp h = prog_value (sp ! (h - 1))"

definition tasks_ok :: "handle list \<Rightarrow> ('r, 'v) tw \<Rightarrow> bool" where
  "tasks_ok rs s =
     (let w = snd s; E = value_at (tw_spawned w); N = Suc (length (tw_spawned w)) in
      tasks (fst s) = dom (tw_bodies w) \<and> bodies_ok E N (tw_bodies w) \<and> coros_ok E rs (tw_coros w) (tw_bodies w) \<and>
      sched_ok rs (tw_bodies w) \<and> log_ok E N (tw_bodies w) (tw_log w))"

definition total_tasks :: "'v task_world \<Rightarrow> nat" where
  "total_tasks w = length (tw_spawned w) + body_sum (\<lambda>b. act_tasks (bd_acts b)) (Suc (length (tw_spawned w))) (tw_bodies w)"

text \<open>
  What one or more steps of a coroutine do: they spawn the coroutines \<open>new\<close>, use up work, and change
  nothing else of the frame of the runtime.
\<close>

definition frame_rest :: "'r io_context_frame \<Rightarrow> 'r io_context_frame" where
  "frame_rest fr = fr\<lparr>tasks := {}, run_queue := []\<rparr>"

definition stepped :: "('r, 'v) tw \<Rightarrow> handle list \<Rightarrow> ('r, 'v) tw \<Rightarrow> nat \<Rightarrow> bool" where
  "stepped s new s' k =
     (frame_rest (fst s') = frame_rest (fst s) \<and> run_queue (fst s') = run_queue (fst s) @ new \<and>
      (\<exists>xs. tw_spawned (snd s') = tw_spawned (snd s) @ xs) \<and> total_tasks (snd s') = total_tasks (snd s) \<and>
      world_work (snd s') + length new + k \<le> world_work (snd s))"

lemma stepped_trans: "stepped s new1 s1 k1 \<Longrightarrow> stepped s1 new2 s2 k2 \<Longrightarrow> stepped s (new1 @ new2) s2 (k1 + k2)"
  unfolding stepped_def by auto

lemma body_sum_upd:
  assumes "0 < h" and "h < N"
  shows "body_sum f N (B(h := x)) + case_option 0 f (B h) = body_sum f N B + case_option 0 f x"
proof -
  have s: "body_sum f N B = case_option 0 f (B h) + (\<Sum>k\<in>{1..<N} - {h}. case_option 0 f (B k))" for B
    unfolding body_sum_def interv_sum_list_conv_sum_set_nat using assms by (subst sum.remove [of _ h]) auto
  show ?thesis unfolding s [of "B(h := x)"] s [of B] by simp
qed

lemma body_sum_new:
  assumes "0 < N"
  shows "body_sum f (Suc N) (B(N \<mapsto> b)) = body_sum f N B + f b"
proof -
  have "(\<Sum>h\<in>{1..<N}. case_option 0 f ((B(N \<mapsto> b)) h)) = (\<Sum>h\<in>{1..<N}. case_option 0 f (B h))"
    by (rule sum.cong) auto
  then show ?thesis using assms unfolding body_sum_def interv_sum_list_conv_sum_set_nat by (simp add: atLeastLessThanSuc)
qed

lemma value_at_append: "0 < h \<Longrightarrow> h < Suc (length sp) \<Longrightarrow> value_at (sp @ [q]) h = value_at sp h"
  by (auto simp: value_at_def nth_append)

lemma value_at_last: "value_at (sp @ [q]) (Suc (length sp)) = prog_value q"
  by (simp add: value_at_def nth_append)

lemma bodies_ok_cong:
  assumes "bodies_ok E N B" and "\<And>h. 0 < h \<Longrightarrow> h < N \<Longrightarrow> E' h = E h"
  shows "bodies_ok E' N B"
proof -
  have "body_ok E' N h b" if "B h = Some b" for h b
  proof -
    have ok: "body_ok E N h b" using assms(1) that by (rule bodies_okD)
    then have m: "map (\<lambda>sa. E' (sa_task sa)) (bd_held b) = map (\<lambda>sa. E (sa_task sa)) (bd_held b)" and e: "E' h = E h"
      using assms(2) by (auto simp: body_ok_def)
    show ?thesis using ok unfolding body_ok_def m e .
  qed
  then show ?thesis using assms(1) by (auto simp: bodies_ok_def)
qed

lemma coros_ok_cong:
  assumes "coros_ok E rs c B" and "bodies_ok E N B" and "\<And>h. 0 < h \<Longrightarrow> h < N \<Longrightarrow> E' h = E h"
  shows "coros_ok E' rs c B"
proof -
  have "coro_ok E' rs B a (c a)" for a
  proof (cases "\<exists>h. held_by B a h")
    case True
    then have e: "E' a = E a" using held_bounds [OF assms(2)] assms(3) by (meson less_trans)
    have "coro_ok E' rs B a (c a) = coro_ok E rs B a (c a)" unfolding coro_ok_def e ..
    then show ?thesis using coros_okD [OF assms(1), of a] by simp
  next
    case False
    then show ?thesis using coros_okD [OF assms(1), of a] by (auto simp: coro_ok_def split: option.splits)
  qed
  then show ?thesis by (simp add: coros_ok_def)
qed

lemma log_ok_cong: "log_ok E N B l \<Longrightarrow> (\<And>h. 0 < h \<Longrightarrow> h < N \<Longrightarrow> E' h = E h) \<Longrightarrow> log_ok E' N B l"
  by (auto simp: log_ok_def)

lemma on_task_apply [op_simps]:
  "m (fr, tw_coros w) = (x, (fr', c)) \<Longrightarrow> on_task m (fr, w) = (x, (fr', w\<lparr>tw_coros := c\<rparr>))"
  by (simp add: on_task_def)

lemma set_body_apply [op_simps]:
  "set_body h b (fr, w) = (Ret (), (fr, w\<lparr>tw_bodies := (tw_bodies w)(h \<mapsto> b)\<rparr>))"
  by (simp add: set_body_def op_simps)

lemma spawn_prog_apply:
  "spawn_prog q (fr, w) =
     (let h = Suc (length (tw_spawned w)) in
      (Ret \<lparr>sa_task = h, sa_was_awaited = False\<rparr>,
       (fr\<lparr>tasks := insert h (tasks fr), run_queue := run_queue fr @ [h]\<rparr>,
        w\<lparr>tw_coros := (tw_coros w)(h \<mapsto> promise_spawned 2), tw_bodies := (tw_bodies w)(h \<mapsto> new_body q),
          tw_spawned := tw_spawned w @ [q]\<rparr>)))"
  by (simp add: spawn_prog_def spawn_apply promise_spawned_def Let_def op_simps)

lemma detach_prog_apply:
  "detach_prog q (fr, w) =
     (let h = Suc (length (tw_spawned w)) in
      (Ret (),
       (fr\<lparr>tasks := insert h (tasks fr), run_queue := run_queue fr @ [h]\<rparr>,
        w\<lparr>tw_coros := (tw_coros w)(h \<mapsto> promise_spawned 1), tw_bodies := (tw_bodies w)(h \<mapsto> new_body q),
          tw_spawned := tw_spawned w @ [q]\<rparr>)))"
  by (simp add: detach_prog_def spawn_prog_apply promise_spawned_def Let_def op_simps)

lemma tasks_okI:
  assumes "tasks fr = dom (tw_bodies w)" and "E = value_at (tw_spawned w)" and "N = Suc (length (tw_spawned w))"
    and "bodies_ok E N (tw_bodies w)" and "coros_ok E rs (tw_coros w) (tw_bodies w)"
    and "sched_ok rs (tw_bodies w)" and "log_ok E N (tw_bodies w) (tw_log w)"
  shows "tasks_ok rs (fr, w)"
  using assms by (simp add: tasks_ok_def Let_def)

lemma tasks_okD:
  assumes "tasks_ok rs (fr, w)"
  shows "tasks fr = dom (tw_bodies w)" and "bodies_ok (value_at (tw_spawned w)) (Suc (length (tw_spawned w))) (tw_bodies w)"
    and "coros_ok (value_at (tw_spawned w)) rs (tw_coros w) (tw_bodies w)"
    and "sched_ok rs (tw_bodies w)" and "log_ok (value_at (tw_spawned w)) (Suc (length (tw_spawned w))) (tw_bodies w) (tw_log w)"
  using assms by (simp_all add: tasks_ok_def Let_def)

lemma new_body_simps [simp]:
  "bd_held (new_body q) = []" "bd_env (new_body q) = []" "Suc (act_work (bd_acts (new_body q))) = prog_work q"
  "Suc (act_tasks (bd_acts (new_body q))) = prog_tasks q"
  by (cases q; simp)+

text \<open>The invariant for the world with one more program.\<close>

lemma tasks_ok_respawn:
  assumes "tasks_ok rs (fr, w)" and "E = value_at (tw_spawned w @ [q])" and "N = Suc (length (tw_spawned w))"
  shows "bodies_ok E N (tw_bodies w)" and "coros_ok E rs (tw_coros w) (tw_bodies w)" and "log_ok E N (tw_bodies w) (tw_log w)"
    and "E N = prog_value q"
proof -
  note ok = tasks_okD [OF assms(1)]
  have e: "E h = value_at (tw_spawned w) h" if "0 < h" and "h < N" for h using that assms(2,3) by (simp add: value_at_append)
  show "bodies_ok E N (tw_bodies w)" using bodies_ok_cong [OF ok(2)] e assms(3) by simp
  show "coros_ok E rs (tw_coros w) (tw_bodies w)" using coros_ok_cong [OF ok(3,2)] e assms(3) by simp
  show "log_ok E N (tw_bodies w) (tw_log w)" using log_ok_cong [OF ok(5)] e assms(3) by simp
  show "E N = prog_value q" using assms(2,3) by (simp add: value_at_last)
qed

lemma detach_prog_ok:
  assumes "tasks_ok rs (fr, w)"
  shows "\<exists>s'. detach_prog q (fr, w) = (Ret (), s') \<and> tasks_ok (rs @ [Suc (length (tw_spawned w))]) s' \<and>
     frame_rest (fst s') = frame_rest fr \<and> run_queue (fst s') = run_queue fr @ [Suc (length (tw_spawned w))] \<and>
     tw_spawned (snd s') = tw_spawned w @ [q] \<and> total_tasks (snd s') = total_tasks w + prog_tasks q \<and>
     world_work (snd s') = world_work w + prog_work q"
proof -
  let ?N = "Suc (length (tw_spawned w))" and ?E = "value_at (tw_spawned w @ [q])"
  note ok = tasks_okD [OF assms] and re = tasks_ok_respawn [OF assms refl refl, of q]
  let ?w = "w\<lparr>tw_coros := (tw_coros w)(?N \<mapsto> promise_spawned 1), tw_bodies := (tw_bodies w)(?N \<mapsto> new_body q),
     tw_spawned := tw_spawned w @ [q]\<rparr>"
  have "tasks_ok (rs @ [?N]) (fr\<lparr>tasks := insert ?N (tasks fr), run_queue := run_queue fr @ [?N]\<rparr>, ?w)"
  proof (rule tasks_okI [where E = ?E and N = "Suc ?N"])
    show "bodies_ok ?E (Suc ?N) (tw_bodies ?w)" using bodies_ok_spawn [OF re(1) _ re(4)] by simp
    show "coros_ok ?E (rs @ [?N]) (tw_coros ?w) (tw_bodies ?w)" using coros_ok_detach [OF re(2,1)] by simp
    show "sched_ok (rs @ [?N]) (tw_bodies ?w)" using sched_ok_spawn [OF ok(4) no_body_fresh [OF ok(2)]] by simp
    show "log_ok ?E (Suc ?N) (tw_bodies ?w) (tw_log ?w)" using log_ok_spawn [OF re(3)] by simp
  qed (use ok(1) in auto)
  then show ?thesis
    by (simp add: detach_prog_apply Let_def frame_rest_def total_tasks_def world_work_def body_sum_new body_work_def
        del: fun_upd_apply flip: new_body_simps(3,4))
qed

text \<open>The running coroutine goes one action further.\<close>

lemma forward_ok:
  assumes "tasks_ok (h # rs) (fr, w)" and "tw_bodies w h = Some b" and "bd_held b' = bd_held b"
    and "bd_ret b' (awaited (bd_acts b') (map v (bd_held b)) (bd_env b')) = bd_ret b (awaited (bd_acts b) (map v (bd_held b)) (bd_env b))"
    and "v = (\<lambda>sa. value_at (tw_spawned w) (sa_task sa))"
  shows "tasks_ok (h # rs) (fr, w\<lparr>tw_bodies := (tw_bodies w)(h \<mapsto> b')\<rparr>)"
proof -
  let ?N = "Suc (length (tw_spawned w))" and ?E = "value_at (tw_spawned w)"
  note ok = tasks_okD [OF assms(1)]
  have "body_ok ?E ?N h b'" using bodies_okD [OF ok(2) assms(2)] assms(3-5) by (simp add: body_ok_def)
  then show ?thesis
    using ok assms(2,3) bodies_ok_upd [OF ok(2) assms(2)] coros_ok_forward [OF ok(3) assms(2)] sched_ok_forward [OF ok(4)]
      log_ok_forward [OF ok(5) assms(2)]
    by (intro tasks_okI [OF _ refl refl]) auto
qed

lemma body_bounds: "tasks_ok rs (fr, w) \<Longrightarrow> tw_bodies w h = Some b \<Longrightarrow> 0 < h \<and> h < Suc (length (tw_spawned w))"
  using bodies_okD [OF tasks_okD(2)] by (fastforce simp: body_ok_def)

lemma work_upd:
  assumes "tasks_ok rs (fr, w)" and "tw_bodies w h = Some b"
  shows "world_work (w\<lparr>tw_coros := c, tw_bodies := (tw_bodies w)(h := x)\<rparr>) + body_work b = world_work w + case_option 0 body_work x"
    and "total_tasks (w\<lparr>tw_coros := c, tw_bodies := (tw_bodies w)(h := x)\<rparr>) + act_tasks (bd_acts b) =
      total_tasks w + case_option 0 (\<lambda>b. act_tasks (bd_acts b)) x"
  using body_sum_upd [of h "Suc (length (tw_spawned w))" body_work "tw_bodies w" x]
    body_sum_upd [of h "Suc (length (tw_spawned w))" "\<lambda>b. act_tasks (bd_acts b)" "tw_bodies w" x]
    body_bounds [OF assms] assms(2) by (simp_all add: world_work_def total_tasks_def)

lemma work_upd_body:
  assumes "tasks_ok rs (fr, w)" and "tw_bodies w h = Some b"
  shows "world_work (w\<lparr>tw_bodies := (tw_bodies w)(h := x)\<rparr>) + body_work b = world_work w + case_option 0 body_work x"
    and "total_tasks (w\<lparr>tw_bodies := (tw_bodies w)(h := x)\<rparr>) + act_tasks (bd_acts b) =
      total_tasks w + case_option 0 (\<lambda>b. act_tasks (bd_acts b)) x"
  using work_upd [OF assms, where c = "tw_coros w" and x = x] by simp_all

lemma awaited_nil: "awaited [] vs env = env"
  by simp

lemma detach_step:
  assumes ok: "tasks_ok (h # rs) (fr, w)" and b: "tw_bodies w h = Some b" "bd_acts b = Detach q # as"
  shows "\<exists>s' N. detach_prog q (fr, w\<lparr>tw_bodies := (tw_bodies w)(h \<mapsto> b\<lparr>bd_acts := as\<rparr>)\<rparr>) = (Ret (), s') \<and>
     tasks_ok (h # rs @ [N]) s' \<and> stepped (fr, w) [N] s' 2"
proof -
  let ?w = "w\<lparr>tw_bodies := (tw_bodies w)(h \<mapsto> b\<lparr>bd_acts := as\<rparr>)\<rparr>"
  have "tasks_ok (h # rs) (fr, ?w)" by (rule forward_ok [OF ok b(1)]) (simp_all add: b(2))
  from detach_prog_ok [OF this, of q] work_upd_body [OF ok b(1), of "Some (b\<lparr>bd_acts := as\<rparr>)"] show ?thesis
    by (auto simp: stepped_def body_work_def b(2) simp del: fun_upd_apply)
qed

lemma skip_step:
  assumes ok: "tasks_ok (h # rs) (fr, w)" and b: "tw_bodies w h = Some b" "bd_acts b = Await # as" "bd_held b = []"
  shows "tasks_ok (h # rs) (fr, w\<lparr>tw_bodies := (tw_bodies w)(h \<mapsto> b\<lparr>bd_acts := as\<rparr>)\<rparr>) \<and>
     stepped (fr, w) [] (fr, w\<lparr>tw_bodies := (tw_bodies w)(h \<mapsto> b\<lparr>bd_acts := as\<rparr>)\<rparr>) 1"
proof -
  have "tasks_ok (h # rs) (fr, w\<lparr>tw_bodies := (tw_bodies w)(h \<mapsto> b\<lparr>bd_acts := as\<rparr>)\<rparr>)"
    by (rule forward_ok [OF ok b(1)]) (simp_all add: b)
  then show ?thesis using work_upd_body [OF ok b(1), of "Some (b\<lparr>bd_acts := as\<rparr>)"]
    by (auto simp: stepped_def body_work_def b simp del: fun_upd_apply)
qed

lemma suspend_step:
  assumes ok: "tasks_ok (h # rs) (fr, w)" and b: "tw_bodies w h = Some b" "bd_acts b = Await # as" "bd_held b = sa # sas"
    and alive: "tw_bodies w (sa_task sa) \<noteq> None"
  shows "\<exists>s'. spawn_await_suspend h sa (fr, tw_coros w) = (Ret True, (fr, tw_coros (snd s'))) \<and>
     s' = (fr, w\<lparr>tw_coros := tw_coros (snd s')\<rparr>) \<and> tasks_ok rs s' \<and> stepped (fr, w) [] s' 0"
proof -
  note k = tasks_okD [OF ok]
  have w: "waits_for (tw_bodies w) h (sa_task sa)" using b by (auto simp: waits_for_def)
  have h: "h \<notin> set rs" using k(4) by (simp add: sched_ok_def)
  obtain p where p: "tw_coros w (sa_task sa) = Some p" "ip_count p = 2"
    using coros_okD [OF k(3), of "sa_task sa"] alive waits_held [OF w] by (auto simp: coro_ok_def split: option.splits)
  let ?c = "(tw_coros w)(sa_task sa \<mapsto> p\<lparr>ip_continuation := Some h\<rparr>)"
  have "tasks_ok rs (fr, w\<lparr>tw_coros := ?c\<rparr>)"
    using k coros_ok_suspend [OF k(3,2) w p(1) h] sched_ok_suspend [OF k(4) w alive] by (intro tasks_okI [OF _ refl refl]) auto
  moreover have "spawn_await_suspend h sa (fr, tw_coros w) = (Ret True, (fr, ?c))" using p by (simp add: op_simps)
  moreover have "stepped (fr, w) [] (fr, w\<lparr>tw_coros := ?c\<rparr>) 0" by (simp add: stepped_def world_work_def total_tasks_def)
  ultimately show ?thesis by (intro exI [of _ "(fr, w\<lparr>tw_coros := ?c\<rparr>)"]) simp
qed

lemma take_step:
  assumes ok: "tasks_ok (h # rs) (fr, w)" and b: "tw_bodies w h = Some b" "bd_acts b = Await # as" "bd_held b = sa # sas"
    and ended: "tw_bodies w (sa_task sa) = None"
  shows "\<exists>s'. take_result h (fr, w) = (Ret (), s') \<and> tasks_ok (h # rs) s' \<and> stepped (fr, w) [] s' 1"
proof -
  let ?E = "value_at (tw_spawned w)" and ?N = "Suc (length (tw_spawned w))" and ?a = "sa_task sa"
  note k = tasks_okD [OF ok]
  have held: "held_by (tw_bodies w) ?a h" using b by (simp add: held_by_def)
  obtain p where p: "tw_coros w ?a = Some p" "ip_count p = 1" "ip_variant p = V_ok (?E ?a)"
    using coros_okD [OF k(3), of ?a] ended held by (auto simp: coro_ok_def split: option.splits)
  let ?b = "b\<lparr>bd_acts := as, bd_held := sas, bd_env := bd_env b @ [?E ?a]\<rparr>"
  let ?w = "w\<lparr>tw_coros := (tw_coros w)(?a := None), tw_bodies := (tw_bodies w)(h \<mapsto> ?b)\<rparr>"
  have "take_result h (fr, w) = (Ret (), (fr, ?w))"
    using p b by (simp add: take_result_def variant_result_def op_simps)
  moreover have "tasks_ok (h # rs) (fr, ?w)"
  proof (rule tasks_okI [OF _ refl refl])
    have "body_ok ?E ?N h ?b" using bodies_okD [OF k(2) b(1)] b by (simp add: body_ok_def)
    from bodies_ok_upd [OF k(2) b(1) this] b(3)
    show "bodies_ok (value_at (tw_spawned ?w)) (Suc (length (tw_spawned ?w))) (tw_bodies ?w)" by auto
    show "coros_ok (value_at (tw_spawned ?w)) (h # rs) (tw_coros ?w) (tw_bodies ?w)"
      using coros_ok_take [OF k(3,2) b(1) _ b(3) ended, of ?b] by simp
    show "sched_ok (h # rs) (tw_bodies ?w)" using sched_ok_forward [OF k(4)] by simp
    show "log_ok (value_at (tw_spawned ?w)) (Suc (length (tw_spawned ?w))) (tw_bodies ?w) (tw_log ?w)"
      using log_ok_forward [OF k(5) b(1)] by simp
  qed (use k(1) b(1) in auto)
  moreover have "stepped (fr, w) [] (fr, ?w) 1"
    using work_upd [OF ok b(1), where c = "(tw_coros w)(?a := None)" and x = "Some ?b"] b(2,3)
    by (auto simp: stepped_def body_work_def simp del: fun_upd_apply)
  ultimately show ?thesis by blast
qed

lemma await_ended_step:
  assumes ok: "tasks_ok (h # rs) (fr, w)" and b: "tw_bodies w h = Some b" "bd_acts b = Await # as" "bd_held b = sa # sas"
    and ended: "tw_bodies w (sa_task sa) = None"
  shows "\<exists>c s'. spawn_await_suspend h sa (fr, tw_coros w) = (Ret False, (fr, c)) \<and>
     take_result h (fr, w\<lparr>tw_coros := c\<rparr>) = (Ret (), s') \<and> tasks_ok (h # rs) s' \<and> stepped (fr, w) [] s' 1"
proof -
  note k = tasks_okD [OF ok]
  have held: "held_by (tw_bodies w) (sa_task sa) h" using b by (simp add: held_by_def)
  obtain p where p: "tw_coros w (sa_task sa) = Some p" "ip_count p = 1"
    using coros_okD [OF k(3), of "sa_task sa"] ended held by (auto simp: coro_ok_def split: option.splits)
  let ?c = "(tw_coros w)(sa_task sa \<mapsto> p\<lparr>ip_continuation := Some h\<rparr>)"
  have "coros_ok (value_at (tw_spawned w)) (h # rs) ?c (tw_bodies w)"
    by (rule coros_ok_upd [OF k(3)]) (use coros_okD [OF k(3), of "sa_task sa"] p ended in \<open>simp_all add: coro_ok_def\<close>)
  then have ok': "tasks_ok (h # rs) (fr, w\<lparr>tw_coros := ?c\<rparr>)" using k by (intro tasks_okI [OF _ refl refl]) auto
  have "stepped (fr, w) [] (fr, w\<lparr>tw_coros := ?c\<rparr>) 0" by (simp add: stepped_def world_work_def total_tasks_def)
  moreover obtain s' where s': "take_result h (fr, w\<lparr>tw_coros := ?c\<rparr>) = (Ret (), s')" "tasks_ok (h # rs) s'"
      "stepped (fr, w\<lparr>tw_coros := ?c\<rparr>) [] s' 1"
    using take_step [OF ok', of b as sa sas] b ended by simp blast
  ultimately have "stepped (fr, w) [] s' 1" using stepped_trans by fastforce
  moreover have "spawn_await_suspend h sa (fr, tw_coros w) = (Ret False, (fr, ?c))" using p by (simp add: op_simps)
  ultimately show ?thesis using s' by blast
qed

lemma fork_step:
  assumes ok: "tasks_ok (h # rs) (fr, w)" and b: "tw_bodies w h = Some b" "bd_acts b = Fork q # as"
  shows "\<exists>sa s1 s' N. spawn_prog q (fr, w) = (Ret sa, s1) \<and>
     set_body h (b\<lparr>bd_acts := as, bd_held := bd_held b @ [sa]\<rparr>) s1 = (Ret (), s') \<and>
     tasks_ok (h # rs @ [N]) s' \<and> stepped (fr, w) [N] s' 1"
proof -
  let ?N = "Suc (length (tw_spawned w))" and ?E = "value_at (tw_spawned w @ [q])"
  note k = tasks_okD [OF ok] and re = tasks_ok_respawn [OF ok refl refl, of q]
  let ?sa = "\<lparr>sa_task = ?N, sa_was_awaited = False\<rparr>"
  let ?b = "b\<lparr>bd_acts := as, bd_held := bd_held b @ [?sa]\<rparr>"
  let ?fr = "fr\<lparr>tasks := insert ?N (tasks fr), run_queue := run_queue fr @ [?N]\<rparr>"
  let ?w1 = "w\<lparr>tw_coros := (tw_coros w)(?N \<mapsto> promise_spawned 2), tw_bodies := (tw_bodies w)(?N \<mapsto> new_body q),
     tw_spawned := tw_spawned w @ [q]\<rparr>"
  let ?w = "?w1\<lparr>tw_bodies := (tw_bodies ?w1)(h \<mapsto> ?b)\<rparr>"
  have B: "tw_bodies w ?N = None" using no_body_fresh [OF k(2)] .
  have h: "0 < h" "h < ?N" using body_bounds [OF ok b(1)] by auto
  have bok: "body_ok ?E ?N h b" using bodies_okD [OF re(1) b(1)] .
  have ok1: "bodies_ok ?E (Suc ?N) ((tw_bodies w)(?N \<mapsto> new_body q))" using bodies_ok_spawn [OF re(1) _ re(4)] by simp
  have "tasks_ok (h # rs @ [?N]) (?fr, ?w)"
  proof (rule tasks_okI [where E = ?E and N = "Suc ?N"])
    have new: "body_ok ?E (Suc ?N) h ?b" using bok b(2) re(4) h by (auto simp: body_ok_def)
    have hb: "held_by (tw_bodies w) a h \<longleftrightarrow> a \<in> set (map sa_task (bd_held b))" for a
      using held_by_Some [of "tw_bodies w" h b] b(1) by simp
    have u: "g = h'" if "held_by (tw_bodies ?w) a g" and "held_by (tw_bodies ?w) a h'" for a g h'
      using that h hb [of a] held_unique [OF re(1), of a] not_held_fresh [OF re(1)] by (auto split: if_splits)
    have "body_ok ?E (Suc ?N) g b'" if "tw_bodies ?w g = Some b'" for g b'
      using that new bodies_okD [OF ok1] h by (cases "g = h") auto
    then show "bodies_ok ?E (Suc ?N) (tw_bodies ?w)" unfolding bodies_ok_def using u by blast
    show "coros_ok ?E (h # rs @ [?N]) (tw_coros ?w) (tw_bodies ?w)"
      using coros_ok_fork [OF re(2,1) _ b(1), of "new_body q" ?b] by simp
    have "sched_ok (h # rs @ [?N]) ((tw_bodies w)(?N \<mapsto> new_body q))" using sched_ok_spawn [OF k(4) B] by simp
    then show "sched_ok (h # rs @ [?N]) (tw_bodies ?w)" using sched_ok_forward [of "h # rs @ [?N]" _ h ?b] by simp
    show "log_ok ?E (Suc ?N) (tw_bodies ?w) (tw_log ?w)"
      using log_ok_forward [OF log_ok_spawn [OF re(3), of "new_body q"], of h b ?b] b(1) h by simp
  qed (use k(1) b(1) in auto)
  moreover have "stepped (fr, w) [?N] (?fr, ?w) 1"
  proof -
    have "body_sum f (Suc ?N) (tw_bodies ?w) + f b = body_sum f ?N (tw_bodies w) + f (new_body q) + f ?b" for f
      using body_sum_upd [of h "Suc ?N" f "(tw_bodies w)(?N \<mapsto> new_body q)" "Some ?b"] body_sum_new [of ?N f "tw_bodies w" "new_body q"] h b(1)
      by simp
    from this [of body_work] this [of "\<lambda>b. act_tasks (bd_acts b)"] show ?thesis
      using new_body_simps(3,4) [of q] by (simp add: stepped_def frame_rest_def world_work_def total_tasks_def body_work_def b(2) del: fun_upd_apply new_body_simps(3,4))
  qed
  ultimately show ?thesis
    by (intro exI [of _ ?sa] exI [of _ "(?fr, ?w1)"] exI [of _ "(?fr, ?w)"] exI [of _ ?N]) (simp add: spawn_prog_apply Let_def op_simps)
qed

lemma drop_step:
  assumes ok: "tasks_ok (h # rs) (fr, w)" and b: "tw_bodies w h = Some b" "bd_acts b = []" "bd_held b \<noteq> []"
  shows "\<exists>c s'. spawn_awaitable_dtor (last (bd_held b)) (fr, tw_coros w) = (Ret (), (fr, c)) \<and>
     set_body h (b\<lparr>bd_held := butlast (bd_held b)\<rparr>) (fr, w\<lparr>tw_coros := c\<rparr>) = (Ret (), s') \<and>
     tasks_ok (h # rs) s' \<and> stepped (fr, w) [] s' 1"
proof -
  let ?E = "value_at (tw_spawned w)" and ?N = "Suc (length (tw_spawned w))"
  let ?sa = "last (bd_held b)" and ?sas = "butlast (bd_held b)"
  let ?a = "sa_task ?sa" and ?b = "b\<lparr>bd_held := ?sas\<rparr>"
  note k = tasks_okD [OF ok]
  have bs: "bd_held b = ?sas @ [?sa]" using b(3) by simp
  have held: "held_by (tw_bodies w) ?a h" using b(1,3) by (auto simp: held_by_def)
  obtain p where p: "tw_coros w ?a = Some p" "ip_count p = (if tw_bodies w ?a = None then 1 else 2)"
      "ip_variant p = (if tw_bodies w ?a = None then V_ok (?E ?a) else V_uninitialized)"
    using coros_ok_held [OF k(3) held] by blast
  let ?c = "(tw_coros w)(?a := if tw_bodies w ?a = None then None else Some (p\<lparr>ip_count := 1\<rparr>))"
  let ?w = "w\<lparr>tw_coros := ?c, tw_bodies := (tw_bodies w)(h \<mapsto> ?b)\<rparr>"
  have "spawn_awaitable_dtor ?sa (fr, tw_coros w) = (Ret (), (fr, ?c))"
    using p by (cases "tw_bodies w ?a") (simp_all add: op_simps)
  moreover have "tasks_ok (h # rs) (fr, ?w)"
  proof (rule tasks_okI [OF _ refl refl])
    have bok: "body_ok ?E ?N h b" using bodies_okD [OF k(2) b(1)] .
    then have "distinct (map sa_task ?sas)" by (simp add: body_ok_def distinct_butlast map_butlast)
    then have "body_ok ?E ?N h ?b" using bok b(2) by (auto simp: body_ok_def dest: in_set_butlastD)
    from bodies_ok_upd [OF k(2) b(1) this]
    show "bodies_ok (value_at (tw_spawned ?w)) (Suc (length (tw_spawned ?w))) (tw_bodies ?w)"
      by (auto dest: in_set_butlastD)
    show "coros_ok (value_at (tw_spawned ?w)) (h # rs) (tw_coros ?w) (tw_bodies ?w)"
      using coros_ok_drop [OF k(3,2) b(1) _ bs, of ?b p] p(1) by simp
    show "sched_ok (h # rs) (tw_bodies ?w)" using sched_ok_forward [OF k(4)] by simp
    show "log_ok (value_at (tw_spawned ?w)) (Suc (length (tw_spawned ?w))) (tw_bodies ?w) (tw_log ?w)"
      using log_ok_forward [OF k(5) b(1)] by simp
  qed (use k(1) b(1) in auto)
  moreover have "stepped (fr, w) [] (fr, ?w) 1"
    using work_upd [OF ok b(1), where c = ?c and x = "Some ?b"] b(3)
    by (cases "length (bd_held b)") (auto simp: stepped_def body_work_def simp del: fun_upd_apply)
  ultimately show ?thesis
    by (intro exI [of _ ?c] exI [of _ "(fr, ?w)"]) (simp add: op_simps)
qed

lemma finish_step:
  assumes ok: "tasks_ok (h # rs) (fr, w)" and b: "tw_bodies w h = Some b" "bd_acts b = []" "bd_held b = []"
  shows "\<exists>k s'. finish_body h b (fr, w) = (Ret k, s') \<and> tasks_ok (next_of k @ rs) s' \<and> stepped (fr, w) [] s' 1 \<and>
     (\<forall>g. k = Some g \<longrightarrow> tw_bodies (snd s') h = None \<and> waits_for (tw_bodies (snd s')) g h)"
proof -
  let ?E = "value_at (tw_spawned w)" and ?N = "Suc (length (tw_spawned w))"
  note k = tasks_okD [OF ok]
  have bok: "body_ok ?E ?N h b" using bodies_okD [OF k(2) b(1)] .
  then have v: "bd_ret b (bd_env b) = ?E h" using b by (simp add: body_ok_def)
  obtain p where p: "tw_coros w h = Some p" "ip_count p = 1 \<or> ip_count p = 2" "ip_variant p = V_uninitialized"
    using coros_okD [OF k(3), of h] b(1) by (auto simp: coro_ok_def split: option.splits)
  have t: "h \<in> tasks fr" using k(1) b(1) by auto
  let ?c = "(tw_coros w)(h := if ip_count p = 1 then None else Some (p\<lparr>ip_variant := V_ok (?E h), ip_count := ip_count p - 1\<rparr>))"
  let ?w = "w\<lparr>tw_coros := ?c, tw_bodies := (tw_bodies w)(h := None), tw_log := tw_log w @ [(h, ?E h)]\<rparr>"
  let ?s = "(fr\<lparr>tasks := tasks fr - {h}\<rparr>, ?w)"
  have "finish_body h b (fr, w) = (Ret (ip_continuation p), ?s)"
    using p(1,3) t p(2) v
    by (cases "ip_count p = 1")
      (simp_all add: finish_body_def Let_def op_simps internal_final_suspend_last internal_final_suspend_more)
  moreover have "tasks_ok (next_of (ip_continuation p) @ rs) ?s"
  proof (rule tasks_okI [OF _ refl refl])
    show "bodies_ok (value_at (tw_spawned ?w)) (Suc (length (tw_spawned ?w))) (tw_bodies ?w)"
      using bodies_ok_end [OF k(2)] by simp
    show "coros_ok (value_at (tw_spawned ?w)) (next_of (ip_continuation p) @ rs) (tw_coros ?w) (tw_bodies ?w)"
      using coros_ok_end [OF k(3,2) b(1,3) p(1) refl] by simp
    show "sched_ok (next_of (ip_continuation p) @ rs) (tw_bodies ?w)"
      using sched_ok_end [OF k(3,4) b(1) p(1)] by simp
    show "log_ok (value_at (tw_spawned ?w)) (Suc (length (tw_spawned ?w))) (tw_bodies ?w) (tw_log ?w)"
      using log_ok_end [OF k(5) b(1) bok refl] by simp
  qed (use k(1) in auto)
  moreover have "stepped (fr, w) [] ?s 1"
    using work_upd [OF ok b(1), where c = ?c and x = None] b(2,3)
    by (simp add: stepped_def frame_rest_def body_work_def world_work_def total_tasks_def del: fun_upd_apply)
  moreover have "tw_bodies ?w h = None \<and> waits_for (tw_bodies ?w) g h" if "ip_continuation p = Some g" for g
  proof -
    have "g \<notin> set (h # rs)" and "waits_for (tw_bodies w) g h" using coros_ok_cont [OF k(3) b(1) p(1)] that by blast+
    then show ?thesis by simp
  qed
  ultimately show ?thesis by (intro exI [of _ "ip_continuation p"] exI [of _ ?s]) simp
qed

subsection \<open>A coroutine runs to its next suspension point\<close>

text \<open>
  One step of \<open>h\<close>: the call of \<^verbatim>\<open>resume()\<close> ends, or it goes on with the same coroutine or with the awaiter of
  one that has ended.
\<close>

definition goes_on :: "handle \<Rightarrow> handle list \<Rightarrow> ('r, 'v) tw \<Rightarrow> bool" where
  "goes_on h rs s =
     ((\<exists>s1. (\<forall>n. run_body (Suc n) h s = (Ret (), s1)) \<and> tasks_ok rs s1 \<and> stepped s [] s1 0) \<or>
      (\<exists>g new s1. (\<forall>n. run_body (Suc n) h s = run_body n g s1) \<and> tasks_ok (g # rs @ new) s1 \<and> stepped s new s1 1))"

lemma goes_on_end:
  "(\<And>n. run_body (Suc n) h s = (Ret (), s1)) \<Longrightarrow> tasks_ok rs s1 \<Longrightarrow> stepped s [] s1 k \<Longrightarrow> goes_on h rs s"
  unfolding goes_on_def stepped_def by (intro disjI1 exI [of _ s1]) simp

lemma goes_on_next:
  "(\<And>n. run_body (Suc n) h s = run_body n g s1) \<Longrightarrow> tasks_ok (g # rs @ new) s1 \<Longrightarrow> stepped s new s1 k \<Longrightarrow> 0 < k \<Longrightarrow>
     goes_on h rs s"
  unfolding goes_on_def stepped_def by (intro disjI2 exI [of _ g] exI [of _ new] exI [of _ s1]) simp

lemma finish_goes_on:
  assumes ok: "tasks_ok (h # rs) (fr, w)" and b: "tw_bodies w h = Some b" "bd_acts b = []" "bd_held b = []"
  shows "goes_on h rs (fr, w)"
proof -
  obtain k s1 where fin: "finish_body h b (fr, w) = (Ret k, s1)" "tasks_ok (next_of k @ rs) s1" "stepped (fr, w) [] s1 1"
      "\<forall>g. k = Some g \<longrightarrow> tw_bodies (snd s1) h = None \<and> waits_for (tw_bodies (snd s1)) g h"
    using finish_step [OF ok b] by blast
  show ?thesis
  proof (cases k)
    case None
    then show ?thesis using fin(2) by (intro goes_on_end [OF _ _ fin(3)]) (simp_all add: b fin(1) op_simps next_of_def)
  next
    case (Some g)
    obtain fr1 w1 where s1: "s1 = (fr1, w1)" by (cases s1)
    obtain bg as sa sas where g: "tw_bodies w1 g = Some bg" "bd_acts bg = Await # as" "bd_held bg = sa # sas" "sa_task sa = h"
      using fin(4) Some s1 by (auto simp: waits_for_def)
    have ok1: "tasks_ok (g # rs) (fr1, w1)" using fin(2) Some s1 by (simp add: next_of_def)
    obtain s2 where t: "take_result g (fr1, w1) = (Ret (), s2)" "tasks_ok (g # rs) s2" "stepped (fr1, w1) [] s2 1"
      using take_step [OF ok1 g(1-3)] g(4) fin(4) Some s1 by auto
    have st: "stepped (fr, w) ([] @ []) s2 (1 + 1)" using stepped_trans [OF fin(3)] t(3) s1 by blast
    show ?thesis
      using t(2) by (intro goes_on_next [OF _ _ st, of _ g]) (simp_all add: b fin(1) Some s1 t(1) op_simps)
  qed
qed

lemma end_goes_on:
  assumes ok: "tasks_ok (h # rs) (fr, w)" and b: "tw_bodies w h = Some b" "bd_acts b = []"
  shows "goes_on h rs (fr, w)"
proof (cases "bd_held b = []")
  case False
  obtain c s1 where d: "spawn_awaitable_dtor (last (bd_held b)) (fr, tw_coros w) = (Ret (), (fr, c))"
      "set_body h (b\<lparr>bd_held := butlast (bd_held b)\<rparr>) (fr, w\<lparr>tw_coros := c\<rparr>) = (Ret (), s1)"
      "tasks_ok (h # rs) s1" "stepped (fr, w) [] s1 1"
    using drop_step [OF ok b False] by blast
  show ?thesis using d(3) by (intro goes_on_next [OF _ _ d(4)]) (simp_all add: b False d(1,2) bindM_def thenM_def on_task_def)
qed (use finish_goes_on [OF ok b] in simp)

lemma await_goes_on:
  assumes ok: "tasks_ok (h # rs) (fr, w)" and b: "tw_bodies w h = Some b" "bd_acts b = Await # as"
  shows "goes_on h rs (fr, w)"
proof (cases "bd_held b")
  case Nil
  then show ?thesis using skip_step [OF ok b Nil]
    by (intro goes_on_next [of _ _ h "(fr, w\<lparr>tw_bodies := (tw_bodies w)(h \<mapsto> b\<lparr>bd_acts := as\<rparr>)\<rparr>)" _ "[]" 1])
      (simp_all add: b op_simps)
next
  case held: (Cons sa sas)
  show ?thesis
  proof (cases "tw_bodies w (sa_task sa)")
    case None
    obtain c s1 where d: "spawn_await_suspend h sa (fr, tw_coros w) = (Ret False, (fr, c))"
        "take_result h (fr, w\<lparr>tw_coros := c\<rparr>) = (Ret (), s1)" "tasks_ok (h # rs) s1" "stepped (fr, w) [] s1 1"
      using await_ended_step [OF ok b held None] by blast
    show ?thesis using d(3) by (intro goes_on_next [OF _ _ d(4)]) (simp_all add: b held d(1,2) bindM_def thenM_def on_task_def)
  next
    case (Some ba)
    then obtain s1 where d: "spawn_await_suspend h sa (fr, tw_coros w) = (Ret True, (fr, tw_coros (snd s1)))"
        "s1 = (fr, w\<lparr>tw_coros := tw_coros (snd s1)\<rparr>)" "tasks_ok rs s1" "stepped (fr, w) [] s1 0"
      using suspend_step [OF ok b held] by blast
    show ?thesis
      using d(2) by (intro goes_on_end [OF _ d(3,4)]) (simp add: b held d(1) bindM_def on_task_def retM_def)
  qed
qed

lemma body_goes_on:
  assumes ok: "tasks_ok (h # rs) (fr, w)" and b: "tw_bodies w h = Some b"
  shows "goes_on h rs (fr, w)"
proof (cases "bd_acts b")
  case Nil
  then show ?thesis using end_goes_on [OF ok b] by simp
next
  case (Cons act as)
  show ?thesis
  proof (cases act)
    case (Detach q)
    obtain s1 N where d: "detach_prog q (fr, w\<lparr>tw_bodies := (tw_bodies w)(h \<mapsto> b\<lparr>bd_acts := as\<rparr>)\<rparr>) = (Ret (), s1)"
        "tasks_ok (h # rs @ [N]) s1" "stepped (fr, w) [N] s1 2"
      using detach_step [OF ok b] Cons Detach by blast
    show ?thesis using d(2) by (intro goes_on_next [OF _ _ d(3)]) (simp_all add: b Cons Detach d(1) op_simps)
  next
    case (Fork q)
    obtain sa s0 s1 N where d: "spawn_prog q (fr, w) = (Ret sa, s0)"
        "set_body h (b\<lparr>bd_acts := as, bd_held := bd_held b @ [sa]\<rparr>) s0 = (Ret (), s1)"
        "tasks_ok (h # rs @ [N]) s1" "stepped (fr, w) [N] s1 1"
      using fork_step [OF ok b] Cons Fork by blast
    show ?thesis using d(3) by (intro goes_on_next [OF _ _ d(4)]) (simp_all add: b Cons Fork d(1,2) bindM_def thenM_def)
  qed (use await_goes_on [OF ok b] Cons in simp)
qed

lemma tasks_ok_body: "tasks_ok (h # rs) (fr, w) \<Longrightarrow> \<exists>b. tw_bodies w h = Some b"
  by (fastforce simp: sched_ok_def dest: tasks_okD(4))

lemma run_body_ok:
  assumes "tasks_ok (h # rs) s" and "world_work (snd s) \<le> n"
  shows "\<exists>s' new. run_body n h s = (Ret (), s') \<and> tasks_ok (rs @ new) s' \<and> stepped s new s' 0"
  using assms
proof (induction n arbitrary: h rs s)
  case 0
  obtain fr w where s: "s = (fr, w)" by (cases s)
  obtain b where "tw_bodies w h = Some b" using tasks_ok_body 0(1) s by blast
  then show ?case using work_upd_body(1) [of "h # rs" fr w h b None] 0 s by (simp add: body_work_def)
next
  case (Suc n)
  obtain fr w where s: "s = (fr, w)" by (cases s)
  obtain b where b: "tw_bodies w h = Some b" using tasks_ok_body Suc.prems(1) s by blast
  have "goes_on h rs s" using body_goes_on [OF _ b] Suc.prems(1) s by simp
  then consider (stop) s1 where "run_body (Suc n) h s = (Ret (), s1)" "tasks_ok (rs @ []) s1" "stepped s [] s1 0"
    | (more) g new s1 where "run_body (Suc n) h s = run_body n g s1" "tasks_ok (g # rs @ new) s1" "stepped s new s1 1"
    unfolding goes_on_def by auto
  then show ?case
  proof cases
    case stop
    then show ?thesis by blast
  next
    case more
    have "world_work (snd s1) \<le> n" using more(3) Suc.prems(2) by (simp add: stepped_def)
    from Suc.IH [OF more(2) this] obtain s' new' where
        s': "run_body n g s1 = (Ret (), s')" "tasks_ok (rs @ new @ new') s'" "stepped s1 new' s' 0" by auto
    have "stepped s (new @ new') s' 0" using stepped_trans [OF more(3) s'(3)] by (simp add: stepped_def)
    then show ?thesis using s' more(1) by (intro exI [of _ s'] exI [of _ "new @ new'"]) simp
  qed
qed

subsection \<open>The run loop\<close>

lemma tasks_ok_run_queue: "tasks_ok rs (fr\<lparr>run_queue := q\<rparr>, w) = tasks_ok rs (fr, w)"
  by (simp add: tasks_ok_def)

definition quiet :: "('r, 'v) tw \<Rightarrow> ('r, 'v) tw \<Rightarrow> bool" where
  "quiet s s' =
     (frame_rest (fst s') = frame_rest (fst s) \<and> (\<exists>xs. tw_spawned (snd s') = tw_spawned (snd s) @ xs) \<and>
      total_tasks (snd s') = total_tasks (snd s))"

lemma frame_rest_exc: "frame_rest fr' = frame_rest fr \<Longrightarrow> exception_ptr fr' = exception_ptr fr"
  by (drule arg_cong [of _ _ exception_ptr]) (simp add: frame_rest_def)

lemma task_queue_loop:
  assumes "tasks_ok (run_queue (fst s)) s" and "exception_ptr (fst s) = None"
  shows "\<exists>s'. run_queue_loop (task_objects R) s = Some (Ret None, s') \<and> run_queue (fst s') = [] \<and> tasks_ok [] s' \<and> quiet s s'"
  using assms
proof (induction "world_work (snd s) + length (run_queue (fst s))" arbitrary: s rule: less_induct)
  case less
  show ?case
  proof (cases "run_queue (fst s)")
    case Nil
    then show ?thesis using less.prems by (subst run_queue_loop.simps) (simp add: quiet_def)
  next
    case (Cons h q)
    have "tasks_ok (h # q) s" using less.prems(1) Cons by simp
    from run_body_ok [OF this order_refl] obtain s1 new where
        r: "resume_body h s = (Ret (), s1)" "tasks_ok (q @ new) s1" "stepped s new s1 0"
      by (auto simp: resume_body_def)
    let ?s2 = "((fst s1)\<lparr>run_queue := q @ new\<rparr>, snd s1)"
    have q1: "run_queue (fst s1) = h # q @ new" using r(3) Cons by (simp add: stepped_def)
    have step: "thenM (co_resume (task_objects R) h) pop_run_queue s = (Ret (), ?s2)"
      using r(1) q1 by (simp add: task_objects_def pop_run_queue_def op_simps)
    have ok: "tasks_ok (run_queue (fst ?s2)) ?s2" using r(2) by (cases s1) (simp add: tasks_ok_run_queue)
    have quiet: "quiet s ?s2" using r(3) by (auto simp: stepped_def quiet_def frame_rest_def)
    then have exc: "exception_ptr (fst ?s2) = None"
      using less.prems(2) frame_rest_exc [of "fst ?s2" "fst s"] by (simp add: quiet_def)
    have "world_work (snd ?s2) + length (run_queue (fst ?s2)) < world_work (snd s) + length (run_queue (fst s))"
      using r(3) Cons by (simp add: stepped_def)
    from less.hyps [OF this ok exc] obtain s' where s': "run_queue_loop (task_objects R) ?s2 = Some (Ret None, s')"
        "run_queue (fst s') = []" "tasks_ok [] s'" "quiet ?s2 s'" by blast
    have "run_queue_loop (task_objects R) s = Some (Ret None, s')"
      using Cons step exc s'(1) by (subst run_queue_loop.simps) simp
    moreover have "quiet s s'" using quiet s'(4) by (auto simp: quiet_def)
    ultimately show ?thesis using s' by blast
  qed
qed

text \<open>When nothing is left to resume, nothing waits: the waits-for relation goes to younger coroutines.\<close>

lemma nothing_left:
  assumes "tasks_ok [] (fr, w)"
  shows "tw_bodies w = Map.empty" and "tw_coros w = Map.empty" and "tasks fr = {}"
proof -
  let ?N = "Suc (length (tw_spawned w))"
  note k = tasks_okD [OF assms]
  have "tw_bodies w h = None" for h
  proof (induction "?N - h" arbitrary: h rule: less_induct)
    case less
    show ?case
    proof (rule ccontr)
      assume "tw_bodies w h \<noteq> None"
      then obtain a where a: "tw_bodies w a \<noteq> None" "waits_for (tw_bodies w) h a" using k(4) by (auto simp: sched_ok_def)
      then have "h < a" "a < ?N" using held_bounds [OF k(2) waits_held] by blast+
      then show False using less [of a] a(1) by (simp add: diff_less_mono2)
    qed
  qed
  then show B: "tw_bodies w = Map.empty" by auto
  have "tw_coros w a = None" for a
    using coros_okD [OF k(3), of a] B by (auto simp: coro_ok_def held_by_def split: option.splits)
  then show "tw_coros w = Map.empty" by auto
  show "tasks fr = {}" using k(1) B by simp
qed

lemma detach_all_ok:
  assumes "tasks_ok (run_queue (fst s)) s"
  shows "\<exists>s'. detach_all ps s = (Ret (), s') \<and> tasks_ok (run_queue (fst s')) s' \<and> frame_rest (fst s') = frame_rest (fst s) \<and>
     tw_spawned (snd s') = tw_spawned (snd s) @ ps \<and> total_tasks (snd s') = total_tasks (snd s) + sum_list (map prog_tasks ps)"
  using assms
proof (induction ps arbitrary: s)
  case Nil
  then show ?case by (simp add: op_simps)
next
  case (Cons p ps)
  obtain fr w where s: "s = (fr, w)" by (cases s)
  obtain s1 where s1: "detach_prog p s = (Ret (), s1)" "tasks_ok (run_queue (fst s1)) s1" "frame_rest (fst s1) = frame_rest (fst s)"
      "tw_spawned (snd s1) = tw_spawned (snd s) @ [p]" "total_tasks (snd s1) = total_tasks (snd s) + prog_tasks p"
    using detach_prog_ok [of "run_queue fr" fr w p] Cons.prems s by auto
  show ?case using Cons.IH [OF s1(2)] s1 by (auto simp: op_simps)
qed

lemma log_complete:
  assumes "log_ok (value_at sp) (Suc (length sp)) Map.empty l"
  shows "mset l = mset (enumerate 1 (map prog_value sp))"
proof -
  have "set (enumerate 1 (map prog_value sp)) = set l"
  proof -
    have "x \<in> set (enumerate 1 (map prog_value sp)) \<longleftrightarrow> x \<in> set l" for x
      using assms by (cases x) (auto simp: log_ok_def value_at_def in_set_enumerate_eq image_iff)
    then show ?thesis by blast
  qed
  moreover have "distinct l" using assms by (auto simp: log_ok_def distinct_map)
  ultimately show ?thesis using set_eq_iff_mset_eq_distinct [of l "enumerate 1 (map prog_value sp)"] by simp
qed

lemma frame_rest_id: "tasks fr = {} \<Longrightarrow> run_queue fr = [] \<Longrightarrow> frame_rest fr = fr"
  by (cases fr) (simp add: frame_rest_def)

lemma task_run_loop:
  assumes "tasks_ok (run_queue (fst s)) s" and "exception_ptr (fst s) = None"
  shows "\<exists>s'. run_loop E (task_objects R) s = Some (Ret None, s') \<and> run_queue (fst s') = [] \<and> tasks_ok [] s' \<and> quiet s s'"
proof (cases "tasks (fst s) = {}")
  case True
  obtain fr w where s: "s = (fr, w)" by (cases s)
  have "run_queue (fst s) = []"
    using tasks_okD(1,4) [of "run_queue fr" fr w] assms(1) True s by (auto simp: sched_ok_def)
  then show ?thesis using True assms by (intro exI [of _ s]) (simp add: run_loop.simps quiet_def)
next
  case False
  obtain s' where s': "run_queue_loop (task_objects R) s = Some (Ret None, s')" "run_queue (fst s') = []"
      "tasks_ok [] s'" "quiet s s'" using task_queue_loop [OF assms] by blast
  have "tasks (fst s') = {}" using nothing_left(3) s'(3) by (cases s') auto
  moreover have "exception_ptr (fst s') = None"
    using s'(4) assms(2) frame_rest_exc [of "fst s'" "fst s"] by (simp add: quiet_def)
  ultimately show ?thesis using False assms(2) s' by (subst run_loop.simps) simp
qed

subsection \<open>Properties\<close>

text \<open>
  C14: every spawned coroutine runs to its end. When the coroutines only spawn, await and drop other
  coroutines, whatever their programs, the run loop returns without an exception, without a failed assertion
  or an access to a destroyed frame, and without ever waiting for a completion: every coroutine that was spawned, directly or by
  another one, has ended exactly once with the value its program denotes (an awaiter gets the value of its child
  whichever of them comes first), and no frame, no task and no entry of the run queue is left.
\<close>

theorem tasks_run_to_completion:
  fixes fr :: "'r io_context_frame" and ps :: "'v prog list"
  assumes "tasks fr = {}" and "run_queue fr = []" and "exception_ptr fr = None"
  shows "\<exists>s w. detach_all ps (fr, empty_world) = (Ret (), s) \<and> run_loop E (task_objects R) s = Some (Ret None, (fr, w)) \<and>
     tw_coros w = Map.empty \<and> take (length ps) (tw_spawned w) = ps \<and>
     length (tw_spawned w) = sum_list (map prog_tasks ps) \<and>
     mset (tw_log w) = mset (enumerate 1 (map prog_value (tw_spawned w)))"
proof -
  have "tasks_ok (run_queue (fst (fr, empty_world))) (fr, empty_world :: 'v task_world)"
    using assms(1,2) by (auto simp: tasks_ok_def empty_world_def bodies_ok_def coros_ok_def coro_ok_def sched_ok_def log_ok_def held_by_def)
  moreover have e: "total_tasks (empty_world :: 'v task_world) = 0" "tw_spawned (empty_world :: 'v task_world) = []"
    by (simp_all add: empty_world_def total_tasks_def body_sum_def)
  ultimately obtain s where s: "detach_all ps (fr, empty_world) = (Ret (), s)"
      "tasks_ok (run_queue (fst s)) s" "frame_rest (fst s) = frame_rest fr" "tw_spawned (snd s) = ps"
      "total_tasks (snd s) = sum_list (map prog_tasks ps)"
    using detach_all_ok [of "(fr, empty_world)" ps] by auto
  have "exception_ptr (fst s) = None" using frame_rest_exc [OF s(3)] assms(3) by simp
  from task_run_loop [OF s(2) this, of E R] obtain fr' w where r: "run_loop E (task_objects R) s = Some (Ret None, (fr', w))"
      "run_queue fr' = []" "tasks_ok [] (fr', w)" "quiet s (fr', w)" by auto
  note none = nothing_left [OF r(3)]
  have fr: "fr' = fr"
    using frame_rest_id [of fr'] frame_rest_id [of fr] r(2,4) none(3) s(3) assms(1,2) by (simp add: quiet_def)
  have "total_tasks w = length (tw_spawned w)" using none(1) by (simp add: total_tasks_def body_sum_def)
  then have "length (tw_spawned w) = sum_list (map prog_tasks ps)" using r(4) s(5) by (simp add: quiet_def)
  moreover have "take (length ps) (tw_spawned w) = ps" using r(4) s(4) by (auto simp: quiet_def)
  moreover have "mset (tw_log w) = mset (enumerate 1 (map prog_value (tw_spawned w)))"
    using log_complete tasks_okD(5) [OF r(3)] none(1) by simp
  ultimately show ?thesis using s(1) r(1) none(2) fr by blast
qed

text \<open>A coroutine that spawns two others, one of which spawns a third, and adds what they return.\<close>

definition ex_prog :: "int prog" where
  "ex_prog = Prog [Fork (Prog [] (\<lambda>_. 3)), Fork (Prog [Detach (Prog [] (\<lambda>_. 0))] (\<lambda>_. 4)), Await, Await] sum_list"

theorem tasks_run_to_completion_witness:
  "\<forall>R. \<exists>s w. detach_all [ex_prog] (ex_frame, empty_world) = (Ret (), s) \<and>
     run_loop (list_platform 4) (task_objects R) s = Some (Ret None, (ex_frame, w)) \<and>
     length (tw_spawned w) = 4 \<and> (1, 7) \<in> set (tw_log w)"
proof
  fix R :: "(list_ring, int task_world) objects"
  have v: "prog_value ex_prog = 7" "prog_tasks ex_prog = 4" by (simp_all add: ex_prog_def)
  have h: "tasks ex_frame = {}" "run_queue ex_frame = []" "exception_ptr ex_frame = None" by (simp_all add: ex_frame_def)
  from tasks_run_to_completion [OF h, of "[ex_prog]" "list_platform 4" R] obtain s w where
      r: "detach_all [ex_prog] (ex_frame, empty_world) = (Ret (), s)" "run_loop (list_platform 4) (task_objects R) s = Some (Ret None, (ex_frame, w))"
        "take 1 (tw_spawned w) = [ex_prog]" "length (tw_spawned w) = 4"
        "mset (tw_log w) = mset (enumerate 1 (map prog_value (tw_spawned w)))" by (auto simp: v)
  obtain xs where xs: "tw_spawned w = ex_prog # xs" using r(3) by (cases "tw_spawned w") auto
  have "(1, 7) \<in> set_mset (mset (tw_log w))" unfolding r(5) xs by (simp add: v)
  then show "\<exists>s w. detach_all [ex_prog] (ex_frame, empty_world) = (Ret (), s) \<and>
     run_loop (list_platform 4) (task_objects R) s = Some (Ret None, (ex_frame, w)) \<and>
     length (tw_spawned w) = 4 \<and> (1, 7) \<in> set (tw_log w)" using r(1,2,4) by auto
qed

end
