(* ===== verification/Object_Life.thy ===== *)
theory Object_Life
  imports Frames "HOL-Library.Multiset" "HOL-Library.Disjoint_Sets"
begin

section \<open>The life of the objects that share a runtime\<close>

text \<open>
  What streams, clients, acceptors, timers and files have in common: a reference count, frames with
  a completion outstanding, direct descriptors they own, and the calls, completions and releases that
  change them. The locale \<open>counted\<close> is the contract of such a class of objects; its laws say what a
  step does to the object and what it guarantees to every other object of the runtime, and it
  is interpreted on each class of the code in that class's \<open>_Class\<close> theory. The heap of objects over
  one shared frame, its invariant and the proof that every step keeps it are given once, for every
  class that meets the contract.
\<close>

subsection \<open>What a step does to the shared frame\<close>

definition sched :: "'r io_context_frame \<Rightarrow> nat option \<times> handle set \<times> handle list \<times> io_context_params" where
  "sched fr = (exception_ptr fr, tasks fr, run_queue fr, params fr)"

lemma sched_simps [simp]:
  "sched (fr\<lparr>io_ring := r\<rparr>) = sched fr" "sched (fr\<lparr>fds := f\<rparr>) = sched fr" "sched (fr\<lparr>buf_rings := b\<rparr>) = sched fr"
  by (simp_all add: sched_def)

definition frame_ok :: "'r io_context_frame \<Rightarrow> bool" where
  "frame_ok fr = (fd_inv fr \<and> groups_inv fr)"

definition groups_kept :: "'r io_context_frame \<Rightarrow> 'r io_context_frame \<Rightarrow> bool" where
  "groups_kept fr fr' = (\<forall>g. buf_rings fr g \<noteq> None \<longrightarrow> buf_rings fr' g \<noteq> None)"

text \<open>
  The guarantee of a step: the descriptors \<open>own\<close> of the object become \<open>own'\<close> and \<open>out\<close>, what it
  takes comes from the pool and what it gives up goes back there; the scheduler's part of the frame and the
  buffer groups stay.
\<close>

definition frame_moves ::
  "int set \<Rightarrow> 'r io_context_frame \<Rightarrow> int set \<Rightarrow> 'r io_context_frame \<Rightarrow> int set \<Rightarrow> bool" where
  "frame_moves own fr own' fr' out =
     (own' \<union> fds fr' \<union> out = own \<union> fds fr \<and> own' \<inter> fds fr' = {} \<and> out \<inter> (own' \<union> fds fr') = {} \<and>
      frame_ok fr' \<and> groups_kept fr fr' \<and> sched fr' = sched fr)"

text \<open>What an object may rely on while others run: nobody touches its descriptors.\<close>

definition frame_rely :: "int set \<Rightarrow> 'r io_context_frame \<Rightarrow> 'r io_context_frame \<Rightarrow> bool" where
  "frame_rely own fr fr' =
     (frame_ok fr' \<and> params fr' = params fr \<and> groups_kept fr fr' \<and> own \<inter> fds fr' = {})"

lemma groups_kept_refl [simp]: "groups_kept fr fr"
  "groups_kept fr (fr'\<lparr>io_ring := r\<rparr>) = groups_kept fr fr'" "groups_kept fr (fr'\<lparr>fds := f\<rparr>) = groups_kept fr fr'"
  by (simp_all add: groups_kept_def)

lemma groups_kept_upd [simp]: "groups_kept fr (fr'\<lparr>buf_rings := (buf_rings fr)(g \<mapsto> br)\<rparr>)"
  by (simp add: groups_kept_def)

lemma groups_kept_trans: "groups_kept fr fr1 \<Longrightarrow> groups_kept fr1 fr2 \<Longrightarrow> groups_kept fr fr2"
  by (simp add: groups_kept_def)

lemma frame_moves_trans:
  assumes "frame_moves own fr own1 fr1 {}" and "frame_moves own1 fr1 own2 fr2 out"
  shows "frame_moves own fr own2 fr2 out"
  using assms unfolding frame_moves_def by (auto intro: groups_kept_trans)

lemma frame_moves_still:
  "own \<inter> fds fr = {} \<Longrightarrow> frame_ok fr' \<Longrightarrow> groups_kept fr fr' \<Longrightarrow> sched fr' = sched fr \<Longrightarrow> fds fr' = fds fr \<Longrightarrow>
     frame_moves own fr own fr' {}"
  by (simp add: frame_moves_def)

lemma frame_ok_ring [simp]: "frame_ok (fr\<lparr>io_ring := r\<rparr>) = frame_ok fr"
  by (simp add: frame_ok_def)

subsection \<open>The entries an object issues\<close>

text \<open>The frames of the object \<open>p\<close> that a list of entries points to.\<close>

definition own_tags :: "addr \<Rightarrow> sqe list \<Rightarrow> frame_tag multiset" where
  "own_tags p es =
     mset (concat (map (\<lambda>e. case sqe_data e of UD_null \<Rightarrow> [] | UD q t \<Rightarrow> if q = p then [t] else []) es))"

lemma own_tags_simps [simp]:
  "own_tags p [] = {#}"
  "own_tags p (es @ fs) = own_tags p es + own_tags p fs"
  "own_tags p (e # es) =
     (case sqe_data e of UD_null \<Rightarrow> {#} | UD q t \<Rightarrow> if q = p then {#t#} else {#}) + own_tags p es"
  by (simp_all add: own_tags_def split: user_data.split)

text \<open>Every entry carries null or a pointer to a frame of the object that issues it.\<close>

definition own_entries :: "addr \<Rightarrow> sqe list \<Rightarrow> bool" where
  "own_entries p es = list_all (\<lambda>e. case sqe_data e of UD_null \<Rightarrow> True | UD q t \<Rightarrow> q = p) es"

lemma own_entries_simps [simp]:
  "own_entries p []"
  "own_entries p (es @ fs) = (own_entries p es \<and> own_entries p fs)"
  "own_entries p (e # es) = ((case sqe_data e of UD_null \<Rightarrow> True | UD q t \<Rightarrow> q = p) \<and> own_entries p es)"
  by (simp_all add: own_entries_def)

text \<open>The user data of the entries for which a completion will arrive, by the object they point to.\<close>

definition posted :: "sqe list \<Rightarrow> user_data multiset" where
  "posted es = filter_mset (\<lambda>u. u \<noteq> UD_null) (mset (map sqe_data es))"

fun ud_tag :: "user_data \<Rightarrow> frame_tag" where
  "ud_tag (UD p t) = t"
| "ud_tag UD_null = F_pipe"

definition points_to :: "addr \<Rightarrow> user_data \<Rightarrow> bool" where
  "points_to p u = (case u of UD_null \<Rightarrow> False | UD q t \<Rightarrow> q = p)"

definition tags_of :: "addr \<Rightarrow> user_data multiset \<Rightarrow> frame_tag multiset" where
  "tags_of p M = image_mset ud_tag (filter_mset (points_to p) M)"

lemma tags_of_simps [simp]:
  "tags_of p {#} = {#}" "tags_of p (M + N) = tags_of p M + tags_of p N"
  "tags_of p (add_mset u M) = (if points_to p u then add_mset (ud_tag u) (tags_of p M) else tags_of p M)"
  by (simp_all add: tags_of_def)

lemma posted_simps [simp]:
  "posted [] = {#}" "posted (es @ fs) = posted es + posted fs"
  "posted (e # es) = (if sqe_data e = UD_null then posted es else add_mset (sqe_data e) (posted es))"
  by (simp_all add: posted_def)

lemma tags_of_posted: "tags_of p (posted es) = own_tags p es"
  by (induction es) (auto simp: points_to_def split: user_data.splits)

lemma posted_elsewhere: "own_entries p es \<Longrightarrow> q \<noteq> p \<Longrightarrow> tags_of q (posted es) = {#}"
  by (induction es) (auto simp: points_to_def split: user_data.splits)

lemma silent_entries: "posted es = {#} \<Longrightarrow> own_entries p es \<and> own_tags p es = {#}"
  by (induction es) (auto split: if_splits)

lemma posted_not_null [simp]: "UD_null \<notin># posted es"
  by (simp add: posted_def)

lemma tags_of_minus: "u \<in># M \<Longrightarrow> tags_of p (M - {#u#}) = (if points_to p u then tags_of p M - {#ud_tag u#} else tags_of p M)"
  by (auto dest!: multi_member_split)

lemma tags_of_mem: "UD p t \<in># M = (t \<in># tags_of p M)"
proof
  assume "t \<in># tags_of p M"
  then obtain u where "u \<in># M" "points_to p u" "ud_tag u = t" by (auto simp: tags_of_def)
  then show "UD p t \<in># M" by (cases u) (auto simp: points_to_def)
next
  assume "UD p t \<in># M"
  then show "t \<in># tags_of p M" by (auto simp: tags_of_def points_to_def intro!: image_eqI [where x = "UD p t"])
qed

lemma count_tags_of: "count M (UD p t) = count (tags_of p M) t"
proof (induction M)
  case (add u M)
  then show ?case by (cases u) (auto simp: points_to_def)
qed simp

lemma mset_exchange:
  assumes "A' + F = A + T" and "F \<subseteq># A"
  shows "A' = A - F + T"
proof -
  obtain B where B: "A = F + B" using assms(2) by (auto simp: mset_subset_eq_exists_conv)
  then have "F + A' = F + (B + T)" using assms(1) by (simp add: ac_simps)
  then show ?thesis using B by simp
qed

text \<open>A completion without \<^verbatim>\<open>IORING_CQE_F_MORE\<close> is the last one of its entry.\<close>

definition completion_tags :: "frame_tag \<Rightarrow> cqe \<Rightarrow> frame_tag multiset" where
  "completion_tags t c = (if cqe_f_more c then {#} else {#t#})"

subsection \<open>A class of objects and its contract\<close>

text \<open>
  What the runtime knows of a class: the fields it shares with the others (\<^verbatim>\<open>this\<close>, the count), the
  frames that are waiting, the descriptors it owns, its invariant; its constructors, the calls that a program makes, the
  virtual functions of its frames and its destructors. The \<open>_out\<close> fields say which descriptors a call,
  a completion or the deletion hands to the program or abandons, \<open>oc_new_in\<close> those a constructor is given.
\<close>

record ('r, 'o, 'c, 'n) object_class =
  oc_this :: "'o \<Rightarrow> addr"
  oc_count :: "'o \<Rightarrow> int"
  oc_active :: "'o \<Rightarrow> frame_tag multiset"
  oc_frames :: "'o \<Rightarrow> frame_tag set"
  oc_owned :: "'o \<Rightarrow> int set"
  oc_inv :: "'r io_context_frame \<Rightarrow> 'o \<Rightarrow> bool"
  oc_call_ok :: "'c \<Rightarrow> 'r io_context_frame \<times> 'o \<Rightarrow> bool"
  oc_call :: "'c \<Rightarrow> ('r io_context_frame \<times> 'o, unit) op"
  oc_call_out :: "'c \<Rightarrow> 'o \<Rightarrow> int set"
  oc_cqe_ok :: "int \<Rightarrow> frame_tag \<Rightarrow> cqe \<Rightarrow> 'r io_context_frame \<times> 'o \<Rightarrow> bool"
  oc_process :: "int \<Rightarrow> frame_tag \<Rightarrow> cqe \<Rightarrow> ('r io_context_frame \<times> 'o, unit) op"
  oc_handle :: "frame_tag \<Rightarrow> ('r io_context_frame \<times> 'o, handle option) op"
  oc_cqe_out :: "frame_tag \<Rightarrow> cqe \<Rightarrow> 'o \<Rightarrow> int set"
  oc_copy :: "('r io_context_frame \<times> 'o, unit) op"
  oc_release :: "('r io_context_frame \<times> 'o, bool) op"
  oc_drop :: "('r io_context_frame \<times> 'o, bool) op"
  oc_left :: "'o \<Rightarrow> int set"
  oc_new_ok :: "'n \<Rightarrow> 'r io_context_frame \<Rightarrow> bool"
  oc_new :: "'n \<Rightarrow> addr \<Rightarrow> ('r io_context_frame, 'o) op"
  oc_new_in :: "'n \<Rightarrow> int set"

text \<open>Running a constructor's body on the object it makes; when it throws there is no object.\<close>

definition construct :: "('r io_context_frame \<times> 'o, unit) op \<Rightarrow> 'o \<Rightarrow> ('r io_context_frame, 'o) op" where
  "construct m ob fr =
     (case m (fr, ob) of
        (Ret _, (fr', ob')) \<Rightarrow> (Ret ob', fr')
      | (Throw e, (fr', _)) \<Rightarrow> (Throw e, fr')
      | (Assert_failed, (fr', _)) \<Rightarrow> (Assert_failed, fr')
      | (Bad_access, (fr', _)) \<Rightarrow> (Bad_access, fr'))"

text \<open>
  A step of an object: the entries it issues point to its own frames, each of them adds a reference;
  \<open>fin\<close> are the frames whose completion is consumed, \<open>k\<close> the pointers gained besides.
\<close>

definition object_step ::
  "('r, 'o, 'c, 'n) object_class \<Rightarrow> ('r \<Rightarrow> sqe list) \<Rightarrow> 'r io_context_frame \<times> 'o \<Rightarrow> 'r io_context_frame \<times> 'o \<Rightarrow>
     int \<Rightarrow> frame_tag multiset \<Rightarrow> int set \<Rightarrow> bool" where
  "object_step K issued s s' k fin out =
     (\<exists>es. issued (io_ring (fst s')) = issued (io_ring (fst s)) @ es \<and> own_entries (oc_this K (snd s)) es \<and>
        oc_this K (snd s') = oc_this K (snd s) \<and>
        oc_count K (snd s') = oc_count K (snd s) + k + int (size (own_tags (oc_this K (snd s)) es)) - int (size fin) \<and>
        oc_active K (snd s') + fin = oc_active K (snd s) + own_tags (oc_this K (snd s)) es \<and>
        oc_inv K (fst s') (snd s') \<and> frame_moves (oc_owned K (snd s)) (fst s) (oc_owned K (snd s')) (fst s') out)"

text \<open>The deletion of an object: nothing it issues will complete, its descriptors return to the pool.\<close>

definition object_gone ::
  "('r, 'o, 'c, 'n) object_class \<Rightarrow> ('r \<Rightarrow> sqe list) \<Rightarrow> 'r io_context_frame \<times> 'o \<Rightarrow> 'r io_context_frame \<Rightarrow> bool" where
  "object_gone K issued s fr' =
     (\<exists>es. issued (io_ring fr') = issued (io_ring (fst s)) @ es \<and> posted es = {#} \<and>
        frame_moves (oc_owned K (snd s)) (fst s) {} fr' (oc_left K (snd s)))"

definition is_last :: "('r, 'o, 'c, 'n) object_class \<Rightarrow> 'o \<Rightarrow> bool" where
  "is_last K ob = (oc_count K ob = 1)"

definition pointer_released ::
  "('r, 'o, 'c, 'n) object_class \<Rightarrow> ('r \<Rightarrow> sqe list) \<Rightarrow> 'r io_context_frame \<times> 'o \<Rightarrow>
     bool outcome \<times> 'r io_context_frame \<times> 'o \<Rightarrow> bool" where
  "pointer_released K issued s res =
     (fst res = Ret (is_last K (snd s)) \<and>
      (if is_last K (snd s) then object_gone K issued s (fst (snd res))
       else object_step K issued s (snd res) (- 1) {#} {} \<and> oc_active K (snd (snd res)) = oc_active K (snd s)))"

text \<open>The errors that the operations are documented to throw.\<close>

definition documented :: "unit outcome \<Rightarrow> bool" where
  "documented x = (x = Ret () \<or> x \<in> Throw ` {EBUSY, EINVAL, ENFILE, EBADFD})"

lemma documented_simps [simp]: "documented (Ret ())" "documented (Throw EBUSY)" "documented (Throw EINVAL)"
  "documented (Throw ENFILE)" "documented (Throw EBADFD)"
  by (simp_all add: documented_def)

definition fd_range :: "'r io_context_frame \<Rightarrow> int set" where
  "fd_range fr = {0..<int (unat (num_files (params fr)))}"

text \<open>A constructor succeeds with an object that has one pointer and its frames waiting, or throws.\<close>

definition object_made ::
  "('r, 'o, 'c, 'n) object_class \<Rightarrow> ('r \<Rightarrow> sqe list) \<Rightarrow> 'n \<Rightarrow> addr \<Rightarrow> 'r io_context_frame \<Rightarrow>
     'o outcome \<times> 'r io_context_frame \<Rightarrow> bool" where
  "object_made K issued n p fr res =
     (case fst res of
        Ret ob \<Rightarrow>
          (\<exists>es. issued (io_ring (snd res)) = issued (io_ring fr) @ es \<and> own_entries p es \<and> oc_this K ob = p \<and>
             oc_active K ob = own_tags p es \<and> oc_count K ob = 1 + int (size (own_tags p es)) \<and>
             oc_inv K (snd res) ob \<and> frame_moves (oc_new_in K n) fr (oc_owned K ob) (snd res) {})
      | Throw e \<Rightarrow>
          issued (io_ring (snd res)) = issued (io_ring fr) \<and>
          frame_moves (oc_new_in K n) fr {} (snd res) ((oc_new_in K n \<union> fds fr) - fds (snd res))
      | _ \<Rightarrow> False)"

text \<open>Introduction rules for a step with its entries given.\<close>

lemma object_stepI:
  assumes "issued (io_ring fr') = issued (io_ring fr) @ es" and "own_entries (oc_this K ob) es"
    and "oc_this K ob' = oc_this K ob"
    and "oc_count K ob' = oc_count K ob + k + int (size (own_tags (oc_this K ob) es)) - int (size fin)"
    and "oc_active K ob' + fin = oc_active K ob + own_tags (oc_this K ob) es"
    and "oc_inv K fr' ob'" and "frame_moves (oc_owned K ob) fr (oc_owned K ob') fr' out"
  shows "object_step K issued (fr, ob) (fr', ob') k fin out"
  using assms by (auto simp: object_step_def)

lemma object_step_ringI:
  assumes "oc_inv K fr ob'" and "frame_ok fr" and "oc_owned K ob' \<inter> fds fr = {}" and "oc_owned K ob' = oc_owned K ob"
    and "issued r = issued (io_ring fr) @ es" and "own_entries (oc_this K ob) es" and "oc_this K ob' = oc_this K ob"
    and "oc_count K ob' = oc_count K ob + k + int (size (own_tags (oc_this K ob) es)) - int (size fin)"
    and "oc_active K ob' + fin = oc_active K ob + own_tags (oc_this K ob) es"
    and "oc_inv K (fr\<lparr>io_ring := r\<rparr>) ob'"
  shows "object_step K issued (fr, ob) (fr\<lparr>io_ring := r\<rparr>, ob') k fin {}"
  using assms by (intro object_stepI [where es = es]) (simp_all add: frame_moves_def)

lemma object_step_stillI:
  assumes "oc_inv K fr ob'" and "frame_ok fr" and "oc_owned K ob' \<inter> fds fr = {}" and "oc_owned K ob' = oc_owned K ob"
    and "oc_this K ob' = oc_this K ob" and "oc_count K ob' = oc_count K ob + k - int (size fin)"
    and "oc_active K ob' + fin = oc_active K ob"
  shows "object_step K issued (fr, ob) (fr, ob') k fin {}"
  using assms by (intro object_stepI [where es = "[]"]) (simp_all add: frame_moves_def)

locale shared =
  fixes K :: "('r, 'o, 'c, 'n) object_class"
  assumes stable: "oc_inv K fr ob \<Longrightarrow> frame_rely (oc_owned K ob) fr fr' \<Longrightarrow> oc_inv K fr' ob"

locale counted = shared K for K :: "('r, 'o, 'c, 'n) object_class" +
  fixes issued :: "'r \<Rightarrow> sqe list"
    and ok :: bool
  assumes call: "ok \<Longrightarrow> oc_inv K fr ob \<Longrightarrow> oc_call_ok K a (fr, ob) \<Longrightarrow>
      documented (fst (oc_call K a (fr, ob))) \<and>
      object_step K issued (fr, ob) (snd (oc_call K a (fr, ob))) 0 {#} (oc_call_out K a ob)"
    and complete: "ok \<Longrightarrow> oc_inv K fr ob \<Longrightarrow> t \<in># oc_active K ob \<Longrightarrow> oc_cqe_ok K now t c (fr, ob) \<Longrightarrow>
      \<exists>h s'. thenM (oc_process K now t c) (oc_handle K t) (fr, ob) = (Ret h, s') \<and>
        object_step K issued (fr, ob) s' 1 (completion_tags t c) (oc_cqe_out K t c ob)"
    and copy: "ok \<Longrightarrow> oc_inv K fr ob \<Longrightarrow>
      fst (oc_copy K (fr, ob)) = Ret () \<and> object_step K issued (fr, ob) (snd (oc_copy K (fr, ob))) 1 {#} {}"
    and release: "ok \<Longrightarrow> oc_inv K fr ob \<Longrightarrow> 0 < oc_count K ob \<Longrightarrow>
      pointer_released K issued (fr, ob) (oc_release K (fr, ob))"
    and drop: "ok \<Longrightarrow> oc_inv K fr ob \<Longrightarrow> int (size (oc_active K ob)) < oc_count K ob \<Longrightarrow>
      pointer_released K issued (fr, ob) (oc_drop K (fr, ob))"
    and make: "ok \<Longrightarrow> frame_ok fr \<Longrightarrow> oc_new_ok K n fr \<Longrightarrow> oc_new_in K n \<subseteq> fd_range fr \<Longrightarrow>
      oc_new_in K n \<inter> fds fr = {} \<Longrightarrow> object_made K issued n p fr (oc_new K n p fr)"
    and framed: "oc_inv K fr ob \<Longrightarrow> t \<in># oc_active K ob \<Longrightarrow> t \<in> oc_frames K ob"
    and single: "oc_inv K fr ob \<Longrightarrow> count (oc_active K ob) t \<le> 1"

end
