(* ===== verification/Stream.thy ===== *)
theory Stream
  imports Object_Life
begin

section \<open>TCP streams (\<open>detail/stream_impl.hpp\<close>, stream part of \<open>tcp.cpp\<close>)\<close>

text \<open>
  \<^verbatim>\<open>stream_impl\<close> is a reference-counted object with seven frames; the state of an operation is the
  shared frame of the runtime and one such object. Records are extensible, so the same operations
  apply to \<^verbatim>\<open>client_impl\<close>. The clock is an argument \<open>now\<close> in nanoseconds; a time point is an
  integer. The received buffers are the list of their values (what \<open>seq_rep\<close> represents in
  memory), the pointer to a buffer ring is the key of the ring in the node map. The second half
  gives the exact effect of every operation, the invariant that ties the reference count and the
  \<^verbatim>\<open>is_active\<close> flags to the completions in flight, and the properties.
\<close>

subsection \<open>Frames and the object\<close>

record shutdown_frame = op_frame +
  sh_how :: int

record send_frame = op_frame +
  last_send :: int

record recv_frame =
  rf_buffers :: "recv_buf list"
  rf_ec :: "int option"
  rf_p_buf_ring :: "u16 option"
  rf_h :: "handle option"
  rf_last_recv :: int
  rf_res :: int
  rf_buffer_group_id :: int
  rf_initiated :: bool

record timeout_frame =
  tf_initiated :: bool
  tf_cancelled :: bool

record timeout_cancel_frame =
  tcf_res :: int
  tcf_initiated :: bool

record stream_impl = ref_count +
  cancel_fr :: op_frame
  close_fr :: op_frame
  shutdown_fr :: shutdown_frame
  send_fr :: send_frame
  recv_fr :: recv_frame
  timeout_fr :: timeout_frame
  timeout_cancel_fr :: timeout_cancel_frame
  st_ts :: timespec
  st_fd :: int
  st_connected :: bool
  st_cancelled :: bool

type_synonym ('r, 'a) stream_state = "'r io_context_frame \<times> 'a stream_impl_scheme"

definition recv_frame_new :: "int \<Rightarrow> recv_frame" where
  "recv_frame_new now = \<lparr>rf_buffers = [], rf_ec = None, rf_p_buf_ring = None, rf_h = None, rf_last_recv = now,
     rf_res = 0, rf_buffer_group_id = - 1, rf_initiated = False\<rparr>"

definition stream_fields :: "addr \<Rightarrow> int \<Rightarrow> stream_impl" where
  "stream_fields this now =
     \<lparr>rc_this = this, rc_count = 0, cancel_fr = op_frame_new, close_fr = op_frame_new,
      shutdown_fr = op_frame.extend op_frame_new \<lparr>sh_how = 0\<rparr>,
      send_fr = op_frame.extend op_frame_new \<lparr>last_send = now\<rparr>,
      recv_fr = recv_frame_new now, timeout_fr = \<lparr>tf_initiated = False, tf_cancelled = False\<rparr>,
      timeout_cancel_fr = \<lparr>tcf_res = 0, tcf_initiated = False\<rparr>,
      st_ts = \<lparr>tv_sec = 3, tv_nsec = 0\<rparr>, st_fd = - 1, st_connected = False, st_cancelled = False\<rparr>"

text \<open>The multishot timeout that watches the stream, and the entry that removes it.\<close>

definition timeout_sqe :: "addr \<Rightarrow> sqe" where
  "timeout_sqe this = \<lparr>sqe_prep = Prep_timeout (UD this F_timeout) True, sqe_flags = [], sqe_data = UD this F_timeout\<rparr>"

definition timeout_remove_sqe :: "addr \<Rightarrow> sqe" where
  "timeout_remove_sqe this =
     \<lparr>sqe_prep = Prep_timeout_remove (UD this F_timeout), sqe_flags = [IOSQE_CQE_SKIP_SUCCESS], sqe_data = UD_null\<rparr>"

definition stream_init :: "'r platform \<Rightarrow> (('r, 'a) stream_state, unit) op" where
  "stream_init E =
     with_obj (\<lambda>st. thenM (on_ring (issue_one E (timeout_sqe (rc_this st))))
       (thenM (on_obj (\<lambda>st. st\<lparr>timeout_fr := (timeout_fr st)\<lparr>tf_initiated := True\<rparr>\<rparr>))
         intrusive_ptr_add_ref))"

definition stream_impl_ctor ::
  "'r platform \<Rightarrow> addr \<Rightarrow> int \<Rightarrow> int \<Rightarrow> 'r io_context_frame \<Rightarrow> unit outcome \<times> 'r io_context_frame \<times> stream_impl" where
  "stream_impl_ctor E this now fd fr =
     thenM (stream_init E) (on_obj (\<lambda>st. st\<lparr>st_fd := fd\<rparr>)) (fr, stream_fields this now)"

definition stream_impl_dtor :: "'r platform \<Rightarrow> (('r, 'a) stream_state, unit) op" where
  "stream_impl_dtor E =
     with_obj (\<lambda>st. if st_fd st \<ge> 0
       then thenM (close_owned_fd E (st_fd st)) (on_obj (\<lambda>st. st\<lparr>st_fd := - 1\<rparr>)) else retM ())"

subsection \<open>Completions: \<open>await_process_cqe\<close> of each frame\<close>

definition cancel_process :: "cqe \<Rightarrow> (('r, 'a) stream_state, unit) op" where
  "cancel_process c = on_obj (\<lambda>st. st\<lparr>cancel_fr := op_frame_process c (cancel_fr st)\<rparr>)"

definition timeout_cancel_process :: "cqe \<Rightarrow> (('r, 'a) stream_state, unit) op" where
  "timeout_cancel_process c = on_obj (\<lambda>st. st\<lparr>timeout_cancel_fr := \<lparr>tcf_res = cqe_res c, tcf_initiated = False\<rparr>\<rparr>)"

definition close_process :: "cqe \<Rightarrow> (('r, 'a) stream_state, unit) op" where
  "close_process c =
     thenM (on_obj (\<lambda>st. st\<lparr>close_fr := op_frame_process c (close_fr st)\<rparr>))
       (with_obj (\<lambda>st. thenM (on_frame (release_fd (st_fd st)))
         (on_obj (\<lambda>st. st\<lparr>st_fd := - 1, st_connected := False\<rparr>))))"

definition shutdown_process :: "cqe \<Rightarrow> (('r, 'a) stream_state, unit) op" where
  "shutdown_process c = on_obj (\<lambda>st. st\<lparr>shutdown_fr := op_frame_process c (shutdown_fr st)\<rparr>)"

definition send_process :: "cqe \<Rightarrow> (('r, 'a) stream_state, unit) op" where
  "send_process c =
     on_obj (\<lambda>st. let st1 = st\<lparr>send_fr := op_frame_process c (send_fr st)\<rparr> in
       if cqe_res c < 0 then st1\<lparr>st_connected := False\<rparr> else st1)"

text \<open>An operation on the ring that a frame points to; a null pointer is dereferenced.\<close>

definition on_group :: "u16 option \<Rightarrow> (buf_ring, 'b) op \<Rightarrow> (('r, 'a) stream_state, 'b) op" where
  "on_group g m s =
     (case g of None \<Rightarrow> (Bad_access, s)
      | Some k \<Rightarrow>
          (case buf_rings (fst s) k of None \<Rightarrow> (Bad_access, s)
           | Some br \<Rightarrow> (case m br of (x, br') \<Rightarrow>
               (x, ((fst s)\<lparr>buf_rings := (buf_rings (fst s))(k \<mapsto> br')\<rparr>, snd s)))))"

definition recv_push :: "recv_buf \<Rightarrow> (('r, 'a) stream_state, unit) op" where
  "recv_push b = on_obj (\<lambda>st. st\<lparr>recv_fr := (recv_fr st)\<lparr>rf_buffers := rf_buffers (recv_fr st) @ [b]\<rparr>\<rparr>)"

definition recv_process_error :: "cqe \<Rightarrow> (('r, 'a) stream_state, unit) op" where
  "recv_process_error c =
     with_obj (\<lambda>st. thenM (assertM (\<not> cqe_f_more c)) (thenM (assertM (rf_ec (recv_fr st) = None))
       (on_obj (\<lambda>st. st\<lparr>recv_fr := (recv_fr st)\<lparr>rf_ec :=
          Some (if cqe_res c = - ECANCELED \<and> \<not> st_cancelled st then ETIMEDOUT else - cqe_res c)\<rparr>\<rparr>))))"

definition recv_process_eof :: "cqe \<Rightarrow> (('r, 'a) stream_state, unit) op" where
  "recv_process_eof c =
     thenM (assertM (\<not> cqe_f_more c)) (thenM (assertM (\<not> cqe_f_buffer c)) (recv_push (rb_new (\<lambda>_. 0) 0)))"

definition recv_process_data :: "int \<Rightarrow> cqe \<Rightarrow> (('r, 'a) stream_state, unit) op" where
  "recv_process_data now c =
     thenM (assertM (cqe_f_buffer c))
       (thenM (on_obj (\<lambda>st. st\<lparr>recv_fr := (recv_fr st)\<lparr>rf_last_recv := now\<rparr>\<rparr>))
         (with_obj (\<lambda>st. bindM (on_group (rf_p_buf_ring (recv_fr st)) (take_buffer (cqe_buffer_id c) (nat (cqe_res c))))
           recv_push)))"

definition recv_process :: "int \<Rightarrow> cqe \<Rightarrow> (('r, 'a) stream_state, unit) op" where
  "recv_process now c =
     thenM (if cqe_res c < 0 then recv_process_error c else retM ())
      (thenM (if cqe_res c = 0 then recv_process_eof c else retM ())
       (thenM (if cqe_res c > 0 then recv_process_data now c else retM ())
         (if cqe_f_more c
          then thenM intrusive_ptr_add_ref (on_obj (\<lambda>st. st\<lparr>recv_fr := (recv_fr st)\<lparr>rf_initiated := True\<rparr>\<rparr>))
          else on_obj (\<lambda>st. st\<lparr>recv_fr := (recv_fr st)\<lparr>rf_initiated := False\<rparr>\<rparr>))))"

definition recv_sqe :: "addr \<Rightarrow> int \<Rightarrow> int \<Rightarrow> sqe" where
  "recv_sqe this fd bgid =
     \<lparr>sqe_prep = Prep_recv_multishot fd (of_int bgid), sqe_flags = [IOSQE_FIXED_FILE, IOSQE_BUFFER_SELECT],
      sqe_data = UD this F_recv\<rparr>"

definition schedule_recv :: "'r platform \<Rightarrow> int \<Rightarrow> (('r, 'a) stream_state, unit) op" where
  "schedule_recv E now =
     with_obj (\<lambda>st. thenM (on_ring (issue_one E (recv_sqe (rc_this st) (st_fd st) (rf_buffer_group_id (recv_fr st)))))
       (thenM (on_obj (\<lambda>st. st\<lparr>recv_fr := (recv_fr st)\<lparr>rf_initiated := True, rf_last_recv := now\<rparr>\<rparr>))
         intrusive_ptr_add_ref))"

definition max_diff :: "timespec \<Rightarrow> int" where
  "max_diff ts = tv_sec ts * 1000000000 + tv_nsec ts"

definition should_cancel :: "int \<Rightarrow> 'a stream_impl_scheme \<Rightarrow> bool" where
  "should_cancel now st =
     (rf_initiated (recv_fr st) \<and> now - rf_last_recv (recv_fr st) \<ge> max_diff (st_ts st) \<or>
      of_initiated (send_fr st) \<and> \<not> of_done (send_fr st) \<and> now - last_send (send_fr st) \<ge> max_diff (st_ts st))"

definition cancel_fd_sqe :: "int \<Rightarrow> sqe_flag list \<Rightarrow> user_data \<Rightarrow> sqe" where
  "cancel_fd_sqe fd fl ud = \<lparr>sqe_prep = Prep_cancel_fd fd, sqe_flags = fl, sqe_data = ud\<rparr>"

definition timeout_cancel_start :: "'r platform \<Rightarrow> (('r, 'a) stream_state, unit) op" where
  "timeout_cancel_start E =
     with_obj (\<lambda>st. thenM (assertM (st_fd st \<ge> 0))
       (thenM (on_ring (issue_one E (cancel_fd_sqe (st_fd st) [] (UD (rc_this st) F_timeout_cancel))))
         (thenM intrusive_ptr_add_ref
           (on_obj (\<lambda>st. st\<lparr>timeout_cancel_fr := (timeout_cancel_fr st)\<lparr>tcf_initiated := True\<rparr>\<rparr>)))))"

definition timeout_rearm :: "'r platform \<Rightarrow> (('r, 'a) stream_state, unit) op" where
  "timeout_rearm E =
     with_obj (\<lambda>st. thenM (on_ring (issue_one E (timeout_sqe (rc_this st))))
       (on_obj (\<lambda>st. st\<lparr>timeout_fr := (timeout_fr st)\<lparr>tf_initiated := True\<rparr>\<rparr>)))"

definition timeout_process :: "'r platform \<Rightarrow> int \<Rightarrow> cqe \<Rightarrow> (('r, 'a) stream_state, unit) op" where
  "timeout_process E now c =
     with_obj (\<lambda>st.
       if cqe_res c = - ECANCELED \<and> tf_cancelled (timeout_fr st)
       then on_obj (\<lambda>st. st\<lparr>timeout_fr := \<lparr>tf_initiated = False, tf_cancelled = False\<rparr>\<rparr>)
       else if cqe_res c = - ECANCELED
       then thenM (timeout_rearm E) intrusive_ptr_add_ref
       else if cqe_res c \<noteq> - ETIME \<and> cqe_res c \<noteq> 0 then assertM False
       else thenM (if should_cancel now st then timeout_cancel_start E else retM ())
             (thenM (if \<not> cqe_f_more c then timeout_rearm E else retM ())
               intrusive_ptr_add_ref))"

text \<open>The virtual calls of the run loop, by the frame that the user data points to.\<close>

definition stream_process :: "'r platform \<Rightarrow> int \<Rightarrow> frame_tag \<Rightarrow> cqe \<Rightarrow> (('r, 'a) stream_state, unit) op" where
  "stream_process E now t c =
     (case t of F_cancel \<Rightarrow> cancel_process c | F_timeout_cancel \<Rightarrow> timeout_cancel_process c
      | F_close \<Rightarrow> close_process c | F_shutdown \<Rightarrow> shutdown_process c | F_send \<Rightarrow> send_process c
      | F_recv \<Rightarrow> recv_process now c | F_timeout \<Rightarrow> timeout_process E now c | _ \<Rightarrow> (\<lambda>s. (Bad_access, s)))"

definition cancel_handle :: "(('r, 'a) stream_state, handle option) op" where
  "cancel_handle s = (case op_frame_handle (cancel_fr (snd s)) of (k, f) \<Rightarrow> (Ret k, (fst s, (snd s)\<lparr>cancel_fr := f\<rparr>)))"

definition close_handle :: "(('r, 'a) stream_state, handle option) op" where
  "close_handle s = (case op_frame_handle (close_fr (snd s)) of (k, f) \<Rightarrow> (Ret k, (fst s, (snd s)\<lparr>close_fr := f\<rparr>)))"

definition shutdown_handle :: "(('r, 'a) stream_state, handle option) op" where
  "shutdown_handle s = (case op_frame_handle (shutdown_fr (snd s)) of (k, f) \<Rightarrow> (Ret k, (fst s, (snd s)\<lparr>shutdown_fr := f\<rparr>)))"

definition send_handle :: "(('r, 'a) stream_state, handle option) op" where
  "send_handle s = (case op_frame_handle (send_fr (snd s)) of (k, f) \<Rightarrow> (Ret k, (fst s, (snd s)\<lparr>send_fr := f\<rparr>)))"

definition recv_handle :: "(('r, 'a) stream_state, handle option) op" where
  "recv_handle s = (Ret (rf_h (recv_fr (snd s))), (fst s, (snd s)\<lparr>recv_fr := (recv_fr (snd s))\<lparr>rf_h := None\<rparr>\<rparr>))"

definition stream_handle :: "frame_tag \<Rightarrow> (('r, 'a) stream_state, handle option) op" where
  "stream_handle t =
     (case t of F_cancel \<Rightarrow> cancel_handle | F_close \<Rightarrow> close_handle | F_shutdown \<Rightarrow> shutdown_handle
      | F_send \<Rightarrow> send_handle | F_recv \<Rightarrow> recv_handle | _ \<Rightarrow> retM None)"

subsection \<open>Members of \<open>stream\<close>\<close>

definition stream_timeout :: "'r platform \<Rightarrow> timespec \<Rightarrow> (('r, 'a) stream_state, unit) op" where
  "stream_timeout E ts =
     thenM (on_obj (\<lambda>st. st\<lparr>st_ts := ts\<rparr>))
       (with_obj (\<lambda>st. on_ring (issue_one E (timeout_remove_sqe (rc_this st)))))"

definition queue_timer_cancel :: "'r platform \<Rightarrow> (('r, 'a) stream_state, unit) op" where
  "queue_timer_cancel E =
     with_obj (\<lambda>st. if \<not> tf_initiated (timeout_fr st) then retM ()
       else thenM (on_obj (\<lambda>st. st\<lparr>timeout_fr := (timeout_fr st)\<lparr>tf_cancelled := True\<rparr>\<rparr>))
              (on_ring (put_sqe E (timeout_remove_sqe (rc_this st)))))"

definition cancel_timer :: "'r platform \<Rightarrow> (('r, 'a) stream_state, unit) op" where
  "cancel_timer E =
     thenM (on_ring (reserve_sqes E 1)) (thenM (queue_timer_cancel E) (on_ring (submit_ring E)))"

definition cancel_recv :: "'r platform \<Rightarrow> (('r, 'a) stream_state, unit) op" where
  "cancel_recv E =
     with_obj (\<lambda>st. if rf_initiated (recv_fr st) then cancel_in_flight E (UD (rc_this st) F_recv) else retM ())"

definition count_active :: "'a stream_impl_scheme \<Rightarrow> int" where
  "count_active st =
     of_bool (op_frame_active (cancel_fr st)) + of_bool (tcf_initiated (timeout_cancel_fr st)) +
     of_bool (op_frame_active (close_fr st)) + of_bool (op_frame_active (shutdown_fr st)) +
     of_bool (op_frame_active (send_fr st)) + of_bool (rf_initiated (recv_fr st)) +
     of_bool (tf_initiated (timeout_fr st))"

text \<open>
  \<^verbatim>\<open>~stream\<close> of a handle that is not moved from; the pointer is released in both branches, by the
  assignment of \<^verbatim>\<open>nullptr\<close> or as a member. \<open>True\<close>: the object has been deleted.
\<close>

definition stream_dtor :: "'r platform \<Rightarrow> (('r, 'a) stream_state, bool) op" where
  "stream_dtor E =
     with_obj (\<lambda>st. let uc = use_count st - count_active st in
       thenM (assertM (uc > 0))
        (thenM (if uc = 1 then thenM (cancel_timer E) (cancel_recv E) else retM ())
          (intrusive_ptr_release (stream_impl_dtor E))))"

definition set_buffer_group :: "u16 \<Rightarrow> (('r, 'a) stream_state, unit) op" where
  "set_buffer_group bgid s =
     (if rf_initiated (recv_fr (snd s)) then throw_errno_as_error_code EBUSY s
      else case get_buffer_group (fst s) (unat bgid) of
        None \<Rightarrow> throw_errno_as_error_code EINVAL s
      | Some _ \<Rightarrow> on_obj (\<lambda>st. st\<lparr>recv_fr := (recv_fr st)\<lparr>rf_buffer_group_id := uint bgid\<rparr>\<rparr>) s)"

definition async_shutdown :: "int \<Rightarrow> (('r, 'a) stream_state, unit) op" where
  "async_shutdown how = on_obj (\<lambda>st. st\<lparr>shutdown_fr := (shutdown_fr st)\<lparr>sh_how := how\<rparr>\<rparr>)"

subsection \<open>Awaitables\<close>

definition stream_close_sqes :: "addr \<Rightarrow> int \<Rightarrow> sqe list" where
  "stream_close_sqes this fd =
     [cancel_fd_sqe fd [IOSQE_IO_HARDLINK, IOSQE_CQE_SKIP_SUCCESS] UD_null,
      \<lparr>sqe_prep = Prep_close_direct (of_int fd), sqe_flags = [], sqe_data = UD this F_close\<rparr>]"

definition stream_close_await_suspend :: "'r platform \<Rightarrow> handle \<Rightarrow> (('r, 'a) stream_state, unit) op" where
  "stream_close_await_suspend E h =
     with_obj (\<lambda>st. thenM (on_ring (reserve_sqes E (if tf_initiated (timeout_fr st) then 3 else 2)))
       (thenM (on_obj (\<lambda>st. st\<lparr>st_cancelled := True\<rparr>))
         (thenM (on_ring (put_sqes E (stream_close_sqes (rc_this st) (st_fd st))))
           (thenM (if tf_initiated (timeout_fr st) then queue_timer_cancel E else retM ())
             (thenM intrusive_ptr_add_ref
               (on_obj (\<lambda>st. st\<lparr>close_fr := op_frame_start h (close_fr st)\<rparr>)))))))"

definition stream_close_await_resume :: "(('r, 'a) stream_state, unit fiona_result) op" where
  "stream_close_await_resume s =
     (Ret (void_result_of_res (of_res (close_fr (snd s)))),
      (fst s, (snd s)\<lparr>close_fr := op_frame_reset (close_fr (snd s))\<rparr>))"

definition stream_cancel_await_suspend :: "'r platform \<Rightarrow> handle \<Rightarrow> (('r, 'a) stream_state, unit) op" where
  "stream_cancel_await_suspend E h =
     with_obj (\<lambda>st. thenM (on_ring (reserve_sqes E 1)) (thenM (assertM (st_fd st \<noteq> - 1))
       (thenM (on_ring (put_sqe E (cancel_fd_sqe (st_fd st) [] (UD (rc_this st) F_cancel))))
         (thenM intrusive_ptr_add_ref
           (on_obj (\<lambda>st. st\<lparr>cancel_fr := op_frame_start h (cancel_fr st), st_cancelled := True\<rparr>))))))"

definition stream_cancel_await_resume :: "(('r, 'a) stream_state, int fiona_result) op" where
  "stream_cancel_await_resume s =
     (Ret (if st_fd (snd s) = - 1 then Inr 0 else result_of_res (of_res (cancel_fr (snd s)))),
      (fst s, (snd s)\<lparr>cancel_fr := op_frame_reset (cancel_fr (snd s))\<rparr>))"

definition shutdown_sqe :: "addr \<Rightarrow> int \<Rightarrow> int \<Rightarrow> sqe" where
  "shutdown_sqe this fd how = \<lparr>sqe_prep = Prep_shutdown fd how, sqe_flags = [IOSQE_FIXED_FILE], sqe_data = UD this F_shutdown\<rparr>"

definition shutdown_await_suspend :: "'r platform \<Rightarrow> handle \<Rightarrow> (('r, 'a) stream_state, unit) op" where
  "shutdown_await_suspend E h =
     with_obj (\<lambda>st. thenM (assertM (st_fd st \<noteq> - 1))
       (thenM (on_ring (issue_one E (shutdown_sqe (rc_this st) (st_fd st) (sh_how (shutdown_fr st)))))
         (thenM intrusive_ptr_add_ref
           (on_obj (\<lambda>st. st\<lparr>shutdown_fr := op_frame_start h (shutdown_fr st)\<rparr>)))))"

definition shutdown_await_resume :: "(('r, 'a) stream_state, unit fiona_result) op" where
  "shutdown_await_resume s =
     (Ret (void_result_of_res (of_res (shutdown_fr (snd s)))),
      (fst s, (snd s)\<lparr>shutdown_fr := (op_frame_reset (shutdown_fr (snd s)))\<lparr>sh_how := 0\<rparr>\<rparr>))"

definition send_awaitable_dtor :: "'r platform \<Rightarrow> (('r, 'a) stream_state, unit) op" where
  "send_awaitable_dtor E =
     with_obj (\<lambda>st. if of_initiated (send_fr st) \<and> \<not> of_done (send_fr st)
       then cancel_in_flight E (UD (rc_this st) F_send) else retM ())"

definition send_sqe :: "addr \<Rightarrow> int \<Rightarrow> u8 list \<Rightarrow> sqe" where
  "send_sqe this fd buf = \<lparr>sqe_prep = Prep_send fd buf, sqe_flags = [IOSQE_FIXED_FILE], sqe_data = UD this F_send\<rparr>"

definition send_await_suspend :: "'r platform \<Rightarrow> int \<Rightarrow> u8 list \<Rightarrow> handle \<Rightarrow> (('r, 'a) stream_state, unit) op" where
  "send_await_suspend E now buf h =
     with_obj (\<lambda>st. if of_initiated (send_fr st) then throw_errno_as_error_code EBUSY
       else thenM (on_ring (issue_one E (send_sqe (rc_this st) (st_fd st) buf)))
         (thenM intrusive_ptr_add_ref
           (on_obj (\<lambda>st. st\<lparr>send_fr := (op_frame_start h (send_fr st))\<lparr>last_send := now\<rparr>\<rparr>))))"

definition send_await_resume :: "(('r, 'a) stream_state, int fiona_result) op" where
  "send_await_resume s =
     (Ret (result_of_res (of_res (send_fr (snd s)))),
      (fst s, (snd s)\<lparr>send_fr := op_frame_reset (send_fr (snd s))\<rparr>))"

definition recv_await_ready :: "(('r, 'a) stream_state, bool) op" where
  "recv_await_ready s = (Ret (rf_buffers (recv_fr (snd s)) \<noteq> []), s)"

text \<open>
  The group id is an \<^verbatim>\<open>int\<close> that is cast to \<^verbatim>\<open>unsigned\<close> or to \<^verbatim>\<open>size_t\<close> for the lookup, which casts it
  to the 16-bit key.
\<close>

definition group_key_unsigned :: "int \<Rightarrow> nat" where
  "group_key_unsigned bgid = unat (of_int bgid :: u32)"

definition group_key_size_t :: "int \<Rightarrow> nat" where
  "group_key_size_t bgid = unat (of_int bgid :: u64)"

definition recv_await_suspend :: "'r platform \<Rightarrow> int \<Rightarrow> handle \<Rightarrow> (('r, 'a) stream_state, bool) op" where
  "recv_await_suspend E now h =
     thenM (on_obj (\<lambda>st. st\<lparr>recv_fr := (recv_fr st)\<lparr>rf_h := Some h\<rparr>\<rparr>))
      (with_obj (\<lambda>st. let rf = recv_fr st in
        if rf_ec rf \<noteq> None then thenM (assertM (rf_buffers rf = [])) (retM False)
        else if rf_initiated rf then thenM (assertM (rf_buffers rf = [])) (retM True)
        else if rf_buffer_group_id rf = - 1 then throw_errno_as_error_code EINVAL
        else thenM (\<lambda>s. on_obj (\<lambda>st. st\<lparr>recv_fr := (recv_fr st)\<lparr>rf_p_buf_ring :=
                      map_option br_bgid (get_buffer_group (fst s) (group_key_unsigned (rf_buffer_group_id rf)))\<rparr>\<rparr>) s)
              (thenM (schedule_recv E now) (retM True))))"

text \<open>
  \<open>await_resume\<close>: an error is returned only when no buffer is left; otherwise the buffers that
  are about to be handed out are replaced in the ring first. The loop leaves at once when the first
  buffer is the end-of-file marker, before the pointer to the ring is used.
\<close>

definition on_ring_group :: "nat \<Rightarrow> ('r \<times> buf_ring, 'b) op \<Rightarrow> (('r, 'a) stream_state, 'b) op" where
  "on_ring_group g m s =
     (case get_buffer_group (fst s) g of None \<Rightarrow> (Bad_access, s)
      | Some br \<Rightarrow> (case m (io_ring (fst s), br) of (x, (r', br')) \<Rightarrow>
          (x, ((fst s)\<lparr>io_ring := r', buf_rings := (buf_rings (fst s))(of_nat g \<mapsto> br')\<rparr>, snd s))))"

definition recv_await_resume ::
  "'r platform \<Rightarrow> (nat \<Rightarrow> u8) \<Rightarrow> (('r, 'a) stream_state, (recv_buf list) fiona_result) op" where
  "recv_await_resume E junk =
     with_obj (\<lambda>st. let rf = recv_fr st in
       thenM (assertM (rf_buffers rf \<noteq> [] \<or> rf_ec rf \<noteq> None))
        (if rf_buffers rf = []
         then thenM (on_obj (\<lambda>st. st\<lparr>recv_fr := (recv_fr st)\<lparr>rf_ec := None\<rparr>\<rparr>)) (retM (Inl (the (rf_ec rf))))
         else thenM (if rb_size (hd (rf_buffers rf)) = 0 then retM ()
                     else on_ring_group (group_key_size_t (rf_buffer_group_id rf)) (replenish E junk (rf_buffers rf)))
               (thenM (on_obj (\<lambda>st. st\<lparr>recv_fr := (recv_fr st)\<lparr>rf_buffers := []\<rparr>\<rparr>))
                 (retM (Inr (rf_buffers rf))))))"

subsection \<open>The effect of the operations\<close>

text \<open>
  Each operation that issues entries, with the entries it issues and the object afterwards. The
  ring \<open>r'\<close> is what the library leaves behind.
\<close>

lemma send_start:
  assumes "uring_laws E issued n" and "\<not> of_initiated (send_fr st)"
  obtains r' where "send_await_suspend E now buf h (fr, st) =
      (Ret (), (fr\<lparr>io_ring := r'\<rparr>,
        st\<lparr>rc_count := rc_count st + 1, send_fr := (op_frame_start h (send_fr st))\<lparr>last_send := now\<rparr>\<rparr>))"
    and "issued r' = issued (io_ring fr) @ [send_sqe (rc_this st) (st_fd st) buf]"
  by (rule on_issue_one [OF assms(1), of "send_sqe (rc_this st) (st_fd st) buf" fr st])
    (use that assms(2) in \<open>simp add: send_await_suspend_def op_simps\<close>)

lemma send_busy: "of_initiated (send_fr st) \<Longrightarrow> send_await_suspend E now buf h (fr, st) = (Throw EBUSY, (fr, st))"
  by (simp add: send_await_suspend_def op_simps)

lemma shutdown_start:
  assumes "uring_laws E issued n" and "st_fd st \<noteq> - 1"
  obtains r' where "shutdown_await_suspend E h (fr, st) =
      (Ret (), (fr\<lparr>io_ring := r'\<rparr>, st\<lparr>rc_count := rc_count st + 1, shutdown_fr := op_frame_start h (shutdown_fr st)\<rparr>))"
    and "issued r' = issued (io_ring fr) @ [shutdown_sqe (rc_this st) (st_fd st) (sh_how (shutdown_fr st))]"
  by (rule on_issue_one [OF assms(1), of "shutdown_sqe (rc_this st) (st_fd st) (sh_how (shutdown_fr st))" fr st])
    (use that assms(2) in \<open>simp add: shutdown_await_suspend_def op_simps\<close>)

lemma cancel_start:
  assumes "uring_laws E issued n" and "st_fd st \<noteq> - 1"
  obtains r' where "stream_cancel_await_suspend E h (fr, st) =
      (Ret (), (fr\<lparr>io_ring := r'\<rparr>,
        st\<lparr>rc_count := rc_count st + 1, cancel_fr := op_frame_start h (cancel_fr st), st_cancelled := True\<rparr>))"
    and "issued r' = issued (io_ring fr) @ [cancel_fd_sqe (st_fd st) [] (UD (rc_this st) F_cancel)]"
proof -
  let ?e = "cancel_fd_sqe (st_fd st) [] (UD (rc_this st) F_cancel)"
  obtain q where q: "reserve_sqes E 1 (io_ring fr) = (Ret (), q)" "issued q = issued (io_ring fr)" "1 \<le> sq_space_left E q"
    by (rule reserve_sqes_ok [OF assms(1), of 1]) simp
  obtain r' where "put_sqe E ?e q = (Ret (), r')" "issued r' = issued q @ [?e]"
    by (rule put_sqe_ok [OF assms(1), of q ?e]) (use q in auto)
  with q that assms(2) show ?thesis by (simp add: stream_cancel_await_suspend_def op_simps)
qed

lemma queue_timer_cancel_ok:
  assumes "uring_laws E issued n" and "tf_initiated (timeout_fr st)" and "0 < sq_space_left E (io_ring fr)"
  obtains r' where "queue_timer_cancel E (fr, st) =
      (Ret (), (fr\<lparr>io_ring := r'\<rparr>, st\<lparr>timeout_fr := (timeout_fr st)\<lparr>tf_cancelled := True\<rparr>\<rparr>))"
    and "issued r' = issued (io_ring fr) @ [timeout_remove_sqe (rc_this st)]"
  by (rule put_sqe_ok [OF assms(1,3), of "timeout_remove_sqe (rc_this st)"])
    (use that assms(2) in \<open>simp add: queue_timer_cancel_def op_simps\<close>)

lemma cancel_timer_idle:
  assumes "uring_laws E issued n" and "\<not> tf_initiated (timeout_fr st)"
  obtains r' where "cancel_timer E (fr, st) = (Ret (), (fr\<lparr>io_ring := r'\<rparr>, st))" and "issued r' = issued (io_ring fr)"
proof -
  obtain q where q: "reserve_sqes E 1 (io_ring fr) = (Ret (), q)" "issued q = issued (io_ring fr)"
    by (rule reserve_sqes_ok [OF assms(1), of 1]) simp
  obtain r' where "submit_ring E q = (Ret (), r')" "issued r' = issued q" by (rule submit_ring_ok [OF assms(1)])
  with q that assms(2) show ?thesis by (simp add: cancel_timer_def queue_timer_cancel_def op_simps)
qed

lemma cancel_timer_armed:
  assumes "uring_laws E issued n" and "tf_initiated (timeout_fr st)"
  obtains r' where "cancel_timer E (fr, st) =
      (Ret (), (fr\<lparr>io_ring := r'\<rparr>, st\<lparr>timeout_fr := (timeout_fr st)\<lparr>tf_cancelled := True\<rparr>\<rparr>))"
    and "issued r' = issued (io_ring fr) @ [timeout_remove_sqe (rc_this st)]"
proof -
  obtain q where q: "reserve_sqes E 1 (io_ring fr) = (Ret (), q)" "issued q = issued (io_ring fr)" "1 \<le> sq_space_left E q"
    by (rule reserve_sqes_ok [OF assms(1), of 1]) simp
  obtain p where p: "queue_timer_cancel E (fr\<lparr>io_ring := q\<rparr>, st) =
      (Ret (), (fr\<lparr>io_ring := q, io_ring := p\<rparr>, st\<lparr>timeout_fr := (timeout_fr st)\<lparr>tf_cancelled := True\<rparr>\<rparr>))"
      "issued p = issued q @ [timeout_remove_sqe (rc_this st)]"
    using queue_timer_cancel_ok [OF assms, of "fr\<lparr>io_ring := q\<rparr>"] q(3) by auto
  obtain r' where "submit_ring E p = (Ret (), r')" "issued r' = issued p" by (rule submit_ring_ok [OF assms(1)])
  with q p that show ?thesis by (simp add: cancel_timer_def op_simps)
qed

lemma close_start:
  assumes "uring_laws E issued n"
  obtains r' where "stream_close_await_suspend E h (fr, st) =
      (Ret (), (fr\<lparr>io_ring := r'\<rparr>,
        st\<lparr>rc_count := rc_count st + 1, close_fr := op_frame_start h (close_fr st), st_cancelled := True,
           timeout_fr := (timeout_fr st)\<lparr>tf_cancelled := tf_cancelled (timeout_fr st) \<or> tf_initiated (timeout_fr st)\<rparr>\<rparr>))"
    and "issued r' = issued (io_ring fr) @ stream_close_sqes (rc_this st) (st_fd st) @
           (if tf_initiated (timeout_fr st) then [timeout_remove_sqe (rc_this st)] else [])"
proof -
  let ?k = "if tf_initiated (timeout_fr st) then 3 else 2 :: nat" and ?es = "stream_close_sqes (rc_this st) (st_fd st)"
  obtain q where q: "reserve_sqes E ?k (io_ring fr) = (Ret (), q)" "issued q = issued (io_ring fr)" "?k \<le> sq_space_left E q"
    by (rule reserve_sqes_ok [OF assms, of ?k]) auto
  obtain p where p: "put_sqes E ?es q = (Ret (), p)" "issued p = issued q @ ?es" "?k \<le> sq_space_left E p + 2"
  proof -
    obtain a b where es: "?es = [a, b]" by (simp add: stream_close_sqes_def)
    obtain q1 where q1: "put_sqe E a q = (Ret (), q1)" "issued q1 = issued q @ [a]" "sq_space_left E q1 = sq_space_left E q - 1"
      by (rule put_sqe_ok [OF assms, of q a]) (use q in \<open>auto split: if_splits\<close>)
    obtain q2 where "put_sqe E b q1 = (Ret (), q2)" "issued q2 = issued q1 @ [b]" "sq_space_left E q2 = sq_space_left E q1 - 1"
      by (rule put_sqe_ok [OF assms, of q1 b]) (use q q1 in \<open>auto split: if_splits\<close>)
    then show ?thesis using that q1 q(3) es by (simp add: op_simps)
  qed
  show ?thesis
  proof (cases "tf_initiated (timeout_fr st)")
    case False
    then show ?thesis using that [of p] q p by (simp add: stream_close_await_suspend_def op_simps)
  next
    case True
    obtain r' where r': "queue_timer_cancel E (fr\<lparr>io_ring := p\<rparr>, st\<lparr>st_cancelled := True\<rparr>) =
        (Ret (), (fr\<lparr>io_ring := p, io_ring := r'\<rparr>,
          st\<lparr>st_cancelled := True, timeout_fr := (timeout_fr st)\<lparr>tf_cancelled := True\<rparr>\<rparr>))"
        "issued r' = issued p @ [timeout_remove_sqe (rc_this st)]"
      using queue_timer_cancel_ok [OF assms, of "st\<lparr>st_cancelled := True\<rparr>" "fr\<lparr>io_ring := p\<rparr>"] p(3) True by auto
    with True show ?thesis using that [of r'] q p by (simp add: stream_close_await_suspend_def op_simps)
  qed
qed

lemma schedule_recv_ok:
  assumes "uring_laws E issued n"
  obtains r' where "schedule_recv E now (fr, st) =
      (Ret (), (fr\<lparr>io_ring := r'\<rparr>, st\<lparr>rc_count := rc_count st + 1,
        recv_fr := (recv_fr st)\<lparr>rf_initiated := True, rf_last_recv := now\<rparr>\<rparr>))"
    and "issued r' = issued (io_ring fr) @ [recv_sqe (rc_this st) (st_fd st) (rf_buffer_group_id (recv_fr st))]"
  by (rule on_issue_one [OF assms, of "recv_sqe (rc_this st) (st_fd st) (rf_buffer_group_id (recv_fr st))" fr st])
    (use that in \<open>simp add: schedule_recv_def op_simps\<close>)

lemma timeout_rearm_ok:
  assumes "uring_laws E issued n"
  obtains r' where "timeout_rearm E (fr, st) =
      (Ret (), (fr\<lparr>io_ring := r'\<rparr>, st\<lparr>timeout_fr := (timeout_fr st)\<lparr>tf_initiated := True\<rparr>\<rparr>))"
    and "issued r' = issued (io_ring fr) @ [timeout_sqe (rc_this st)]"
  by (rule on_issue_one [OF assms, of "timeout_sqe (rc_this st)" fr st])
    (use that in \<open>simp add: timeout_rearm_def op_simps\<close>)

lemma timeout_cancel_start_ok:
  assumes "uring_laws E issued n" and "0 \<le> st_fd st"
  obtains r' where "timeout_cancel_start E (fr, st) =
      (Ret (), (fr\<lparr>io_ring := r'\<rparr>, st\<lparr>rc_count := rc_count st + 1,
         timeout_cancel_fr := (timeout_cancel_fr st)\<lparr>tcf_initiated := True\<rparr>\<rparr>))"
    and "issued r' = issued (io_ring fr) @ [cancel_fd_sqe (st_fd st) [] (UD (rc_this st) F_timeout_cancel)]"
  by (rule on_issue_one [OF assms(1), of "cancel_fd_sqe (st_fd st) [] (UD (rc_this st) F_timeout_cancel)" fr st])
    (use that assms(2) in \<open>simp add: timeout_cancel_start_def op_simps\<close>)

text \<open>The completions of the receive operation: an error, the end of the stream, data.\<close>

lemma recv_process_neg:
  assumes "cqe_res c < 0" and "\<not> cqe_f_more c" and "rf_ec (recv_fr st) = None"
  shows "recv_process now c (fr, st) =
    (Ret (), (fr, st\<lparr>recv_fr := (recv_fr st)\<lparr>rf_ec :=
       Some (if cqe_res c = - ECANCELED \<and> \<not> st_cancelled st then ETIMEDOUT else - cqe_res c), rf_initiated := False\<rparr>\<rparr>))"
  using assms by (simp add: recv_process_def recv_process_error_def op_simps)

lemma recv_process_zero:
  assumes "cqe_res c = 0" and "\<not> cqe_f_more c" and "\<not> cqe_f_buffer c"
  shows "recv_process now c (fr, st) =
    (Ret (), (fr, st\<lparr>recv_fr := (recv_fr st)\<lparr>rf_buffers := rf_buffers (recv_fr st) @ [rb_new (\<lambda>_. 0) 0],
       rf_initiated := False\<rparr>\<rparr>))"
  using assms by (simp add: recv_process_def recv_process_eof_def recv_push_def op_simps)

lemma recv_process_pos:
  assumes "cqe_res c > 0" and "cqe_f_buffer c" and "rf_p_buf_ring (recv_fr st) = Some g" and "buf_rings fr g = Some br"
    and "take_buffer (cqe_buffer_id c) (nat (cqe_res c)) br = (Ret b, br')"
  shows "recv_process now c (fr, st) =
    (Ret (), (fr\<lparr>buf_rings := (buf_rings fr)(g \<mapsto> br')\<rparr>,
       st\<lparr>rc_count := rc_count st + of_bool (cqe_f_more c), recv_fr := (recv_fr st)\<lparr>rf_last_recv := now,
          rf_buffers := rf_buffers (recv_fr st) @ [b], rf_initiated := cqe_f_more c\<rparr>\<rparr>))"
  using assms by (simp add: recv_process_def recv_process_data_def recv_push_def on_group_def op_simps)

subsection \<open>The invariant of a stream\<close>

definition op_frame_wf :: "'a op_frame_scheme \<Rightarrow> bool" where
  "op_frame_wf f = (of_done f \<longrightarrow> of_initiated f)"

definition frames_wf :: "'a stream_impl_scheme \<Rightarrow> bool" where
  "frames_wf st = (op_frame_wf (cancel_fr st) \<and> op_frame_wf (close_fr st) \<and> op_frame_wf (shutdown_fr st) \<and>
     op_frame_wf (send_fr st))"

text \<open>
  A pending error means that the receive operation has ended; an operation in flight uses the
  ring of the buffer group of the stream, and that group exists.
\<close>

definition recv_frame_wf :: "'r io_context_frame \<Rightarrow> recv_frame \<Rightarrow> bool" where
  "recv_frame_wf fr rf =
     ((rf_ec rf \<noteq> None \<longrightarrow> \<not> rf_initiated rf) \<and>
      (rf_buffer_group_id rf = - 1 \<or> (\<exists>g :: u16. rf_buffer_group_id rf = uint g \<and> buf_rings fr g \<noteq> None)) \<and>
      (rf_buffer_group_id rf = - 1 \<longrightarrow> rf_buffers rf = []) \<and>
      (rf_initiated rf \<longrightarrow> (\<exists>g :: u16. rf_p_buf_ring rf = Some g \<and> rf_buffer_group_id rf = uint g)))"

definition fd_wf :: "'r io_context_frame \<Rightarrow> 'a stream_impl_scheme \<Rightarrow> bool" where
  "fd_wf fr st = (st_fd st = - 1 \<or> owned_fd_ok fr (st_fd st))"

definition stream_inv :: "'r io_context_frame \<Rightarrow> 'a stream_impl_scheme \<Rightarrow> bool" where
  "stream_inv fr st = (frames_wf st \<and> recv_frame_wf fr (recv_fr st) \<and> fd_wf fr st \<and> fd_inv fr \<and> groups_inv fr)"

text \<open>The frames whose completion has not been processed, as the \<^verbatim>\<open>is_active\<close> members say.\<close>

definition active_tags :: "'a stream_impl_scheme \<Rightarrow> frame_tag multiset" where
  "active_tags st =
     (if op_frame_active (cancel_fr st) then {#F_cancel#} else {#}) +
     (if tcf_initiated (timeout_cancel_fr st) then {#F_timeout_cancel#} else {#}) +
     (if op_frame_active (close_fr st) then {#F_close#} else {#}) +
     (if op_frame_active (shutdown_fr st) then {#F_shutdown#} else {#}) +
     (if op_frame_active (send_fr st) then {#F_send#} else {#}) +
     (if rf_initiated (recv_fr st) then {#F_recv#} else {#}) +
     (if tf_initiated (timeout_fr st) then {#F_timeout#} else {#})"

lemma count_active_size: "count_active st = int (size (active_tags st))"
  by (simp add: count_active_def active_tags_def)

text \<open>The descriptor of a stream, when it has one.\<close>

definition stream_owned :: "'a stream_impl_scheme \<Rightarrow> int set" where
  "stream_owned st = {st_fd st} - {- 1}"

lemma stream_owned_simps [simp]:
  "stream_owned (st\<lparr>rc_count := k\<rparr>) = stream_owned st"
  "stream_owned (st\<lparr>timeout_fr := tf\<rparr>) = stream_owned st"
  "stream_owned (st\<lparr>st_fd := - 1\<rparr>) = {}"
  by (simp_all add: stream_owned_def)

text \<open>
  What one transition must do: \<open>ts\<close> are the frames of the newly issued entries, which all belong to the
  stream, \<open>fin\<close> the frame whose completion is consumed, \<open>k\<close> the references added. The fields of a derived
  class stay, and the stream's descriptor and the pool change hands only with each other.
\<close>

definition stream_delta ::
  "('r \<Rightarrow> sqe list) \<Rightarrow> ('r, 'a) stream_state \<Rightarrow> ('r, 'a) stream_state \<Rightarrow> int \<Rightarrow> frame_tag multiset \<Rightarrow>
     frame_tag multiset \<Rightarrow> bool" where
  "stream_delta issued s s' k fin ts =
     ((\<exists>es. issued (io_ring (fst s')) = issued (io_ring (fst s)) @ es \<and> own_tags (rc_this (snd s)) es = ts \<and>
         own_entries (rc_this (snd s)) es) \<and>
      rc_this (snd s') = rc_this (snd s) \<and> rc_count (snd s') = rc_count (snd s) + k \<and>
      active_tags (snd s') + fin = active_tags (snd s) + ts \<and> stream_inv (fst s') (snd s') \<and>
      stream_impl.more (snd s') = stream_impl.more (snd s) \<and>
      frame_moves (stream_owned (snd s)) (fst s) (stream_owned (snd s')) (fst s') {})"

lemma stream_deltaI:
  assumes "issued (io_ring fr') = issued (io_ring fr) @ es" and "own_tags (rc_this st) es = ts"
    and "rc_this st' = rc_this st" and "rc_count st' = rc_count st + k"
    and "active_tags st' + fin = active_tags st + ts" and "stream_inv fr' st'"
    and "own_entries (rc_this st) es" and "stream_impl.more st' = stream_impl.more st"
    and "frame_moves (stream_owned st) fr (stream_owned st') fr' {}"
  shows "stream_delta issued (fr, st) (fr', st') k fin ts"
  using assms by (auto simp: stream_delta_def)

text \<open>A step that keeps the descriptor and the pool.\<close>

lemma stream_stays:
  assumes "stream_inv fr' st'" and "st_fd st' = st_fd st" and "fds fr' = fds fr" and "groups_kept fr fr'" and "sched fr' = sched fr"
  shows "frame_moves (stream_owned st) fr (stream_owned st') fr' {}"
  using assms by (auto simp: frame_moves_def frame_ok_def stream_owned_def stream_inv_def fd_wf_def owned_fd_ok_def)

lemmas active_defs = active_tags_def op_frame_defs

lemma sqe_data_simps [simp]:
  "sqe_data (timeout_sqe p) = UD p F_timeout" "sqe_data (timeout_remove_sqe p) = UD_null"
  "sqe_data (recv_sqe p fd g) = UD p F_recv" "sqe_data (cancel_fd_sqe fd fl ud) = ud"
  "sqe_data (shutdown_sqe p fd h) = UD p F_shutdown" "sqe_data (send_sqe p fd b) = UD p F_send"
  "sqe_data (cancel_sqe ud) = UD_null" "sqe_data (close_sqe fd) = UD_null"
  by (simp_all add: timeout_sqe_def timeout_remove_sqe_def recv_sqe_def cancel_fd_sqe_def shutdown_sqe_def
      send_sqe_def cancel_sqe_def close_sqe_def)

lemma own_close_sqes [simp]: "own_tags p (stream_close_sqes p fd) = {#F_close#}" "own_entries p (stream_close_sqes p fd)"
  by (simp_all add: stream_close_sqes_def)

lemma stream_inv_ring [simp]:
  "stream_inv (fr\<lparr>io_ring := r\<rparr>) st = stream_inv fr st"
  by (simp add: stream_inv_def recv_frame_wf_def fd_wf_def owned_fd_ok_def fd_inv_def groups_inv_def)

lemma recv_frame_wf_ring [simp]: "recv_frame_wf (fr\<lparr>io_ring := r\<rparr>) rf = recv_frame_wf fr rf"
  "recv_frame_wf (fr\<lparr>fds := f\<rparr>) rf = recv_frame_wf fr rf"
  by (simp_all add: recv_frame_wf_def)

lemma group_key_simps [simp]:
  "(of_nat (group_key_unsigned (uint (g :: u16))) :: u16) = g"
  "(of_nat (group_key_size_t (uint (g :: u16))) :: u16) = g"
  unfolding group_key_unsigned_def group_key_size_t_def by (simp, rule bit_word_eqI, simp add: bit_simps)+

lemma stream_inv_count [simp]: "stream_inv fr (st\<lparr>rc_count := k\<rparr>) = stream_inv fr st"
  by (simp add: stream_inv_def fd_wf_def frames_wf_def)

end
