(* ===== verification/Stream_Life.thy ===== *)
theory Stream_Life
  imports Stream
begin

section \<open>The life of a stream: calls, completions and the reference count\<close>

text \<open>
  The calls that a program makes on a stream and the completions that the run loop delivers, as a
  state machine. A call is made through one of the \<open>ext\<close> pointers that exist outside the runtime
  (\<^verbatim>\<open>stream\<close> objects and awaitables); \<open>pend\<close> is the multiset of frames for which an entry has been
  issued and whose final completion has not arrived. The run loop adopts one reference per
  completion and releases it after the frame has processed it. Other objects may change the shared
  frame in between (\<open>rely\<close>).
\<close>

subsection \<open>Calls\<close>

datatype stream_call =
    Call_send int "u8 list" handle | Call_send_resume | Call_send_dtor
  | Call_cancel handle | Call_cancel_resume
  | Call_close handle | Call_close_resume
  | Call_shutdown int handle | Call_shutdown_resume
  | Call_recv int handle | Call_recv_resume
  | Call_timeout timespec | Call_set_buffer_group u16

definition ignoreM :: "('s, 'a) op \<Rightarrow> ('s, unit) op" where
  "ignoreM m = bindM m (\<lambda>_. retM ())"

lemma ignoreM_Ret [op_simps]: "m s = (Ret x, s') \<Longrightarrow> ignoreM m s = (Ret (), s')"
  by (simp add: ignoreM_def op_simps)

lemma ignoreM_Throw [op_simps]: "m s = (Throw e, s') \<Longrightarrow> ignoreM m s = (Throw e, s')"
  by (simp add: ignoreM_def op_simps)

definition exec_call :: "'r platform \<Rightarrow> (nat \<Rightarrow> u8) \<Rightarrow> stream_call \<Rightarrow> (('r, 'a) stream_state, unit) op" where
  "exec_call E junk c =
     (case c of
        Call_send now buf h \<Rightarrow> send_await_suspend E now buf h
      | Call_send_resume \<Rightarrow> ignoreM send_await_resume
      | Call_send_dtor \<Rightarrow> send_awaitable_dtor E
      | Call_cancel h \<Rightarrow> stream_cancel_await_suspend E h
      | Call_cancel_resume \<Rightarrow> ignoreM stream_cancel_await_resume
      | Call_close h \<Rightarrow> stream_close_await_suspend E h
      | Call_close_resume \<Rightarrow> ignoreM stream_close_await_resume
      | Call_shutdown how h \<Rightarrow> thenM (async_shutdown how) (shutdown_await_suspend E h)
      | Call_shutdown_resume \<Rightarrow> ignoreM shutdown_await_resume
      | Call_recv now h \<Rightarrow> ignoreM (recv_await_suspend E now h)
      | Call_recv_resume \<Rightarrow> ignoreM (recv_await_resume E junk)
      | Call_timeout ts \<Rightarrow> stream_timeout E ts
      | Call_set_buffer_group g \<Rightarrow> set_buffer_group g)"

text \<open>
  When the program may make a call: an operation without a busy guard is not started twice, the
  awaitables resume only after the completion, and \<^verbatim>\<open>co_await\<close> calls \<^verbatim>\<open>await_suspend\<close> of a receive
  only if it is not ready.
\<close>

definition call_ok :: "stream_call \<Rightarrow> 'a stream_impl_scheme \<Rightarrow> bool" where
  "call_ok c st =
     (case c of
        Call_send_resume \<Rightarrow> \<not> op_frame_active (send_fr st)
      | Call_cancel h \<Rightarrow> st_fd st \<noteq> - 1 \<and> \<not> of_initiated (cancel_fr st)
      | Call_cancel_resume \<Rightarrow> \<not> op_frame_active (cancel_fr st)
      | Call_close h \<Rightarrow> \<not> of_initiated (close_fr st)
      | Call_close_resume \<Rightarrow> \<not> op_frame_active (close_fr st)
      | Call_shutdown how h \<Rightarrow> st_fd st \<noteq> - 1 \<and> \<not> of_initiated (shutdown_fr st)
      | Call_shutdown_resume \<Rightarrow> \<not> op_frame_active (shutdown_fr st)
      | Call_recv now h \<Rightarrow> rf_buffers (recv_fr st) = []
      | Call_recv_resume \<Rightarrow> rf_buffers (recv_fr st) \<noteq> [] \<or> rf_ec (recv_fr st) \<noteq> None
      | _ \<Rightarrow> True)"

text \<open>A call that returns or throws one of the documented errors, with a proper \<open>stream_delta\<close>.\<close>

definition call_safe ::
  "('r \<Rightarrow> sqe list) \<Rightarrow> ('r, 'a) stream_state \<Rightarrow> unit outcome \<times> ('r, 'a) stream_state \<Rightarrow> bool" where
  "call_safe issued s res =
     (fst res \<in> {Ret (), Throw EBUSY, Throw EINVAL} \<and>
      (\<exists>ts. stream_delta issued s (snd res) (int (size ts)) {#} ts))"

lemma call_safeI:
  assumes "res = (x, (fr', st'))" and "x \<in> {Ret (), Throw EBUSY, Throw EINVAL}"
    and "issued (io_ring fr') = issued (io_ring fr) @ es"
    and "rc_this st' = rc_this st" and "rc_count st' = rc_count st + int (size (own_tags (rc_this st) es))"
    and "active_tags st' = active_tags st + own_tags (rc_this st) es" and "stream_inv fr' st'"
    and "own_entries (rc_this st) es" and "stream_impl.more st' = stream_impl.more st"
    and "st_fd st' = st_fd st" and "fds fr' = fds fr" and "groups_kept fr fr'" and "sched fr' = sched fr"
  shows "call_safe issued (fr, st) res"
proof -
  have "stream_delta issued (fr, st) (fr', st') (int (size (own_tags (rc_this st) es))) {#} (own_tags (rc_this st) es)"
    using assms by (intro stream_deltaI stream_stays) auto
  then show ?thesis using assms(1,2) by (auto simp: call_safe_def)
qed

lemma call_safe_ringI:
  assumes "res = (x, (fr\<lparr>io_ring := r'\<rparr>, st'))" and "issued r' = issued (io_ring fr) @ es"
    and "x \<in> {Ret (), Throw EBUSY, Throw EINVAL}"
    and "rc_this st' = rc_this st" and "rc_count st' = rc_count st + int (size (own_tags (rc_this st) es))"
    and "active_tags st' = active_tags st + own_tags (rc_this st) es" and "stream_inv fr st'"
    and "own_entries (rc_this st) es" and "stream_impl.more st' = stream_impl.more st" and "st_fd st' = st_fd st"
  shows "call_safe issued (fr, st) res"
  using assms by (intro call_safeI [OF assms(1), where es = es]) simp_all

lemmas inv_defs = stream_inv_def frames_wf_def op_frame_wf_def fd_wf_def

lemma safe_send:
  assumes laws: "uring_laws E issued n" and inv: "stream_inv fr st"
  shows "call_safe issued (fr, st) (send_await_suspend E now buf h (fr, st))"
proof (cases "of_initiated (send_fr st)")
  case True
  then show ?thesis using inv by (intro call_safeI [where es = "[]"]) (auto simp: send_busy)
next
  case False
  obtain r' where r': "send_await_suspend E now buf h (fr, st) = (Ret (), (fr\<lparr>io_ring := r'\<rparr>,
        st\<lparr>rc_count := rc_count st + 1, send_fr := (op_frame_start h (send_fr st))\<lparr>last_send := now\<rparr>\<rparr>))"
      "issued r' = issued (io_ring fr) @ [send_sqe (rc_this st) (st_fd st) buf]"
    by (rule send_start [OF laws False])
  have "\<not> of_done (send_fr st)" using False inv by (auto simp: inv_defs)
  then show ?thesis
    using r' False inv by (intro call_safe_ringI [OF r'(1,2)]) (simp_all add: active_defs inv_defs)
qed

lemma safe_shutdown:
  assumes laws: "uring_laws E issued n" and inv: "stream_inv fr st" and ok: "st_fd st \<noteq> - 1" "\<not> of_initiated (shutdown_fr st)"
  shows "call_safe issued (fr, st) (thenM (async_shutdown how) (shutdown_await_suspend E h) (fr, st))"
proof -
  let ?st = "st\<lparr>shutdown_fr := (shutdown_fr st)\<lparr>sh_how := how\<rparr>\<rparr>"
  obtain r' where r': "shutdown_await_suspend E h (fr, ?st) = (Ret (), (fr\<lparr>io_ring := r'\<rparr>,
        ?st\<lparr>rc_count := rc_count st + 1, shutdown_fr := op_frame_start h (shutdown_fr ?st)\<rparr>))"
      "issued r' = issued (io_ring fr) @ [shutdown_sqe (rc_this st) (st_fd st) how]"
    using shutdown_start [OF laws, of ?st h fr] ok(1) by auto
  then have call: "thenM (async_shutdown how) (shutdown_await_suspend E h) (fr, st) = (Ret (), (fr\<lparr>io_ring := r'\<rparr>,
        ?st\<lparr>rc_count := rc_count st + 1, shutdown_fr := op_frame_start h (shutdown_fr ?st)\<rparr>))"
    by (simp add: async_shutdown_def op_simps)
  have "\<not> of_done (shutdown_fr st)" using ok inv by (auto simp: inv_defs)
  then show ?thesis
    using r' ok inv by (intro call_safe_ringI [OF call r'(2)]) (simp_all add: active_defs inv_defs)
qed

lemma safe_cancel:
  assumes laws: "uring_laws E issued n" and inv: "stream_inv fr st" and ok: "st_fd st \<noteq> - 1" "\<not> of_initiated (cancel_fr st)"
  shows "call_safe issued (fr, st) (stream_cancel_await_suspend E h (fr, st))"
proof -
  obtain r' where r': "stream_cancel_await_suspend E h (fr, st) = (Ret (), (fr\<lparr>io_ring := r'\<rparr>,
        st\<lparr>rc_count := rc_count st + 1, cancel_fr := op_frame_start h (cancel_fr st), st_cancelled := True\<rparr>))"
      "issued r' = issued (io_ring fr) @ [cancel_fd_sqe (st_fd st) [] (UD (rc_this st) F_cancel)]"
    by (rule cancel_start [OF laws ok(1)])
  have "\<not> of_done (cancel_fr st)" using ok inv by (auto simp: inv_defs)
  then show ?thesis
    using r' ok inv by (intro call_safe_ringI [OF r'(1,2)]) (simp_all add: active_defs inv_defs)
qed

lemma safe_close:
  assumes laws: "uring_laws E issued n" and inv: "stream_inv fr st" and ok: "\<not> of_initiated (close_fr st)"
  shows "call_safe issued (fr, st) (stream_close_await_suspend E h (fr, st))"
proof -
  obtain r' where r': "stream_close_await_suspend E h (fr, st) = (Ret (), (fr\<lparr>io_ring := r'\<rparr>,
        st\<lparr>rc_count := rc_count st + 1, close_fr := op_frame_start h (close_fr st), st_cancelled := True,
           timeout_fr := (timeout_fr st)\<lparr>tf_cancelled := tf_cancelled (timeout_fr st) \<or> tf_initiated (timeout_fr st)\<rparr>\<rparr>))"
      "issued r' = issued (io_ring fr) @ stream_close_sqes (rc_this st) (st_fd st) @
           (if tf_initiated (timeout_fr st) then [timeout_remove_sqe (rc_this st)] else [])"
    by (rule close_start [OF laws])
  have "\<not> of_done (close_fr st)" using ok inv by (auto simp: inv_defs)
  then show ?thesis
    using r' ok inv by (intro call_safe_ringI [OF r'(1,2)]) (simp_all add: active_defs inv_defs)
qed

lemma safe_cancel_in_flight:
  assumes laws: "uring_laws E issued n" and inv: "stream_inv fr st"
  shows "call_safe issued (fr, st) (cancel_in_flight E ud (fr, st))"
proof -
  obtain r' where r': "cancel_in_flight E ud (fr, st) = (Ret (), (fr\<lparr>io_ring := r'\<rparr>, st))"
      "issued r' = issued (io_ring fr) @ [cancel_sqe ud]"
    by (rule cancel_in_flight_ok [OF laws])
  show ?thesis using r' inv by (intro call_safe_ringI [OF r'(1,2)]) auto
qed

lemma safe_timeout:
  assumes laws: "uring_laws E issued n" and inv: "stream_inv fr st"
  shows "call_safe issued (fr, st) (stream_timeout E ts (fr, st))"
proof -
  let ?st = "st\<lparr>st_ts := ts\<rparr>"
  obtain r' where r': "on_ring (issue_one E (timeout_remove_sqe (rc_this st))) (fr, ?st) = (Ret (), (fr\<lparr>io_ring := r'\<rparr>, ?st))"
      "issued r' = issued (io_ring fr) @ [timeout_remove_sqe (rc_this st)]"
    by (rule on_issue_one [OF laws])
  then have call: "stream_timeout E ts (fr, st) = (Ret (), (fr\<lparr>io_ring := r'\<rparr>, ?st))"
    by (simp add: stream_timeout_def op_simps)
  show ?thesis using r' inv by (intro call_safe_ringI [OF call r'(2)]) (simp_all add: active_defs inv_defs)
qed

lemma safe_resumes:
  assumes inv: "stream_inv fr st"
  shows "\<not> op_frame_active (send_fr st) \<Longrightarrow> call_safe issued (fr, st) (ignoreM send_await_resume (fr, st))"
    and "\<not> op_frame_active (cancel_fr st) \<Longrightarrow> call_safe issued (fr, st) (ignoreM stream_cancel_await_resume (fr, st))"
    and "\<not> op_frame_active (close_fr st) \<Longrightarrow> call_safe issued (fr, st) (ignoreM stream_close_await_resume (fr, st))"
    and "\<not> op_frame_active (shutdown_fr st) \<Longrightarrow> call_safe issued (fr, st) (ignoreM shutdown_await_resume (fr, st))"
proof -
  assume na: "\<not> op_frame_active (send_fr st)"
  have call: "ignoreM send_await_resume (fr, st) = (Ret (), (fr, st\<lparr>send_fr := op_frame_reset (send_fr st)\<rparr>))"
    by (rule ignoreM_Ret) (simp add: send_await_resume_def)
  show "call_safe issued (fr, st) (ignoreM send_await_resume (fr, st))"
    using na inv by (intro call_safeI [OF call, where es = "[]"]) (simp_all add: active_defs inv_defs)
next
  assume na: "\<not> op_frame_active (cancel_fr st)"
  have call: "ignoreM stream_cancel_await_resume (fr, st) = (Ret (), (fr, st\<lparr>cancel_fr := op_frame_reset (cancel_fr st)\<rparr>))"
    by (rule ignoreM_Ret) (simp add: stream_cancel_await_resume_def)
  show "call_safe issued (fr, st) (ignoreM stream_cancel_await_resume (fr, st))"
    using na inv by (intro call_safeI [OF call, where es = "[]"]) (simp_all add: active_defs inv_defs)
next
  assume na: "\<not> op_frame_active (close_fr st)"
  have call: "ignoreM stream_close_await_resume (fr, st) = (Ret (), (fr, st\<lparr>close_fr := op_frame_reset (close_fr st)\<rparr>))"
    by (rule ignoreM_Ret) (simp add: stream_close_await_resume_def)
  show "call_safe issued (fr, st) (ignoreM stream_close_await_resume (fr, st))"
    using na inv by (intro call_safeI [OF call, where es = "[]"]) (simp_all add: active_defs inv_defs)
next
  assume na: "\<not> op_frame_active (shutdown_fr st)"
  have call: "ignoreM shutdown_await_resume (fr, st) =
      (Ret (), (fr, st\<lparr>shutdown_fr := (op_frame_reset (shutdown_fr st))\<lparr>sh_how := 0\<rparr>\<rparr>))"
    by (rule ignoreM_Ret) (simp add: shutdown_await_resume_def)
  show "call_safe issued (fr, st) (ignoreM shutdown_await_resume (fr, st))"
    using na inv by (intro call_safeI [OF call, where es = "[]"]) (simp_all add: active_defs inv_defs)
qed

lemma safe_recv:
  assumes laws: "uring_laws E issued n" and inv: "stream_inv fr st" and ok: "rf_buffers (recv_fr st) = []"
  shows "call_safe issued (fr, st) (ignoreM (recv_await_suspend E now h) (fr, st))"
proof -
  let ?st = "st\<lparr>recv_fr := (recv_fr st)\<lparr>rf_h := Some h\<rparr>\<rparr>"
  consider (ec) "rf_ec (recv_fr st) \<noteq> None" | (init) "rf_ec (recv_fr st) = None" "rf_initiated (recv_fr st)"
    | (none) "rf_ec (recv_fr st) = None" "\<not> rf_initiated (recv_fr st)" "rf_buffer_group_id (recv_fr st) = - 1"
    | (go) "rf_ec (recv_fr st) = None" "\<not> rf_initiated (recv_fr st)" "rf_buffer_group_id (recv_fr st) \<noteq> - 1"
    by blast
  then show ?thesis
  proof cases
    case ec
    then have call: "ignoreM (recv_await_suspend E now h) (fr, st) = (Ret (), (fr, ?st))"
      using ok by (intro ignoreM_Ret [where x = False]) (simp add: recv_await_suspend_def Let_def op_simps)
    show ?thesis using inv by (intro call_safeI [OF call, where es = "[]"]) (simp_all add: active_defs inv_defs recv_frame_wf_def)
  next
    case init
    then have call: "ignoreM (recv_await_suspend E now h) (fr, st) = (Ret (), (fr, ?st))"
      using ok by (intro ignoreM_Ret [where x = True]) (simp add: recv_await_suspend_def Let_def op_simps)
    show ?thesis using inv by (intro call_safeI [OF call, where es = "[]"]) (simp_all add: active_defs inv_defs recv_frame_wf_def)
  next
    case none
    then have call: "ignoreM (recv_await_suspend E now h) (fr, st) = (Throw EINVAL, (fr, ?st))"
      by (intro ignoreM_Throw) (simp add: recv_await_suspend_def Let_def op_simps)
    show ?thesis using inv by (intro call_safeI [OF call, where es = "[]"]) (simp_all add: active_defs inv_defs recv_frame_wf_def)
  next
    case go
    obtain g :: u16 and br where g: "rf_buffer_group_id (recv_fr st) = uint g" "buf_rings fr g = Some br" "br_bgid br = g"
      using go inv by (auto simp: stream_inv_def recv_frame_wf_def groups_inv_def)
    let ?st1 = "?st\<lparr>recv_fr := (recv_fr ?st)\<lparr>rf_p_buf_ring := Some g\<rparr>\<rparr>"
    obtain r' where r': "schedule_recv E now (fr, ?st1) = (Ret (), (fr\<lparr>io_ring := r'\<rparr>, ?st1\<lparr>rc_count := rc_count st + 1,
          recv_fr := (recv_fr ?st1)\<lparr>rf_initiated := True, rf_last_recv := now\<rparr>\<rparr>))"
        "issued r' = issued (io_ring fr) @ [recv_sqe (rc_this st) (st_fd st) (uint g)]"
      using schedule_recv_ok [OF laws, of now fr ?st1] g(1) by auto
    have call: "ignoreM (recv_await_suspend E now h) (fr, st) = (Ret (), (fr\<lparr>io_ring := r'\<rparr>,
        ?st1\<lparr>rc_count := rc_count st + 1, recv_fr := (recv_fr ?st1)\<lparr>rf_initiated := True, rf_last_recv := now\<rparr>\<rparr>))"
      using go r'(1) g by (intro ignoreM_Ret [where x = True])
        (simp add: recv_await_suspend_def Let_def op_simps get_buffer_group_def)
    show ?thesis
      using r'(2) go g inv by (intro call_safe_ringI [OF call r'(2)]) (simp_all add: active_defs inv_defs recv_frame_wf_def)
  qed
qed

lemma uint_not_minus_one [simp]: "uint (g :: u16) \<noteq> - 1" "- 1 \<noteq> uint (g :: u16)"
  using unsigned_greater_eq [of g, where ?'a = int] by linarith+

lemma groups_inv_upd:
  "groups_inv fr \<Longrightarrow> ring_inv br \<Longrightarrow> 0 < br_buf_size br \<Longrightarrow> br_bgid br = g \<Longrightarrow>
     groups_inv (fr\<lparr>buf_rings := (buf_rings fr)(g \<mapsto> br)\<rparr>)"
  by (simp add: groups_inv_def)

lemma recv_frame_wf_upd:
  "recv_frame_wf fr rf \<Longrightarrow> recv_frame_wf (fr\<lparr>buf_rings := (buf_rings fr)(g \<mapsto> br)\<rparr>) rf"
  by (auto simp: recv_frame_wf_def)

lemma issued_replenish_loop:
  assumes laws: "uring_laws E issued n"
  shows "issued (fst (snd (replenish_loop E junk bs len (r, br)))) = issued r"
proof (induction bs arbitrary: len r br)
  case (Cons b bs)
  have fill: "issued (fst (snd (fill_slot E i c off (r, br)))) = issued r" for i c off r br
    by (simp add: fill_slot_def uring_buf_ring [OF laws])
  show ?case
    using Cons.IH fill
    by (auto simp: bindM_def thenM_def pop_id_def fill_slot_def Let_def uring_buf_ring [OF laws]
        split: outcome.splits prod.splits)
qed simp

lemma issued_replenish:
  assumes laws: "uring_laws E issued n" and "replenish E junk bs (r, br) = (Ret (), (r', br'))"
  shows "issued r' = issued r"
proof -
  obtain m q b where l: "replenish_loop E junk bs 0 (r, br) = (Ret m, (q, b))"
    using assms(2) unfolding replenish_def by (auto elim: bindM_RetE)
  then have "issued q = issued r" using issued_replenish_loop [OF laws, of junk bs 0 r br] by simp
  then show ?thesis
    using assms(2) l uring_buf_ring [OF laws]
    by (auto simp: replenish_def bindM_def ring_advance_def retM_def split: if_splits)
qed

lemma safe_recv_resume:
  assumes laws: "uring_laws E issued n" and inv: "stream_inv fr st"
    and ok: "rf_buffers (recv_fr st) \<noteq> [] \<or> rf_ec (recv_fr st) \<noteq> None"
  shows "call_safe issued (fr, st) (ignoreM (recv_await_resume E junk) (fr, st))"
proof -
  let ?bs = "rf_buffers (recv_fr st)" and ?st = "st\<lparr>recv_fr := (recv_fr st)\<lparr>rf_buffers := []\<rparr>\<rparr>"
  consider (ec) "?bs = []" | (eof) "?bs \<noteq> []" "rb_size (hd ?bs) = 0" | (data) "?bs \<noteq> []" "rb_size (hd ?bs) \<noteq> 0" by blast
  then show ?thesis
  proof cases
    case ec
    then have call: "ignoreM (recv_await_resume E junk) (fr, st) = (Ret (), (fr, st\<lparr>recv_fr := (recv_fr st)\<lparr>rf_ec := None\<rparr>\<rparr>))"
      using ok by (intro ignoreM_Ret) (simp add: recv_await_resume_def Let_def op_simps)
    show ?thesis
      using inv by (intro call_safeI [OF call, where es = "[]"]) (simp_all add: active_defs inv_defs recv_frame_wf_def)
  next
    case eof
    then have call: "ignoreM (recv_await_resume E junk) (fr, st) = (Ret (), (fr, ?st))"
      using ok by (intro ignoreM_Ret) (simp add: recv_await_resume_def Let_def op_simps)
    show ?thesis
      using inv by (intro call_safeI [OF call, where es = "[]"]) (simp_all add: active_defs inv_defs recv_frame_wf_def)
  next
    case data
    obtain g :: u16 and br where g: "rf_buffer_group_id (recv_fr st) = uint g" "buf_rings fr g = Some br"
        "ring_inv br" "0 < br_buf_size br" "br_bgid br = g"
      using data inv by (auto simp: stream_inv_def recv_frame_wf_def groups_inv_def)
    obtain r' br' where rep: "replenish E junk ?bs (io_ring fr, br) = (Ret (), (r', br'))" "ring_inv br'"
        "br_buf_size br' = br_buf_size br" "br_bgid br' = br_bgid br"
      using replenish_ok [OF g(3,4), of E junk ?bs "io_ring fr"] by blast
    let ?fr = "fr\<lparr>io_ring := r', buf_rings := (buf_rings fr)(g \<mapsto> br')\<rparr>"
    have call: "ignoreM (recv_await_resume E junk) (fr, st) = (Ret (), (?fr, ?st))"
      using data rep(1) g by (intro ignoreM_Ret)
        (simp add: recv_await_resume_def on_ring_group_def get_buffer_group_def Let_def op_simps)
    have "groups_inv (fr\<lparr>io_ring := r', buf_rings := (buf_rings (fr\<lparr>io_ring := r'\<rparr>))(g \<mapsto> br')\<rparr>)"
      using inv rep g by (intro groups_inv_upd) (simp_all add: stream_inv_def)
    moreover have "recv_frame_wf (fr\<lparr>io_ring := r', buf_rings := (buf_rings (fr\<lparr>io_ring := r'\<rparr>))(g \<mapsto> br')\<rparr>)
        ((recv_fr st)\<lparr>rf_buffers := []\<rparr>)"
      using inv by (intro recv_frame_wf_upd) (simp add: stream_inv_def recv_frame_wf_def)
    ultimately have "stream_inv ?fr ?st" using inv by (simp add: inv_defs)
    then show ?thesis
      using issued_replenish [OF laws rep(1)]
      by (intro call_safeI [OF call, where es = "[]"]) (simp_all add: active_defs)
  qed
qed

lemma safe_set_buffer_group:
  assumes inv: "stream_inv fr st"
  shows "call_safe issued (fr, st) (set_buffer_group g (fr, st))"
proof -
  let ?st = "st\<lparr>recv_fr := (recv_fr st)\<lparr>rf_buffer_group_id := uint g\<rparr>\<rparr>"
  consider (busy) "rf_initiated (recv_fr st)" | (none) "\<not> rf_initiated (recv_fr st)" "buf_rings fr g = None"
    | (go) br where "\<not> rf_initiated (recv_fr st)" "buf_rings fr g = Some br"
    by (cases "buf_rings fr g") auto
  then show ?thesis
  proof cases
    case busy
    then have call: "set_buffer_group g (fr, st) = (Throw EBUSY, (fr, st))" by (simp add: set_buffer_group_def op_simps)
    show ?thesis using inv by (intro call_safeI [OF call, where es = "[]"]) simp_all
  next
    case none
    then have call: "set_buffer_group g (fr, st) = (Throw EINVAL, (fr, st))"
      by (simp add: set_buffer_group_def get_buffer_group_def op_simps)
    show ?thesis using inv by (intro call_safeI [OF call, where es = "[]"]) simp_all
  next
    case go
    then have call: "set_buffer_group g (fr, st) = (Ret (), (fr, ?st))"
      by (simp add: set_buffer_group_def get_buffer_group_def op_simps)
    have "recv_frame_wf fr ((recv_fr st)\<lparr>rf_buffer_group_id := uint g\<rparr>)"
      using go inv by (auto simp: stream_inv_def recv_frame_wf_def)
    then show ?thesis using inv by (intro call_safeI [OF call, where es = "[]"]) (simp_all add: active_defs inv_defs)
  qed
qed

lemma safe_send_dtor:
  assumes laws: "uring_laws E issued n" and inv: "stream_inv fr st"
  shows "call_safe issued (fr, st) (send_awaitable_dtor E (fr, st))"
proof (cases "of_initiated (send_fr st) \<and> \<not> of_done (send_fr st)")
  case True
  then show ?thesis
    using safe_cancel_in_flight [OF laws inv] by (simp add: send_awaitable_dtor_def op_simps)
next
  case False
  then have call: "send_awaitable_dtor E (fr, st) = (Ret (), (fr, st))"
    by (auto simp: send_awaitable_dtor_def op_simps)
  show ?thesis using inv by (intro call_safeI [OF call, where es = "[]"]) simp_all
qed

text \<open>Every call that the program may make is safe.\<close>

lemma exec_call_safe:
  assumes "uring_laws E issued n" and "stream_inv fr st" and "call_ok c st"
  shows "call_safe issued (fr, st) (exec_call E junk c (fr, st))"
  using assms
  by (cases c) (simp_all add: exec_call_def call_ok_def safe_send safe_resumes safe_send_dtor safe_cancel safe_close
      safe_shutdown safe_recv safe_recv_resume safe_timeout safe_set_buffer_group del: thenM_apply)

subsection \<open>Completions\<close>

text \<open>
  What the kernel may deliver to a frame that is waiting: a receive completion without data ends
  the operation, one with data names a slot of the ring that holds a buffer; a timeout completion
  is a tick or a cancellation. The last condition on a tick excludes a second cancellation of the
  operations on a descriptor while the first has not completed, and a tick for a stream whose
  descriptor has just been closed.
\<close>

definition cqe_ok :: "int \<Rightarrow> frame_tag \<Rightarrow> cqe \<Rightarrow> ('r, 'a) stream_state \<Rightarrow> bool" where
  "cqe_ok now t c s = (case s of (fr, st) \<Rightarrow>
     (case t of
        F_recv \<Rightarrow>
          (cqe_res c \<le> 0 \<longrightarrow> \<not> cqe_f_more c) \<and> (cqe_res c = 0 \<longrightarrow> \<not> cqe_f_buffer c) \<and>
          (cqe_res c > 0 \<longrightarrow> cqe_f_buffer c \<and>
             (\<exists>g br b. rf_p_buf_ring (recv_fr st) = Some g \<and> buf_rings fr g = Some br \<and>
                cqe_buffer_id c < length (br_bufs br) \<and> br_bufs br ! cqe_buffer_id c = Some b))
      | F_timeout \<Rightarrow>
          (cqe_res c = - ECANCELED \<and> \<not> cqe_f_more c) \<or>
          ((cqe_res c = - ETIME \<or> cqe_res c = 0) \<and>
             (should_cancel now st \<longrightarrow> 0 \<le> st_fd st \<and> \<not> tcf_initiated (timeout_cancel_fr st)))
      | _ \<Rightarrow> \<not> cqe_f_more c))"

definition process_safe ::
  "('r \<Rightarrow> sqe list) \<Rightarrow> ('r, 'a) stream_state \<Rightarrow> frame_tag \<Rightarrow> cqe \<Rightarrow> unit outcome \<times> ('r, 'a) stream_state \<Rightarrow> bool" where
  "process_safe issued s t c res =
     (fst res = Ret () \<and>
      (\<exists>ts. stream_delta issued s (snd res) (int (size ts) + 1 - int (size (completion_tags t c))) (completion_tags t c) ts))"

lemma process_safe_movesI:
  assumes "res = (Ret (), (fr', st'))"
    and "issued (io_ring fr') = issued (io_ring fr) @ es" and "own_tags (rc_this st) es = ts"
    and "rc_this st' = rc_this st" and "rc_count st' = rc_count st + (int (size ts) + 1 - int (size (completion_tags t c)))"
    and "active_tags st' + completion_tags t c = active_tags st + ts" and "stream_inv fr' st'"
    and "own_entries (rc_this st) es" and "stream_impl.more st' = stream_impl.more st"
    and "frame_moves (stream_owned st) fr (stream_owned st') fr' {}"
  shows "process_safe issued (fr, st) t c res"
  using assms(1) stream_deltaI [where issued = issued, OF assms(2-10)] by (auto simp: process_safe_def)

lemma process_safeI:
  assumes "res = (Ret (), (fr', st'))"
    and "issued (io_ring fr') = issued (io_ring fr) @ es" and "own_tags (rc_this st) es = ts"
    and "rc_this st' = rc_this st" and "rc_count st' = rc_count st + (int (size ts) + 1 - int (size (completion_tags t c)))"
    and "active_tags st' + completion_tags t c = active_tags st + ts" and "stream_inv fr' st'"
    and "own_entries (rc_this st) es" and "stream_impl.more st' = stream_impl.more st"
    and "st_fd st' = st_fd st" and "fds fr' = fds fr" and "groups_kept fr fr'" and "sched fr' = sched fr"
  shows "process_safe issued (fr, st) t c res"
  using stream_stays [OF assms(7,10-13)] by (rule process_safe_movesI [OF assms(1-9)])

lemma in_if_single: "t \<in># (if b then {#x#} else {#}) = (b \<and> t = x)"
  by simp

lemma active_tags_mem:
  "F_cancel \<in># active_tags st = op_frame_active (cancel_fr st)"
  "F_timeout_cancel \<in># active_tags st = tcf_initiated (timeout_cancel_fr st)"
  "F_close \<in># active_tags st = op_frame_active (close_fr st)"
  "F_shutdown \<in># active_tags st = op_frame_active (shutdown_fr st)"
  "F_send \<in># active_tags st = op_frame_active (send_fr st)"
  "F_recv \<in># active_tags st = rf_initiated (recv_fr st)"
  "F_timeout \<in># active_tags st = tf_initiated (timeout_fr st)"
  "t \<in># active_tags st \<Longrightarrow> t \<in> {F_cancel, F_timeout_cancel, F_close, F_shutdown, F_send, F_recv, F_timeout}"
  unfolding active_tags_def by (simp_all add: in_if_single) blast

lemma process_simple:
  assumes inv: "stream_inv fr st" and act: "t \<in># active_tags st" and more: "\<not> cqe_f_more c"
    and t: "t \<in> {F_cancel, F_timeout_cancel, F_shutdown, F_send}"
  shows "process_safe issued (fr, st) t c (stream_process E now t c (fr, st))"
proof -
  consider "t = F_cancel" | "t = F_timeout_cancel" | "t = F_shutdown" | "t = F_send" using t by blast
  then show ?thesis
  proof cases
    case 1
    have call: "stream_process E now t c (fr, st) = (Ret (), (fr, st\<lparr>cancel_fr := op_frame_process c (cancel_fr st)\<rparr>))"
      by (simp add: 1 stream_process_def cancel_process_def op_simps)
    show ?thesis
      using act [unfolded 1 active_tags_mem op_frame_active_def] more inv
      by (intro process_safeI [OF call, where es = "[]" and ts = "{#}"])
        (simp_all add: 1 completion_tags_def active_defs inv_defs)
  next
    case 2
    have call: "stream_process E now t c (fr, st) = (Ret (), (fr, st\<lparr>timeout_cancel_fr := \<lparr>tcf_res = cqe_res c, tcf_initiated = False\<rparr>\<rparr>))"
      by (simp add: 2 stream_process_def timeout_cancel_process_def op_simps)
    show ?thesis
      using act [unfolded 2 active_tags_mem] more inv
      by (intro process_safeI [OF call, where es = "[]" and ts = "{#}"])
        (simp_all add: 2 completion_tags_def active_defs inv_defs)
  next
    case 3
    have call: "stream_process E now t c (fr, st) = (Ret (), (fr, st\<lparr>shutdown_fr := op_frame_process c (shutdown_fr st)\<rparr>))"
      by (simp add: 3 stream_process_def shutdown_process_def op_simps)
    show ?thesis
      using act [unfolded 3 active_tags_mem op_frame_active_def] more inv
      by (intro process_safeI [OF call, where es = "[]" and ts = "{#}"])
        (simp_all add: 3 completion_tags_def active_defs inv_defs)
  next
    case 4
    define st' where "st' = (if cqe_res c < 0 then st\<lparr>send_fr := op_frame_process c (send_fr st), st_connected := False\<rparr>
        else st\<lparr>send_fr := op_frame_process c (send_fr st)\<rparr>)"
    have call: "stream_process E now t c (fr, st) = (Ret (), (fr, st'))"
      by (simp add: 4 stream_process_def send_process_def op_simps st'_def Let_def)
    show ?thesis
      using act [unfolded 4 active_tags_mem op_frame_active_def] more inv
      by (intro process_safeI [OF call, where es = "[]" and ts = "{#}"])
        (simp_all add: 4 st'_def completion_tags_def active_defs inv_defs)
  qed
qed

lemma process_close:
  assumes inv: "stream_inv fr st" and act: "F_close \<in># active_tags st" and more: "\<not> cqe_f_more c"
  shows "process_safe issued (fr, st) F_close c (stream_process E now F_close c (fr, st))"
proof -
  define fr' where "fr' = (if st_fd st = - 1 then fr else fr\<lparr>fds := insert (st_fd st) (fds fr)\<rparr>)"
  let ?st = "st\<lparr>close_fr := op_frame_process c (close_fr st), st_fd := - 1, st_connected := False\<rparr>"
  have fdi: "fd_inv fr" "st_fd st = - 1 \<or> owned_fd_ok fr (st_fd st)" using inv by (auto simp: stream_inv_def fd_wf_def)
  have rel: "release_fd (st_fd st) fr = (Ret (), fr')"
    using fdi release_fd_ok [of fr "st_fd st"] by (auto simp: fr'_def release_fd_def owned_fd_ok_def)
  have call: "stream_process E now F_close c (fr, st) = (Ret (), (fr', ?st))"
    using rel by (simp add: stream_process_def close_process_def op_simps)
  have "fd_inv fr'" using fdi by (auto simp: fr'_def fd_inv_def owned_fd_ok_def)
  moreover have "groups_inv fr' = groups_inv fr" "recv_frame_wf fr' (recv_fr st) = recv_frame_wf fr (recv_fr st)"
    "io_ring fr' = io_ring fr" by (simp_all add: fr'_def)
  moreover have "frame_moves (stream_owned st) fr (stream_owned ?st) fr' {}"
    using fdi inv calculation by (auto simp: frame_moves_def frame_ok_def stream_owned_def fr'_def stream_inv_def)
  ultimately show ?thesis
    using act [unfolded active_tags_mem op_frame_active_def] more inv
    by (intro process_safe_movesI [OF call, where es = "[]" and ts = "{#}"])
      (simp_all add: completion_tags_def active_defs inv_defs)
qed

lemma process_recv:
  assumes inv: "stream_inv fr st" and act: "F_recv \<in># active_tags st" and ok: "cqe_ok now F_recv c (fr, st)"
  shows "process_safe issued (fr, st) F_recv c (stream_process E now F_recv c (fr, st))"
proof -
  let ?rf = "recv_fr st"
  have init: "rf_initiated ?rf" "rf_ec ?rf = None" "rf_buffer_group_id ?rf \<noteq> - 1"
    using act inv unfolding active_tags_mem(6) stream_inv_def recv_frame_wf_def
    by auto
  consider (neg) "cqe_res c < 0" | (zero) "cqe_res c = 0" | (pos) "cqe_res c > 0" by linarith
  then show ?thesis
  proof cases
    case neg
    have more: "\<not> cqe_f_more c" using neg ok by (simp add: cqe_ok_def)
    have call: "stream_process E now F_recv c (fr, st) = (Ret (), (fr, st\<lparr>recv_fr := ?rf\<lparr>rf_ec :=
       Some (if cqe_res c = - ECANCELED \<and> \<not> st_cancelled st then ETIMEDOUT else - cqe_res c), rf_initiated := False\<rparr>\<rparr>))"
      unfolding stream_process_def frame_tag.case by (rule recv_process_neg [OF neg more init(2)])
    show ?thesis
      using init more inv
      by (intro process_safeI [OF call, where es = "[]" and ts = "{#}"])
        (simp_all add: completion_tags_def active_tags_def inv_defs recv_frame_wf_def)
  next
    case zero
    have fl: "\<not> cqe_f_more c" "\<not> cqe_f_buffer c" using zero ok by (simp_all add: cqe_ok_def)
    have call: "stream_process E now F_recv c (fr, st) = (Ret (), (fr, st\<lparr>recv_fr := ?rf\<lparr>rf_buffers :=
        rf_buffers ?rf @ [rb_new (\<lambda>_. 0) 0], rf_initiated := False\<rparr>\<rparr>))"
      using recv_process_zero [OF zero fl] by (simp add: stream_process_def)
    show ?thesis
      using init fl inv
      by (intro process_safeI [OF call, where es = "[]" and ts = "{#}"])
        (simp_all add: completion_tags_def active_tags_def inv_defs recv_frame_wf_def)
  next
    case pos
    obtain g br b where g: "cqe_f_buffer c" "rf_p_buf_ring ?rf = Some g" "buf_rings fr g = Some br"
        "cqe_buffer_id c < length (br_bufs br)" "br_bufs br ! cqe_buffer_id c = Some b"
      using pos ok by (auto simp: cqe_ok_def)
    have br: "ring_inv br" "0 < br_buf_size br" "br_bgid br = g" using inv g by (auto simp: stream_inv_def groups_inv_def)
    obtain br' where br': "take_buffer (cqe_buffer_id c) (nat (cqe_res c)) br = (Ret (b\<lparr>rb_size := nat (cqe_res c)\<rparr>), br')"
        "ring_inv br'" "br_buf_size br' = br_buf_size br" "br_bgid br' = br_bgid br"
      using take_buffer_ok [OF br(1) g(4,5)] by blast
    let ?fr = "fr\<lparr>buf_rings := (buf_rings fr)(g \<mapsto> br')\<rparr>"
    let ?rf' = "?rf\<lparr>rf_last_recv := now, rf_buffers := rf_buffers ?rf @ [b\<lparr>rb_size := nat (cqe_res c)\<rparr>], rf_initiated := cqe_f_more c\<rparr>"
    have call: "stream_process E now F_recv c (fr, st) = (Ret (), (?fr,
        st\<lparr>rc_count := rc_count st + of_bool (cqe_f_more c), recv_fr := ?rf'\<rparr>))"
      using recv_process_pos [OF pos g(1,2,3) br'(1)] by (simp add: stream_process_def)
    have "groups_inv ?fr" using inv br br' by (intro groups_inv_upd) (simp_all add: stream_inv_def)
    moreover have "recv_frame_wf ?fr ?rf'"
      using inv init by (intro recv_frame_wf_upd) (simp add: stream_inv_def recv_frame_wf_def)
    ultimately have "stream_inv ?fr (st\<lparr>rc_count := rc_count st + of_bool (cqe_f_more c), recv_fr := ?rf'\<rparr>)"
      using inv by (simp add: inv_defs)
    then show ?thesis
      using init
      by (intro process_safeI [OF call, where es = "[]" and ts = "{#}"])
        (simp_all add: completion_tags_def active_tags_def)
  qed
qed

text \<open>A tick that does not cancel, and one that does; both may have to arm the timer again.\<close>

lemma timeout_tick:
  assumes laws: "uring_laws E issued n" and init: "tf_initiated (timeout_fr st)"
  shows "\<exists>r' es. thenM (if \<not> cqe_f_more c then timeout_rearm E else retM ()) intrusive_ptr_add_ref (fr, st) =
        (Ret (), (fr\<lparr>io_ring := r'\<rparr>,
          st\<lparr>rc_count := rc_count st + 1, timeout_fr := (timeout_fr st)\<lparr>tf_initiated := True\<rparr>\<rparr>)) \<and>
      issued r' = issued (io_ring fr) @ es \<and> own_tags (rc_this st) es = completion_tags F_timeout c \<and> own_entries (rc_this st) es"
proof (cases "cqe_f_more c")
  case True
  have "fr\<lparr>io_ring := io_ring fr\<rparr> = fr" "(timeout_fr st)\<lparr>tf_initiated := True\<rparr> = timeout_fr st"
    using init by simp_all
  then show ?thesis
    using True by (intro exI [of _ "io_ring fr"] exI [of _ "[]"]) (simp add: op_simps completion_tags_def)
next
  case False
  obtain r' where r': "timeout_rearm E (fr, st) =
      (Ret (), (fr\<lparr>io_ring := r'\<rparr>, st\<lparr>timeout_fr := (timeout_fr st)\<lparr>tf_initiated := True\<rparr>\<rparr>))"
      "issued r' = issued (io_ring fr) @ [timeout_sqe (rc_this st)]"
    by (rule timeout_rearm_ok [OF laws])
  then show ?thesis
    using False by (intro exI [of _ r'] exI [of _ "[timeout_sqe (rc_this st)]"])
      (simp add: op_simps completion_tags_def)
qed

lemma process_timeout:
  assumes laws: "uring_laws E issued n" and inv: "stream_inv fr st" and act: "F_timeout \<in># active_tags st"
    and ok: "cqe_ok now F_timeout c (fr, st)"
  shows "process_safe issued (fr, st) F_timeout c (stream_process E now F_timeout c (fr, st))"
proof -
  have init: "tf_initiated (timeout_fr st)" using act by (simp only: active_tags_mem)
  consider (closing) "cqe_res c = - ECANCELED" "tf_cancelled (timeout_fr st)"
    | (adjust) "cqe_res c = - ECANCELED" "\<not> tf_cancelled (timeout_fr st)"
    | (idle) "cqe_res c = - ETIME \<or> cqe_res c = 0" "\<not> should_cancel now st"
    | (cancel) "cqe_res c = - ETIME \<or> cqe_res c = 0" "should_cancel now st"
    using ok by (auto simp: cqe_ok_def)
  then show ?thesis
  proof cases
    case closing
    have call: "stream_process E now F_timeout c (fr, st) =
        (Ret (), (fr, st\<lparr>timeout_fr := \<lparr>tf_initiated = False, tf_cancelled = False\<rparr>\<rparr>))"
      using closing by (simp add: stream_process_def timeout_process_def op_simps)
    have "\<not> cqe_f_more c" using closing ok by (simp add: cqe_ok_def)
    then show ?thesis
      using init inv by (intro process_safeI [OF call, where es = "[]" and ts = "{#}"])
        (simp_all add: completion_tags_def active_tags_def inv_defs)
  next
    case adjust
    obtain r' where r': "timeout_rearm E (fr, st) =
        (Ret (), (fr\<lparr>io_ring := r'\<rparr>, st\<lparr>timeout_fr := (timeout_fr st)\<lparr>tf_initiated := True\<rparr>\<rparr>))"
        "issued r' = issued (io_ring fr) @ [timeout_sqe (rc_this st)]"
      by (rule timeout_rearm_ok [OF laws])
    then have call: "stream_process E now F_timeout c (fr, st) = (Ret (), (fr\<lparr>io_ring := r'\<rparr>,
        st\<lparr>rc_count := rc_count st + 1, timeout_fr := (timeout_fr st)\<lparr>tf_initiated := True\<rparr>\<rparr>))"
      using adjust by (simp add: stream_process_def timeout_process_def op_simps)
    have more: "\<not> cqe_f_more c" using adjust ok by (simp add: cqe_ok_def)
    show ?thesis
      using r'(2) more init inv
      by (intro process_safeI [OF call, where es = "[timeout_sqe (rc_this st)]" and ts = "{#F_timeout#}"])
        (simp_all add: completion_tags_def active_tags_def inv_defs)
  next
    case idle
    obtain r' es where t: "thenM (if \<not> cqe_f_more c then timeout_rearm E else retM ()) intrusive_ptr_add_ref (fr, st) = (Ret (), (fr\<lparr>io_ring := r'\<rparr>,
        st\<lparr>rc_count := rc_count st + 1, timeout_fr := (timeout_fr st)\<lparr>tf_initiated := True\<rparr>\<rparr>))"
        "issued r' = issued (io_ring fr) @ es" "own_tags (rc_this st) es = completion_tags F_timeout c" "own_entries (rc_this st) es"
      using timeout_tick [OF laws init] by blast
    have "stream_process E now F_timeout c (fr, st) = thenM (if \<not> cqe_f_more c then timeout_rearm E else retM ()) intrusive_ptr_add_ref (fr, st)"
      using idle by (auto simp: stream_process_def timeout_process_def op_simps)
    note call = this [unfolded t(1)]
    show ?thesis
      using t(2-4) init inv
      by (intro process_safeI [OF call, where es = es and ts = "completion_tags F_timeout c"])
        (simp_all add: active_tags_def inv_defs)
  next
    case cancel
    have guard: "0 \<le> st_fd st" "\<not> tcf_initiated (timeout_cancel_fr st)" using cancel ok by (auto simp: cqe_ok_def)
    let ?e = "cancel_fd_sqe (st_fd st) [] (UD (rc_this st) F_timeout_cancel)"
    let ?st1 = "st\<lparr>rc_count := rc_count st + 1, timeout_cancel_fr := (timeout_cancel_fr st)\<lparr>tcf_initiated := True\<rparr>\<rparr>"
    obtain q where q: "timeout_cancel_start E (fr, st) = (Ret (), (fr\<lparr>io_ring := q\<rparr>, ?st1))"
        "issued q = issued (io_ring fr) @ [?e]"
      by (rule timeout_cancel_start_ok [OF laws guard(1)])
    obtain r' es where t: "thenM (if \<not> cqe_f_more c then timeout_rearm E else retM ()) intrusive_ptr_add_ref (fr\<lparr>io_ring := q\<rparr>, ?st1) = (Ret (), (fr\<lparr>io_ring := r'\<rparr>,
        ?st1\<lparr>rc_count := rc_count st + 2, timeout_fr := (timeout_fr st)\<lparr>tf_initiated := True\<rparr>\<rparr>))"
        "issued r' = issued q @ es" "own_tags (rc_this st) es = completion_tags F_timeout c" "own_entries (rc_this st) es"
      using timeout_tick [OF laws, of ?st1 c "fr\<lparr>io_ring := q\<rparr>"] init by (auto simp: add.assoc)
    have "stream_process E now F_timeout c (fr, st) = thenM (if \<not> cqe_f_more c then timeout_rearm E else retM ()) intrusive_ptr_add_ref (fr\<lparr>io_ring := q\<rparr>, ?st1)"
      using cancel q(1) by (auto simp: stream_process_def timeout_process_def op_simps)
    note call = this [unfolded t(1)]
    show ?thesis
      using q(2) t(2-4) init guard inv
      by (intro process_safeI [OF call, where es = "?e # es" and ts = "{#F_timeout_cancel#} + completion_tags F_timeout c"])
        (simp_all add: active_tags_def inv_defs)
  qed
qed

lemma process_ok:
  assumes "uring_laws E issued n" and "stream_inv fr st" and "t \<in># active_tags st" and "cqe_ok now t c (fr, st)"
  shows "process_safe issued (fr, st) t c (stream_process E now t c (fr, st))"
proof -
  have "t \<in> {F_cancel, F_timeout_cancel, F_close, F_shutdown, F_send, F_recv, F_timeout}"
    using assms(3) by (rule active_tags_mem(8))
  then consider "t \<in> {F_cancel, F_timeout_cancel, F_shutdown, F_send}" | "t = F_close" | "t = F_recv" | "t = F_timeout" by blast
  then show ?thesis
  proof cases
    case 1
    then have "\<not> cqe_f_more c" using assms(4) by (auto simp: cqe_ok_def)
    then show ?thesis using process_simple [OF assms(2,3) _ 1] by blast
  next
    case 2
    then have "\<not> cqe_f_more c" using assms(4) by (auto simp: cqe_ok_def)
    then show ?thesis using process_close [OF assms(2)] assms(3) 2 by blast
  next
    case 3
    then show ?thesis using process_recv [OF assms(2)] assms(3,4) by blast
  next
    case 4
    then show ?thesis using process_timeout [OF assms(1,2)] assms(3,4) by blast
  qed
qed

subsection \<open>Pointers, completions and calls as one machine\<close>

text \<open>
  The run loop delivers a completion to the frame and takes the coroutine to resume; the adopted
  pointer lives until the coroutine suspends again, so it counts as an external one.
\<close>

definition deliver :: "'r platform \<Rightarrow> int \<Rightarrow> frame_tag \<Rightarrow> cqe \<Rightarrow> (('r, 'a) stream_state, handle option) op" where
  "deliver E now t c = thenM (stream_process E now t c) (stream_handle t)"

definition rely :: "'a stream_impl_scheme \<Rightarrow> 'r io_context_frame \<Rightarrow> 'r io_context_frame \<Rightarrow> bool" where
  "rely st fr fr' =
     (fd_inv fr' \<and> groups_inv fr' \<and> params fr' = params fr \<and> st_fd st \<notin> fds fr' \<and>
      (\<forall>g. buf_rings fr g \<noteq> None \<longrightarrow> buf_rings fr' g \<noteq> None))"

inductive stream_reach ::
  "'r platform \<Rightarrow> ('r \<Rightarrow> sqe list) \<Rightarrow> ('r, 'a) stream_state \<Rightarrow> nat \<Rightarrow> frame_tag multiset \<Rightarrow> bool"
  for E issued where
  constructed: "stream_inv fr st \<Longrightarrow> rc_count st = 0 \<Longrightarrow> active_tags st = {#} \<Longrightarrow>
      thenM (stream_init E) intrusive_ptr_add_ref (fr, st) = (Ret (), s) \<Longrightarrow>
      stream_reach E issued s 1 {#F_timeout#}"
| called: "stream_reach E issued s ext pend \<Longrightarrow> 0 < ext \<Longrightarrow> call_ok c (snd s) \<Longrightarrow>
      exec_call E junk c s = (x, s') \<Longrightarrow> issued (io_ring (fst s')) = issued (io_ring (fst s)) @ es \<Longrightarrow>
      stream_reach E issued s' ext (pend + own_tags (rc_this (snd s)) es)"
| copied: "stream_reach E issued s ext pend \<Longrightarrow> 0 < ext \<Longrightarrow> intrusive_ptr_add_ref s = (Ret (), s') \<Longrightarrow>
      stream_reach E issued s' (ext + 1) pend"
| released: "stream_reach E issued s ext pend \<Longrightarrow> 0 < ext \<Longrightarrow>
      intrusive_ptr_release (stream_impl_dtor E) s = (Ret False, s') \<Longrightarrow> stream_reach E issued s' (ext - 1) pend"
| dropped: "stream_reach E issued s ext pend \<Longrightarrow> 0 < ext \<Longrightarrow>
      stream_dtor E s = (Ret False, s') \<Longrightarrow> stream_reach E issued s' (ext - 1) pend"
| completed: "stream_reach E issued s ext pend \<Longrightarrow> t \<in># pend \<Longrightarrow> cqe_ok now t c s \<Longrightarrow>
      deliver E now t c s = (x, s') \<Longrightarrow> issued (io_ring (fst s')) = issued (io_ring (fst s)) @ es \<Longrightarrow>
      stream_reach E issued s' (ext + 1) (pend - completion_tags t c + own_tags (rc_this (snd s)) es)"
| interfered: "stream_reach E issued (fr, st) ext pend \<Longrightarrow> rely st fr fr' \<Longrightarrow> stream_reach E issued (fr', st) ext pend"

definition life_inv :: "('r, 'a) stream_state \<Rightarrow> nat \<Rightarrow> frame_tag multiset \<Rightarrow> bool" where
  "life_inv s ext pend =
     (stream_inv (fst s) (snd s) \<and> pend = active_tags (snd s) \<and> rc_count (snd s) = int ext + int (size pend))"

lemma life_inv_delta:
  assumes inv: "life_inv s ext pend" and delta: "stream_delta issued s s' k fin ts"
    and es: "issued (io_ring (fst s')) = issued (io_ring (fst s)) @ es"
    and ext: "int ext' = int ext + k + int (size fin) - int (size ts)" and fin: "fin \<subseteq># pend"
  shows "life_inv s' ext' (pend - fin + own_tags (rc_this (snd s)) es)"
proof -
  have ts: "own_tags (rc_this (snd s)) es = ts" using delta es by (auto simp: stream_delta_def)
  have eq: "active_tags (snd s') + fin = active_tags (snd s) + ts" using delta by (simp add: stream_delta_def)
  have pend: "pend = active_tags (snd s)" using inv by (simp add: life_inv_def)
  have act: "active_tags (snd s') = pend - fin + ts" using mset_exchange [OF eq] fin pend by simp
  have "size (active_tags (snd s') + fin) = size (active_tags (snd s) + ts)" by (simp only: eq)
  then have "int (size (active_tags (snd s'))) + int (size fin) = int (size pend) + int (size ts)"
    using pend by simp
  then show ?thesis using inv delta ext ts act by (auto simp: life_inv_def stream_delta_def)
qed

lemma stream_handle_delta:
  assumes "stream_delta issued s s' k fin ts"
  shows "\<exists>h s''. stream_handle t s' = (Ret h, s'') \<and> stream_delta issued s s'' k fin ts"
proof -
  obtain fr st where s': "s' = (fr, st)" by (cases s')
  obtain h st' where h: "stream_handle t s' = (Ret h, (fr, st'))" "rc_this st' = rc_this st" "rc_count st' = rc_count st"
      "active_tags st' = active_tags st" "stream_inv fr st' = stream_inv fr st" "stream_impl.more st' = stream_impl.more st"
      "stream_owned st' = stream_owned st"
    by (cases t) (auto simp: s' stream_handle_def cancel_handle_def close_handle_def shutdown_handle_def send_handle_def
        recv_handle_def retM_def op_frame_handle_def active_tags_def op_frame_active_def inv_defs recv_frame_wf_def
        stream_owned_def)
  then show ?thesis using assms s' by (auto simp: stream_delta_def)
qed

lemma deliver_inv_ok:
  assumes "uring_laws E issued n" and "stream_inv fr st" and "t \<in># active_tags st" and "cqe_ok now t c (fr, st)"
  shows "\<exists>h s' ts. deliver E now t c (fr, st) = (Ret h, s') \<and>
     stream_delta issued (fr, st) s' (int (size ts) + 1 - int (size (completion_tags t c))) (completion_tags t c) ts"
proof -
  have "process_safe issued (fr, st) t c (stream_process E now t c (fr, st))" by (rule process_ok [OF assms])
  then obtain s1 ts where "stream_process E now t c (fr, st) = (Ret (), s1)"
      "stream_delta issued (fr, st) s1 (int (size ts) + 1 - int (size (completion_tags t c))) (completion_tags t c) ts"
    by (cases "stream_process E now t c (fr, st)") (auto simp: process_safe_def)
  then show ?thesis
    using stream_handle_delta by (fastforce simp: deliver_def op_simps)
qed

lemma deliver_ok:
  assumes "uring_laws E issued n" and "life_inv s ext pend" and "t \<in># pend" and "cqe_ok now t c s"
  shows "\<exists>h s' ts. deliver E now t c s = (Ret h, s') \<and>
     stream_delta issued s s' (int (size ts) + 1 - int (size (completion_tags t c))) (completion_tags t c) ts"
  using deliver_inv_ok [OF assms(1), of "fst s" "snd s" t now c] assms(2-4) by (simp add: life_inv_def)

lemma active_tags_count [simp]: "active_tags (st\<lparr>rc_count := k\<rparr>) = active_tags st"
  by (simp add: active_tags_def)

lemma active_tags_cancelled [simp]:
  "active_tags (st\<lparr>timeout_fr := (timeout_fr st)\<lparr>tf_cancelled := b\<rparr>\<rparr>) = active_tags st"
  by (simp add: active_tags_def)

lemma stream_inv_timeout_fr [simp]: "stream_inv fr (st\<lparr>timeout_fr := tf\<rparr>) = stream_inv fr st"
  by (simp add: inv_defs)

lemma stream_release_ok:
  assumes laws: "uring_laws E issued n" and life: "life_inv (fr, st) ext pend" and pos: "0 < ext"
  shows "\<exists>fr' st'. intrusive_ptr_release (stream_impl_dtor E) (fr, st) = (Ret (ext = 1 \<and> pend = {#}), (fr', st')) \<and>
     (if ext = 1 \<and> pend = {#} then fds fr' = fds fr \<union> ({st_fd st} - {- 1}) else life_inv (fr', st') (ext - 1) pend)"
proof (cases "rc_count st = 1")
  case False
  then have "\<not> (ext = 1 \<and> pend = {#})" using life by (auto simp: life_inv_def)
  moreover have "life_inv (fr, st\<lparr>rc_count := rc_count st - 1\<rparr>) (ext - 1) pend"
    using life pos by (simp add: life_inv_def)
  moreover have "intrusive_ptr_release (stream_impl_dtor E) (fr, st) = (Ret False, (fr, st\<lparr>rc_count := rc_count st - 1\<rparr>))"
    using False by (simp add: release_apply)
  ultimately show ?thesis by auto
next
  case True
  then have "int ext + int (size pend) = 1" using life unfolding life_inv_def by (metis snd_conv)
  then have "ext = 1" "size pend = 0" using pos by linarith+
  then have last: "ext = 1 \<and> pend = {#}" by simp
  show ?thesis
  proof (cases "st_fd st = - 1")
    case True
    then have "intrusive_ptr_release (stream_impl_dtor E) (fr, st) = (Ret True, (fr, st\<lparr>rc_count := 0\<rparr>))"
      using \<open>rc_count st = 1\<close> by (simp add: release_apply stream_impl_dtor_def op_simps)
    then show ?thesis using last True by auto
  next
    case False
    then have fd: "owned_fd_ok fr (st_fd st)" "fd_inv fr" using life by (auto simp: life_inv_def stream_inv_def fd_wf_def)
    obtain r' where r': "close_owned_fd E (st_fd st) (fr, st\<lparr>rc_count := 0\<rparr>) =
        (Ret (), (fr\<lparr>io_ring := r', fds := insert (st_fd st) (fds fr)\<rparr>, st\<lparr>rc_count := 0\<rparr>))"
      by (rule close_owned_fd_ok [OF laws fd(2,1)])
    then have "intrusive_ptr_release (stream_impl_dtor E) (fr, st) =
        (Ret True, (fr\<lparr>io_ring := r', fds := insert (st_fd st) (fds fr)\<rparr>, st\<lparr>rc_count := 0, st_fd := - 1\<rparr>))"
      using \<open>rc_count st = 1\<close> fd(1) by (simp add: release_apply stream_impl_dtor_def owned_fd_ok_def op_simps)
    then show ?thesis using last False by auto
  qed
qed

lemma cancel_both_ok:
  assumes laws: "uring_laws E issued n" and life: "life_inv (fr, st) ext pend"
  shows "\<exists>r' st'. thenM (cancel_timer E) (cancel_recv E) (fr, st) = (Ret (), (fr\<lparr>io_ring := r'\<rparr>, st')) \<and>
     life_inv (fr\<lparr>io_ring := r'\<rparr>, st') ext pend \<and> st_fd st' = st_fd st"
proof -
  obtain q st1 where q: "cancel_timer E (fr, st) = (Ret (), (fr\<lparr>io_ring := q\<rparr>, st1))"
      "life_inv (fr\<lparr>io_ring := q\<rparr>, st1) ext pend" "st_fd st1 = st_fd st"
  proof (cases "tf_initiated (timeout_fr st)")
    case False
    obtain q where "cancel_timer E (fr, st) = (Ret (), (fr\<lparr>io_ring := q\<rparr>, st))"
      by (rule cancel_timer_idle [OF laws False])
    then show ?thesis using that life by (simp add: life_inv_def)
  next
    case True
    obtain q where "cancel_timer E (fr, st) = (Ret (), (fr\<lparr>io_ring := q\<rparr>, st\<lparr>timeout_fr := (timeout_fr st)\<lparr>tf_cancelled := True\<rparr>\<rparr>))"
      by (rule cancel_timer_armed [OF laws True])
    moreover have "life_inv (fr\<lparr>io_ring := q\<rparr>, st\<lparr>timeout_fr := (timeout_fr st)\<lparr>tf_cancelled := True\<rparr>\<rparr>) ext pend"
      using life by (simp add: life_inv_def)
    ultimately show ?thesis using that by simp
  qed
  show ?thesis
  proof (cases "rf_initiated (recv_fr st1)")
    case False
    then show ?thesis using q by (auto simp: cancel_recv_def op_simps)
  next
    case True
    obtain r' where "cancel_in_flight E (UD (rc_this st1) F_recv) (fr\<lparr>io_ring := q\<rparr>, st1) = (Ret (), (fr\<lparr>io_ring := q, io_ring := r'\<rparr>, st1))"
      by (rule cancel_in_flight_ok [OF laws])
    then have "thenM (cancel_timer E) (cancel_recv E) (fr, st) = (Ret (), (fr\<lparr>io_ring := r'\<rparr>, st1))"
      using True q(1) by (simp add: cancel_recv_def op_simps)
    then show ?thesis using q by (intro exI [of _ r'] exI [of _ st1]) (simp add: life_inv_def)
  qed
qed

lemma thenM_Ret: "m s = (Ret (), s') \<Longrightarrow> thenM m k s = k s'"
  by (simp add: op_simps)

lemma thenM_assert: "thenM (assertM True) k s = k s"
  by (simp add: op_simps)

lemma stream_dtor_ok:
  assumes laws: "uring_laws E issued n" and life: "life_inv (fr, st) ext pend" and pos: "0 < ext"
  shows "\<exists>fr' st'. stream_dtor E (fr, st) = (Ret (ext = 1 \<and> pend = {#}), (fr', st')) \<and>
     (if ext = 1 \<and> pend = {#} then fds fr' = fds fr \<union> ({st_fd st} - {- 1}) else life_inv (fr', st') (ext - 1) pend)"
proof -
  have uc: "use_count st - count_active st = int ext"
    using life by (simp add: life_inv_def use_count_def count_active_size)
  show ?thesis
  proof (cases "ext = 1")
    case False
    then have "stream_dtor E (fr, st) = intrusive_ptr_release (stream_impl_dtor E) (fr, st)"
      using uc pos by (simp add: stream_dtor_def Let_def op_simps)
    then show ?thesis using stream_release_ok [OF laws life pos] by simp
  next
    case True
    obtain r' st' where c: "thenM (cancel_timer E) (cancel_recv E) (fr, st) = (Ret (), (fr\<lparr>io_ring := r'\<rparr>, st'))"
        "life_inv (fr\<lparr>io_ring := r'\<rparr>, st') ext pend" "st_fd st' = st_fd st"
      using cancel_both_ok [OF laws life] by blast
    have "stream_dtor E (fr, st) = intrusive_ptr_release (stream_impl_dtor E) (fr\<lparr>io_ring := r'\<rparr>, st')"
      using uc True by (simp add: stream_dtor_def Let_def with_obj_apply thenM_assert thenM_Ret [where m = "thenM (cancel_timer E) (cancel_recv E)", OF c(1)])
    moreover have "fds (fr\<lparr>io_ring := r'\<rparr>) = fds fr" by simp
    ultimately show ?thesis using stream_release_ok [OF laws c(2) pos] c(3) by (simp only:)
  qed
qed

lemma life_inv_init:
  assumes laws: "uring_laws E issued n" and inv: "stream_inv fr st" and "rc_count st = 0" and "active_tags st = {#}"
    and run: "thenM (stream_init E) intrusive_ptr_add_ref (fr, st) = (Ret (), s)"
  shows "life_inv s 1 {#F_timeout#}"
proof -
  obtain r' where "on_ring (issue_one E (timeout_sqe (rc_this st))) (fr, st) = (Ret (), (fr\<lparr>io_ring := r'\<rparr>, st))"
    by (rule on_issue_one [OF laws])
  then have "s = (fr\<lparr>io_ring := r'\<rparr>, st\<lparr>timeout_fr := (timeout_fr st)\<lparr>tf_initiated := True\<rparr>, rc_count := 2\<rparr>)"
    using run assms(3) by (simp add: stream_init_def op_simps)
  moreover have "active_tags (st\<lparr>timeout_fr := (timeout_fr st)\<lparr>tf_initiated := True\<rparr>\<rparr>) = {#F_timeout#}"
    using assms(4) active_tags_mem(1-6) [of st] by (simp add: active_tags_def)
  ultimately show ?thesis using inv by (simp add: life_inv_def)
qed

lemma life_inv_call:
  assumes laws: "uring_laws E issued n" and life: "life_inv s ext pend" and ok: "call_ok c (snd s)"
    and run: "exec_call E junk c s = (x, s')" and es: "issued (io_ring (fst s')) = issued (io_ring (fst s)) @ es"
  shows "life_inv s' ext (pend + own_tags (rc_this (snd s)) es)"
proof -
  have "call_safe issued s (exec_call E junk c s)"
    using exec_call_safe [OF laws, of "fst s" "snd s"] life ok by (simp add: life_inv_def)
  then obtain ts where "stream_delta issued s s' (int (size ts)) {#} ts" using run by (auto simp: call_safe_def)
  then show ?thesis using life_inv_delta [OF life _ es] by fastforce
qed

lemma life_inv_complete:
  assumes laws: "uring_laws E issued n" and life: "life_inv s ext pend" and t: "t \<in># pend" "cqe_ok now t c s"
    and run: "deliver E now t c s = (x, s')" and es: "issued (io_ring (fst s')) = issued (io_ring (fst s)) @ es"
  shows "life_inv s' (ext + 1) (pend - completion_tags t c + own_tags (rc_this (snd s)) es)"
proof -
  obtain ts where "stream_delta issued s s' (int (size ts) + 1 - int (size (completion_tags t c))) (completion_tags t c) ts"
    using deliver_ok [OF laws life t] run by auto
  moreover have "completion_tags t c \<subseteq># pend" using t(1) by (simp add: completion_tags_def)
  ultimately show ?thesis by (intro life_inv_delta [OF life _ es]) auto
qed

lemma stream_reach_life:
  assumes "stream_reach E issued s ext pend" and laws: "uring_laws E issued n"
  shows "life_inv s ext pend"
  using assms(1)
proof (induction rule: stream_reach.induct)
  case (constructed fr st s)
  then show ?case using life_inv_init [OF laws] by blast
next
  case (called s ext pend c junk x s' es)
  then show ?case using life_inv_call [OF laws] by blast
next
  case (copied s ext pend s')
  then show ?case by (cases s) (auto simp: add_ref_apply life_inv_def)
next
  case (released s ext pend s')
  then show ?case using stream_release_ok [OF laws, of "fst s" "snd s" ext pend] by (auto split: if_splits)
next
  case (dropped s ext pend s')
  then show ?case using stream_dtor_ok [OF laws, of "fst s" "snd s" ext pend] by (auto split: if_splits)
next
  case (completed s ext pend t now c x s' es)
  then show ?case using life_inv_complete [OF laws] by blast
next
  case (interfered fr st ext pend fr')
  then show ?case
    by (auto simp: life_inv_def rely_def stream_inv_def fd_wf_def owned_fd_ok_def recv_frame_wf_def)
qed

subsection \<open>Properties\<close>

text \<open>
  The reference count of a stream is exact in every reachable state: it is the number of
  pointers outside the runtime plus the number of completions in flight, the frames that are
  \<^verbatim>\<open>is_active\<close> are exactly those with a completion in flight (at most one each), and so the
  expression that \<^verbatim>\<open>~stream\<close> computes is the number of outside pointers.
\<close>

theorem stream_refcount_exact:
  assumes "stream_reach E issued s ext pend" and "uring_laws E issued n"
  shows "rc_count (snd s) = int ext + int (size pend) \<and> pend = active_tags (snd s) \<and>
         use_count (snd s) - count_active (snd s) = int ext \<and> stream_inv (fst s) (snd s)"
  using stream_reach_life [OF assms]
  by (simp add: life_inv_def use_count_def count_active_size)

text \<open>
  A stream object is deleted exactly when its last pointer goes away and no completion is in
  flight: destroying a \<^verbatim>\<open>stream\<close> or releasing a pointer succeeds in every reachable state, deletes
  the object if and only if it is the last pointer and nothing is pending, and the deletion gives
  the stream's descriptor back to the pool.
\<close>

theorem stream_deleted_last:
  assumes "stream_reach E issued (fr, st) ext pend" and "uring_laws E issued n" and "0 < ext"
  shows "\<exists>fr1 st1 fr2 st2.
     stream_dtor E (fr, st) = (Ret (ext = 1 \<and> pend = {#}), (fr1, st1)) \<and>
     intrusive_ptr_release (stream_impl_dtor E) (fr, st) = (Ret (ext = 1 \<and> pend = {#}), (fr2, st2)) \<and>
     (ext = 1 \<and> pend = {#} \<longrightarrow> fds fr1 = fds fr \<union> ({st_fd st} - {- 1}) \<and> fds fr2 = fds fr \<union> ({st_fd st} - {- 1}))"
proof -
  have life: "life_inv (fr, st) ext pend" by (rule stream_reach_life [OF assms(1,2)])
  obtain fr1 st1 where "stream_dtor E (fr, st) = (Ret (ext = 1 \<and> pend = {#}), (fr1, st1))"
      "ext = 1 \<and> pend = {#} \<longrightarrow> fds fr1 = fds fr \<union> ({st_fd st} - {- 1})"
    using stream_dtor_ok [OF assms(2) life assms(3)] by (auto split: if_splits)
  moreover obtain fr2 st2 where
      "intrusive_ptr_release (stream_impl_dtor E) (fr, st) = (Ret (ext = 1 \<and> pend = {#}), (fr2, st2))"
      "ext = 1 \<and> pend = {#} \<longrightarrow> fds fr2 = fds fr \<union> ({st_fd st} - {- 1})"
    using stream_release_ok [OF assms(2) life assms(3)] by (auto split: if_splits)
  ultimately show ?thesis by blast
qed

text \<open>
  No assertion of a stream fails and no null pointer is followed: in every reachable state a
  permitted call returns or throws \<^verbatim>\<open>EBUSY\<close> or \<^verbatim>\<open>EINVAL\<close>, and an admissible completion for a frame
  that is waiting is processed normally.
\<close>

theorem stream_never_fails:
  assumes "stream_reach E issued s ext pend" and "uring_laws E issued n"
  shows "(call_ok c (snd s) \<longrightarrow> fst (exec_call E junk c s) \<in> {Ret (), Throw EBUSY, Throw EINVAL}) \<and>
         (t \<in># pend \<longrightarrow> cqe_ok now t cq s \<longrightarrow> (\<exists>h. fst (deliver E now t cq s) = Ret h))"
proof -
  have life: "life_inv s ext pend" by (rule stream_reach_life [OF assms])
  have "call_ok c (snd s) \<longrightarrow> call_safe issued s (exec_call E junk c s)"
    using exec_call_safe [OF assms(2), of "fst s" "snd s"] life by (simp add: life_inv_def)
  moreover have "t \<in># pend \<longrightarrow> cqe_ok now t cq s \<longrightarrow> (\<exists>h. fst (deliver E now t cq s) = Ret h)"
    using deliver_ok [OF assms(2) life, of t now cq] by fastforce
  ultimately show ?thesis by (simp add: call_safe_def)
qed

text \<open>A stream on the example runtime, freshly constructed with descriptor 5.\<close>

definition ex_stream0 :: stream_impl where
  "ex_stream0 = (stream_fields 640 0)\<lparr>recv_fr := (recv_frame_new 0)\<lparr>rf_buffer_group_id := 7\<rparr>\<rparr>"

definition ex_stream :: stream_impl where
  "ex_stream = ex_stream0\<lparr>rc_count := 2, timeout_fr := \<lparr>tf_initiated = True, tf_cancelled = False\<rparr>\<rparr>"

definition ex_sframe :: "list_ring io_context_frame" where
  "ex_sframe = ex_frame\<lparr>io_ring := \<lparr>lr_free = 3, lr_issued = [timeout_sqe 640], lr_cq = []\<rparr>\<rparr>"

lemmas ex_stream_defs = ex_stream_def ex_stream0_def ex_sframe_def stream_fields_def recv_frame_new_def op_frame_new_def
  ex_frame_def empty_ring_def default_params_def op_frame.extend_def

lemma ex_stream0_inv: "stream_inv ex_frame ex_stream0"
proof -
  have "\<exists>g :: u16. (7 :: int) = uint g \<and> buf_rings ex_frame g \<noteq> None"
    by (intro exI [of _ 7]) (simp add: ex_frame_def)
  then show ?thesis
    using ex_frame_inv by (simp add: inv_defs recv_frame_wf_def ex_stream0_def stream_fields_def recv_frame_new_def
      op_frame_new_def op_frame.extend_def)
qed

lemma ex_stream_reach: "stream_reach (list_platform 4) lr_issued (ex_sframe, ex_stream) 1 {#F_timeout#}"
proof (rule stream_reach.constructed)
  show "stream_inv ex_frame ex_stream0" by (rule ex_stream0_inv)
  show "rc_count ex_stream0 = 0" by (simp add: ex_stream_defs)
  show "active_tags ex_stream0 = {#}" by (simp add: ex_stream_defs active_defs)
  show "thenM (stream_init (list_platform 4)) intrusive_ptr_add_ref (ex_frame, ex_stream0) = (Ret (), (ex_sframe, ex_stream))"
    by (simp add: stream_init_def issue_one_def reserve_sqes_def put_sqe_def list_platform_def ex_stream_defs op_simps)
qed

lemma ex_laws: "uring_laws (list_platform 4) lr_issued 4"
  by (rule list_platform_laws) simp

theorem stream_refcount_exact_witness:
  "rc_count ex_stream = 2 \<and> use_count ex_stream - count_active ex_stream = 1"
  using stream_refcount_exact [OF ex_stream_reach ex_laws] by simp

theorem stream_deleted_last_witness:
  "fst (stream_dtor (list_platform 4) (ex_sframe, ex_stream)) = Ret False"
  using stream_deleted_last [OF ex_stream_reach ex_laws] by auto

theorem stream_never_fails_witness:
  "fst (exec_call (list_platform 4) (\<lambda>_. 0) (Call_send 0 [104, 105] 4096) (ex_sframe, ex_stream)) \<in> {Ret (), Throw EBUSY, Throw EINVAL} \<and>
   (\<exists>h. fst (deliver (list_platform 4) 1 F_timeout \<lparr>cqe_res = - ETIME, cqe_flags = 2, cqe_data = UD 640 F_timeout\<rparr>
      (ex_sframe, ex_stream)) = Ret h)"
proof -
  let ?c = "\<lparr>cqe_res = - ETIME, cqe_flags = 2, cqe_data = UD 640 F_timeout\<rparr>"
  have "call_ok (Call_send 0 [104, 105] 4096) ex_stream" by (simp add: call_ok_def)
  moreover have "cqe_ok 1 F_timeout ?c (ex_sframe, ex_stream)"
    by (simp add: cqe_ok_def should_cancel_def ex_stream_defs)
  ultimately show ?thesis
    using stream_never_fails [OF ex_stream_reach ex_laws, of "Call_send 0 [104, 105] 4096" "\<lambda>_. 0" F_timeout 1 ?c] by simp
qed

end
