(* ===== verification/Stream_Ops.thy ===== *)
theory Stream_Ops
  imports Stream_Life
begin

section \<open>What the operations of a stream deliver\<close>

text \<open>
  The operations \<^verbatim>\<open>send\<close>, \<^verbatim>\<open>cancel\<close>, \<^verbatim>\<open>close\<close> and \<^verbatim>\<open>shutdown\<close> meet the contract of one asynchronous
  operation (an interpretation each), the idle timeout, and the receive path from the kernel's
  buffers to the caller.
\<close>

subsection \<open>The operation contract\<close>

text \<open>The four states of an operation, in terms of the shared fields of its frame.\<close>

definition fr_idle :: "'a op_frame_scheme \<Rightarrow> bool" where
  "fr_idle f = (\<not> of_initiated f \<and> \<not> of_done f)"

definition fr_waiting :: "handle \<Rightarrow> 'a op_frame_scheme \<Rightarrow> bool" where
  "fr_waiting h f = (of_initiated f \<and> \<not> of_done f \<and> of_h f = Some h)"

definition fr_completed :: "handle \<Rightarrow> cqe \<Rightarrow> 'a op_frame_scheme \<Rightarrow> bool" where
  "fr_completed h c f = (of_done f \<and> of_h f = Some h \<and> of_res f = cqe_res c)"

definition fr_finished :: "cqe \<Rightarrow> 'a op_frame_scheme \<Rightarrow> bool" where
  "fr_finished c f = (of_done f \<and> of_res f = cqe_res c)"

lemmas fr_state_defs = fr_idle_def fr_waiting_def fr_completed_def fr_finished_def

interpretation send_op: guarded_one_shot
  "\<lambda>_ :: ('r, 'a) stream_state. uring_laws E issued n" "\<lambda>s. rc_count (snd s)"
  "\<lambda>s. fr_idle (send_fr (snd s))" "\<lambda>h s. fr_waiting h (send_fr (snd s))" "\<lambda>h c s. fr_completed h c (send_fr (snd s))"
  "\<lambda>c s. fr_finished c (send_fr (snd s))" "send_await_suspend E now buf" send_process send_handle send_await_resume
  "\<lambda>_. True" "\<lambda>c. result_of_res (cqe_res c)" for E :: "'r platform" and issued n now buf
proof
  fix s :: "('r, 'a) stream_state" and h
  assume "uring_laws E issued n" "fr_idle (send_fr (snd s))"
  then obtain r' where "send_await_suspend E now buf h (fst s, snd s) = (Ret (), ((fst s)\<lparr>io_ring := r'\<rparr>,
        (snd s)\<lparr>rc_count := rc_count (snd s) + 1, send_fr := (op_frame_start h (send_fr (snd s)))\<lparr>last_send := now\<rparr>\<rparr>))"
    using send_start [of E issued n "snd s" now buf h "fst s"] by (auto simp: fr_idle_def)
  then show "\<exists>s'. send_await_suspend E now buf h s = (Ret (), s') \<and> uring_laws E issued n \<and>
      fr_waiting h (send_fr (snd s')) \<and> rc_count (snd s') = rc_count (snd s) + 1"
    using \<open>uring_laws E issued n\<close> \<open>fr_idle (send_fr (snd s))\<close> by (auto simp: fr_state_defs op_frame_defs)
next
  fix s :: "('r, 'a) stream_state" and h k
  assume "fr_waiting h (send_fr (snd s))"
  then show "send_await_suspend E now buf k s = (Throw EBUSY, s)"
    using send_busy [of "snd s" E now buf k "fst s"] by (simp add: fr_waiting_def)
qed (auto simp: fr_state_defs op_frame_defs send_process_def on_obj_def send_handle_def send_await_resume_def Let_def)

interpretation cancel_op: one_shot
  "\<lambda>s :: ('r, 'a) stream_state. uring_laws E issued n \<and> st_fd (snd s) \<noteq> - 1" "\<lambda>s. rc_count (snd s)"
  "\<lambda>s. fr_idle (cancel_fr (snd s))" "\<lambda>h s. fr_waiting h (cancel_fr (snd s))" "\<lambda>h c s. fr_completed h c (cancel_fr (snd s))"
  "\<lambda>c s. fr_finished c (cancel_fr (snd s))" "stream_cancel_await_suspend E" cancel_process cancel_handle
  stream_cancel_await_resume "\<lambda>_. True" "\<lambda>c. result_of_res (cqe_res c)" for E :: "'r platform" and issued n
proof
  fix s :: "('r, 'a) stream_state" and h
  assume "uring_laws E issued n \<and> st_fd (snd s) \<noteq> - 1" "fr_idle (cancel_fr (snd s))"
  then obtain r' where "stream_cancel_await_suspend E h (fst s, snd s) = (Ret (), ((fst s)\<lparr>io_ring := r'\<rparr>,
        (snd s)\<lparr>rc_count := rc_count (snd s) + 1, cancel_fr := op_frame_start h (cancel_fr (snd s)), st_cancelled := True\<rparr>))"
    using cancel_start [of E issued n "snd s" h "fst s"] by auto
  then show "\<exists>s'. stream_cancel_await_suspend E h s = (Ret (), s') \<and> (uring_laws E issued n \<and> st_fd (snd s') \<noteq> - 1) \<and>
      fr_waiting h (cancel_fr (snd s')) \<and> rc_count (snd s') = rc_count (snd s) + 1"
    using \<open>uring_laws E issued n \<and> st_fd (snd s) \<noteq> - 1\<close> \<open>fr_idle (cancel_fr (snd s))\<close>
    by (auto simp: fr_state_defs op_frame_defs)
qed (auto simp: fr_state_defs op_frame_defs cancel_process_def on_obj_def cancel_handle_def stream_cancel_await_resume_def)

interpretation shutdown_op: one_shot
  "\<lambda>s :: ('r, 'a) stream_state. uring_laws E issued n \<and> st_fd (snd s) \<noteq> - 1" "\<lambda>s. rc_count (snd s)"
  "\<lambda>s. fr_idle (shutdown_fr (snd s))" "\<lambda>h s. fr_waiting h (shutdown_fr (snd s))"
  "\<lambda>h c s. fr_completed h c (shutdown_fr (snd s))" "\<lambda>c s. fr_finished c (shutdown_fr (snd s))"
  "shutdown_await_suspend E" shutdown_process shutdown_handle shutdown_await_resume
  "\<lambda>_. True" "\<lambda>c. void_result_of_res (cqe_res c)" for E :: "'r platform" and issued n
proof
  fix s :: "('r, 'a) stream_state" and h
  assume "uring_laws E issued n \<and> st_fd (snd s) \<noteq> - 1" "fr_idle (shutdown_fr (snd s))"
  then obtain r' where "shutdown_await_suspend E h (fst s, snd s) = (Ret (), ((fst s)\<lparr>io_ring := r'\<rparr>,
        (snd s)\<lparr>rc_count := rc_count (snd s) + 1, shutdown_fr := op_frame_start h (shutdown_fr (snd s))\<rparr>))"
    using shutdown_start [of E issued n "snd s" h "fst s"] by auto
  then show "\<exists>s'. shutdown_await_suspend E h s = (Ret (), s') \<and> (uring_laws E issued n \<and> st_fd (snd s') \<noteq> - 1) \<and>
      fr_waiting h (shutdown_fr (snd s')) \<and> rc_count (snd s') = rc_count (snd s) + 1"
    using \<open>uring_laws E issued n \<and> st_fd (snd s) \<noteq> - 1\<close> \<open>fr_idle (shutdown_fr (snd s))\<close>
    by (auto simp: fr_state_defs op_frame_defs)
qed (auto simp: fr_state_defs op_frame_defs shutdown_process_def on_obj_def shutdown_handle_def shutdown_await_resume_def)

text \<open>\<^verbatim>\<open>close\<close> gives the descriptor back when it completes, so its contract carries the pool.\<close>

lemma close_process_apply:
  assumes "fd_inv fr" and "fd_wf fr st"
  shows "close_process c (fr, st) =
    (Ret (), (fr\<lparr>fds := fds fr \<union> ({st_fd st} - {- 1})\<rparr>,
       st\<lparr>close_fr := op_frame_process c (close_fr st), st_fd := - 1, st_connected := False\<rparr>))"
proof -
  have "release_fd (st_fd st) fr = (Ret (), fr\<lparr>fds := fds fr \<union> ({st_fd st} - {- 1})\<rparr>)"
    using assms release_fd_ok [of fr "st_fd st"] by (auto simp: fd_wf_def owned_fd_ok_def release_fd_def)
  then show ?thesis by (simp add: close_process_def op_simps)
qed

lemma fd_inv_close: "fd_inv fr \<Longrightarrow> fd_wf fr st \<Longrightarrow> fd_inv (fr\<lparr>fds := fds fr \<union> ({st_fd st} - {- 1})\<rparr>)"
  by (auto simp: fd_inv_def fd_wf_def owned_fd_ok_def)

interpretation close_op: one_shot
  "\<lambda>s :: ('r, 'a) stream_state. uring_laws E issued n \<and> fd_inv (fst s) \<and> fd_wf (fst s) (snd s)" "\<lambda>s. rc_count (snd s)"
  "\<lambda>s. fr_idle (close_fr (snd s))" "\<lambda>h s. fr_waiting h (close_fr (snd s))" "\<lambda>h c s. fr_completed h c (close_fr (snd s))"
  "\<lambda>c s. fr_finished c (close_fr (snd s))" "stream_close_await_suspend E" close_process close_handle
  stream_close_await_resume "\<lambda>_. True" "\<lambda>c. void_result_of_res (cqe_res c)" for E :: "'r platform" and issued n
proof
  fix s :: "('r, 'a) stream_state" and h
  assume ok: "uring_laws E issued n \<and> fd_inv (fst s) \<and> fd_wf (fst s) (snd s)" and idle: "fr_idle (close_fr (snd s))"
  obtain r' where "stream_close_await_suspend E h (fst s, snd s) = (Ret (), ((fst s)\<lparr>io_ring := r'\<rparr>,
        (snd s)\<lparr>rc_count := rc_count (snd s) + 1, close_fr := op_frame_start h (close_fr (snd s)), st_cancelled := True,
           timeout_fr := (timeout_fr (snd s))\<lparr>tf_cancelled := tf_cancelled (timeout_fr (snd s)) \<or> tf_initiated (timeout_fr (snd s))\<rparr>\<rparr>))"
    using close_start [of E issued n h "fst s" "snd s"] ok by auto
  then show "\<exists>s'. stream_close_await_suspend E h s = (Ret (), s') \<and>
      (uring_laws E issued n \<and> fd_inv (fst s') \<and> fd_wf (fst s') (snd s')) \<and>
      fr_waiting h (close_fr (snd s')) \<and> rc_count (snd s') = rc_count (snd s) + 1"
    using ok idle by (auto simp: fr_state_defs op_frame_defs fd_wf_def)
next
  fix s :: "('r, 'a) stream_state" and h c
  assume ok: "uring_laws E issued n \<and> fd_inv (fst s) \<and> fd_wf (fst s) (snd s)" and w: "fr_waiting h (close_fr (snd s))"
  show "\<exists>s'. close_process c s = (Ret (), s') \<and> (uring_laws E issued n \<and> fd_inv (fst s') \<and> fd_wf (fst s') (snd s')) \<and>
      fr_completed h c (close_fr (snd s')) \<and> rc_count (snd s') = rc_count (snd s)"
    using ok w close_process_apply [of "fst s" "snd s" c] fd_inv_close [of "fst s" "snd s"]
    by (auto simp: fr_state_defs op_frame_defs fd_wf_def)
qed (auto simp: fr_state_defs op_frame_defs close_handle_def stream_close_await_resume_def fd_wf_def)

subsection \<open>Receiving\<close>

text \<open>
  The readable bytes of a buffer value, and what the kernel does before it posts a completion with
  data: it writes the bytes into the buffer that occupies a slot. \<open>arrival\<close> is that write followed
  by the completion, with more completions to come.
\<close>

definition rb_data :: "recv_buf \<Rightarrow> u8 list" where
  "rb_data b = take (rb_size b) (rb_bytes b)"

definition kernel_fill :: "nat \<Rightarrow> u8 list \<Rightarrow> buf_ring \<Rightarrow> buf_ring" where
  "kernel_fill i data br =
     br\<lparr>br_bufs := (br_bufs br)[i := map_option (\<lambda>b. b\<lparr>rb_bytes := data @ drop (length data) (rb_bytes b)\<rparr>) (br_bufs br ! i)]\<rparr>"

definition data_cqe :: "nat \<Rightarrow> nat \<Rightarrow> cqe" where
  "data_cqe i n = \<lparr>cqe_res = int n, cqe_flags = push_bit 16 (of_nat i) OR 3, cqe_data = UD_null\<rparr>"

definition arrival :: "int \<Rightarrow> nat \<Rightarrow> u8 list \<Rightarrow> (('r, 'a) stream_state, unit) op" where
  "arrival now i data =
     thenM (with_obj (\<lambda>st. on_group (rf_p_buf_ring (recv_fr st)) (modifyM (kernel_fill i data))))
       (recv_process now (data_cqe i (length data)))"

fun arrivals :: "(int \<times> nat \<times> u8 list) list \<Rightarrow> (('r, 'a) stream_state, unit) op" where
  "arrivals [] = retM ()"
| "arrivals ((now, i, data) # as) = thenM (arrival now i data) (arrivals as)"

lemma data_cqe_flags:
  assumes "i < 2 ^ 16"
  shows "cqe_f_more (data_cqe i n)" "cqe_f_buffer (data_cqe i n)" "cqe_buffer_id (data_cqe i n) = i"
proof -
  have b: "bit ((push_bit 16 (of_nat i) :: u32) OR 3) k = (k < 32 \<and> (k = 0 \<or> k = 1 \<or> 16 \<le> k \<and> bit i (k - 16)))" for k
  proof -
    have "bit (3 :: u32) k = (k = 0 \<or> k = 1)" by (auto simp: bit_numeral_rec bit_1_iff split: nat.splits)
    then show ?thesis by (auto simp: bit_simps)
  qed
  have "bit ((push_bit 16 (of_nat i) OR 3 :: u32) AND 2) 1" "bit ((push_bit 16 (of_nat i) OR 3 :: u32) AND 1) 0"
    by (simp_all add: b bit_and_iff bit_numeral_rec)
  then have "(push_bit 16 (of_nat i) OR 3 :: u32) AND 2 \<noteq> 0" "(push_bit 16 (of_nat i) OR 3 :: u32) AND 1 \<noteq> 0"
    by (metis bit_0_eq bot_apply bot_bool_def)+
  then show "cqe_f_more (data_cqe i n)" "cqe_f_buffer (data_cqe i n)"
    by (simp_all add: cqe_f_more_def cqe_f_buffer_def data_cqe_def)
  have "bit i k \<Longrightarrow> k < 16" for k
    using assms by (metis bit_take_bit_iff take_bit_nat_eq_self)
  then have "drop_bit 16 (push_bit 16 (of_nat i) OR 3 :: u32) = of_nat i"
    by (intro bit_word_eqI) (auto simp: bit_drop_bit_eq b bit_simps)
  moreover have "unat (of_nat i :: u32) = i" using assms by (simp add: unat_of_nat)
  ultimately show "cqe_buffer_id (data_cqe i n) = i" by (simp add: cqe_buffer_id_def data_cqe_def)
qed

lemma take_buffer_exact:
  assumes "ring_inv br" and "i < length (br_bufs br)" and "br_bufs br ! i = Some b"
  shows "take_buffer i n br = (Ret (b\<lparr>rb_size := n\<rparr>),
    br\<lparr>br_bufs := (br_bufs br)[i := None], br_ids := (br_ids br)[br_pos br := i], br_pos := br_pos br + 1\<rparr>)"
proof -
  have "br_pos br < length (br_ids br)" using ring_stack_room [OF assms(1,2)] assms(3) by simp
  moreover have "0 < rb_capacity b" using assms nth_mem [OF assms(2)] by (auto simp: ring_inv_def)
  ultimately show ?thesis using assms(2,3) by (simp add: take_buffer_def)
qed

text \<open>A slot that can receive \<open>data\<close>: it holds a buffer with room for it.\<close>

definition slot_ready :: "buf_ring \<Rightarrow> nat \<Rightarrow> u8 list \<Rightarrow> bool" where
  "slot_ready br i data =
     (i < 2 ^ 16 \<and> i < length (br_bufs br) \<and> data \<noteq> [] \<and>
      (\<exists>b. br_bufs br ! i = Some b \<and> length data \<le> length (rb_bytes b)))"

lemma ring_inv_fill:
  assumes "ring_inv br" and "i < length (br_bufs br)"
  shows "ring_inv (kernel_fill i data br)"
proof -
  have "empty_slots (kernel_fill i data br) = empty_slots br"
    using assms(2) by (auto simp: empty_slots_def kernel_fill_def nth_list_update)
  moreover have "rb_capacity c > 0" if "Some c \<in> set (br_bufs (kernel_fill i data br))" for c
  proof -
    have "Some c \<in> set (br_bufs br) \<or> Some c = map_option (\<lambda>b. b\<lparr>rb_bytes := data @ drop (length data) (rb_bytes b)\<rparr>) (br_bufs br ! i)"
      using that set_update_subset_insert unfolding kernel_fill_def by fastforce
    then show ?thesis using assms nth_mem [OF assms(2)] by (cases "br_bufs br ! i") (auto simp: ring_inv_def)
  qed
  ultimately show ?thesis using assms(1) by (simp add: ring_inv_def kernel_fill_def free_ids_def)
qed

lemma arrival_ok:
  assumes inv: "stream_inv fr st" and init: "rf_initiated (recv_fr st)"
    and g: "rf_p_buf_ring (recv_fr st) = Some g" "buf_rings fr g = Some br" and slot: "slot_ready br i data"
  shows "\<exists>fr' st' br' b. arrival now i data (fr, st) = (Ret (), (fr', st')) \<and> stream_inv fr' st' \<and>
     io_ring fr' = io_ring fr \<and> st_cancelled st' = st_cancelled st \<and>
     rf_p_buf_ring (recv_fr st') = Some g \<and> buf_rings fr' g = Some br' \<and> rf_initiated (recv_fr st') \<and>
     rf_buffer_group_id (recv_fr st') = rf_buffer_group_id (recv_fr st) \<and>
     rf_buffers (recv_fr st') = rf_buffers (recv_fr st) @ [b] \<and> rb_data b = data \<and>
     rb_capacity b = cap_of (br_bufs br ! i) \<and> rf_h (recv_fr st') = rf_h (recv_fr st) \<and>
     (\<forall>j d. j \<noteq> i \<longrightarrow> slot_ready br j d \<longrightarrow> slot_ready br' j d \<and> br_bufs br' ! j = br_bufs br ! j)"
proof -
  obtain b where b: "br_bufs br ! i = Some b" "length data \<le> length (rb_bytes b)" and i: "i < length (br_bufs br)" "i < 2 ^ 16"
      and ne: "data \<noteq> []" using slot by (auto simp: slot_ready_def)
  have br: "ring_inv br" "0 < br_buf_size br" "br_bgid br = g" using inv g by (auto simp: stream_inv_def groups_inv_def)
  let ?br1 = "kernel_fill i data br" and ?fr1 = "fr\<lparr>buf_rings := (buf_rings fr)(g \<mapsto> kernel_fill i data br)\<rparr>"
  let ?b = "b\<lparr>rb_bytes := data @ drop (length data) (rb_bytes b), rb_size := length data\<rparr>"
  define br2 where "br2 = ?br1\<lparr>br_bufs := (br_bufs ?br1)[i := None], br_ids := (br_ids ?br1)[br_pos ?br1 := i], br_pos := br_pos ?br1 + 1\<rparr>"
  have r1: "ring_inv ?br1" by (rule ring_inv_fill [OF br(1) i(1)])
  have s1: "i < length (br_bufs ?br1)" "br_bufs ?br1 ! i = Some (b\<lparr>rb_bytes := data @ drop (length data) (rb_bytes b)\<rparr>)"
    using i b by (simp_all add: kernel_fill_def)
  have t: "take_buffer i (length data) ?br1 = (Ret ?b, br2)"
    using take_buffer_exact [OF r1 s1] by (simp add: br2_def)
  have r2: "ring_inv br2" "br_buf_size br2 = br_buf_size br" "br_bgid br2 = br_bgid br"
    using take_buffer_ok [OF r1 s1, of "length data"] t by (auto simp: kernel_fill_def)
  have fl: "cqe_f_more (data_cqe i (length data))" "cqe_f_buffer (data_cqe i (length data))"
      "cqe_buffer_id (data_cqe i (length data)) = i" "0 < cqe_res (data_cqe i (length data))"
      "nat (cqe_res (data_cqe i (length data))) = length data"
    using data_cqe_flags [OF i(2)] ne by (simp_all add: data_cqe_def)
  have fill: "with_obj (\<lambda>st. on_group (rf_p_buf_ring (recv_fr st)) (modifyM (kernel_fill i data))) (fr, st) = (Ret (), (?fr1, st))"
    using g by (simp add: on_group_def op_simps)
  let ?fr2 = "fr\<lparr>buf_rings := (buf_rings fr)(g \<mapsto> br2)\<rparr>"
  let ?rf = "(recv_fr st)\<lparr>rf_last_recv := now, rf_buffers := rf_buffers (recv_fr st) @ [?b], rf_initiated := True\<rparr>"
  let ?st2 = "st\<lparr>rc_count := rc_count st + 1, recv_fr := ?rf\<rparr>"
  have "recv_process now (data_cqe i (length data)) (?fr1, st) = (Ret (), (?fr2, ?st2))"
    using recv_process_pos [of "data_cqe i (length data)" st g ?fr1 ?br1 ?b br2 now] g fl t by simp
  then have run: "arrival now i data (fr, st) = (Ret (), (?fr2, ?st2))"
    by (simp add: arrival_def thenM_Ret [where m = "with_obj _", OF fill])
  have "groups_inv ?fr2" using inv br r2 by (intro groups_inv_upd) (simp_all add: stream_inv_def)
  moreover have "recv_frame_wf ?fr2 ?rf"
    using inv init by (intro recv_frame_wf_upd) (auto simp: stream_inv_def recv_frame_wf_def)
  ultimately have "stream_inv ?fr2 ?st2" using inv by (simp add: inv_defs)
  moreover have "slot_ready br2 j d \<and> br_bufs br2 ! j = br_bufs br ! j" if "j \<noteq> i" "slot_ready br j d" for j d
    using that by (auto simp: slot_ready_def br2_def kernel_fill_def)
  ultimately show ?thesis
    using run g b(1) by (intro exI [of _ ?fr2] exI [of _ ?st2] exI [of _ br2] exI [of _ ?b]) (simp add: rb_data_def cap_of_def)
qed

lemma arrivals_ok:
  assumes "stream_inv fr st" and "rf_initiated (recv_fr st)"
    and "rf_p_buf_ring (recv_fr st) = Some g" and "buf_rings fr g = Some br"
    and "distinct (map (\<lambda>(now, i, d). i) as)" and "\<forall>(now, i, d) \<in> set as. slot_ready br i d"
  shows "\<exists>fr' st' bs. arrivals as (fr, st) = (Ret (), (fr', st')) \<and> stream_inv fr' st' \<and>
     rf_initiated (recv_fr st') \<and> rf_buffers (recv_fr st') = rf_buffers (recv_fr st) @ bs \<and>
     st_cancelled st' = st_cancelled st \<and>
     map rb_data bs = map (\<lambda>(now, i, d). d) as"
  using assms
proof (induction as arbitrary: fr st br)
  case Nil
  then show ?case by (auto simp: op_simps)
next
  case (Cons a as)
  obtain now i d where a: "a = (now, i, d)" by (cases a)
  have "slot_ready br i d" using Cons.prems(6) a by simp
  then obtain fr1 st1 br1 b where s1: "arrival now i d (fr, st) = (Ret (), (fr1, st1))" "stream_inv fr1 st1"
      "rf_p_buf_ring (recv_fr st1) = Some g" "buf_rings fr1 g = Some br1" "rf_initiated (recv_fr st1)"
      "rf_buffers (recv_fr st1) = rf_buffers (recv_fr st) @ [b]" "rb_data b = d"
      "\<forall>j d. j \<noteq> i \<longrightarrow> slot_ready br j d \<longrightarrow> slot_ready br1 j d" "st_cancelled st1 = st_cancelled st"
    using arrival_ok [OF Cons.prems(1-4)] by blast
  have dist: "distinct (map (\<lambda>(now, i, d). i) as)" and fresh: "i \<notin> set (map (\<lambda>(now, i, d). i) as)"
    using Cons.prems(5) a by auto
  have ready: "\<forall>(now, i, d) \<in> set as. slot_ready br1 i d"
  proof (clarify)
    fix n j e assume m: "(n, j, e) \<in> set as"
    then have "j \<noteq> i" using fresh by force
    moreover have "slot_ready br j e" using Cons.prems(6) m by auto
    ultimately show "slot_ready br1 j e" using s1(8) by blast
  qed
  obtain fr' st' bs where "arrivals as (fr1, st1) = (Ret (), (fr', st'))" "stream_inv fr' st'" "rf_initiated (recv_fr st')"
      "rf_buffers (recv_fr st') = rf_buffers (recv_fr st1) @ bs" "map rb_data bs = map (\<lambda>(now, i, d). d) as"
      "st_cancelled st' = st_cancelled st1"
    using Cons.IH [OF s1(2,5,3,4) dist ready] by blast
  then show ?case
    using s1(1,6,7,9) a by (intro exI [of _ fr'] exI [of _ st'] exI [of _ "b # bs"]) (simp add: op_simps)
qed

text \<open>\<^verbatim>\<open>await_resume\<close> with buffers hands all of them to the caller and keeps the pending error.\<close>

lemma recv_resume_data:
  assumes inv: "stream_inv fr st" and bs: "rf_buffers (recv_fr st) \<noteq> []"
  shows "\<exists>fr'. recv_await_resume E junk (fr, st) =
     (Ret (Inr (rf_buffers (recv_fr st))), (fr', st\<lparr>recv_fr := (recv_fr st)\<lparr>rf_buffers := []\<rparr>\<rparr>))"
proof (cases "rb_size (hd (rf_buffers (recv_fr st))) = 0")
  case True
  then show ?thesis using bs by (simp add: recv_await_resume_def Let_def op_simps)
next
  case False
  obtain g :: u16 and br where g: "rf_buffer_group_id (recv_fr st) = uint g" "buf_rings fr g = Some br"
      "ring_inv br" "0 < br_buf_size br"
    using bs inv by (auto simp: stream_inv_def recv_frame_wf_def groups_inv_def)
  obtain r' br' where "replenish E junk (rf_buffers (recv_fr st)) (io_ring fr, br) = (Ret (), (r', br'))"
    using replenish_ok [OF g(3,4), of E junk "rf_buffers (recv_fr st)" "io_ring fr"] by blast
  then show ?thesis
    using False bs g by (simp add: recv_await_resume_def on_ring_group_def get_buffer_group_def Let_def op_simps)
qed

lemma recv_resume_error:
  assumes "rf_buffers (recv_fr st) = []" and "rf_ec (recv_fr st) = Some e"
  shows "recv_await_resume E junk (fr, st) = (Ret (Inl e), (fr, st\<lparr>recv_fr := (recv_fr st)\<lparr>rf_ec := None\<rparr>\<rparr>))"
  using assms by (simp add: recv_await_resume_def Let_def op_simps)

lemma recv_suspend_error:
  assumes "rf_buffers (recv_fr st) = []" and "rf_ec (recv_fr st) = Some e"
  shows "recv_await_suspend E now h (fr, st) = (Ret False, (fr, st\<lparr>recv_fr := (recv_fr st)\<lparr>rf_h := Some h\<rparr>\<rparr>))"
  using assms by (simp add: recv_await_suspend_def Let_def op_simps)

text \<open>\<^verbatim>\<open>co_await stream.async_recv()\<close> as far as it runs without suspending; \<open>None\<close> when it suspends.\<close>

definition co_await_recv ::
  "'r platform \<Rightarrow> int \<Rightarrow> (nat \<Rightarrow> u8) \<Rightarrow> handle \<Rightarrow> (('r, 'a) stream_state, ((recv_buf list) fiona_result) option) op" where
  "co_await_recv E now junk h =
     bindM recv_await_ready (\<lambda>ready.
       if ready then bindM (recv_await_resume E junk) (\<lambda>x. retM (Some x))
       else bindM (recv_await_suspend E now h) (\<lambda>suspended.
         if suspended then retM None else bindM (recv_await_resume E junk) (\<lambda>x. retM (Some x))))"

lemma co_await_recv_data:
  assumes "stream_inv fr st" and "rf_buffers (recv_fr st) \<noteq> []"
  shows "\<exists>fr'. co_await_recv E now junk h (fr, st) =
     (Ret (Some (Inr (rf_buffers (recv_fr st)))), (fr', st\<lparr>recv_fr := (recv_fr st)\<lparr>rf_buffers := []\<rparr>\<rparr>))"
  using recv_resume_data [OF assms, of E junk] assms(2)
  by (auto simp: co_await_recv_def recv_await_ready_def bindM_def retM_def)

lemma co_await_recv_error:
  assumes "rf_buffers (recv_fr st) = []" and "rf_ec (recv_fr st) = Some e"
  shows "co_await_recv E now junk h (fr, st) =
     (Ret (Some (Inl e)), (fr, st\<lparr>recv_fr := (recv_fr st)\<lparr>rf_h := Some h, rf_ec := None\<rparr>\<rparr>))"
  using recv_suspend_error [OF assms, of E now h fr] recv_resume_error [of "st\<lparr>recv_fr := (recv_fr st)\<lparr>rf_h := Some h\<rparr>\<rparr>" e E junk fr] assms
  by (simp add: co_await_recv_def recv_await_ready_def bindM_def retM_def)

subsection \<open>Properties\<close>

text \<open>
  C10: received data arrives complete and in order, and before an error: after any number of
  completions with data and one that ends the operation with an error, the next \<^verbatim>\<open>co_await\<close> yields,
  without suspending, exactly the bytes of the completions in their order; the one after it yields
  the error, \<^verbatim>\<open>ETIMEDOUT\<close> when the operation was cancelled by the timer and not by the program.
\<close>

theorem recv_data_then_error:
  assumes "stream_inv fr st" and "rf_initiated (recv_fr st)" and "rf_buffers (recv_fr st) = []"
    and "rf_p_buf_ring (recv_fr st) = Some g" and "buf_rings fr g = Some br"
    and "distinct (map (\<lambda>(now, i, d). i) as)" and "\<forall>(now, i, d) \<in> set as. slot_ready br i d" and "as \<noteq> []"
    and "cqe_res c < 0" and "\<not> cqe_f_more c"
  shows "\<exists>bs s'.
     thenM (arrivals as) (thenM (recv_process now c) (bindM (co_await_recv E now1 junk h) (\<lambda>x.
       bindM (co_await_recv E now1 junk h) (\<lambda>y. retM (x, y))))) (fr, st)
       = (Ret (Some (Inr bs),
               Some (Inl (if cqe_res c = - ECANCELED \<and> \<not> st_cancelled st then ETIMEDOUT else - cqe_res c))), s') \<and>
     map rb_data bs = map (\<lambda>(now, i, d). d) as"
proof -
  obtain fr1 st1 bs where a: "arrivals as (fr, st) = (Ret (), (fr1, st1))" "stream_inv fr1 st1"
      "rf_initiated (recv_fr st1)" "rf_buffers (recv_fr st1) = bs" "map rb_data bs = map (\<lambda>(now, i, d). d) as"
      "st_cancelled st1 = st_cancelled st"
    using arrivals_ok [OF assms(1,2,4-7)] assms(3) by auto
  have ec: "rf_ec (recv_fr st1) = None" using a(2,3) by (auto simp: stream_inv_def recv_frame_wf_def)
  define e where "e = (if cqe_res c = - ECANCELED \<and> \<not> st_cancelled st then ETIMEDOUT else - cqe_res c)"
  let ?st2 = "st1\<lparr>recv_fr := (recv_fr st1)\<lparr>rf_ec := Some e, rf_initiated := False\<rparr>\<rparr>"
  have p: "recv_process now c (fr1, st1) = (Ret (), (fr1, ?st2))"
    unfolding e_def a(6) [symmetric] by (rule recv_process_neg [OF assms(9,10) ec])
  have "bs \<noteq> []" using a(5) assms(8) by (metis map_is_Nil_conv)
  have i2: "stream_inv fr1 ?st2" using a(2) by (auto simp: inv_defs recv_frame_wf_def)
  let ?st3 = "?st2\<lparr>recv_fr := (recv_fr ?st2)\<lparr>rf_buffers := []\<rparr>\<rparr>"
  obtain fr3 where r: "co_await_recv E now1 junk h (fr1, ?st2) = (Ret (Some (Inr bs)), (fr3, ?st3))"
    using co_await_recv_data [OF i2, of E now1 junk h] \<open>bs \<noteq> []\<close> a(4) by auto
  have w: "co_await_recv E now1 junk h (fr3, ?st3) =
      (Ret (Some (Inl e)), (fr3, ?st3\<lparr>recv_fr := (recv_fr ?st3)\<lparr>rf_h := Some h, rf_ec := None\<rparr>\<rparr>))"
    by (rule co_await_recv_error) simp_all
  show ?thesis
    using a(5) unfolding e_def [symmetric] thenM_def bindM_Ret [where m = "arrivals as", OF a(1)]
      bindM_Ret [where m = "recv_process now c", OF p] bindM_Ret [where m = "co_await_recv E now1 junk h", OF r]
      bindM_Ret [where m = "co_await_recv E now1 junk h", OF w] retM_def
    by blast
qed

text \<open>A stream that is receiving on the example ring, which holds buffers in its slots 0 and 1.\<close>

definition ex_full_ring :: buf_ring where
  "ex_full_ring = \<lparr>br_bufs = [Some (rb_new (\<lambda>_. 0) 4), Some (rb_new (\<lambda>_. 0) 4)], br_ids = [0, 0], br_pos = 0,
     br_buf_size = 4, br_bgid = 7\<rparr>"

definition ex_rframe :: "list_ring io_context_frame" where
  "ex_rframe = ex_frame\<lparr>buf_rings := [7 \<mapsto> ex_full_ring]\<rparr>"

definition ex_receiver :: stream_impl where
  "ex_receiver = (stream_fields 640 0)\<lparr>rc_count := 2,
     recv_fr := (recv_frame_new 0)\<lparr>rf_buffer_group_id := 7, rf_p_buf_ring := Some 7, rf_initiated := True\<rparr>\<rparr>"

lemma ex_receiver_inv: "stream_inv ex_rframe ex_receiver"
proof -
  have "ring_inv ex_full_ring"
    by (auto simp: ring_inv_def ex_full_ring_def free_ids_def empty_slots_def rb_new_def less_Suc_eq)
  then have "groups_inv ex_rframe" by (auto simp: groups_inv_def ex_rframe_def ex_full_ring_def ex_frame_def)
  moreover have "\<exists>g :: u16. (7 :: int) = uint g \<and> buf_rings ex_rframe g \<noteq> None"
    by (intro exI [of _ 7]) (simp add: ex_rframe_def)
  moreover have "\<exists>g :: u16. Some 7 = Some g \<and> (7 :: int) = uint g" by (intro exI [of _ 7]) simp
  moreover have "fd_inv ex_rframe" using ex_frame_inv(1) by (simp add: ex_rframe_def)
  ultimately show ?thesis
    by (simp add: inv_defs recv_frame_wf_def ex_receiver_def stream_fields_def recv_frame_new_def op_frame_new_def
        op_frame.extend_def)
qed

theorem recv_data_then_error_witness:
  "\<exists>bs s'. thenM (arrivals [(10, 1, [104, 105]), (20, 0, [33])])
       (thenM (recv_process 30 \<lparr>cqe_res = - ECANCELED, cqe_flags = 0, cqe_data = UD 640 F_recv\<rparr>)
         (bindM (co_await_recv (list_platform 4) 40 (\<lambda>_. 0) 4096) (\<lambda>x.
            bindM (co_await_recv (list_platform 4) 40 (\<lambda>_. 0) 4096) (\<lambda>y. retM (x, y))))) (ex_rframe, ex_receiver)
     = (Ret (Some (Inr bs), Some (Inl ETIMEDOUT)), s') \<and> map rb_data bs = [[104, 105], [33]]"
proof -
  let ?c = "\<lparr>cqe_res = - ECANCELED, cqe_flags = 0, cqe_data = UD 640 F_recv\<rparr>"
  let ?as = "[(10, 1, [104, 105]), (20, 0, [33])]"
  have h: "rf_initiated (recv_fr ex_receiver)" "rf_buffers (recv_fr ex_receiver) = []"
      "rf_p_buf_ring (recv_fr ex_receiver) = Some 7" "buf_rings ex_rframe 7 = Some ex_full_ring"
      "\<not> st_cancelled ex_receiver"
    by (simp_all add: ex_receiver_def recv_frame_new_def stream_fields_def ex_rframe_def)
  have ready: "\<forall>(now, i, d) \<in> set ?as. slot_ready ex_full_ring i d"
    by (simp add: slot_ready_def ex_full_ring_def rb_new_def)
  show ?thesis
    using recv_data_then_error [OF ex_receiver_inv h(1-4), of ?as ?c 30 "list_platform 4" 40 "\<lambda>_. 0" 4096] ready h(5)
    by (simp add: cqe_f_more_def)
qed

text \<open>
  C27: the idle timeout: a tick of the stream's timer cancels the operations on the descriptor
  exactly when a receive or a send has been in flight without progress for the timeout set by
  \<^verbatim>\<open>stream::timeout\<close>; otherwise it issues nothing. In both cases the timer stays armed and no
  coroutine is resumed.
\<close>

theorem idle_timeout_cancels:
  assumes "uring_laws E issued n" and "cqe_res c = - ETIME" and "cqe_f_more c" and "0 \<le> st_fd st"
    and "tf_initiated (timeout_fr st)"
  shows "\<exists>r' st'. deliver E now F_timeout c (fr, st) = (Ret None, (fr\<lparr>io_ring := r'\<rparr>, st')) \<and>
     tf_initiated (timeout_fr st') \<and>
     issued r' = issued (io_ring fr) @
       (if rf_initiated (recv_fr st) \<and> rf_last_recv (recv_fr st) + max_diff (st_ts st) \<le> now \<or>
           op_frame_active (send_fr st) \<and> last_send (send_fr st) + max_diff (st_ts st) \<le> now
        then [cancel_fd_sqe (st_fd st) [] (UD (rc_this st) F_timeout_cancel)] else [])"
proof -
  have sc: "should_cancel now st =
      (rf_initiated (recv_fr st) \<and> rf_last_recv (recv_fr st) + max_diff (st_ts st) \<le> now \<or>
       op_frame_active (send_fr st) \<and> last_send (send_fr st) + max_diff (st_ts st) \<le> now)"
    by (auto simp: should_cancel_def op_frame_active_def)
  show ?thesis
  proof (cases "should_cancel now st")
    case False
    then have "deliver E now F_timeout c (fr, st) = (Ret None, (fr\<lparr>io_ring := io_ring fr\<rparr>, st\<lparr>rc_count := rc_count st + 1\<rparr>))"
      using assms(2,3) by (simp add: deliver_def stream_process_def timeout_process_def stream_handle_def op_simps)
    then show ?thesis using False assms(5) unfolding sc [symmetric] by (intro exI conjI) (assumption, simp_all)
  next
    case True
    obtain r' where "timeout_cancel_start E (fr, st) = (Ret (), (fr\<lparr>io_ring := r'\<rparr>, st\<lparr>rc_count := rc_count st + 1,
         timeout_cancel_fr := (timeout_cancel_fr st)\<lparr>tcf_initiated := True\<rparr>\<rparr>))"
        "issued r' = issued (io_ring fr) @ [cancel_fd_sqe (st_fd st) [] (UD (rc_this st) F_timeout_cancel)]"
      by (rule timeout_cancel_start_ok [OF assms(1,4)])
    then show ?thesis
      using True assms(2,3,5) unfolding sc [symmetric]
      by (intro exI [of _ r'] exI [of _ "st\<lparr>timeout_cancel_fr := (timeout_cancel_fr st)\<lparr>tcf_initiated := True\<rparr>,
          rc_count := 2 + rc_count st\<rparr>"]) (simp add: deliver_def stream_process_def timeout_process_def stream_handle_def op_simps)
  qed
qed

theorem idle_timeout_cancels_witness:
  "\<exists>r' st'. deliver (list_platform 4) 3000000000 F_timeout \<lparr>cqe_res = - ETIME, cqe_flags = 2, cqe_data = UD 640 F_timeout\<rparr>
       (ex_rframe, ex_receiver\<lparr>st_fd := 5, timeout_fr := \<lparr>tf_initiated = True, tf_cancelled = False\<rparr>\<rparr>) =
     (Ret None, (ex_rframe\<lparr>io_ring := r'\<rparr>, st')) \<and>
     lr_issued r' = [cancel_fd_sqe 5 [] (UD 640 F_timeout_cancel)]"
  using idle_timeout_cancels [OF ex_laws, of "\<lparr>cqe_res = - ETIME, cqe_flags = 2, cqe_data = UD 640 F_timeout\<rparr>"
      "ex_receiver\<lparr>st_fd := 5, timeout_fr := \<lparr>tf_initiated = True, tf_cancelled = False\<rparr>\<rparr>" 3000000000 ex_rframe]
  by (auto simp: cqe_f_more_def max_diff_def ex_receiver_def stream_fields_def recv_frame_new_def ex_rframe_def
      ex_frame_def empty_ring_def)

text \<open>
  C33: a send is exclusive and returns to its own coroutine: a second send while one is in flight
  throws \<^verbatim>\<open>EBUSY\<close> and changes nothing; the completion resumes the coroutine of the first, which
  receives the number of bytes or the error of that completion, and the stream can send again.
\<close>

theorem send_exclusive:
  assumes "uring_laws E issued n" and "fr_idle (send_fr (snd s))"
  shows "\<exists>s1 s'. send_await_suspend E now buf h s = (Ret (), s1) \<and>
     send_await_suspend E now buf k s1 = (Throw EBUSY, s1) \<and>
     finish_op send_process send_handle send_await_resume c s1 = (Ret (Some h, result_of_res (cqe_res c)), s') \<and>
     fr_idle (send_fr (snd s')) \<and> rc_count (snd s') = rc_count (snd s) + 1"
  using assms by (intro send_op.second_start_harmless) simp_all

theorem send_exclusive_witness:
  "\<exists>s1 s'. send_await_suspend (list_platform 4) 0 [104] 4096 (ex_frame, ex_stream0) = (Ret (), s1) \<and>
     send_await_suspend (list_platform 4) 0 [104] 8192 s1 = (Throw EBUSY, s1) \<and>
     finish_op send_process send_handle send_await_resume \<lparr>cqe_res = 1, cqe_flags = 0, cqe_data = UD 640 F_send\<rparr> s1 =
       (Ret (Some 4096, Inr 1), s')"
proof -
  have "fr_idle (send_fr (snd (ex_frame, ex_stream0)))" by (simp add: fr_idle_def ex_stream_defs)
  then show ?thesis
    using send_exclusive [OF ex_laws, of "(ex_frame, ex_stream0)" 0 "[104]" 4096 8192
        "\<lparr>cqe_res = 1, cqe_flags = 0, cqe_data = UD 640 F_send\<rparr>"]
    by (auto simp: result_of_res_def)
qed

text \<open>
  C28: closing, cancelling and shutting down: with the frame idle and a valid descriptor, each of the
  three operations, run to its end, resumes the coroutine that awaits it with the result of its
  completion and leaves the frame ready for the next one; closing also gives the descriptor back
  to the pool and leaves the stream without one, disconnected.
\<close>

theorem control_operations:
  assumes laws: "uring_laws E issued n" and pool: "fd_inv fr" "owned_fd_ok fr (st_fd st)"
    and idle: "fr_idle (cancel_fr st)" "fr_idle (shutdown_fr st)" "fr_idle (close_fr st)"
  shows "(\<exists>s'. run_op (stream_cancel_await_suspend E) cancel_process cancel_handle stream_cancel_await_resume h c (fr, st) =
            (Ret (Some h, result_of_res (cqe_res c)), s') \<and> fr_idle (cancel_fr (snd s'))) \<and>
         (\<exists>s'. run_op (shutdown_await_suspend E) shutdown_process shutdown_handle shutdown_await_resume h c (fr, st) =
            (Ret (Some h, void_result_of_res (cqe_res c)), s') \<and> fr_idle (shutdown_fr (snd s'))) \<and>
         (\<exists>s'. run_op (stream_close_await_suspend E) close_process close_handle stream_close_await_resume h c (fr, st) =
            (Ret (Some h, void_result_of_res (cqe_res c)), s') \<and> fr_idle (close_fr (snd s')) \<and>
            st_fd (snd s') = - 1 \<and> \<not> st_connected (snd s') \<and> fds (fst s') = insert (st_fd st) (fds fr))"
proof (intro conjI)
  have fd: "st_fd st \<noteq> - 1" "0 \<le> st_fd st" using pool(2) by (auto simp: owned_fd_ok_def)
  show "\<exists>s'. run_op (stream_cancel_await_suspend E) cancel_process cancel_handle stream_cancel_await_resume h c (fr, st) =
            (Ret (Some h, result_of_res (cqe_res c)), s') \<and> fr_idle (cancel_fr (snd s'))"
    using cancel_op.run_op_ok [of E issued n "(fr, st)" h c] laws fd idle(1) by auto
  show "\<exists>s'. run_op (shutdown_await_suspend E) shutdown_process shutdown_handle shutdown_await_resume h c (fr, st) =
            (Ret (Some h, void_result_of_res (cqe_res c)), s') \<and> fr_idle (shutdown_fr (snd s'))"
    using shutdown_op.run_op_ok [of E issued n "(fr, st)" h c] laws fd idle(2) by auto
  let ?st = "st\<lparr>rc_count := rc_count st + 1, close_fr := op_frame_start h (close_fr st), st_cancelled := True,
           timeout_fr := (timeout_fr st)\<lparr>tf_cancelled := tf_cancelled (timeout_fr st) \<or> tf_initiated (timeout_fr st)\<rparr>\<rparr>"
  obtain r' where r': "stream_close_await_suspend E h (fr, st) = (Ret (), (fr\<lparr>io_ring := r'\<rparr>, ?st))"
    by (rule close_start [OF laws])
  have "close_process c (fr\<lparr>io_ring := r'\<rparr>, ?st) =
      (Ret (), (fr\<lparr>io_ring := r', fds := fds fr \<union> ({st_fd st} - {- 1})\<rparr>,
        ?st\<lparr>close_fr := op_frame_process c (close_fr ?st), st_fd := - 1, st_connected := False\<rparr>))"
    using close_process_apply [of "fr\<lparr>io_ring := r'\<rparr>" ?st c] pool by (simp add: fd_wf_def)
  then show "\<exists>s'. run_op (stream_close_await_suspend E) close_process close_handle stream_close_await_resume h c (fr, st) =
            (Ret (Some h, void_result_of_res (cqe_res c)), s') \<and> fr_idle (close_fr (snd s')) \<and>
            st_fd (snd s') = - 1 \<and> \<not> st_connected (snd s') \<and> fds (fst s') = insert (st_fd st) (fds fr)"
    using r' fd by (simp add: run_op_def finish_op_def close_handle_def stream_close_await_resume_def op_frame_defs
        fr_idle_def op_simps)
qed

theorem control_operations_witness:
  "\<exists>s'. run_op (stream_close_await_suspend (list_platform 4)) close_process close_handle stream_close_await_resume 4096
       \<lparr>cqe_res = 0, cqe_flags = 0, cqe_data = UD 640 F_close\<rparr>
       (ex_frame\<lparr>fds := {0}\<rparr>, ex_stream0\<lparr>st_fd := 1\<rparr>) = (Ret (Some 4096, Inr ()), s') \<and> fds (fst s') = {0, 1}"
proof -
  have "fd_inv (ex_frame\<lparr>fds := {0}\<rparr>)" "owned_fd_ok (ex_frame\<lparr>fds := {0}\<rparr>) (st_fd (ex_stream0\<lparr>st_fd := 1\<rparr>))"
    by (simp_all add: fd_inv_def owned_fd_ok_def ex_frame_def default_params_def)
  moreover have "fr_idle (cancel_fr (ex_stream0\<lparr>st_fd := 1\<rparr>))" "fr_idle (shutdown_fr (ex_stream0\<lparr>st_fd := 1\<rparr>))"
      "fr_idle (close_fr (ex_stream0\<lparr>st_fd := 1\<rparr>))"
    by (simp_all add: fr_idle_def ex_stream_defs)
  ultimately show ?thesis
    using control_operations [OF ex_laws, of "ex_frame\<lparr>fds := {0}\<rparr>" "ex_stream0\<lparr>st_fd := 1\<rparr>" 4096
        "\<lparr>cqe_res = 0, cqe_flags = 0, cqe_data = UD 640 F_close\<rparr>"]
    by (auto simp: void_result_of_res_def insert_commute)
qed

end
