(* ===== verification/Pipe_Frame.thy ===== *)
theory Pipe_Frame
  imports Frames Task
begin

section \<open>The wake-up pipe of the run loop (\<open>io_context.cpp\<close>)\<close>

text \<open>
  \<^verbatim>\<open>run()\<close> keeps a read of the pipe in flight; other threads write tagged addresses into it
  (\<^verbatim>\<open>waker::wake\<close>, \<^verbatim>\<open>executor::post\<close>). The frame of that read lives beside the scheduler coroutines:
  a message of the first kind makes its coroutine the handle of the completion, one of the second
  kind becomes a new scheduler coroutine. The kernel writes the eight bytes of a message into \<^verbatim>\<open>buffer_\<close>.
\<close>

record 'v pipe_frame = ref_count +
  pf_h :: "handle option"
  pf_buffer :: u64
  pf_fd :: int
  pf_coros :: "'v coros"

type_synonym ('r, 'v) pipe_state = "'r io_context_frame \<times> 'v pipe_frame"

definition pipe_frame_new :: "addr \<Rightarrow> int \<Rightarrow> 'v coros \<Rightarrow> 'v pipe_frame" where
  "pipe_frame_new this fd c = \<lparr>rc_this = this, rc_count = 0, pf_h = None, pf_buffer = 0, pf_fd = fd, pf_coros = c\<rparr>"

definition on_runtime :: "(('r, 'v) runtime, 'a) op \<Rightarrow> (('r, 'v) pipe_state, 'a) op" where
  "on_runtime m s =
     (case m (fst s, pf_coros (snd s)) of (x, (fr, c)) \<Rightarrow> (x, (fr, (snd s)\<lparr>pf_coros := c\<rparr>)))"

lemma on_runtime_apply [op_simps]:
  "m (fr, pf_coros p) = (x, (fr', c)) \<Longrightarrow> on_runtime m (fr, p) = (x, (fr', p\<lparr>pf_coros := c\<rparr>))"
  by (simp add: on_runtime_def)

text \<open>The read names its buffer by the frame that contains it.\<close>

definition pipe_read_sqe :: "addr \<Rightarrow> int \<Rightarrow> sqe" where
  "pipe_read_sqe this fd = \<lparr>sqe_prep = Prep_read fd this 8, sqe_flags = [], sqe_data = UD this F_pipe\<rparr>"

definition pipe_schedule_recv :: "'r platform \<Rightarrow> (('r, 'v) pipe_state, unit) op" where
  "pipe_schedule_recv E =
     with_obj (\<lambda>p. thenM (on_ring (issue_one E (pipe_read_sqe (rc_this p) (pf_fd p)))) intrusive_ptr_add_ref)"

text \<open>
  A posted task becomes a scheduler coroutine whose frame is allocated at \<open>a\<close>; the local
  \<^verbatim>\<open>internal_task\<close> is destroyed at the end of the block.
\<close>

definition pipe_post :: "addr \<Rightarrow> (('r, 'v) pipe_state, unit) op" where
  "pipe_post a =
     on_runtime (thenM (scheduler a) (thenM (add_task a) (thenM (push_run_queue a) (internal_task_dtor (Some a)))))"

definition pipe_process :: "'r platform \<Rightarrow> addr \<Rightarrow> cqe \<Rightarrow> (('r, 'v) pipe_state, unit) op" where
  "pipe_process E a c =
     (if cqe_res c \<noteq> 8
      then thenM (assertM (cqe_res c < 0)) (throw_errno_as_error_code (- cqe_res c))
      else thenM
        (with_obj (\<lambda>p. case decode_pipe (pf_buffer p) of
            Wake_handle h \<Rightarrow> on_obj (\<lambda>p. p\<lparr>pf_h := Some h\<rparr>)
          | Post_task t \<Rightarrow> pipe_post a
          | No_message \<Rightarrow> retM ()))
        (pipe_schedule_recv E))"

definition pipe_handle :: "(('r, 'v) pipe_state, handle option) op" where
  "pipe_handle s = (Ret (pf_h (snd s)), (fst s, (snd s)\<lparr>pf_h := None\<rparr>))"

text \<open>\<^verbatim>\<open>pipe_awaitable\<close>: the constructor takes one reference and starts the read; the destructor cancels it.\<close>

definition pipe_awaitable_ctor :: "'r platform \<Rightarrow> (('r, 'v) pipe_state, unit) op" where
  "pipe_awaitable_ctor E = thenM intrusive_ptr_add_ref (pipe_schedule_recv E)"

definition pipe_cancel :: "'r platform \<Rightarrow> (('r, 'v) pipe_state, unit) op" where
  "pipe_cancel E =
     with_obj (\<lambda>p. thenM (on_ring (issue_one E \<lparr>sqe_prep = Prep_cancel (UD (rc_this p) F_pipe), sqe_flags = [], sqe_data = UD_null\<rparr>))
       (on_ring (submit_ring E)))"

definition pipe_awaitable_dtor :: "'r platform \<Rightarrow> (('r, 'v) pipe_state, bool) op" where
  "pipe_awaitable_dtor E = thenM (pipe_cancel E) (intrusive_ptr_release (retM ()))"

text \<open>What the kernel does before it completes the read: it moves the first message of the pipe into the buffer.\<close>

definition pipe_arrival :: "u64 \<Rightarrow> (('r, 'v) pipe_state, unit) op" where
  "pipe_arrival d = on_obj (\<lambda>p. p\<lparr>pf_buffer := d\<rparr>)"

definition pipe_cqe :: "addr \<Rightarrow> cqe" where
  "pipe_cqe this = \<lparr>cqe_res = 8, cqe_flags = 0, cqe_data = UD this F_pipe\<rparr>"

definition pipe_deliver :: "'r platform \<Rightarrow> addr \<Rightarrow> u64 \<Rightarrow> (('r, 'v) pipe_state, handle option) op" where
  "pipe_deliver E a d =
     thenM (pipe_arrival d) (with_obj (\<lambda>p. thenM (pipe_process E a (pipe_cqe (rc_this p))) pipe_handle))"

subsection \<open>Exact effects\<close>

lemma pipe_schedule_recv_ok:
  assumes "uring_laws E issued n"
  obtains r' where "pipe_schedule_recv E (fr, p) = (Ret (), (fr\<lparr>io_ring := r'\<rparr>, p\<lparr>rc_count := rc_count p + 1\<rparr>))"
    and "issued r' = issued (io_ring fr) @ [pipe_read_sqe (rc_this p) (pf_fd p)]"
  by (rule on_issue_one [OF assms, of "pipe_read_sqe (rc_this p) (pf_fd p)" fr p])
    (use that in \<open>simp add: pipe_schedule_recv_def op_simps\<close>)

lemma pipe_post_ok:
  "pipe_post a (fr, p) = (Ret (), (fr\<lparr>tasks := insert a (tasks fr), run_queue := run_queue fr @ [a]\<rparr>,
     p\<lparr>pf_coros := (pf_coros p)(a \<mapsto> \<lparr>ip_variant = V_uninitialized, ip_continuation = None, ip_count = 1\<rparr>)\<rparr>))"
  by (simp add: pipe_post_def scheduler_def internal_task_ctor_def add_task_def push_run_queue_def op_simps)

subsection \<open>Properties\<close>

lemma pipe_deliver_ok:
  assumes "uring_laws E issued n"
  shows "\<exists>r'. issued r' = issued (io_ring fr) @ [pipe_read_sqe (rc_this p) (pf_fd p)] \<and>
     pipe_deliver E a d (fr, p) = (case decode_pipe d of
        Wake_handle h \<Rightarrow> (Ret (Some h), (fr\<lparr>io_ring := r'\<rparr>, p\<lparr>pf_buffer := d, pf_h := None, rc_count := rc_count p + 1\<rparr>))
      | Post_task t \<Rightarrow> (Ret (pf_h p), (fr\<lparr>tasks := insert a (tasks fr), run_queue := run_queue fr @ [a], io_ring := r'\<rparr>,
          p\<lparr>pf_buffer := d, pf_coros := (pf_coros p)(a \<mapsto> \<lparr>ip_variant = V_uninitialized, ip_continuation = None, ip_count = 1\<rparr>),
            pf_h := None, rc_count := rc_count p + 1\<rparr>))
      | No_message \<Rightarrow> (Ret (pf_h p), (fr\<lparr>io_ring := r'\<rparr>, p\<lparr>pf_buffer := d, pf_h := None, rc_count := rc_count p + 1\<rparr>)))"
proof (cases "decode_pipe d")
  case (Wake_handle h)
  obtain r' where "pipe_schedule_recv E (fr, p\<lparr>pf_buffer := d, pf_h := Some h\<rparr>) =
      (Ret (), (fr\<lparr>io_ring := r'\<rparr>, p\<lparr>pf_buffer := d, pf_h := Some h, rc_count := rc_count p + 1\<rparr>))"
      "issued r' = issued (io_ring fr) @ [pipe_read_sqe (rc_this p) (pf_fd p)]"
    using pipe_schedule_recv_ok [OF assms, of fr "p\<lparr>pf_buffer := d, pf_h := Some h\<rparr>"] by auto
  with Wake_handle show ?thesis
    by (intro exI [of _ r']) (simp add: pipe_deliver_def pipe_arrival_def pipe_process_def pipe_cqe_def pipe_handle_def op_simps)
next
  case (Post_task t)
  let ?fr = "fr\<lparr>tasks := insert a (tasks fr), run_queue := run_queue fr @ [a]\<rparr>"
  let ?p = "p\<lparr>pf_buffer := d, pf_coros := (pf_coros p)(a \<mapsto> \<lparr>ip_variant = V_uninitialized, ip_continuation = None, ip_count = 1\<rparr>)\<rparr>"
  obtain r' where "pipe_schedule_recv E (?fr, ?p) = (Ret (), (?fr\<lparr>io_ring := r'\<rparr>, ?p\<lparr>rc_count := rc_count p + 1\<rparr>))"
      "issued r' = issued (io_ring fr) @ [pipe_read_sqe (rc_this p) (pf_fd p)]"
    using pipe_schedule_recv_ok [OF assms, of ?fr ?p] by auto
  with Post_task show ?thesis
    by (intro exI [of _ r'])
      (simp add: pipe_deliver_def pipe_arrival_def pipe_process_def pipe_cqe_def pipe_handle_def pipe_post_ok op_simps)
next
  case No_message
  obtain r' where "pipe_schedule_recv E (fr, p\<lparr>pf_buffer := d\<rparr>) =
      (Ret (), (fr\<lparr>io_ring := r'\<rparr>, p\<lparr>pf_buffer := d, rc_count := rc_count p + 1\<rparr>))"
      "issued r' = issued (io_ring fr) @ [pipe_read_sqe (rc_this p) (pf_fd p)]"
    using pipe_schedule_recv_ok [OF assms, of fr "p\<lparr>pf_buffer := d\<rparr>"] by auto
  with No_message show ?thesis
    by (intro exI [of _ r']) (simp add: pipe_deliver_def pipe_arrival_def pipe_process_def pipe_cqe_def pipe_handle_def op_simps)
qed



end
