(* ===== verification/Object_Heap.thy ===== *)
theory Object_Heap
  imports Object_Life
begin

section \<open>The heap of objects over one runtime\<close>

text \<open>
  Objects of a class that meets \<open>counted\<close>, at their addresses, over one shared frame; the pointers
  that the program holds (\<open>rt_ext\<close>) and the descriptors that it was handed (\<open>rt_loose\<close>). Actions of
  the program and completions of the kernel step one object at a time; \<open>rt_inv\<close> is the invariant of
  all of them together, and every step keeps it.
\<close>

subsection \<open>State and steps\<close>

record 'o runtime =
  rt_heap :: "addr \<rightharpoonup> 'o"
  rt_ext :: "addr \<Rightarrow> nat"
  rt_loose :: "int set"

type_synonym ('r, 'o) rt_state = "'r io_context_frame \<times> 'o runtime"

text \<open>An operation on the object at \<open>p\<close>; the program gains \<open>k\<close> pointers to it and the descriptors \<open>out\<close>.\<close>

definition rt_exec ::
  "addr \<Rightarrow> nat \<Rightarrow> ('o \<Rightarrow> int set) \<Rightarrow> ('r io_context_frame \<times> 'o, 'a) op \<Rightarrow> (('r, 'o) rt_state, 'a) op" where
  "rt_exec p k out m s =
     (case rt_heap (snd s) p of
        None \<Rightarrow> (Bad_access, s)
      | Some ob \<Rightarrow> (case m (fst s, ob) of (x, (fr', ob')) \<Rightarrow>
          (x, (fr', \<lparr>rt_heap = (rt_heap (snd s))(p \<mapsto> ob'), rt_ext = (rt_ext (snd s))(p := rt_ext (snd s) p + k),
                     rt_loose = rt_loose (snd s) \<union> out ob\<rparr>))))"

text \<open>Giving up a pointer to the object at \<open>p\<close>, which may delete it.\<close>

definition rt_free ::
  "addr \<Rightarrow> ('o \<Rightarrow> int set) \<Rightarrow> ('r io_context_frame \<times> 'o, bool) op \<Rightarrow> (('r, 'o) rt_state, unit) op" where
  "rt_free p left m s =
     (case rt_heap (snd s) p of
        None \<Rightarrow> (Bad_access, s)
      | Some ob \<Rightarrow> (case m (fst s, ob) of
          (Ret True, (fr', ob')) \<Rightarrow>
            (Ret (), (fr', \<lparr>rt_heap = (rt_heap (snd s))(p := None), rt_ext = (rt_ext (snd s))(p := rt_ext (snd s) p - 1),
                            rt_loose = rt_loose (snd s) \<union> left ob\<rparr>))
        | (x, (fr', ob')) \<Rightarrow>
            (case x of Ret _ \<Rightarrow> Ret () | Throw e \<Rightarrow> Throw e | Assert_failed \<Rightarrow> Assert_failed | Bad_access \<Rightarrow> Bad_access,
             (fr', \<lparr>rt_heap = (rt_heap (snd s))(p \<mapsto> ob'), rt_ext = (rt_ext (snd s))(p := rt_ext (snd s) p - 1),
                    rt_loose = rt_loose (snd s)\<rparr>))))"

definition rt_new ::
  "('r, 'o, 'c, 'n) object_class \<Rightarrow> addr \<Rightarrow> 'n \<Rightarrow> (('r, 'o) rt_state, unit) op" where
  "rt_new K p n s =
     (case oc_new K n p (fst s) of
        (Ret ob, fr') \<Rightarrow>
          (Ret (), (fr', \<lparr>rt_heap = (rt_heap (snd s))(p \<mapsto> ob), rt_ext = (rt_ext (snd s))(p := 1),
                          rt_loose = rt_loose (snd s) - oc_new_in K n\<rparr>))
      | (x, fr') \<Rightarrow>
          (case x of Throw e \<Rightarrow> Throw e | Assert_failed \<Rightarrow> Assert_failed | _ \<Rightarrow> Bad_access,
           (fr', (snd s)\<lparr>rt_loose := (rt_loose (snd s) - oc_new_in K n) \<union>
                                     ((oc_new_in K n \<union> fds (fst s)) - fds fr')\<rparr>)))"

text \<open>What the program does with the objects, and when it may.\<close>

datatype ('c, 'n) action =
    Make addr 'n | Do addr 'c | Copy addr | Release addr | Drop addr

definition rt_act :: "('r, 'o, 'c, 'n) object_class \<Rightarrow> ('c, 'n) action \<Rightarrow> (('r, 'o) rt_state, unit) op" where
  "rt_act K a =
     (case a of
        Make p n \<Rightarrow> rt_new K p n
      | Do p c \<Rightarrow> rt_exec p 0 (oc_call_out K c) (oc_call K c)
      | Copy p \<Rightarrow> rt_exec p 1 (\<lambda>_. {}) (oc_copy K)
      | Release p \<Rightarrow> rt_free p (oc_left K) (oc_release K)
      | Drop p \<Rightarrow> rt_free p (oc_left K) (oc_drop K))"

definition held :: "addr \<Rightarrow> 'o runtime \<Rightarrow> bool" where
  "held p w = (rt_heap w p \<noteq> None \<and> 0 < rt_ext w p)"

definition act_ok :: "('r, 'o, 'c, 'n) object_class \<Rightarrow> ('c, 'n) action \<Rightarrow> ('r, 'o) rt_state \<Rightarrow> bool" where
  "act_ok K a s =
     (case a of
        Make p n \<Rightarrow> rt_heap (snd s) p = None \<and> oc_new_ok K n (fst s) \<and> oc_new_in K n \<subseteq> rt_loose (snd s)
      | Do p c \<Rightarrow> held p (snd s) \<and> oc_call_ok K c (fst s, the (rt_heap (snd s) p))
      | Copy p \<Rightarrow> held p (snd s)
      | Release p \<Rightarrow> held p (snd s)
      | Drop p \<Rightarrow> held p (snd s))"

text \<open>
  The run loop with a completion: the frame processes it and gives up its handle, while the adopted
  pointer counts as one of the program's until it is released.
\<close>

definition rt_deliver ::
  "('r, 'o, 'c, 'n) object_class \<Rightarrow> int \<Rightarrow> addr \<Rightarrow> frame_tag \<Rightarrow> cqe \<Rightarrow> (('r, 'o) rt_state, handle option) op" where
  "rt_deliver K now p t c = rt_exec p 1 (oc_cqe_out K t c) (thenM (oc_process K now t c) (oc_handle K t))"

definition rt_cqe_ok ::
  "('r, 'o, 'c, 'n) object_class \<Rightarrow> int \<Rightarrow> addr \<Rightarrow> frame_tag \<Rightarrow> cqe \<Rightarrow> ('r, 'o) rt_state \<Rightarrow> bool" where
  "rt_cqe_ok K now p t c s =
     (case rt_heap (snd s) p of None \<Rightarrow> False | Some ob \<Rightarrow> oc_cqe_ok K now t c (fst s, ob))"

text \<open>Everything else that uses the runtime: registering buffers, the ring, tasks and exceptions.\<close>

definition env_step :: "'r io_context_frame \<Rightarrow> 'r io_context_frame \<Rightarrow> bool" where
  "env_step fr fr' = (frame_ok fr' \<and> params fr' = params fr \<and> groups_kept fr fr' \<and> fds fr' = fds fr)"

text \<open>
  The states a program can reach: \<open>pend\<close> is the user data for which the kernel still has a completion
  to deliver. It starts without objects; \<open>U\<close> is every descriptor there is.
\<close>

inductive rt_reach ::
  "('r, 'o, 'c, 'n) object_class \<Rightarrow> ('r \<Rightarrow> sqe list) \<Rightarrow> int set \<Rightarrow> ('r, 'o) rt_state \<Rightarrow> user_data multiset \<Rightarrow> bool"
  for K issued U where
  start: "frame_ok fr \<Longrightarrow> fds fr \<inter> L = {} \<Longrightarrow> fds fr \<union> L = U \<Longrightarrow> U \<subseteq> fd_range fr \<Longrightarrow>
      rt_reach K issued U (fr, \<lparr>rt_heap = (\<lambda>_. None), rt_ext = (\<lambda>_. 0), rt_loose = L\<rparr>) {#}"
| acted: "rt_reach K issued U s pend \<Longrightarrow> act_ok K a s \<Longrightarrow> rt_act K a s = (x, s') \<Longrightarrow>
      issued (io_ring (fst s')) = issued (io_ring (fst s)) @ es \<Longrightarrow> rt_reach K issued U s' (pend + posted es)"
| completed: "rt_reach K issued U s pend \<Longrightarrow> UD p t \<in># pend \<Longrightarrow> rt_cqe_ok K now p t c s \<Longrightarrow>
      rt_deliver K now p t c s = (x, s') \<Longrightarrow> issued (io_ring (fst s')) = issued (io_ring (fst s)) @ es \<Longrightarrow>
      rt_reach K issued U s' (pend - image_mset (UD p) (completion_tags t c) + posted es)"
| interfered: "rt_reach K issued U (fr, w) pend \<Longrightarrow> env_step fr fr' \<Longrightarrow> rt_reach K issued U (fr', w) pend"

subsection \<open>The invariant\<close>

text \<open>Who has a descriptor: the pool, the program, or an object.\<close>

datatype holder = Pool | Program | Object addr

fun holds :: "('r, 'o, 'c, 'n) object_class \<Rightarrow> ('r, 'o) rt_state \<Rightarrow> holder \<Rightarrow> int set" where
  "holds K s Pool = fds (fst s)"
| "holds K s Program = rt_loose (snd s)"
| "holds K s (Object p) = (case rt_heap (snd s) p of None \<Rightarrow> {} | Some ob \<Rightarrow> oc_owned K ob)"

definition slot_ok ::
  "('r, 'o, 'c, 'n) object_class \<Rightarrow> addr \<Rightarrow> 'r io_context_frame \<Rightarrow> 'o option \<Rightarrow> nat \<Rightarrow> bool" where
  "slot_ok K p fr oo e =
     (case oo of
        None \<Rightarrow> e = 0
      | Some ob \<Rightarrow> oc_this K ob = p \<and> oc_inv K fr ob \<and> 0 < oc_count K ob \<and>
          oc_count K ob = int e + int (size (oc_active K ob)))"

definition rt_inv :: "('r, 'o, 'c, 'n) object_class \<Rightarrow> int set \<Rightarrow> ('r, 'o) rt_state \<Rightarrow> bool" where
  "rt_inv K U s =
     (frame_ok (fst s) \<and> U \<subseteq> fd_range (fst s) \<and>
      (\<forall>p. slot_ok K p (fst s) (rt_heap (snd s) p) (rt_ext (snd s) p)) \<and>
      disjoint_family (holds K s) \<and> (\<Union>h. holds K s h) = U)"

definition active_at :: "('r, 'o, 'c, 'n) object_class \<Rightarrow> ('r, 'o) rt_state \<Rightarrow> addr \<Rightarrow> frame_tag multiset" where
  "active_at K s p = (case rt_heap (snd s) p of None \<Rightarrow> {#} | Some ob \<Rightarrow> oc_active K ob)"

lemma family_exchange:
  assumes f: "disjoint_family f" and same: "\<And>h. h \<notin> S \<Longrightarrow> g h = f h"
    and union: "(\<Union>h\<in>S. g h) = (\<Union>h\<in>S. f h)" and g: "disjoint_family_on g S"
  shows "disjoint_family g \<and> (\<Union>h. g h) = (\<Union>h. f h)"
proof
  have cross: "g h \<inter> g k = {}" if "h \<in> S" "k \<notin> S" for h k
  proof -
    have "g h \<subseteq> (\<Union>h\<in>S. f h)" using that(1) union by blast
    moreover have "f j \<inter> f k = {}" if "j \<in> S" for j
    proof -
      have "j \<noteq> k" using that \<open>k \<notin> S\<close> by auto
      then show ?thesis using f by (simp add: disjoint_family_on_def)
    qed
    then have "(\<Union>h\<in>S. f h) \<inter> f k = {}" by blast
    ultimately show ?thesis using same [OF that(2)] by blast
  qed
  have outer: "g h \<inter> g k = {}" if "h \<notin> S" "k \<notin> S" "h \<noteq> k" for h k
    using f that(3) by (simp add: same [OF that(1)] same [OF that(2)] disjoint_family_on_def)
  show "disjoint_family g"
    unfolding disjoint_family_on_def
  proof (intro ballI impI)
    fix h k :: 'a assume "h \<noteq> k"
    show "g h \<inter> g k = {}"
    proof (cases "h \<in> S"; cases "k \<in> S")
      assume "h \<in> S" "k \<in> S"
      then show ?thesis using g \<open>h \<noteq> k\<close> by (simp add: disjoint_family_on_def)
    qed (use cross outer \<open>h \<noteq> k\<close> in \<open>auto simp: Int_commute\<close>)
  qed
  have split: "(\<Union>h. k h) = (\<Union>h\<in>S. k h) \<union> (\<Union>h\<in>- S. k h)" for k :: "'a \<Rightarrow> 'b set" by auto
  have "(\<Union>h\<in>- S. g h) = (\<Union>h\<in>- S. f h)" using same by auto
  then show "(\<Union>h. g h) = (\<Union>h. f h)" using split [of g] split [of f] union by simp
qed

lemma holds_distinct: "rt_inv K U s \<Longrightarrow> h \<noteq> k \<Longrightarrow> holds K s h \<inter> holds K s k = {}"
  by (simp add: rt_inv_def disjoint_family_on_def)

text \<open>
  Replacing the object at one address: the descriptors \<open>inn\<close> of the program and those of the object become
  the new object's and \<open>out\<close>, which goes to the program.
\<close>

lemma holds_replace:
  assumes inv: "rt_inv K U (fr, w)"
    and moves: "frame_moves (holds K (fr, w) (Object p) \<union> inn) fr own' fr' out" and inn: "inn \<subseteq> rt_loose w"
    and own': "own' = (case oo of None \<Rightarrow> {} | Some ob \<Rightarrow> oc_owned K ob)"
  shows "disjoint_family (holds K (fr', \<lparr>rt_heap = (rt_heap w)(p := oo), rt_ext = e, rt_loose = rt_loose w - inn \<union> out\<rparr>)) \<and>
     (\<Union>h. holds K (fr', \<lparr>rt_heap = (rt_heap w)(p := oo), rt_ext = e, rt_loose = rt_loose w - inn \<union> out\<rparr>) h) = U"
    (is "disjoint_family ?g \<and> _")
proof -
  let ?f = "holds K (fr, w)" and ?S = "{Pool, Program, Object p}"
  have m: "own' \<union> fds fr' \<union> out = ?f (Object p) \<union> inn \<union> fds fr" "own' \<inter> fds fr' = {}" "out \<inter> (own' \<union> fds fr') = {}"
    using moves by (simp_all add: frame_moves_def)
  have g: "?g Pool = fds fr'" "?g Program = rt_loose w - inn \<union> out" "?g (Object p) = own'"
    using own' by simp_all
  have same: "?g h = ?f h" if "h \<notin> ?S" for h
    using that by (cases h) auto
  have loose: "rt_loose w \<inter> fds fr = {}" "rt_loose w \<inter> ?f (Object p) = {}"
    using holds_distinct [OF inv, of Program Pool] holds_distinct [OF inv, of Program "Object p"] by simp_all
  have f: "?f Pool = fds fr" "?f Program = rt_loose w" by simp_all
  have "own' \<union> fds fr' \<union> out \<subseteq> - (rt_loose w - inn)"
    unfolding m(1) using loose by blast
  then have "own' \<inter> (rt_loose w - inn) = {}" "fds fr' \<inter> (rt_loose w - inn) = {}" by blast+
  then have "disjoint_family_on ?g ?S"
    unfolding disjoint_family_on_def using m(2,3) by (auto simp only: ball_simps g insert_iff empty_iff)
  moreover have "(\<Union>h\<in>?S. ?g h) = (\<Union>h\<in>?S. ?f h)"
  proof -
    have "(\<Union>h\<in>?S. ?g h) = (own' \<union> fds fr' \<union> out) \<union> (rt_loose w - inn)" unfolding UN_insert g by auto
    also have "\<dots> = ?f (Object p) \<union> fds fr \<union> rt_loose w" unfolding m(1) using inn by blast
    finally show ?thesis unfolding UN_insert f by auto
  qed
  moreover have "disjoint_family ?f" "(\<Union>h. ?f h) = U" using inv by (simp_all add: rt_inv_def)
  ultimately show ?thesis using family_exchange [of ?f ?S ?g] same by metis
qed

definition act_target :: "('c, 'n) action \<Rightarrow> addr" where
  "act_target a = (case a of Make p n \<Rightarrow> p | Do p c \<Rightarrow> p | Copy p \<Rightarrow> p | Release p \<Rightarrow> p | Drop p \<Rightarrow> p)"

text \<open>A constructor may throw whatever the system reports, a call only its documented errors.\<close>

definition act_result :: "('c, 'n) action \<Rightarrow> unit outcome \<Rightarrow> bool" where
  "act_result a x = (case a of Make p n \<Rightarrow> x = Ret () \<or> (\<exists>e. x = Throw e) | _ \<Rightarrow> documented x)"

text \<open>
  What one step of one object does to all of them: the frames that wait change at \<open>p\<close> only, by the
  entries issued there and the completion \<open>fin\<close> consumed.
\<close>

definition rt_step ::
  "('r, 'o, 'c, 'n) object_class \<Rightarrow> ('r \<Rightarrow> sqe list) \<Rightarrow> int set \<Rightarrow> ('r, 'o) rt_state \<Rightarrow> ('r, 'o) rt_state \<Rightarrow>
     addr \<Rightarrow> frame_tag multiset \<Rightarrow> bool" where
  "rt_step K issued U s s' p fin =
     (rt_inv K U s' \<and> sched (fst s') = sched (fst s) \<and>
      (\<exists>es. issued (io_ring (fst s')) = issued (io_ring (fst s)) @ es \<and>
         (\<forall>q. active_at K s' q + (if q = p then fin else {#}) = active_at K s q + tags_of q (posted es))))"

context shared
begin

lemma slot_rely:
  "slot_ok K q fr oo e \<Longrightarrow> frame_rely (case oo of None \<Rightarrow> {} | Some ob \<Rightarrow> oc_owned K ob) fr fr' \<Longrightarrow> slot_ok K q fr' oo e"
  using stable by (auto simp: slot_ok_def split: option.splits)

lemma other_slots:
  assumes inv: "rt_inv K U (fr, w)" and moves: "frame_moves (holds K (fr, w) (Object p) \<union> inn) fr own' fr' out"
    and inn: "inn \<subseteq> rt_loose w" and "q \<noteq> p"
  shows "slot_ok K q fr' (rt_heap w q) (rt_ext w q)"
proof (rule slot_rely)
  show "slot_ok K q fr (rt_heap w q) (rt_ext w q)" using inv by (simp add: rt_inv_def)
  have "fds fr' \<subseteq> holds K (fr, w) (Object p) \<union> rt_loose w \<union> fds fr" using moves inn by (auto simp: frame_moves_def)
  moreover have "holds K (fr, w) (Object q) \<inter> holds K (fr, w) (Object p) = {}"
    "holds K (fr, w) (Object q) \<inter> rt_loose w = {}" "holds K (fr, w) (Object q) \<inter> fds fr = {}"
    using holds_distinct [OF inv, of "Object q" "Object p"] holds_distinct [OF inv, of "Object q" Program]
      holds_distinct [OF inv, of "Object q" Pool] \<open>q \<noteq> p\<close> by simp_all
  ultimately have "holds K (fr, w) (Object q) \<inter> fds fr' = {}" by blast
  then show "frame_rely (case rt_heap w q of None \<Rightarrow> {} | Some ob \<Rightarrow> oc_owned K ob) fr fr'"
    using moves by (simp add: frame_rely_def frame_moves_def sched_def)
qed

lemma replace_inv:
  assumes inv: "rt_inv K U (fr, w)" and moves: "frame_moves (holds K (fr, w) (Object p) \<union> inn) fr own' fr' out"
    and inn: "inn \<subseteq> rt_loose w" and own': "own' = (case oo of None \<Rightarrow> {} | Some ob \<Rightarrow> oc_owned K ob)"
    and slot: "slot_ok K p fr' oo e"
  shows "rt_inv K U (fr', \<lparr>rt_heap = (rt_heap w)(p := oo), rt_ext = (rt_ext w)(p := e), rt_loose = rt_loose w - inn \<union> out\<rparr>)"
  unfolding rt_inv_def
proof (intro conjI allI)
  show "frame_ok (fst (fr', \<lparr>rt_heap = (rt_heap w)(p := oo), rt_ext = (rt_ext w)(p := e), rt_loose = rt_loose w - inn \<union> out\<rparr>))"
    using moves by (simp add: frame_moves_def)
  show "U \<subseteq> fd_range (fst (fr', \<lparr>rt_heap = (rt_heap w)(p := oo), rt_ext = (rt_ext w)(p := e), rt_loose = rt_loose w - inn \<union> out\<rparr>))"
    using inv moves by (simp add: rt_inv_def frame_moves_def sched_def fd_range_def)
  fix q
  have "slot_ok K q fr' (rt_heap w q) (rt_ext w q)" if "q \<noteq> p" by (rule other_slots [OF inv moves inn that])
  then show "slot_ok K q (fst (fr', \<lparr>rt_heap = (rt_heap w)(p := oo), rt_ext = (rt_ext w)(p := e), rt_loose = rt_loose w - inn \<union> out\<rparr>))
      (rt_heap (snd (fr', \<lparr>rt_heap = (rt_heap w)(p := oo), rt_ext = (rt_ext w)(p := e), rt_loose = rt_loose w - inn \<union> out\<rparr>)) q)
      (rt_ext (snd (fr', \<lparr>rt_heap = (rt_heap w)(p := oo), rt_ext = (rt_ext w)(p := e), rt_loose = rt_loose w - inn \<union> out\<rparr>)) q)"
    using slot by simp
qed (use holds_replace [OF inv moves inn own'] in blast)+

lemma rt_exec_step:
  assumes inv: "rt_inv K U (fr, w)" and ob: "rt_heap w p = Some ob" and run: "m (fr, ob) = (x, (fr', ob'))"
    and step: "object_step K issued (fr, ob) (fr', ob') (int k) fin (out ob)"
    and more: "size fin \<le> k"
  shows "\<exists>s'. rt_exec p k out m (fr, w) = (x, s') \<and> rt_step K issued U (fr, w) s' p fin"
proof -
  let ?s' = "(fr', \<lparr>rt_heap = (rt_heap w)(p \<mapsto> ob'), rt_ext = (rt_ext w)(p := rt_ext w p + k), rt_loose = rt_loose w - {} \<union> out ob\<rparr>)"
  have exec: "rt_exec p k out m (fr, w) = (x, ?s')" using ob run by (simp add: rt_exec_def)
  obtain es where es: "issued (io_ring fr') = issued (io_ring fr) @ es" "own_entries (oc_this K ob) es"
      "oc_this K ob' = oc_this K ob" "oc_inv K fr' ob'"
      "oc_count K ob' = oc_count K ob + int k + int (size (own_tags (oc_this K ob) es)) - int (size fin)"
      "oc_active K ob' + fin = oc_active K ob + own_tags (oc_this K ob) es"
      "frame_moves (oc_owned K ob) fr (oc_owned K ob') fr' (out ob)"
    using step by (auto simp: object_step_def)
  have "slot_ok K p fr (rt_heap w p) (rt_ext w p)" using inv by (simp add: rt_inv_def)
  then have slot: "oc_this K ob = p" "oc_count K ob = int (rt_ext w p) + int (size (oc_active K ob))" "0 < oc_count K ob"
    using ob by (simp_all add: slot_ok_def)
  have pos: "0 < oc_count K ob'" using slot(3) es(5) more by simp
  have "size (oc_active K ob' + fin) = size (oc_active K ob + own_tags (oc_this K ob) es)" by (simp only: es(6))
  then have "oc_count K ob' = int (rt_ext w p + k) + int (size (oc_active K ob'))" using es(5) slot(2) by simp
  then have "slot_ok K p fr' (Some ob') (rt_ext w p + k)" using es(3,4) slot(1) pos by (simp add: slot_ok_def)
  moreover have "frame_moves (holds K (fr, w) (Object p) \<union> {}) fr (oc_owned K ob') fr' (out ob)"
    using es(7) ob by simp
  ultimately have inv': "rt_inv K U ?s'" by (intro replace_inv [OF inv]) simp_all
  have act: "active_at K ?s' q + (if q = p then fin else {#}) = active_at K (fr, w) q + tags_of q (posted es)" for q
  proof (cases "q = p")
    case True
    then show ?thesis using ob es(6) slot(1) by (simp add: active_at_def tags_of_posted)
  next
    case False
    then show ?thesis using posted_elsewhere [of p es q] es(2) slot(1) by (simp add: active_at_def)
  qed
  have "sched fr' = sched fr" using es(7) by (simp add: frame_moves_def)
  then have "rt_step K issued U (fr, w) ?s' p fin"
    unfolding rt_step_def using inv' es(1) act by auto
  then show ?thesis using exec by blast
qed

lemma rt_free_step:
  assumes inv: "rt_inv K U (fr, w)" and ob: "rt_heap w p = Some ob" and ext: "0 < rt_ext w p"
    and rel: "pointer_released K issued (fr, ob) (m (fr, ob))"
  shows "\<exists>s'. rt_free p (oc_left K) m (fr, w) = (Ret (), s') \<and> rt_step K issued U (fr, w) s' p {#} \<and>
     (rt_heap (snd s') p = None) = (rt_ext w p = 1 \<and> oc_active K ob = {#}) \<and> rt_ext (snd s') p = rt_ext w p - 1"
proof -
  obtain fr' ob' where run: "m (fr, ob) = (Ret (is_last K ob), (fr', ob'))"
    using rel by (cases "m (fr, ob)") (auto simp: pointer_released_def)
  have "slot_ok K p fr (rt_heap w p) (rt_ext w p)" using inv by (simp add: rt_inv_def)
  then have slot: "oc_this K ob = p" "oc_count K ob = int (rt_ext w p) + int (size (oc_active K ob))" "0 < oc_count K ob"
    using ob by (simp_all add: slot_ok_def)
  have "is_last K ob = (rt_ext w p = 1 \<and> size (oc_active K ob) = 0)" using slot(2) ext unfolding is_last_def by linarith
  then have last: "is_last K ob = (rt_ext w p = 1 \<and> oc_active K ob = {#})" by simp
  show ?thesis
  proof (cases "is_last K ob")
    case True
    let ?s' = "(fr', \<lparr>rt_heap = (rt_heap w)(p := None), rt_ext = (rt_ext w)(p := rt_ext w p - 1), rt_loose = rt_loose w - {} \<union> oc_left K ob\<rparr>)"
    have exec: "rt_free p (oc_left K) m (fr, w) = (Ret (), ?s')" using ob run True by (simp add: rt_free_def)
    obtain es where es: "issued (io_ring fr') = issued (io_ring fr) @ es" "posted es = {#}"
        "frame_moves (oc_owned K ob) fr {} fr' (oc_left K ob)"
      using rel True run by (auto simp: pointer_released_def object_gone_def)
    have "frame_moves (holds K (fr, w) (Object p) \<union> {}) fr {} fr' (oc_left K ob)" using es(3) ob by simp
    moreover have "slot_ok K p fr' None (rt_ext w p - 1)" using True last by (simp add: slot_ok_def)
    ultimately have inv': "rt_inv K U ?s'" by (intro replace_inv [OF inv]) simp_all
    have act: "active_at K ?s' q + (if q = p then {#} else {#}) = active_at K (fr, w) q + tags_of q (posted es)" for q
      using ob True last es(2) by (auto simp: active_at_def)
    have "sched fr' = sched fr" using es(3) by (simp add: frame_moves_def)
    then have "rt_step K issued U (fr, w) ?s' p {#}" unfolding rt_step_def using inv' es(1) act by auto
    then show ?thesis using exec True last by simp
  next
    case False
    let ?s' = "(fr', \<lparr>rt_heap = (rt_heap w)(p \<mapsto> ob'), rt_ext = (rt_ext w)(p := rt_ext w p - 1), rt_loose = rt_loose w - {} \<union> {}\<rparr>)"
    have exec: "rt_free p (oc_left K) m (fr, w) = (Ret (), ?s')" using ob run False by (simp add: rt_free_def)
    obtain es where es: "issued (io_ring fr') = issued (io_ring fr) @ es" "own_entries (oc_this K ob) es"
        "oc_this K ob' = oc_this K ob" "oc_inv K fr' ob'"
        "oc_count K ob' = oc_count K ob - 1 + int (size (own_tags (oc_this K ob) es))"
        "oc_active K ob' = oc_active K ob + own_tags (oc_this K ob) es"
        "frame_moves (oc_owned K ob) fr (oc_owned K ob') fr' {}"
      using rel False run by (auto simp: pointer_released_def object_step_def)
    have "oc_count K ob' = int (rt_ext w p - 1) + int (size (oc_active K ob'))" using es(5,6) slot(2) ext by simp
    moreover have "0 < oc_count K ob'" using es(5) slot(3) False by (simp add: is_last_def)
    ultimately have "slot_ok K p fr' (Some ob') (rt_ext w p - 1)" using es(3,4) slot(1) by (simp add: slot_ok_def)
    moreover have "frame_moves (holds K (fr, w) (Object p) \<union> {}) fr (oc_owned K ob') fr' {}" using es(7) ob by simp
    ultimately have inv': "rt_inv K U ?s'" by (intro replace_inv [OF inv]) simp_all
    have act: "active_at K ?s' q + (if q = p then {#} else {#}) = active_at K (fr, w) q + tags_of q (posted es)" for q
    proof (cases "q = p")
      case True
      then show ?thesis using ob es(6) slot(1) by (simp add: active_at_def tags_of_posted)
    next
      case False
      then show ?thesis using posted_elsewhere [of p es q] es(2) slot(1) by (simp add: active_at_def)
    qed
    have "sched fr' = sched fr" using es(7) by (simp add: frame_moves_def)
    then have "rt_step K issued U (fr, w) ?s' p {#}" unfolding rt_step_def using inv' es(1) act by auto
    then show ?thesis using exec False last by simp
  qed
qed

lemma slot_surplus:
  assumes "rt_inv K U (fr, w)" and "rt_heap w p = Some ob"
  shows "oc_inv K fr ob" and "oc_count K ob = int (rt_ext w p) + int (size (oc_active K ob))" and "oc_this K ob = p"
    and "0 < oc_count K ob"
proof -
  have "slot_ok K p fr (rt_heap w p) (rt_ext w p)" using assms(1) by (simp add: rt_inv_def)
  then show "oc_inv K fr ob" and "oc_count K ob = int (rt_ext w p) + int (size (oc_active K ob))" and "oc_this K ob = p"
    and "0 < oc_count K ob"
    using assms(2) by (simp_all add: slot_ok_def)
qed

lemma env_keeps: "rt_inv K U (fr, w) \<Longrightarrow> env_step fr fr' \<Longrightarrow> rt_inv K U (fr', w)"
proof -
  assume inv: "rt_inv K U (fr, w)" and env: "env_step fr fr'"
  have "slot_ok K p fr' (rt_heap w p) (rt_ext w p)" for p
  proof (rule slot_rely)
    show "slot_ok K p fr (rt_heap w p) (rt_ext w p)" using inv by (simp add: rt_inv_def)
    show "frame_rely (case rt_heap w p of None \<Rightarrow> {} | Some ob \<Rightarrow> oc_owned K ob) fr fr'"
      using env holds_distinct [OF inv, of "Object p" Pool] by (simp add: env_step_def frame_rely_def)
  qed
  moreover have "holds K (fr', w) h = holds K (fr, w) h" for h using env by (cases h) (simp_all add: env_step_def)
  ultimately show ?thesis using inv env by (simp add: rt_inv_def env_step_def fd_range_def disjoint_family_on_def)
qed

end

context counted
begin

lemma rt_new_step:
  assumes "ok" and inv: "rt_inv K U (fr, w)" and free: "rt_heap w p = None" and new: "oc_new_ok K n fr"
    and inn: "oc_new_in K n \<subseteq> rt_loose w"
  shows "\<exists>x s'. rt_new K p n (fr, w) = (x, s') \<and> (x = Ret () \<or> (\<exists>e. x = Throw e)) \<and> rt_step K issued U (fr, w) s' p {#}"
proof -
  let ?in = "oc_new_in K n"
  have "?in \<inter> fds fr = {}" using holds_distinct [OF inv, of Program Pool] inn by auto
  moreover have "rt_loose w \<subseteq> U" using inv by (auto simp: rt_inv_def intro: UN_I [of Program])
  then have "?in \<subseteq> fd_range fr" using inv inn by (auto simp: rt_inv_def)
  moreover have "frame_ok fr" using inv by (simp add: rt_inv_def)
  ultimately have made: "object_made K issued n p fr (oc_new K n p fr)" using make [OF \<open>ok\<close> _ new] by blast
  then show ?thesis
  proof (cases "oc_new K n p fr")
    case (Pair y fr')
    show ?thesis
    proof (cases y)
      case (Ret ob)
      let ?s' = "(fr', \<lparr>rt_heap = (rt_heap w)(p \<mapsto> ob), rt_ext = (rt_ext w)(p := 1), rt_loose = rt_loose w - ?in \<union> {}\<rparr>)"
      have run: "rt_new K p n (fr, w) = (Ret (), ?s')" using Pair Ret by (simp add: rt_new_def)
      obtain es where es: "issued (io_ring fr') = issued (io_ring fr) @ es" "own_entries p es" "oc_this K ob = p"
          "oc_active K ob = own_tags p es" "oc_count K ob = 1 + int (size (own_tags p es))" "oc_inv K fr' ob"
          "frame_moves ?in fr (oc_owned K ob) fr' {}"
        using made Pair Ret by (auto simp: object_made_def)
      have "slot_ok K p fr' (Some ob) 1" using es by (simp add: slot_ok_def)
      moreover have "frame_moves (holds K (fr, w) (Object p) \<union> ?in) fr (oc_owned K ob) fr' {}" using es(7) free by simp
      ultimately have inv': "rt_inv K U ?s'" by (intro replace_inv [OF inv]) (simp_all add: inn)
      have act: "active_at K ?s' q + (if q = p then {#} else {#}) = active_at K (fr, w) q + tags_of q (posted es)" for q
        using posted_elsewhere [OF es(2), of q] free es(4) by (simp add: active_at_def tags_of_posted)
      have "sched fr' = sched fr" using es(7) by (simp add: frame_moves_def)
      then have "rt_step K issued U (fr, w) ?s' p {#}" unfolding rt_step_def using inv' es(1) act by auto
      then show ?thesis using run by blast
    next
      case (Throw e)
      let ?out = "(?in \<union> fds fr) - fds fr'"
      let ?s' = "(fr', \<lparr>rt_heap = (rt_heap w)(p := None), rt_ext = (rt_ext w)(p := 0), rt_loose = rt_loose w - ?in \<union> ?out\<rparr>)"
      have "rt_ext w p = 0" using inv free by (auto simp: rt_inv_def slot_ok_def split: option.splits dest: spec [of _ p])
      then have same: "(rt_heap w)(p := None) = rt_heap w" "(rt_ext w)(p := 0) = rt_ext w" using free by auto
      have run: "rt_new K p n (fr, w) = (Throw e, ?s')" using Pair Throw unfolding same by (cases w) (simp add: rt_new_def)
      have th: "issued (io_ring fr') = issued (io_ring fr)" "frame_moves ?in fr {} fr' ?out"
        using made Pair Throw by (simp_all add: object_made_def)
      have "frame_moves (holds K (fr, w) (Object p) \<union> ?in) fr {} fr' ?out" using th(2) free by simp
      then have inv': "rt_inv K U ?s'" by (intro replace_inv [OF inv]) (simp_all add: inn slot_ok_def)
      have act: "active_at K ?s' q + (if q = p then {#} else {#}) = active_at K (fr, w) q + tags_of q (posted [])" for q
        by (simp add: active_at_def same)
      have "sched fr' = sched fr" using th(2) by (simp add: frame_moves_def)
      then have "rt_step K issued U (fr, w) ?s' p {#}"
        unfolding rt_step_def using inv' act th(1) by (auto intro!: exI [of _ "[]"])
      then show ?thesis using run by blast
    qed (use made Pair in \<open>simp_all add: object_made_def\<close>)
  qed
qed

text \<open>Giving up a pointer never throws, and deletes the object when nothing refers to it any more.\<close>

lemma releases:
  assumes "ok" and inv: "rt_inv K U s" and "held p (snd s)"
  shows "fst (rt_act K (Release p) s) = Ret ()" and "fst (rt_act K (Drop p) s) = Ret ()"
    and "(rt_heap (snd (snd (rt_act K (Release p) s))) p = None) = (rt_ext (snd s) p = 1 \<and> active_at K s p = {#})"
    and "(rt_heap (snd (snd (rt_act K (Drop p) s))) p = None) = (rt_ext (snd s) p = 1 \<and> active_at K s p = {#})"
proof -
  obtain fr w where s: "s = (fr, w)" by (cases s)
  obtain ob where ob: "rt_heap w p = Some ob" "0 < rt_ext w p" using assms(3) s by (auto simp: held_def)
  have sur: "oc_inv K fr ob" "int (size (oc_active K ob)) < oc_count K ob" "0 < oc_count K ob"
    using slot_surplus [of U fr w p ob] inv s ob by simp_all
  note free = rt_free_step [OF inv [unfolded s] ob]
  have "pointer_released K issued (fr, ob) (oc_release K (fr, ob))" using release [OF \<open>ok\<close> sur(1,3)] .
  from free [where m = "oc_release K", OF this]
  show "fst (rt_act K (Release p) s) = Ret ()"
    and "(rt_heap (snd (snd (rt_act K (Release p) s))) p = None) = (rt_ext (snd s) p = 1 \<and> active_at K s p = {#})"
    using s ob(1) by (auto simp: rt_act_def active_at_def)
  have "pointer_released K issued (fr, ob) (oc_drop K (fr, ob))" using drop [OF \<open>ok\<close> sur(1,2)] .
  from free [where m = "oc_drop K", OF this]
  show "fst (rt_act K (Drop p) s) = Ret ()"
    and "(rt_heap (snd (snd (rt_act K (Drop p) s))) p = None) = (rt_ext (snd s) p = 1 \<and> active_at K s p = {#})"
    using s ob(1) by (auto simp: rt_act_def active_at_def)
qed

text \<open>Every permitted action ends normally or with an error, and keeps the invariant of all the objects.\<close>

lemma act_step:
  assumes "ok" and inv: "rt_inv K U s" and permitted: "act_ok K a s"
  shows "\<exists>x s'. rt_act K a s = (x, s') \<and> act_result a x \<and> rt_step K issued U s s' (act_target a) {#}"
proof -
  obtain fr w where s: "s = (fr, w)" by (cases s)
  have sur: "oc_inv K fr ob" "oc_count K ob = int (rt_ext w p) + int (size (oc_active K ob))" "0 < oc_count K ob"
    if "rt_heap w p = Some ob" for p ob
    using slot_surplus [of U fr w p ob] inv s that by simp_all
  show ?thesis
  proof (cases a)
    case (Make p n)
    then show ?thesis
      using rt_new_step [OF \<open>ok\<close>, of U fr w p n] inv permitted s
      by (auto simp: act_ok_def rt_act_def act_target_def act_result_def)
  next
    case (Do p c)
    obtain ob where ob: "rt_heap w p = Some ob" "oc_call_ok K c (fr, ob)"
      using permitted Do s by (auto simp: act_ok_def held_def)
    obtain x fr' ob' where run: "oc_call K c (fr, ob) = (x, (fr', ob'))" by (cases "oc_call K c (fr, ob)") auto
    have st: "documented x" "object_step K issued (fr, ob) (fr', ob') (int 0) {#} (oc_call_out K c ob)"
      using call [OF \<open>ok\<close> sur(1) [OF ob(1)] ob(2)] run by simp_all
    have "\<exists>s'. rt_exec p 0 (oc_call_out K c) (oc_call K c) (fr, w) = (x, s') \<and> rt_step K issued U (fr, w) s' p {#}"
      by (rule rt_exec_step [where m = "oc_call K c"]) (use inv s ob(1) run st(2) in simp_all)
    then show ?thesis using s Do st(1) by (auto simp: rt_act_def act_target_def act_result_def)
  next
    case (Copy p)
    obtain ob where ob: "rt_heap w p = Some ob" using permitted Copy s by (auto simp: act_ok_def held_def)
    obtain fr' ob' where run: "oc_copy K (fr, ob) = (Ret (), (fr', ob'))"
      using copy [OF \<open>ok\<close> sur(1) [OF ob]] by (cases "oc_copy K (fr, ob)") auto
    have st: "object_step K issued (fr, ob) (fr', ob') (int 1) {#} {}" using copy [OF \<open>ok\<close> sur(1) [OF ob]] run by simp
    have "\<exists>s'. rt_exec p 1 (\<lambda>_. {}) (oc_copy K) (fr, w) = (Ret (), s') \<and> rt_step K issued U (fr, w) s' p {#}"
      by (rule rt_exec_step [where m = "oc_copy K"]) (use inv s ob run st in simp_all)
    then show ?thesis using s Copy by (auto simp: rt_act_def act_target_def act_result_def documented_def)
  next
    case (Release p)
    obtain ob where ob: "rt_heap w p = Some ob" "0 < rt_ext w p" using permitted Release s by (auto simp: act_ok_def held_def)
    have "pointer_released K issued (fr, ob) (oc_release K (fr, ob))" using release [OF \<open>ok\<close> sur(1) [OF ob(1)] sur(3) [OF ob(1)]] .
    then show ?thesis
      using rt_free_step [OF inv [unfolded s] ob] s Release
      by (fastforce simp: rt_act_def act_target_def act_result_def documented_def)
  next
    case (Drop p)
    obtain ob where ob: "rt_heap w p = Some ob" "0 < rt_ext w p" using permitted Drop s by (auto simp: act_ok_def held_def)
    have "pointer_released K issued (fr, ob) (oc_drop K (fr, ob))" using drop [OF \<open>ok\<close> sur(1)] sur(2) ob by simp
    then show ?thesis
      using rt_free_step [OF inv [unfolded s] ob] s Drop
      by (fastforce simp: rt_act_def act_target_def act_result_def documented_def)
  qed
qed

lemma deliver_step:
  assumes "ok" and inv: "rt_inv K U s" and t: "t \<in># active_at K s p" and adm: "rt_cqe_ok K now p t c s"
  shows "\<exists>h s'. rt_deliver K now p t c s = (Ret h, s') \<and> rt_step K issued U s s' p (completion_tags t c) \<and>
     rt_ext (snd s') p = rt_ext (snd s) p + 1"
proof -
  obtain fr w where s: "s = (fr, w)" by (cases s)
  obtain ob where ob: "rt_heap w p = Some ob" "t \<in># oc_active K ob" "oc_cqe_ok K now t c (fr, ob)"
    using t adm s by (auto simp: active_at_def rt_cqe_ok_def split: option.splits)
  have "oc_inv K fr ob" using slot_surplus [of U fr w p ob] inv s ob(1) by simp
  then obtain h fr' ob' where run: "thenM (oc_process K now t c) (oc_handle K t) (fr, ob) = (Ret h, (fr', ob'))"
      and st: "object_step K issued (fr, ob) (fr', ob') (int 1) (completion_tags t c) (oc_cqe_out K t c ob)"
    using complete [OF \<open>ok\<close> _ ob(2,3)] by auto
  have "\<exists>s'. rt_deliver K now p t c (fr, w) = (Ret h, s') \<and> rt_step K issued U (fr, w) s' p (completion_tags t c)"
    unfolding rt_deliver_def
    by (rule rt_exec_step [where m = "thenM (oc_process K now t c) (oc_handle K t)"]) (use inv s ob(1) st in \<open>simp_all add: run completion_tags_def del: thenM_apply\<close>)
  then obtain s' where s': "rt_deliver K now p t c s = (Ret h, s')" "rt_step K issued U s s' p (completion_tags t c)"
    using s by blast
  moreover have "rt_ext (snd (snd (rt_deliver K now p t c s))) p = rt_ext (snd s) p + 1"
    using s ob(1) run by (simp add: rt_deliver_def rt_exec_def del: thenM_apply)
  then have "rt_ext (snd s') p = rt_ext (snd s) p + 1" using s'(1) by simp
  ultimately show ?thesis by blast
qed

text \<open>In every reachable state: the invariant, and the outstanding user data is that of the waiting frames.\<close>

lemma reach_ok:
  assumes "rt_reach K issued U s pend" and "ok"
  shows "rt_inv K U s \<and> (\<forall>q. tags_of q pend = active_at K s q) \<and> UD_null \<notin># pend"
  using assms(1)
proof (induction rule: rt_reach.induct)
  case (start fr L)
  let ?s = "(fr, \<lparr>rt_heap = (\<lambda>_. None), rt_ext = (\<lambda>_. 0), rt_loose = L\<rparr>)"
  have h: "holds K ?s h = (case h of Pool \<Rightarrow> fds fr | Program \<Rightarrow> L | Object p \<Rightarrow> {})" for h
    by (cases h) simp_all
  have "(\<Union>h. holds K ?s h) = fds fr \<union> L"
    unfolding h by (auto split: holder.splits intro: UN_I [of Pool] UN_I [of Program])
  moreover have "disjoint_family (holds K ?s)"
    unfolding disjoint_family_on_def h using start(2) by (auto split: holder.splits)
  ultimately show ?case using start by (simp add: rt_inv_def slot_ok_def active_at_def)
next
  case (acted s pend a x s' es)
  then obtain es' where "rt_inv K U s'" "issued (io_ring (fst s')) = issued (io_ring (fst s)) @ es'"
      "\<forall>q. active_at K s' q = active_at K s q + tags_of q (posted es')"
    using act_step [OF \<open>ok\<close>, of U s a] by (auto simp: rt_step_def)
  then show ?case using acted by simp
next
  case (completed s pend p t now c x s' es)
  have t: "t \<in># active_at K s p" using completed by (simp add: tags_of_mem)
  then obtain es' where s': "rt_inv K U s'" "issued (io_ring (fst s')) = issued (io_ring (fst s)) @ es'"
      "\<And>q. active_at K s' q + (if q = p then completion_tags t c else {#}) = active_at K s q + tags_of q (posted es')"
    using deliver_step [OF \<open>ok\<close>, of U s t p now c] completed by (auto simp: rt_step_def)
  have "tags_of q (pend - image_mset (UD p) (completion_tags t c) + posted es) = active_at K s' q" for q
  proof -
    have "completion_tags t c \<subseteq># active_at K s p" using t by (simp add: completion_tags_def)
    then have "active_at K s' q = active_at K s q - (if q = p then completion_tags t c else {#}) + tags_of q (posted es')"
      using mset_exchange [OF s'(3) [of q]] by simp
    moreover have "tags_of q (pend - image_mset (UD p) (completion_tags t c)) =
        tags_of q pend - (if q = p then completion_tags t c else {#})"
      using completed.hyps(2) by (auto simp: completion_tags_def tags_of_minus points_to_def)
    ultimately show ?thesis using completed s'(2) by simp
  qed
  moreover have "UD_null \<notin># pend - image_mset (UD p) (completion_tags t c) + posted es"
    using completed by (auto dest: in_diffD)
  ultimately show ?case using s'(1) by blast
next
  case (interfered fr w pend fr')
  then have "rt_inv K U (fr', w)" using env_keeps by blast
  then show ?case using interfered by (simp add: active_at_def)
qed

lemma user_data_typed:
  assumes "rt_reach K issued U s pend" and "ok" and "UD p t \<in># pend"
  obtains ob where "rt_heap (snd s) p = Some ob" and "oc_this K ob = p" and "t \<in># oc_active K ob"
    and "t \<in> oc_frames K ob" and "count pend (UD p t) = 1"
proof -
  have inv: "rt_inv K U s" and tags: "tags_of p pend = active_at K s p"
    using reach_ok [OF assms(1,2)] by auto
  have "t \<in># active_at K s p" using assms(3) tags by (simp add: tags_of_mem)
  then obtain ob where ob: "rt_heap (snd s) p = Some ob" "t \<in># oc_active K ob"
    by (auto simp: active_at_def split: option.splits)
  have o: "oc_inv K (fst s) ob" "oc_this K ob = p" using slot_surplus [of U "fst s" "snd s" p ob] inv ob(1) by simp_all
  have "count pend (UD p t) = count (tags_of p pend) t" by (rule count_tags_of)
  also have "\<dots> = count (oc_active K ob) t" using tags ob(1) by (simp add: active_at_def)
  also have "\<dots> = 1" using single [OF o(1), of t] ob(2) by (simp add: le_Suc_eq count_eq_zero_iff)
  finally show ?thesis using that ob o framed [OF o(1) ob(2)] by blast
qed

end

end
