(* ===== verification/Object_Sum.thy ===== *)
theory Object_Sum
  imports Object_Heap
begin

section \<open>Several classes of objects in one runtime\<close>

text \<open>
  A pointer to a frame of an object of either of two classes: the call goes to the class of the
  object, as a virtual call does. When both classes meet the contract \<open>counted\<close>, so does the sum; the classes
  of the library are put together with it.
\<close>

definition either ::
  "('r io_context_frame \<times> 'a, 'x) op \<Rightarrow> ('r io_context_frame \<times> 'b, 'x) op \<Rightarrow> ('r io_context_frame \<times> ('a + 'b), 'x) op" where
  "either m k s =
     (case snd s of
        Inl a \<Rightarrow> (case m (fst s, a) of (x, (fr', a')) \<Rightarrow> (x, (fr', Inl a')))
      | Inr b \<Rightarrow> (case k (fst s, b) of (x, (fr', b')) \<Rightarrow> (x, (fr', Inr b'))))"

definition no_object :: "('r io_context_frame \<times> 'o, 'x) op" where
  "no_object s = (Bad_access, s)"

definition sum_class ::
  "('r, 'o, 'c, 'n) object_class \<Rightarrow> ('r, 'p, 'd, 'm) object_class \<Rightarrow> ('r, 'o + 'p, 'c + 'd, 'n + 'm) object_class" where
  "sum_class K L = \<lparr>
     oc_this = case_sum (oc_this K) (oc_this L), oc_count = case_sum (oc_count K) (oc_count L),
     oc_active = case_sum (oc_active K) (oc_active L), oc_frames = case_sum (oc_frames K) (oc_frames L),
     oc_owned = case_sum (oc_owned K) (oc_owned L), oc_inv = (\<lambda>fr. case_sum (oc_inv K fr) (oc_inv L fr)),
     oc_call_ok = (\<lambda>c s. case (c, snd s) of (Inl c, Inl a) \<Rightarrow> oc_call_ok K c (fst s, a)
                         | (Inr c, Inr b) \<Rightarrow> oc_call_ok L c (fst s, b) | _ \<Rightarrow> False),
     oc_call = case_sum (\<lambda>c. either (oc_call K c) no_object) (\<lambda>c. either no_object (oc_call L c)),
     oc_call_out = (\<lambda>c ob. case (c, ob) of (Inl c, Inl a) \<Rightarrow> oc_call_out K c a
                           | (Inr c, Inr b) \<Rightarrow> oc_call_out L c b | _ \<Rightarrow> {}),
     oc_cqe_ok = (\<lambda>now t c s. case snd s of Inl a \<Rightarrow> oc_cqe_ok K now t c (fst s, a) | Inr b \<Rightarrow> oc_cqe_ok L now t c (fst s, b)),
     oc_process = (\<lambda>now t c. either (oc_process K now t c) (oc_process L now t c)),
     oc_handle = (\<lambda>t. either (oc_handle K t) (oc_handle L t)),
     oc_cqe_out = (\<lambda>t c. case_sum (oc_cqe_out K t c) (oc_cqe_out L t c)),
     oc_copy = either (oc_copy K) (oc_copy L), oc_release = either (oc_release K) (oc_release L),
     oc_drop = either (oc_drop K) (oc_drop L), oc_left = case_sum (oc_left K) (oc_left L),
     oc_new_ok = (\<lambda>n fr. case n of Inl n \<Rightarrow> oc_new_ok K n fr | Inr n \<Rightarrow> oc_new_ok L n fr),
     oc_new = (\<lambda>n p. case n of Inl n \<Rightarrow> bindM (oc_new K n p) (\<lambda>a. retM (Inl a)) | Inr n \<Rightarrow> bindM (oc_new L n p) (\<lambda>b. retM (Inr b))),
     oc_new_in = case_sum (oc_new_in K) (oc_new_in L)\<rparr>"

lemma sum_class_simps [simp]:
  "oc_this (sum_class K L) = case_sum (oc_this K) (oc_this L)" "oc_count (sum_class K L) = case_sum (oc_count K) (oc_count L)"
  "oc_active (sum_class K L) = case_sum (oc_active K) (oc_active L)" "oc_frames (sum_class K L) = case_sum (oc_frames K) (oc_frames L)"
  "oc_owned (sum_class K L) = case_sum (oc_owned K) (oc_owned L)"
  "oc_inv (sum_class K L) fr = case_sum (oc_inv K fr) (oc_inv L fr)"
  "oc_call_ok (sum_class K L) = (\<lambda>c s. case (c, snd s) of (Inl c, Inl a) \<Rightarrow> oc_call_ok K c (fst s, a)
     | (Inr c, Inr b) \<Rightarrow> oc_call_ok L c (fst s, b) | _ \<Rightarrow> False)"
  "oc_call (sum_class K L) = case_sum (\<lambda>c. either (oc_call K c) no_object) (\<lambda>c. either no_object (oc_call L c))"
  "oc_call_out (sum_class K L) = (\<lambda>c ob. case (c, ob) of (Inl c, Inl a) \<Rightarrow> oc_call_out K c a
     | (Inr c, Inr b) \<Rightarrow> oc_call_out L c b | _ \<Rightarrow> {})"
  "oc_cqe_ok (sum_class K L) =
     (\<lambda>now t c s. case snd s of Inl a \<Rightarrow> oc_cqe_ok K now t c (fst s, a) | Inr b \<Rightarrow> oc_cqe_ok L now t c (fst s, b))"
  "oc_process (sum_class K L) = (\<lambda>now t c. either (oc_process K now t c) (oc_process L now t c))"
  "oc_handle (sum_class K L) = (\<lambda>t. either (oc_handle K t) (oc_handle L t))"
  "oc_cqe_out (sum_class K L) t c = case_sum (oc_cqe_out K t c) (oc_cqe_out L t c)"
  "oc_copy (sum_class K L) = either (oc_copy K) (oc_copy L)" "oc_release (sum_class K L) = either (oc_release K) (oc_release L)"
  "oc_drop (sum_class K L) = either (oc_drop K) (oc_drop L)" "oc_left (sum_class K L) = case_sum (oc_left K) (oc_left L)"
  "oc_new_ok (sum_class K L) = (\<lambda>n fr. case n of Inl n \<Rightarrow> oc_new_ok K n fr | Inr n \<Rightarrow> oc_new_ok L n fr)"
  "oc_new (sum_class K L) = (\<lambda>n p. case n of Inl n \<Rightarrow> bindM (oc_new K n p) (\<lambda>a. retM (Inl a))
     | Inr n \<Rightarrow> bindM (oc_new L n p) (\<lambda>b. retM (Inr b)))"
  "oc_new_in (sum_class K L) = case_sum (oc_new_in K) (oc_new_in L)"
  by (simp_all add: sum_class_def fun_eq_iff)

lemma either_Inl: "either m k (fr, Inl a) = (fst (m (fr, a)), (fst (snd (m (fr, a))), Inl (snd (snd (m (fr, a))))))"
  by (simp add: either_def split: prod.split)

lemma either_Inr: "either m k (fr, Inr b) = (fst (k (fr, b)), (fst (snd (k (fr, b))), Inr (snd (snd (k (fr, b))))))"
  by (simp add: either_def split: prod.split)

lemma either_then: "thenM (either m k) (either m' k') = either (thenM m m') (thenM k k')"
  by (rule ext) (auto simp: either_def thenM_def bindM_def split: prod.splits outcome.splits sum.splits)

lemma sum_step:
  "object_step (sum_class K L) issued (fr, Inl a) (fr', Inl a') k fin out = object_step K issued (fr, a) (fr', a') k fin out"
  "object_step (sum_class K L) issued (fr, Inr b) (fr', Inr b') k fin out = object_step L issued (fr, b) (fr', b') k fin out"
  by (simp_all add: object_step_def)

lemma sum_last [simp]: "is_last (sum_class K L) (Inl a) = is_last K a" "is_last (sum_class K L) (Inr b) = is_last L b"
  by (simp_all add: is_last_def)

lemma sum_released:
  "pointer_released (sum_class K L) issued (fr, Inl a) (x, (fr', Inl a')) = pointer_released K issued (fr, a) (x, (fr', a'))"
  "pointer_released (sum_class K L) issued (fr, Inr b) (x, (fr', Inr b')) = pointer_released L issued (fr, b) (x, (fr', b'))"
  by (simp_all add: pointer_released_def object_gone_def sum_step)

lemma sum_made:
  "object_made K issued n p fr (oc_new K n p fr) \<Longrightarrow>
     object_made (sum_class K L) issued (Inl n) p fr (bindM (oc_new K n p) (\<lambda>a. retM (Inl a)) fr)"
  "object_made L issued m p fr (oc_new L m p fr) \<Longrightarrow>
     object_made (sum_class K L) issued (Inr m) p fr (bindM (oc_new L m p) (\<lambda>b. retM (Inr b)) fr)"
  by (auto simp: object_made_def bindM_def retM_def split: outcome.splits prod.splits)

lemma counted_sum:
  assumes "counted K issued ok" and "counted L issued ok"
  shows "counted (sum_class K L) issued ok"
proof (unfold_locales, goal_cases)
  case (1 fr ob fr')
  then show ?case
    using shared.stable [OF counted.axioms(1) [OF assms(1)]] shared.stable [OF counted.axioms(1) [OF assms(2)]] by (cases ob) simp_all
next
  case (2 fr ob a)
  then show ?case
    using counted.call [OF assms(1)] counted.call [OF assms(2)]
    by (cases a; cases ob) (simp_all add: either_Inl either_Inr sum_step)
next
  case (3 fr ob t now c)
  show ?case
  proof (cases ob)
    case (Inl a)
    then obtain h fr' a' where "thenM (oc_process K now t c) (oc_handle K t) (fr, a) = (Ret h, (fr', a'))"
        "object_step K issued (fr, a) (fr', a') 1 (completion_tags t c) (oc_cqe_out K t c a)"
      using counted.complete [OF assms(1), of fr a t now c] 3 by auto
    then show ?thesis using Inl by (simp add: either_then either_Inl sum_step del: thenM_apply)
  next
    case (Inr b)
    then obtain h fr' b' where "thenM (oc_process L now t c) (oc_handle L t) (fr, b) = (Ret h, (fr', b'))"
        "object_step L issued (fr, b) (fr', b') 1 (completion_tags t c) (oc_cqe_out L t c b)"
      using counted.complete [OF assms(2), of fr b t now c] 3 by auto
    then show ?thesis using Inr by (simp add: either_then either_Inr sum_step del: thenM_apply)
  qed
next
  case (4 fr ob)
  then show ?case
    using counted.copy [OF assms(1)] counted.copy [OF assms(2)]
    by (cases ob) (simp_all add: either_Inl either_Inr sum_step)
next
  case (5 fr ob)
  then show ?case
    using counted.release [OF assms(1)] counted.release [OF assms(2)]
    by (cases ob) (simp_all add: either_Inl either_Inr sum_released)
next
  case (6 fr ob)
  then show ?case
    using counted.drop [OF assms(1)] counted.drop [OF assms(2)]
    by (cases ob) (simp_all add: either_Inl either_Inr sum_released)
next
  case (7 fr n p)
  then show ?case
    using counted.make [OF assms(1)] counted.make [OF assms(2)]
    by (cases n) (simp_all add: sum_made)
next
  case (8 fr ob t)
  then show ?case
    using counted.framed [OF assms(1)] counted.framed [OF assms(2)] by (cases ob) simp_all
next
  case (9 fr ob t)
  then show ?case
    using counted.single [OF assms(1)] counted.single [OF assms(2)] by (cases ob) simp_all
qed

end
