(* ===== verification/Stream_Loop.thy ===== *)
theory Stream_Loop
  imports Run_Loop Stream_Ops
begin

section \<open>The run loop serving a stream\<close>

text \<open>
  The composition of the run loop with the objects it serves. The locale \<open>completions\<close> is what a batch
  needs of the objects behind the user data, \<open>coroutines\<close> adds what it needs of the coroutines; both
  are interpreted on the stream, whose coroutines make calls on it. The properties: a batch of
  completions that the kernel may post for a stream runs through and leaves the stream's
  invariant, also when it deletes the stream; and so does a whole iteration of the loop.
\<close>

subsection \<open>What does not touch the scheduler\<close>

definition keeps :: "('r io_context_frame \<times> 'o, 'a) op \<Rightarrow> bool" where
  "keeps m = (\<forall>s. sched (fst (snd (m s))) = sched (fst s))"

named_theorems keeps_intros \<open>operations that leave the scheduler's part of the frame alone\<close>

lemma keeps_run: "keeps m \<Longrightarrow> m s = (x, s') \<Longrightarrow> sched (fst s') = sched (fst s)"
  unfolding keeps_def by (metis snd_conv)

lemma keeps_basic [keeps_intros]:
  "keeps (retM x)" "keeps (throwM e)" "keeps (assertM b)" "keeps (\<lambda>s. (y, s))" "keeps (on_ring m)" "keeps (on_obj f)"
  "keeps (throw_errno_as_error_code e)"
  by (auto simp: keeps_def retM_def throwM_def assertM_def on_ring_def on_obj_def throw_errno_as_error_code_def
      split: prod.splits option.splits)

lemma keeps_bind [keeps_intros]:
  assumes "keeps m" and "\<And>x. keeps (f x)"
  shows "keeps (bindM m f)"
  unfolding keeps_def
proof
  fix s
  obtain y s1 where m: "m s = (y, s1)" by (cases "m s")
  have "sched (fst s1) = sched (fst s)" by (rule keeps_run [OF assms(1) m])
  moreover have "sched (fst (snd (f x s1))) = sched (fst s1)" for x using assms(2) unfolding keeps_def by blast
  ultimately show "sched (fst (snd (bindM m f s))) = sched (fst s)"
    using m by (cases y) (simp_all add: bindM_def)
qed

lemma keeps_then [keeps_intros]: "keeps m \<Longrightarrow> keeps k \<Longrightarrow> keeps (thenM m k)"
  by (simp add: thenM_def keeps_bind)

lemma keeps_with_obj [keeps_intros]: "(\<And>ob. keeps (f ob)) \<Longrightarrow> keeps (with_obj f)"
  by (simp add: keeps_def with_obj_def)

lemma keeps_if [keeps_intros]: "keeps m \<Longrightarrow> keeps k \<Longrightarrow> keeps (if b then m else k)"
  by simp

lemma keeps_ignore [keeps_intros]: "keeps m \<Longrightarrow> keeps (ignoreM m)"
  by (simp add: ignoreM_def keeps_intros)

lemma keeps_release_fd [keeps_intros]: "keeps (on_frame (release_fd fd))"
  by (auto simp: keeps_def on_frame_def release_fd_def op_simps assertM_def thenM_def bindM_def modifyM_def
      split: prod.splits outcome.splits if_splits)

lemma keeps_group [keeps_intros]: "keeps (on_group g m)"
  by (auto simp: keeps_def on_group_def split: prod.splits option.splits)

lemma keeps_handle [keeps_intros]: "keeps (stream_handle t)"
  by (cases t) (auto simp: keeps_def stream_handle_def cancel_handle_def close_handle_def shutdown_handle_def
      send_handle_def recv_handle_def retM_def op_frame_handle_def)

lemma keeps_process [keeps_intros]: "keeps (stream_process E now t c)"
  by (cases t) (simp_all add: stream_process_def cancel_process_def timeout_cancel_process_def close_process_def
      shutdown_process_def send_process_def recv_process_def recv_process_error_def recv_process_eof_def
      recv_process_data_def recv_push_def timeout_process_def timeout_rearm_def timeout_cancel_start_def
      intrusive_ptr_add_ref_def keeps_intros)

lemma keeps_stream_dtor [keeps_intros]: "keeps (stream_impl_dtor E)"
  by (simp add: stream_impl_dtor_def close_owned_fd_def keeps_intros)

lemma keeps_release [keeps_intros]:
  assumes "keeps dtor"
  shows "keeps (intrusive_ptr_release dtor)"
  unfolding keeps_def
proof
  fix s :: "'a io_context_frame \<times> 'b ref_count_scheme"
  have "keeps (thenM dtor (retM True))" by (intro keeps_intros assms)
  then show "sched (fst (snd (intrusive_ptr_release dtor s))) = sched (fst s)"
    unfolding keeps_def by (cases s) (auto simp: release_apply)
qed

subsection \<open>What a batch needs of the objects and the coroutines\<close>

text \<open>Every completion of a batch is admissible in the state in which its turn comes.\<close>

fun batch_adm ::
  "('r, 'w) objects \<Rightarrow> (cqe \<Rightarrow> ('r, 'w) world \<Rightarrow> bool) \<Rightarrow> cqe list \<Rightarrow> ('r, 'w) world \<Rightarrow> bool" where
  "batch_adm R adm [] s = True"
| "batch_adm R adm (c # cs) s =
     (if cqe_data c = UD_null then batch_adm R adm cs s
      else adm c s \<and> batch_adm R adm cs (snd (deliver_one R c s)))"

locale completions =
  fixes R :: "('r, 'w) objects"
    and inv :: "('r, 'w) world \<Rightarrow> bool"
    and adm :: "cqe \<Rightarrow> ('r, 'w) world \<Rightarrow> bool"
  assumes deliver: "inv s \<Longrightarrow> cqe_data c \<noteq> UD_null \<Longrightarrow> adm c s \<Longrightarrow>
      \<exists>k s'. deliver_one R c s = (Ret (case exception_ptr (fst s) of Some x \<Rightarrow> Inl x | None \<Rightarrow> Inr k), s') \<and>
        inv s' \<and> sched (fst s') = sched (fst s)"
    and inv_ring: "inv (fr, w) \<Longrightarrow> inv (fr\<lparr>io_ring := r\<rparr>, w)"
begin

lemma advance: "\<exists>s'. cq_advance E k s = (Ret (), s') \<and> (inv s \<longrightarrow> inv s') \<and> sched (fst s') = sched (fst s)"
  by (cases s) (simp add: cq_advance_def on_ring_def inv_ring)

lemma batch:
  assumes "inv s" and "batch_adm R adm cs s" and "exception_ptr (fst s) = None"
  shows "\<exists>hs' s'. batch_loop E R n hs cs s = (Ret (Inr hs'), s') \<and> inv s' \<and> sched (fst s') = sched (fst s)"
  using assms
proof (induction cs arbitrary: n hs s)
  case Nil
  then show ?case using advance [of E n s] by (auto simp: op_simps)
next
  case (Cons c cs)
  show ?case
  proof (cases "cqe_data c = UD_null")
    case True
    then show ?thesis using Cons by simp
  next
    case False
    obtain k s1 where s1: "deliver_one R c s = (Ret (Inr k), s1)" "inv s1" "sched (fst s1) = sched (fst s)"
      using deliver [of s c] Cons.prems False by auto
    have "batch_adm R adm cs s1" "exception_ptr (fst s1) = None"
      using Cons.prems False s1 by (simp_all add: sched_def)
    from Cons.IH [OF s1(2) this, of "n + 1" "case k of None \<Rightarrow> hs | Some h \<Rightarrow> hs @ [h]"]
    show ?thesis using False s1 by simp
  qed
qed

lemma run_batch_ok:
  assumes "inv s" and "batch_adm R adm (cq_ready E (io_ring (fst s))) s" and "exception_ptr (fst s) = None"
    and "length (cq_ready E (io_ring (fst s))) \<le> unat (cq_entries (params (fst s)))"
  shows "\<exists>hs s'. run_batch E R s = (Ret (Inr hs), s') \<and> inv s' \<and> sched (fst s') = sched (fst s)"
  using batch [OF assms(1-3)] assms(4) by (simp add: run_batch_def)

end

locale coroutines = completions +
  assumes resume: "inv s \<Longrightarrow> \<exists>s'. co_resume R h s = (Ret (), s') \<and> inv s' \<and> sched (fst s') = sched (fst s)"
begin

lemma resume_all_ok: "inv s \<Longrightarrow> \<exists>s'. resume_all R hs s = (Ret (), s') \<and> inv s' \<and> sched (fst s') = sched (fst s)"
proof (induction hs arbitrary: s)
  case Nil
  then show ?case by (simp add: op_simps)
next
  case (Cons h hs)
  obtain s1 where "co_resume R h s = (Ret (), s1)" "inv s1" "sched (fst s1) = sched (fst s)"
    using resume [OF Cons.prems] by blast
  then show ?case using Cons.IH [of s1] by (simp add: op_simps)
qed

text \<open>One iteration of the loop, from the submission to the last resumed coroutine.\<close>

lemma iteration_ok:
  assumes "inv (fr, w)" and "exception_ptr fr = None"
    and "batch_adm R adm (cq_ready E (io_uring_submit_and_wait E (io_ring fr)))
           (fr\<lparr>io_ring := io_uring_submit_and_wait E (io_ring fr)\<rparr>, w)"
    and "length (cq_ready E (io_uring_submit_and_wait E (io_ring fr))) \<le> unat (cq_entries (params fr))"
  shows "\<exists>s'. wait_and_deliver E R (fr, w) = (Ret None, s') \<and> inv s' \<and> sched (fst s') = sched fr"
proof -
  let ?s = "(fr\<lparr>io_ring := io_uring_submit_and_wait E (io_ring fr)\<rparr>, w)"
  have wait: "submit_and_wait E (fr, w) = (Ret (), ?s)" by (simp add: submit_and_wait_def on_ring_def)
  obtain hs s1 where s1: "run_batch E R ?s = (Ret (Inr hs), s1)" "inv s1" "sched (fst s1) = sched (fst ?s)"
    using run_batch_ok [of ?s E] assms inv_ring by fastforce
  obtain s2 where s2: "resume_all R hs s1 = (Ret (), s2)" "inv s2" "sched (fst s2) = sched (fst s1)"
    using resume_all_ok [OF s1(2)] by blast
  have "wait_and_deliver E R (fr, w) = (Ret None, s2)"
    using wait s1(1) s2(1) by (simp add: wait_and_deliver_def op_simps)
  then show ?thesis using s1(3) s2(2,3) by simp
qed

end

subsection \<open>The stream behind its completions\<close>

text \<open>
  The run loop's view of one stream: every user data points to one of its frames. A coroutine is the
  list of calls that it makes on the stream until it suspends or ends; it makes a call only when the
  documented preconditions hold, and catches what is thrown.
\<close>

definition stream_calls ::
  "'r platform \<Rightarrow> (nat \<Rightarrow> u8) \<Rightarrow> stream_call list \<Rightarrow> (('r, 'a) stream_state, unit) op" where
  "stream_calls E junk cs s =
     (Ret (), fold (\<lambda>c s. if call_ok c (snd s) then snd (exec_call E junk c s) else s) cs s)"

definition stream_objects ::
  "'r platform \<Rightarrow> int \<Rightarrow> (nat \<Rightarrow> u8) \<Rightarrow> (handle \<Rightarrow> stream_call list) \<Rightarrow> ('r, 'a stream_impl_scheme) objects" where
  "stream_objects E now junk prog = \<lparr>
     ob_process = (\<lambda>ud c. case ud of UD_null \<Rightarrow> (\<lambda>s. (Bad_access, s)) | UD p t \<Rightarrow> stream_process E now t c),
     ob_handle = (\<lambda>ud. case ud of UD_null \<Rightarrow> (\<lambda>s. (Bad_access, s)) | UD p t \<Rightarrow> stream_handle t),
     ob_use_count = (\<lambda>ud st. use_count st),
     ob_release = (\<lambda>ud. ignoreM (intrusive_ptr_release (stream_impl_dtor E))),
     co_resume = (\<lambda>h. stream_calls E junk (prog h)),
     clear_map = retM (), pipe_enter = retM (), pipe_leave = retM ()\<rparr>"

definition stream_adm :: "int \<Rightarrow> cqe \<Rightarrow> ('r, 'a) stream_state \<Rightarrow> bool" where
  "stream_adm now c s =
     (case cqe_data c of UD_null \<Rightarrow> True
      | UD p t \<Rightarrow> p = rc_this (snd s) \<and> t \<in># active_tags (snd s) \<and> cqe_ok now t c s)"

text \<open>Deleted, or with \<open>ext\<close> pointers outside the runtime and its completions outstanding.\<close>

definition stream_rests :: "nat \<Rightarrow> ('r, 'a) stream_state \<Rightarrow> bool" where
  "stream_rests ext s =
     (ext = 0 \<and> rc_count (snd s) = 0 \<and> active_tags (snd s) = {#} \<or> life_inv s ext (active_tags (snd s)))"

lemma release_alive:
  assumes laws: "uring_laws E issued n" and life: "life_inv s (Suc ext) (active_tags (snd s))"
  shows "\<exists>s'. ignoreM (intrusive_ptr_release (stream_impl_dtor E)) s = (Ret (), s') \<and> stream_rests ext s' \<and>
     sched (fst s') = sched (fst s)"
proof -
  obtain fr st where s: "s = (fr, st)" by (cases s)
  obtain fr' st' where r: "intrusive_ptr_release (stream_impl_dtor E) (fr, st) =
        (Ret (Suc ext = 1 \<and> active_tags st = {#}), (fr', st'))"
      "\<not> (Suc ext = 1 \<and> active_tags st = {#}) \<longrightarrow> life_inv (fr', st') (Suc ext - 1) (active_tags st)"
    using stream_release_ok [OF laws, of fr st "Suc ext" "active_tags st"] life s by (auto split: if_splits)
  have k: "sched fr' = sched fr"
    using keeps_run [OF keeps_release [OF keeps_stream_dtor] r(1)] by simp
  have "stream_rests ext (fr', st')"
  proof (cases "ext = 0 \<and> active_tags st = {#}")
    case False
    then have "life_inv (fr', st') ext (active_tags st)" using r(2) by auto
    then show ?thesis by (simp add: stream_rests_def life_inv_def)
  next
    case True
    then have one: "rc_count st = 1" using life s by (simp add: life_inv_def)
    have st': "st' = st\<lparr>rc_count := 0\<rparr> \<or> st' = st\<lparr>rc_count := 0, st_fd := - 1\<rparr>"
    proof (cases "st_fd st = - 1")
      case True
      then show ?thesis using r(1) one by (simp add: release_apply stream_impl_dtor_def op_simps)
    next
      case False
      then have fd: "owned_fd_ok fr (st_fd st)" "fd_inv fr" using life s by (auto simp: life_inv_def stream_inv_def fd_wf_def)
      obtain r' where "close_owned_fd E (st_fd st) (fr, st\<lparr>rc_count := 0\<rparr>) =
          (Ret (), (fr\<lparr>io_ring := r', fds := insert (st_fd st) (fds fr)\<rparr>, st\<lparr>rc_count := 0\<rparr>))"
        by (rule close_owned_fd_ok [OF laws fd(2,1)])
      then show ?thesis using r(1) one fd(1) by (simp add: release_apply stream_impl_dtor_def owned_fd_ok_def op_simps)
    qed
    have "active_tags (st\<lparr>rc_count := 0, st_fd := - 1\<rparr>) = active_tags st" by (simp add: active_tags_def)
    then show ?thesis using st' True by (auto simp: stream_rests_def)
  qed
  then show ?thesis using r(1) k s by (auto simp: op_simps)
qed

lemma stream_deliver_one:
  assumes laws: "uring_laws E issued n" and rests: "stream_rests ext s" and "cqe_data c \<noteq> UD_null" and adm: "stream_adm now c s"
  shows "\<exists>k s'. deliver_one (stream_objects E now junk prog) c s =
      (Ret (case exception_ptr (fst s) of Some x \<Rightarrow> Inl x | None \<Rightarrow> Inr k), s') \<and>
      stream_rests ext s' \<and> sched (fst s') = sched (fst s)"
proof -
  let ?R = "stream_objects E now junk prog"
  obtain p t where ud: "cqe_data c = UD p t" using assms(3) by (cases "cqe_data c") auto
  have t: "t \<in># active_tags (snd s)" "cqe_ok now t c s" using adm ud by (simp_all add: stream_adm_def)
  then have life: "life_inv s ext (active_tags (snd s))" using rests by (auto simp: stream_rests_def)
  have "1 \<le> use_count (snd s)"
  proof -
    have "0 < size (active_tags (snd s))" using t(1) by (metis empty_iff nonempty_has_size set_mset_empty)
    then show ?thesis using life by (simp add: life_inv_def use_count_def)
  qed
  then have alive: "with_obj (\<lambda>w. assertM (ob_use_count ?R (cqe_data c) w \<ge> 1)) s = (Ret (), s)"
    by (simp add: with_obj_def stream_objects_def op_simps)
  obtain h s1 ts where s1: "deliver E now t c s = (Ret h, s1)"
      "stream_delta issued s s1 (int (size ts) + 1 - int (size (completion_tags t c))) (completion_tags t c) ts"
    using deliver_ok [OF laws life t] by blast
  obtain es where es: "issued (io_ring (fst s1)) = issued (io_ring (fst s)) @ es"
    using s1(2) by (auto simp: stream_delta_def)
  have l: "life_inv s1 (ext + 1) (active_tags (snd s) - completion_tags t c + own_tags (rc_this (snd s)) es)"
    by (rule life_inv_complete [OF laws life t s1(1) es])
  then have "active_tags (snd s) - completion_tags t c + own_tags (rc_this (snd s)) es = active_tags (snd s1)"
    by (simp only: life_inv_def)
  then have life1: "life_inv s1 (Suc ext) (active_tags (snd s1))" using l by (simp only: Suc_eq_plus1)
  have "keeps (deliver E now t c)" by (simp add: deliver_def keeps_intros)
  then have k1: "sched (fst s1) = sched (fst s)" by (rule keeps_run [where m = "deliver E now t c", OF _ s1(1)])
  obtain s2 where s2: "ignoreM (intrusive_ptr_release (stream_impl_dtor E)) s1 = (Ret (), s2)" "stream_rests ext s2"
      "sched (fst s2) = sched (fst s1)"
    using release_alive [OF laws life1] by blast
  have run: "thenM (ob_process ?R (cqe_data c) c) (ob_handle ?R (cqe_data c)) s = (Ret h, s1)"
    using s1(1) ud by (simp add: stream_objects_def deliver_def)
  have rel: "ob_release ?R (cqe_data c) s1 = (Ret (), s2)" using s2(1) by (simp add: stream_objects_def)
  have "deliver_one ?R c s = (Ret (case exception_ptr (fst s1) of Some x \<Rightarrow> Inl x | None \<Rightarrow> Inr h), s2)"
    unfolding deliver_one_def thenM_Ret [where m = "with_obj _", OF alive] run
    by (simp add: thenM_Ret [where m = "ob_release ?R (cqe_data c)", OF rel] retM_apply)
  moreover have "exception_ptr (fst s1) = exception_ptr (fst s)" using k1 by (simp add: sched_def)
  ultimately show ?thesis using s2(2,3) k1 by auto
qed

text \<open>A stream behind its completions meets the contract of the batch, whatever its coroutines do.\<close>

interpretation stream_cqes: completions "stream_objects E now junk prog"
    "\<lambda>s. uring_laws E issued n \<and> stream_rests ext s" "stream_adm now"
proof
  fix s :: "('a, 'b) stream_state" and c
  assume "uring_laws E issued n \<and> stream_rests ext s" and "cqe_data c \<noteq> UD_null" and "stream_adm now c s"
  then show "\<exists>k s'. deliver_one (stream_objects E now junk prog) c s =
      (Ret (case exception_ptr (fst s) of Some x \<Rightarrow> Inl x | None \<Rightarrow> Inr k), s') \<and>
      (uring_laws E issued n \<and> stream_rests ext s') \<and> sched (fst s') = sched (fst s)"
    using stream_deliver_one [of E issued n ext s c now junk prog] by simp
next
  fix fr :: "'a io_context_frame" and w :: "'b stream_impl_scheme" and r
  assume "uring_laws E issued n \<and> stream_rests ext (fr, w)"
  then show "uring_laws E issued n \<and> stream_rests ext (fr\<lparr>io_ring := r\<rparr>, w)"
    by (auto simp: stream_rests_def life_inv_def)
qed

subsection \<open>Coroutines that make calls\<close>

lemma keeps_obj_read [keeps_intros]: "keeps (\<lambda>s. on_obj (f s) s)"
  by (auto simp: keeps_def on_obj_def split: prod.splits)

lemma keeps_ring_group [keeps_intros]: "keeps (on_ring_group g m)"
  by (auto simp: keeps_def on_ring_group_def split: prod.splits option.splits)

lemma keeps_resumes [keeps_intros]:
  "keeps send_await_resume" "keeps stream_cancel_await_resume" "keeps stream_close_await_resume" "keeps shutdown_await_resume"
  by (simp_all add: keeps_def send_await_resume_def stream_cancel_await_resume_def stream_close_await_resume_def
      shutdown_await_resume_def)

lemma keeps_recv_suspend [keeps_intros]: "keeps (recv_await_suspend E now h)"
  by (simp add: recv_await_suspend_def schedule_recv_def intrusive_ptr_add_ref_def Let_def keeps_intros)

lemma keeps_group_set [keeps_intros]: "keeps (set_buffer_group g)"
  by (auto simp: keeps_def set_buffer_group_def throw_errno_as_error_code_def from_errno_def on_obj_def
      split: option.splits prod.splits)

lemma keeps_call [keeps_intros]: "keeps (exec_call E junk c)"
  by (cases c) (simp_all add: exec_call_def send_await_suspend_def send_awaitable_dtor_def cancel_in_flight_def
      stream_cancel_await_suspend_def stream_close_await_suspend_def queue_timer_cancel_def async_shutdown_def
      shutdown_await_suspend_def recv_await_resume_def Let_def stream_timeout_def intrusive_ptr_add_ref_def keeps_intros)

lemma stream_calls_ok:
  assumes laws: "uring_laws E issued n" and "life_inv s ext (active_tags (snd s))"
  shows "\<exists>s'. stream_calls E junk cs s = (Ret (), s') \<and> life_inv s' ext (active_tags (snd s')) \<and> sched (fst s') = sched (fst s)"
  using assms(2)
proof (induction cs arbitrary: s)
  case Nil
  then show ?case by (simp add: stream_calls_def)
next
  case (Cons c cs)
  show ?case
  proof (cases "call_ok c (snd s)")
    case False
    then show ?thesis using Cons by (simp add: stream_calls_def)
  next
    case True
    obtain x s1 where run: "exec_call E junk c s = (x, s1)" by (cases "exec_call E junk c s")
    have "call_safe issued s (exec_call E junk c s)"
      using exec_call_safe [OF laws, of "fst s" "snd s" c junk] Cons.prems True by (simp add: life_inv_def)
    then obtain es where es: "issued (io_ring (fst s1)) = issued (io_ring (fst s)) @ es"
      using run by (auto simp: call_safe_def stream_delta_def)
    have l: "life_inv s1 ext (active_tags (snd s) + own_tags (rc_this (snd s)) es)"
      by (rule life_inv_call [OF laws Cons.prems True run es])
    then have "active_tags (snd s) + own_tags (rc_this (snd s)) es = active_tags (snd s1)" by (simp only: life_inv_def)
    then have l1: "life_inv s1 ext (active_tags (snd s1))" using l by simp
    have "sched (fst s1) = sched (fst s)" by (rule keeps_run [OF keeps_call run])
    then show ?thesis using Cons.IH [OF l1] run True by (simp add: stream_calls_def)
  qed
qed

text \<open>With at least one pointer outside the runtime the stream stays alive, and its coroutines may use it.\<close>

interpretation stream_coroutines: coroutines "stream_objects E now junk prog"
    "\<lambda>s. uring_laws E issued n \<and> life_inv s (Suc ext) (active_tags (snd s))" "stream_adm now"
proof
  fix s :: "('a, 'b) stream_state" and c
  assume a: "uring_laws E issued n \<and> life_inv s (Suc ext) (active_tags (snd s))" "cqe_data c \<noteq> UD_null" "stream_adm now c s"
  then have "stream_rests (Suc ext) s" by (simp add: stream_rests_def)
  then show "\<exists>k s'. deliver_one (stream_objects E now junk prog) c s =
      (Ret (case exception_ptr (fst s) of Some x \<Rightarrow> Inl x | None \<Rightarrow> Inr k), s') \<and>
      (uring_laws E issued n \<and> life_inv s' (Suc ext) (active_tags (snd s'))) \<and> sched (fst s') = sched (fst s)"
    using stream_deliver_one [of E issued n "Suc ext" s c now junk prog] a by (simp add: stream_rests_def)
next
  fix fr :: "'a io_context_frame" and w :: "'b stream_impl_scheme" and r
  assume "uring_laws E issued n \<and> life_inv (fr, w) (Suc ext) (active_tags (snd (fr, w)))"
  then show "uring_laws E issued n \<and> life_inv (fr\<lparr>io_ring := r\<rparr>, w) (Suc ext) (active_tags (snd (fr\<lparr>io_ring := r\<rparr>, w)))"
    by (simp add: life_inv_def)
next
  fix s :: "('a, 'b) stream_state" and h
  assume "uring_laws E issued n \<and> life_inv s (Suc ext) (active_tags (snd s))"
  then show "\<exists>s'. co_resume (stream_objects E now junk prog) h s = (Ret (), s') \<and>
      (uring_laws E issued n \<and> life_inv s' (Suc ext) (active_tags (snd s'))) \<and> sched (fst s') = sched (fst s)"
    using stream_calls_ok [of E issued n s "Suc ext" junk "prog h"] by (simp add: stream_objects_def)
qed

subsection \<open>Properties\<close>

text \<open>
  The run loop can serve a stream to its end: in every reachable state, a batch of completions
  each of which is admissible when its turn comes is processed without an exception, a failed
  assertion or a bad access, by the loop that adopts and releases one reference per completion.
  Afterwards the reference count is again exact, for the pointers that were there before; only if
  there was none and the batch held the last completions has the stream been deleted. The tasks,
  the run queue and the pending exception are as before.
\<close>

theorem stream_batch_served:
  assumes "stream_reach E issued s ext pend" and "uring_laws E issued n" and "exception_ptr (fst s) = None"
    and "batch_adm (stream_objects E now junk prog) (stream_adm now) (cq_ready E (io_ring (fst s))) s"
    and "length (cq_ready E (io_ring (fst s))) \<le> unat (cq_entries (params (fst s)))"
  shows "\<exists>hs s'. run_batch E (stream_objects E now junk prog) s = (Ret (Inr hs), s') \<and> sched (fst s') = sched (fst s) \<and>
     (ext = 0 \<and> rc_count (snd s') = 0 \<and> active_tags (snd s') = {#} \<or>
      rc_count (snd s') = int ext + int (size (active_tags (snd s'))) \<and> stream_inv (fst s') (snd s'))"
proof -
  have "life_inv s ext pend" by (rule stream_reach_life [OF assms(1,2)])
  then have "uring_laws E issued n \<and> stream_rests ext s" using assms(2) by (simp add: stream_rests_def life_inv_def)
  from stream_cqes.run_batch_ok [OF this assms(4,3,5)] show ?thesis
    by (auto simp: stream_rests_def life_inv_def)
qed

text \<open>
  One iteration of the run loop with a stream that the program still holds: when the kernel
  posts admissible completions, waiting, processing them and resuming the coroutines, which make
  any sequence of permitted calls on the stream, ends normally, and the stream is again in a state
  with its invariant and an exact reference count.
\<close>

theorem stream_iteration_ok:
  assumes "stream_reach E issued (fr, st) (Suc ext) pend" and "uring_laws E issued n" and "exception_ptr fr = None"
    and "batch_adm (stream_objects E now junk prog) (stream_adm now) (cq_ready E (io_uring_submit_and_wait E (io_ring fr)))
           (fr\<lparr>io_ring := io_uring_submit_and_wait E (io_ring fr)\<rparr>, st)"
    and "length (cq_ready E (io_uring_submit_and_wait E (io_ring fr))) \<le> unat (cq_entries (params fr))"
  shows "\<exists>s'. wait_and_deliver E (stream_objects E now junk prog) (fr, st) = (Ret None, s') \<and> sched (fst s') = sched fr \<and>
     stream_inv (fst s') (snd s') \<and> rc_count (snd s') = int (Suc ext) + int (size (active_tags (snd s')))"
proof -
  have "life_inv (fr, st) (Suc ext) pend" by (rule stream_reach_life [OF assms(1,2)])
  then have "uring_laws E issued n \<and> life_inv (fr, st) (Suc ext) (active_tags (snd (fr, st)))"
    using assms(2) by (simp add: life_inv_def)
  from stream_coroutines.iteration_ok [OF this assms(3-5)] show ?thesis
    by (auto simp: life_inv_def)
qed

text \<open>The example stream, with a completion without an object and a tick of its timer ready.\<close>

definition ex_tick :: cqe where
  "ex_tick = \<lparr>cqe_res = - ETIME, cqe_flags = 2, cqe_data = UD 640 F_timeout\<rparr>"

definition ex_ticking :: "list_ring io_context_frame" where
  "ex_ticking = ex_sframe\<lparr>io_ring := \<lparr>lr_free = 3, lr_issued = [timeout_sqe 640],
     lr_cq = [\<lparr>cqe_res = 0, cqe_flags = 0, cqe_data = UD_null\<rparr>, ex_tick]\<rparr>\<rparr>"

lemma ex_ticking_reach: "stream_reach (list_platform 4) lr_issued (ex_ticking, ex_stream) 1 {#F_timeout#}"
proof (rule stream_reach.interfered [OF ex_stream_reach])
  have "stream_inv ex_sframe ex_stream" using stream_reach_life [OF ex_stream_reach ex_laws] by (simp add: life_inv_def)
  then have "fd_inv ex_sframe" "groups_inv ex_sframe" by (simp_all add: stream_inv_def)
  then show "rely ex_stream ex_sframe ex_ticking"
    by (simp add: rely_def ex_ticking_def) (simp add: ex_stream_defs)
qed

lemma ex_ticking_simps:
  "exception_ptr ex_ticking = None" "cq_entries (params ex_ticking) = 4096" "fd_inv (ex_ticking\<lparr>io_ring := r\<rparr>) = fd_inv ex_ticking"
  by (simp_all add: ex_ticking_def) (simp_all add: ex_stream_defs)

lemma ex_tick_adm: "stream_adm 1 ex_tick (ex_ticking\<lparr>io_ring := r\<rparr>, ex_stream)" "stream_adm 1 ex_tick (ex_ticking, ex_stream)"
  by (simp_all add: stream_adm_def ex_tick_def cqe_ok_def should_cancel_def active_tags_mem) (simp_all add: ex_stream_defs)

theorem stream_batch_served_witness:
  "\<exists>hs s'. run_batch (list_platform 4) (stream_objects (list_platform 4) 1 (\<lambda>_. 0) (\<lambda>_. [])) (ex_ticking, ex_stream) =
     (Ret (Inr hs), s') \<and> rc_count (snd s') = 1 + int (size (active_tags (snd s')))"
proof -
  have cq: "cq_ready (list_platform 4) (io_ring (fst (ex_ticking, ex_stream))) =
      [\<lparr>cqe_res = 0, cqe_flags = 0, cqe_data = UD_null\<rparr>, ex_tick]"
    by (simp add: list_platform_def ex_ticking_def)
  have adm: "batch_adm (stream_objects (list_platform 4) 1 (\<lambda>_. 0) (\<lambda>_. [])) (stream_adm 1)
      (cq_ready (list_platform 4) (io_ring (fst (ex_ticking, ex_stream)))) (ex_ticking, ex_stream)"
    unfolding cq using ex_tick_adm(2) by simp
  have len: "length (cq_ready (list_platform 4) (io_ring (fst (ex_ticking, ex_stream)))) \<le>
      unat (cq_entries (params (fst (ex_ticking, ex_stream))))"
    unfolding cq by (simp add: ex_ticking_simps)
  have exc: "exception_ptr (fst (ex_ticking, ex_stream)) = None" by (simp add: ex_ticking_simps)
  from stream_batch_served [OF ex_ticking_reach ex_laws exc adm len] show ?thesis by auto
qed

theorem stream_iteration_ok_witness:
  "\<exists>s'. wait_and_deliver (list_platform 4)
       (stream_objects (list_platform 4) 1 (\<lambda>_. 0) (\<lambda>_. [Call_send 1 [104, 105] 4096])) (ex_ticking, ex_stream) = (Ret None, s') \<and>
     rc_count (snd s') = 1 + int (size (active_tags (snd s')))"
proof -
  let ?R = "stream_objects (list_platform 4) 1 (\<lambda>_. 0) (\<lambda>_. [Call_send 1 [104, 105] 4096])"
  let ?r = "io_uring_submit_and_wait (list_platform 4) (io_ring ex_ticking)"
  have cq: "cq_ready (list_platform 4) ?r = [\<lparr>cqe_res = 0, cqe_flags = 0, cqe_data = UD_null\<rparr>, ex_tick]"
    by (simp add: list_platform_def ex_ticking_def)
  have adm: "batch_adm ?R (stream_adm 1) (cq_ready (list_platform 4) ?r) (ex_ticking\<lparr>io_ring := ?r\<rparr>, ex_stream)"
    unfolding cq using ex_tick_adm(1) by simp
  have len: "length (cq_ready (list_platform 4) ?r) \<le> unat (cq_entries (params ex_ticking))"
    unfolding cq by (simp add: ex_ticking_simps)
  have reach: "stream_reach (list_platform 4) lr_issued (ex_ticking, ex_stream) (Suc 0) {#F_timeout#}"
    using ex_ticking_reach by simp
  from stream_iteration_ok [OF reach ex_laws ex_ticking_simps(1) adm len] show ?thesis by auto
qed

end
