(* ===== verification/Run_Turns.thy ===== *)
theory Run_Turns
  imports Stream_Loop
begin

section \<open>Turns of the run loop\<close>

text \<open>
  The body of the \<^verbatim>\<open>while\<close> of \<^verbatim>\<open>run\<close>, any number of times, for coroutines that also spawn and end
  tasks: the locale \<open>spawners\<close> is what the objects and the coroutines have to keep so that no turn
  fails, and its lemma says that \<open>run_loop\<close> then makes exactly these turns.
\<close>

text \<open>At most \<open>n\<close> turns; no further one is begun when there are no tasks.\<close>

primrec run_turns ::
  "nat \<Rightarrow> 'r platform \<Rightarrow> ('r, 'w) objects \<Rightarrow> ('r, 'w) world \<Rightarrow> (nat option outcome \<times> ('r, 'w) world) option" where
  "run_turns 0 E R s = Some (Ret None, s)"
| "run_turns (Suc n) E R s =
     Option.bind (run_queue_loop R s) (\<lambda>(x, s1).
       if x \<noteq> Ret None then Some (x, s1)
       else if tasks (fst s1) = {} then Some (Ret None, s1)
       else case wait_and_deliver E R s1 of
         (Ret None, s2) \<Rightarrow> if tasks (fst s2) = {} then Some (Ret None, s2) else run_turns n E R s2
       | (x2, s2) \<Rightarrow> Some (x2, s2))"

text \<open>In each of these turns the kernel posts a batch of admissible completions that fits the vectors.\<close>

primrec turns_adm ::
  "nat \<Rightarrow> 'r platform \<Rightarrow> ('r, 'w) objects \<Rightarrow> (cqe \<Rightarrow> ('r, 'w) world \<Rightarrow> bool) \<Rightarrow> ('r, 'w) world \<Rightarrow> bool" where
  "turns_adm 0 E R adm s = True"
| "turns_adm (Suc n) E R adm s =
     (case run_queue_loop R s of
        Some (Ret None, s1) \<Rightarrow>
          tasks (fst s1) = {} \<or>
          (let s2 = snd (submit_and_wait E s1); cs = cq_ready E (io_ring (fst s2)) in
             batch_adm R adm cs s2 \<and> length cs \<le> unat (cq_entries (params (fst s2))) \<and>
             (case wait_and_deliver E R s1 of (Ret None, s3) \<Rightarrow> tasks (fst s3) = {} \<or> turns_adm n E R adm s3 | _ \<Rightarrow> True))
      | _ \<Rightarrow> True)"

locale spawners = completions +
  fixes rank :: "handle \<Rightarrow> nat"
  assumes resume: "inv s \<Longrightarrow> \<exists>s' new. co_resume R h s = (Ret (), s') \<and> inv s' \<and>
      exception_ptr (fst s') = exception_ptr (fst s) \<and> params (fst s') = params (fst s) \<and>
      run_queue (fst s') = run_queue (fst s) @ new \<and> (\<forall>k \<in> set new. rank k < rank h)"
    and inv_queue: "inv (fr, w) \<Longrightarrow> inv (fr\<lparr>run_queue := q\<rparr>, w)"
begin

lemma queue_ok:
  assumes "inv s" and "exception_ptr (fst s) = None"
  shows "\<exists>s'. run_queue_loop R s = Some (Ret None, s') \<and> exception_ptr (fst s') = None \<and> inv s'"
proof -
  have "\<exists>s2 new. co_resume R h s1 = (Ret (), s2) \<and> run_queue (fst s2) = run_queue (fst s1) @ new \<and>
      (\<forall>k \<in> set new. rank k < rank h) \<and> exception_ptr (fst s2) = None \<and> inv ((fst s2)\<lparr>run_queue := q @ new\<rparr>, snd s2)"
    if "inv s1" "exception_ptr (fst s1) = None" for h q s1
    using resume [OF that(1), of h] that(2) inv_queue by fastforce
  then show ?thesis
    using run_queue_loop_inv [where P = inv and R = R and rank = rank and s = s] assms by blast
qed

lemma resume_list_ok:
  "inv s \<Longrightarrow> exception_ptr (fst s) = None \<Longrightarrow>
     \<exists>s'. resume_all R hs s = (Ret (), s') \<and> inv s' \<and> exception_ptr (fst s') = None"
proof (induction hs arbitrary: s)
  case (Cons h hs)
  obtain s1 where "co_resume R h s = (Ret (), s1)" "inv s1" "exception_ptr (fst s1) = None"
    using resume [OF Cons.prems(1), of h] Cons.prems(2) by auto
  then show ?case using Cons.IH [of s1] by (simp add: op_simps)
qed (simp add: op_simps)

lemma wait_ok:
  assumes "inv s" and "exception_ptr (fst s) = None"
    and "batch_adm R adm (cq_ready E (io_ring (fst (snd (submit_and_wait E s))))) (snd (submit_and_wait E s))"
    and "length (cq_ready E (io_ring (fst (snd (submit_and_wait E s))))) \<le>
      unat (cq_entries (params (fst (snd (submit_and_wait E s)))))"
  shows "\<exists>s'. wait_and_deliver E R s = (Ret None, s') \<and> inv s' \<and> exception_ptr (fst s') = None"
proof -
  let ?s = "((fst s)\<lparr>io_ring := io_uring_submit_and_wait E (io_ring (fst s))\<rparr>, snd s)"
  have wait: "submit_and_wait E s = (Ret (), ?s)" by (cases s) (simp add: submit_and_wait_def on_ring_def)
  have "inv ?s" using assms(1) inv_ring [of "fst s" "snd s"] by simp
  then obtain hs s1 where s1: "run_batch E R ?s = (Ret (Inr hs), s1)" "inv s1" "sched (fst s1) = sched (fst ?s)"
    using run_batch_ok [of ?s E] assms(2-4) wait by auto
  have "exception_ptr (fst s1) = None" using s1(3) assms(2) by (simp add: sched_def)
  then obtain s2 where s2: "resume_all R hs s1 = (Ret (), s2)" "inv s2" "exception_ptr (fst s2) = None"
    using resume_list_ok [OF s1(2)] by blast
  have "wait_and_deliver E R s = (Ret None, s2)"
    using wait s1(1) s2(1) by (simp add: wait_and_deliver_def op_simps)
  then show ?thesis using s2(2,3) by simp
qed

text \<open>No turn fails, and the loop goes on from where the turns end.\<close>

lemma turns_ok:
  assumes "inv s" and "exception_ptr (fst s) = None" and "tasks (fst s) \<noteq> {}" and "turns_adm n E R adm s"
  shows "\<exists>s'. run_turns n E R s = Some (Ret None, s') \<and> inv s' \<and> exception_ptr (fst s') = None \<and>
     run_loop E R s = (if tasks (fst s') = {} then Some (Ret None, s') else run_loop E R s')"
  using assms
proof (induction n arbitrary: s)
  case 0
  then show ?case by simp
next
  case (Suc n)
  obtain s1 where s1: "run_queue_loop R s = Some (Ret None, s1)" "exception_ptr (fst s1) = None" "inv s1"
    using queue_ok [OF Suc.prems(1,2)] by blast
  show ?case
  proof (cases "tasks (fst s1) = {}")
    case True
    have "run_loop E R s = Some (Ret None, s1)" using Suc.prems s1 True by (subst run_loop.simps) simp
    then show ?thesis using s1 True by simp
  next
    case False
    then obtain s3 where s3: "wait_and_deliver E R s1 = (Ret None, s3)" "inv s3" "exception_ptr (fst s3) = None"
      using wait_ok [OF s1(3,2), of E] Suc.prems(4) s1(1) by (auto simp: Let_def)
    have loop: "run_loop E R s = run_loop E R s3" using Suc.prems s1 s3 False by (subst run_loop.simps) simp
    show ?thesis
    proof (cases "tasks (fst s3) = {}")
      case True
      have "run_loop E R s3 = Some (Ret None, s3)" using s3 True by (subst run_loop.simps) simp
      then show ?thesis using s1(1) s3 False True loop by simp
    next
      case tasks: False
      have "turns_adm n E R adm s3" using Suc.prems(4) s1(1) s3(1) False tasks by (simp add: Let_def)
      from Suc.IH [OF s3(2,3) tasks this] show ?thesis using s1(1) s3(1) False tasks loop by simp
    qed
  qed
qed

end

end
