(* ===== verification/Client.thy ===== *)
theory Client
  imports Stream_Ops
begin

section \<open>TCP clients (\<open>detail/stream_impl.hpp\<close>, \<open>tcp.cpp\<close>)\<close>

text \<open>
  \<^verbatim>\<open>client_impl\<close> extends \<^verbatim>\<open>stream_impl\<close> with the two frames of \<^verbatim>\<open>async_connect\<close>: one for making the
  socket, one for connecting it. The entries are linked, with a link timeout behind the connect.
  The properties follow a connect through the ways its two completions can arrive.
\<close>

record client_impl = stream_impl +
  socket_fr :: op_frame
  connect_fr :: op_frame
  addr_storage :: sockaddr

type_synonym 'r client_state = "'r io_context_frame \<times> client_impl"

definition client_impl_ctor ::
  "'r platform \<Rightarrow> addr \<Rightarrow> int \<Rightarrow> sockaddr \<Rightarrow> 'r io_context_frame \<Rightarrow> unit outcome \<times> 'r client_state" where
  "client_impl_ctor E this now zero fr =
     stream_init E (fr, stream_impl.extend (stream_fields this now)
       \<lparr>socket_fr = op_frame_new, connect_fr = op_frame_new, addr_storage = zero\<rparr>)"

subsection \<open>Completions\<close>

definition socket_process :: "cqe \<Rightarrow> ('r client_state, unit) op" where
  "socket_process c =
     thenM (on_obj (\<lambda>cl. cl\<lparr>socket_fr := (socket_fr cl)\<lparr>of_done := True\<rparr>\<rparr>))
      (if cqe_res c < 0
       then thenM (on_obj (\<lambda>cl. cl\<lparr>socket_fr := (socket_fr cl)\<lparr>of_res := cqe_res c\<rparr>\<rparr>))
             (with_obj (\<lambda>cl. thenM (on_frame (release_fd (st_fd cl))) (on_obj (\<lambda>cl. cl\<lparr>st_fd := - 1\<rparr>))))
       else retM ())"

definition socket_handle :: "('r client_state, handle option) op" where
  "socket_handle s =
     (if of_res (socket_fr (snd s)) < 0
      then (case op_frame_handle (socket_fr (snd s)) of (k, f) \<Rightarrow> (Ret k, (fst s, (snd s)\<lparr>socket_fr := f\<rparr>)))
      else (Ret None, s))"

definition connect_process :: "cqe \<Rightarrow> ('r client_state, unit) op" where
  "connect_process c =
     thenM (on_obj (\<lambda>cl. cl\<lparr>connect_fr := (connect_fr cl)\<lparr>of_done := True\<rparr>\<rparr>))
      (if cqe_res c < 0
       then thenM (on_obj (\<lambda>cl. cl\<lparr>connect_fr := (connect_fr cl)\<lparr>of_res := cqe_res c\<rparr>\<rparr>))
             (if cqe_res c \<noteq> - EISCONN then on_obj (\<lambda>cl. cl\<lparr>st_connected := False\<rparr>) else retM ())
       else on_obj (\<lambda>cl. cl\<lparr>st_connected := True\<rparr>))"

definition connect_handle :: "('r client_state, handle option) op" where
  "connect_handle s =
     (case op_frame_handle (connect_fr (snd s)) of (k, f) \<Rightarrow> (Ret k, (fst s, (snd s)\<lparr>connect_fr := f\<rparr>)))"

subsection \<open>\<open>async_connect\<close> and its awaitable\<close>

definition async_connect :: "sockaddr \<Rightarrow> ('r client_state, unit) op" where
  "async_connect a =
     (if \<not> is_inet (sa_fam a) then throw_errno_as_error_code EINVAL else on_obj (\<lambda>cl. cl\<lparr>addr_storage := a\<rparr>))"

definition connect_await_ready :: "('r client_state, bool) op" where
  "connect_await_ready =
     with_obj (\<lambda>cl. if of_initiated (socket_fr cl) then throw_errno_as_error_code EBUSY else retM False)"

definition socket_sqe :: "addr \<Rightarrow> sa_family \<Rightarrow> int \<Rightarrow> sqe" where
  "socket_sqe this af fd =
     \<lparr>sqe_prep = Prep_socket_direct af (of_int fd), sqe_flags = [IOSQE_IO_LINK], sqe_data = UD this F_socket\<rparr>"

definition connect_sqes :: "addr \<Rightarrow> int \<Rightarrow> sockaddr \<Rightarrow> sqe list" where
  "connect_sqes this fd a =
     [\<lparr>sqe_prep = Prep_connect fd a, sqe_flags = [IOSQE_IO_LINK, IOSQE_FIXED_FILE], sqe_data = UD this F_connect\<rparr>,
      \<lparr>sqe_prep = Prep_link_timeout (UD this F_timeout), sqe_flags = [IOSQE_CQE_SKIP_SUCCESS], sqe_data = UD_null\<rparr>]"

definition connect_tail :: "'r platform \<Rightarrow> handle \<Rightarrow> ('r client_state, bool) op" where
  "connect_tail E h =
     with_obj (\<lambda>cl. thenM (on_ring (put_sqes E (connect_sqes (rc_this cl) (st_fd cl) (addr_storage cl))))
       (thenM intrusive_ptr_add_ref
         (thenM (on_obj (\<lambda>cl. cl\<lparr>connect_fr := op_frame_start h (connect_fr cl)\<rparr>)) (retM True))))"

definition socket_head :: "'r platform \<Rightarrow> handle \<Rightarrow> ('r client_state, bool) op" where
  "socket_head E h =
     with_obj (\<lambda>cl. thenM (on_ring (reserve_sqes E 3))
       (thenM (on_ring (put_sqe E (socket_sqe (rc_this cl) (sa_fam (addr_storage cl)) (st_fd cl))))
         (thenM intrusive_ptr_add_ref
           (thenM (on_obj (\<lambda>cl. cl\<lparr>socket_fr := op_frame_start h (socket_fr cl)\<rparr>)) (connect_tail E h)))))"

definition connect_await_suspend :: "'r platform \<Rightarrow> handle \<Rightarrow> ('r client_state, bool) op" where
  "connect_await_suspend E h =
     with_obj (\<lambda>cl. thenM (assertM (\<not> of_initiated (socket_fr cl)))
      (thenM (assertM (\<not> of_initiated (connect_fr cl)))
       (thenM (assertM (of_h (socket_fr cl) = None))
        (thenM (assertM (of_h (connect_fr cl) = None))
         (thenM (assertM (is_inet (sa_fam (addr_storage cl))))
          (if st_fd cl \<ge> 0 \<and> st_connected cl then thenM (on_ring (reserve_sqes E 2)) (connect_tail E h)
           else if st_fd cl = - 1
           then bindM (on_frame (get_available_fd E)) (\<lambda>fd.
                  thenM (on_obj (\<lambda>cl. cl\<lparr>st_fd := fd\<rparr>))
                    (if fd < 0 then thenM (on_obj (\<lambda>cl. cl\<lparr>socket_fr := (socket_fr cl)\<lparr>of_res := - ENFILE\<rparr>\<rparr>)) (retM False)
                     else socket_head E h))
           else socket_head E h))))))"

definition connect_reset :: "('r client_state, unit) op" where
  "connect_reset =
     on_obj (\<lambda>cl. cl\<lparr>socket_fr := op_frame_reset (socket_fr cl), connect_fr := op_frame_reset (connect_fr cl)\<rparr>)"

definition connect_await_resume :: "('r client_state, unit fiona_result) op" where
  "connect_await_resume =
     with_obj (\<lambda>cl.
       if of_res (socket_fr cl) < 0
       then thenM (assertM (\<not> of_done (connect_fr cl))) (thenM connect_reset (retM (Inl (- of_res (socket_fr cl)))))
       else if of_res (connect_fr cl) < 0
       then thenM (assertM ((\<not> of_initiated (socket_fr cl) \<and> \<not> of_done (socket_fr cl)) \<or>
                            (of_initiated (socket_fr cl) \<and> of_done (socket_fr cl))))
              (thenM connect_reset (retM (Inl (- of_res (connect_fr cl)))))
       else thenM connect_reset (retM (Inr ())))"

definition cancel_sqe_noskip :: "user_data \<Rightarrow> sqe" where
  "cancel_sqe_noskip ud = \<lparr>sqe_prep = Prep_cancel ud, sqe_flags = [], sqe_data = UD_null\<rparr>"

definition connect_awaitable_dtor :: "'r platform \<Rightarrow> ('r client_state, unit) op" where
  "connect_awaitable_dtor E =
     with_obj (\<lambda>cl.
       thenM (on_ring (reserve_sqes E (of_bool (of_initiated (socket_fr cl)) + of_bool (of_initiated (connect_fr cl)))))
        (thenM (if op_frame_active (socket_fr cl) then on_ring (put_sqe E (cancel_sqe_noskip (UD (rc_this cl) F_socket))) else retM ())
          (thenM (if op_frame_active (connect_fr cl) then on_ring (put_sqe E (cancel_sqe_noskip (UD (rc_this cl) F_connect))) else retM ())
            (on_ring (submit_ring E)))))"

definition client_dtor :: "'r platform \<Rightarrow> ('r client_state, bool) op" where
  "client_dtor E =
     with_obj (\<lambda>cl. let uc = use_count cl - count_active cl - of_bool (op_frame_active (socket_fr cl)) -
                             of_bool (op_frame_active (connect_fr cl)) in
       thenM (assertM (uc > 0))
        (thenM (if uc = 1 then thenM (cancel_timer E) (cancel_recv E) else retM ())
          (intrusive_ptr_release (stream_impl_dtor E))))"

subsection \<open>Starting a connect\<close>

definition connect_idle :: "client_impl \<Rightarrow> bool" where
  "connect_idle cl = (socket_fr cl = op_frame_new \<and> connect_fr cl = op_frame_new \<and> is_inet (sa_fam (addr_storage cl)))"

lemma connect_tail_ok:
  assumes laws: "uring_laws E issued n" and room: "2 \<le> sq_space_left E (io_ring fr)"
  obtains r' where "connect_tail E h (fr, cl) = (Ret True, (fr\<lparr>io_ring := r'\<rparr>,
      cl\<lparr>rc_count := rc_count cl + 1, connect_fr := op_frame_start h (connect_fr cl)\<rparr>))"
    and "issued r' = issued (io_ring fr) @ connect_sqes (rc_this cl) (st_fd cl) (addr_storage cl)"
proof -
  have "length (connect_sqes (rc_this cl) (st_fd cl) (addr_storage cl)) \<le> sq_space_left E (io_ring fr)"
    using room by (simp add: connect_sqes_def)
  then obtain r' where "put_sqes E (connect_sqes (rc_this cl) (st_fd cl) (addr_storage cl)) (io_ring fr) = (Ret (), r')"
      "issued r' = issued (io_ring fr) @ connect_sqes (rc_this cl) (st_fd cl) (addr_storage cl)"
    using put_sqes_ok [OF laws] by blast
  with that show ?thesis by (simp add: connect_tail_def op_simps)
qed

text \<open>A client without a socket: a descriptor is taken and three linked entries are issued.\<close>

lemma connect_start_fresh:
  assumes laws: "uring_laws E issued n" and pool: "fd_inv fr" "fds fr \<noteq> {}"
    and idle: "connect_idle cl" and fd: "st_fd cl = - 1"
  obtains f r' where "connect_await_suspend E h (fr, cl) = (Ret True, (fr\<lparr>fds := fds fr - {f}, io_ring := r'\<rparr>,
      cl\<lparr>st_fd := f, rc_count := rc_count cl + 2, socket_fr := op_frame_start h op_frame_new,
         connect_fr := op_frame_start h op_frame_new\<rparr>))"
    and "issued r' = issued (io_ring fr) @ socket_sqe (rc_this cl) (sa_fam (addr_storage cl)) f #
           connect_sqes (rc_this cl) f (addr_storage cl)"
    and "f \<in> fds fr" and "0 \<le> f"
proof -
  obtain f where f: "get_available_fd E fr = (Ret f, fr\<lparr>fds := fds fr - {f}\<rparr>)" "f \<in> fds fr" "0 \<le> f"
    by (rule get_available_fd_ok [OF pool(1) begin_ok_laws [OF laws] pool(2)])
  let ?e = "socket_sqe (rc_this cl) (sa_fam (addr_storage cl)) f" and ?fr = "fr\<lparr>fds := fds fr - {f}\<rparr>"
  obtain q where q: "reserve_sqes E 3 (io_ring fr) = (Ret (), q)" "issued q = issued (io_ring fr)" "3 \<le> sq_space_left E q"
    by (rule reserve_sqes_ok [OF laws, of 3]) simp
  obtain p where p: "put_sqe E ?e q = (Ret (), p)" "issued p = issued q @ [?e]" "sq_space_left E p = sq_space_left E q - 1"
    by (rule put_sqe_ok [OF laws, of q ?e]) (use q in auto)
  let ?cl = "cl\<lparr>st_fd := f, rc_count := rc_count cl + 1, socket_fr := op_frame_start h (socket_fr cl)\<rparr>"
  have "2 \<le> sq_space_left E (io_ring (?fr\<lparr>io_ring := p\<rparr>))" using p(3) q(3) by simp
  then obtain r' where r': "connect_tail E h (?fr\<lparr>io_ring := p\<rparr>, ?cl) = (Ret True, (?fr\<lparr>io_ring := p, io_ring := r'\<rparr>,
      ?cl\<lparr>rc_count := rc_count ?cl + 1, connect_fr := op_frame_start h (connect_fr ?cl)\<rparr>))"
      "issued r' = issued p @ connect_sqes (rc_this cl) f (addr_storage cl)"
    using connect_tail_ok [OF laws, of "?fr\<lparr>io_ring := p\<rparr>" h ?cl] by auto
  have "socket_head E h (?fr, cl\<lparr>st_fd := f\<rparr>) = (Ret True, (?fr\<lparr>io_ring := r'\<rparr>,
      ?cl\<lparr>rc_count := rc_count cl + 2, connect_fr := op_frame_start h (connect_fr cl)\<rparr>))"
    using q(1) p(1) r'(1) by (simp add: socket_head_def op_simps)
  then have "connect_await_suspend E h (fr, cl) = (Ret True, (?fr\<lparr>io_ring := r'\<rparr>,
      ?cl\<lparr>rc_count := rc_count cl + 2, connect_fr := op_frame_start h (connect_fr cl)\<rparr>))"
    using f(1,3) idle fd by (simp add: connect_await_suspend_def connect_idle_def op_frame_new_def op_simps)
  then have "connect_await_suspend E h (fr, cl) = (Ret True, (fr\<lparr>fds := fds fr - {f}, io_ring := r'\<rparr>,
      cl\<lparr>st_fd := f, rc_count := rc_count cl + 2, socket_fr := op_frame_start h op_frame_new,
         connect_fr := op_frame_start h op_frame_new\<rparr>))"
    using idle by (simp add: connect_idle_def)
  moreover have "issued r' = issued (io_ring fr) @ socket_sqe (rc_this cl) (sa_fam (addr_storage cl)) f #
           connect_sqes (rc_this cl) f (addr_storage cl)"
    using p(2) q(2) r'(2) by simp
  ultimately show ?thesis using f(2,3) by (rule that)
qed

text \<open>What the run loop does with one completion of each frame.\<close>

definition deliver_socket :: "cqe \<Rightarrow> ('r client_state, handle option) op" where
  "deliver_socket c = thenM (socket_process c) socket_handle"

definition deliver_connect :: "cqe \<Rightarrow> ('r client_state, handle option) op" where
  "deliver_connect c = thenM (connect_process c) connect_handle"

lemma deliver_socket_ok: "0 \<le> cqe_res c \<Longrightarrow> of_res (socket_fr cl) = 0 \<Longrightarrow> deliver_socket c (fr, cl) =
    (Ret None, (fr, cl\<lparr>socket_fr := (socket_fr cl)\<lparr>of_done := True\<rparr>\<rparr>))"
  by (simp add: deliver_socket_def socket_process_def socket_handle_def op_simps)

lemma deliver_socket_fail:
  assumes "fd_inv fr" and "owned_fd_ok fr (st_fd cl)" and "cqe_res c < 0"
  shows "deliver_socket c (fr, cl) = (Ret (of_h (socket_fr cl)), (fr\<lparr>fds := insert (st_fd cl) (fds fr)\<rparr>,
      cl\<lparr>socket_fr := (socket_fr cl)\<lparr>of_done := True, of_res := cqe_res c, of_h := None\<rparr>, st_fd := - 1\<rparr>))"
  using assms release_fd_ok [of fr "st_fd cl"]
  by (simp add: deliver_socket_def socket_process_def socket_handle_def op_frame_handle_def owned_fd_ok_def op_simps)

lemma deliver_connect_apply: "deliver_connect c (fr, cl) =
    (Ret (of_h (connect_fr cl)), (fr, cl\<lparr>connect_fr := (connect_fr cl)\<lparr>of_done := True,
        of_res := (if cqe_res c < 0 then cqe_res c else of_res (connect_fr cl)), of_h := None\<rparr>,
      st_connected := (if cqe_res c < 0 then cqe_res c = - EISCONN \<and> st_connected cl else True)\<rparr>))"
  by (auto simp: deliver_connect_def connect_process_def connect_handle_def op_frame_handle_def op_simps)

lemma fresh_owned: "fd_inv fr \<Longrightarrow> f \<in> fds fr \<Longrightarrow> 0 \<le> f \<Longrightarrow>
    fd_inv (fr\<lparr>fds := fds fr - {f}, io_ring := r\<rparr>) \<and> owned_fd_ok (fr\<lparr>fds := fds fr - {f}, io_ring := r\<rparr>) f"
  by (auto simp: fd_inv_def owned_fd_ok_def)

lemma reset_is_new [simp]:
  "op_frame_reset (f :: op_frame) = op_frame_new"
  by (simp add: op_frame_reset_def op_frame_new_def)

subsection \<open>Properties\<close>

text \<open>
  C24: connecting a fresh client: one descriptor is taken from the pool, and socket creation,
  connect and link timeout are issued as one chain of linked entries. When the socket is made the
  coroutine is not resumed; the completion of the connect resumes it once, with success or with the
  error of that completion, and the client is connected exactly on success. Both frames are
  ready for another connect, the client keeps the descriptor and each completion holds one reference.
\<close>

theorem connect_outcomes:
  assumes "uring_laws E issued n" and "fd_inv fr" and "fds fr \<noteq> {}" and "connect_idle cl" and "st_fd cl = - 1"
    and "0 \<le> cqe_res cs" and "\<not> st_connected cl"
  shows "\<exists>f s1 fr2 cl2. f \<in> fds fr \<and> connect_await_suspend E h (fr, cl) = (Ret True, s1) \<and>
     issued (io_ring (fst s1)) = issued (io_ring fr) @
       socket_sqe (rc_this cl) (sa_fam (addr_storage cl)) f # connect_sqes (rc_this cl) f (addr_storage cl) \<and>
     bindM (deliver_socket cs) (\<lambda>k1. bindM (deliver_connect cc) (\<lambda>k2. bindM connect_await_resume (\<lambda>v.
       retM (k1, k2, v)))) s1 =
       (Ret (None, Some h, if cqe_res cc < 0 then Inl (- cqe_res cc) else Inr ()), (fr2, cl2)) \<and>
     fds fr2 = fds fr - {f} \<and> st_fd cl2 = f \<and> st_connected cl2 = (0 \<le> cqe_res cc) \<and> connect_idle cl2 \<and>
     rc_count cl2 = rc_count cl + 2"
proof -
  obtain f r' where s: "connect_await_suspend E h (fr, cl) = (Ret True, (fr\<lparr>fds := fds fr - {f}, io_ring := r'\<rparr>,
      cl\<lparr>st_fd := f, rc_count := rc_count cl + 2, socket_fr := op_frame_start h op_frame_new,
         connect_fr := op_frame_start h op_frame_new\<rparr>))" (is "_ = (_, (?fr1, ?cl1))")
      and i: "issued r' = issued (io_ring fr) @ socket_sqe (rc_this cl) (sa_fam (addr_storage cl)) f #
           connect_sqes (rc_this cl) f (addr_storage cl)" and f: "f \<in> fds fr" "0 \<le> f"
    by (rule connect_start_fresh [OF assms(1-5)])
  have d: "deliver_socket cs (?fr1, ?cl1) = (Ret None, (?fr1, ?cl1\<lparr>socket_fr := (socket_fr ?cl1)\<lparr>of_done := True\<rparr>\<rparr>))"
    by (rule deliver_socket_ok [OF assms(6)]) (simp add: op_frame_start_def op_frame_new_def)
  have "\<exists>fr2 cl2. bindM (deliver_socket cs) (\<lambda>k1. bindM (deliver_connect cc) (\<lambda>k2. bindM connect_await_resume (\<lambda>v.
       retM (k1, k2, v)))) (?fr1, ?cl1) =
       (Ret (None, Some h, if cqe_res cc < 0 then Inl (- cqe_res cc) else Inr ()), (fr2, cl2)) \<and>
     fds fr2 = fds fr - {f} \<and> st_fd cl2 = f \<and> st_connected cl2 = (0 \<le> cqe_res cc) \<and> connect_idle cl2 \<and>
     rc_count cl2 = rc_count cl + 2"
    using assms(4,7) unfolding bindM_Ret [where m = "deliver_socket cs", OF d]
    by (simp add: bindM_def deliver_connect_apply connect_await_resume_def connect_reset_def op_frame_start_def
        connect_idle_def op_frame_new_def op_simps)
  then show ?thesis using s i f(1) by (intro exI [of _ f] exI [of _ "(?fr1, ?cl1)"]) auto
qed

definition ex_client :: client_impl where
  "ex_client = stream_impl.extend ((stream_fields 640 0)\<lparr>rc_count := 2, timeout_fr := \<lparr>tf_initiated = True, tf_cancelled = False\<rparr>\<rparr>)
     \<lparr>socket_fr = op_frame_new, connect_fr = op_frame_new,
      addr_storage = \<lparr>sa_fam = AF_INET, sa_port = 0x901F, sa_addr = [127, 0, 0, 1]\<rparr>\<rparr>"

lemma ex_client_idle: "connect_idle ex_client" "st_fd ex_client = - 1" "\<not> st_connected ex_client" "rc_count ex_client = 2"
  by (simp_all add: connect_idle_def ex_client_def stream_impl.extend_def stream_fields_def is_inet_def)

theorem connect_outcomes_witness:
  "\<exists>f s1 fr2 cl2. connect_await_suspend (list_platform 4) 4096 (ex_frame, ex_client) = (Ret True, s1) \<and>
     bindM (deliver_socket \<lparr>cqe_res = 0, cqe_flags = 0, cqe_data = UD 640 F_socket\<rparr>) (\<lambda>k1.
       bindM (deliver_connect \<lparr>cqe_res = - 111, cqe_flags = 0, cqe_data = UD 640 F_connect\<rparr>) (\<lambda>k2.
         bindM connect_await_resume (\<lambda>v. retM (k1, k2, v)))) s1 =
       (Ret (None, Some 4096, Inl 111), (fr2, cl2)) \<and> fds fr2 = fds ex_frame - {f} \<and> \<not> st_connected cl2"
proof -
  have ne: "fds ex_frame \<noteq> {}" by (simp add: ex_frame_def)
  have z: "0 \<le> cqe_res \<lparr>cqe_res = 0, cqe_flags = 0, cqe_data = UD 640 F_socket\<rparr>" by simp
  show ?thesis
    using connect_outcomes [OF ex_laws ex_frame_inv(1) ne ex_client_idle(1,2) z ex_client_idle(3), of 4096
        "\<lparr>cqe_res = - 111, cqe_flags = 0, cqe_data = UD 640 F_connect\<rparr>"]
    by auto
qed

text \<open>
  C34: when making the socket fails, the descriptor goes back to the pool, and if the coroutine is
  resumed before the completion of the linked connect is processed it receives the error of the
  socket. But when both completions are in one batch, the coroutine's handle is returned twice and
  \<^verbatim>\<open>await_resume\<close> fails its assertion; and when the connect's completion arrives later its error
  stays in the frame.
\<close>

theorem connect_socket_failure:
  assumes "uring_laws E issued n" and "fd_inv fr" and "fds fr \<noteq> {}" and "connect_idle cl" and "st_fd cl = - 1"
    and "cqe_res cs < 0" and "cqe_res cc < 0"
  shows "\<exists>s1 fr2 cl2. connect_await_suspend E h (fr, cl) = (Ret True, s1) \<and>
     bindM (deliver_socket cs) (\<lambda>k1. bindM connect_await_resume (\<lambda>v. retM (k1, v))) s1 =
       (Ret (Some h, Inl (- cqe_res cs)), (fr2, cl2)) \<and>
     fds fr2 = fds fr \<and> st_fd cl2 = - 1 \<and> connect_idle cl2 \<and>
     (\<exists>s. bindM (deliver_socket cs) (\<lambda>k1. bindM (deliver_connect cc) (\<lambda>k2. retM (k1, k2))) s1 = (Ret (Some h, Some h), s) \<and>
        fst (connect_await_resume s) = Assert_failed) \<and>
     (\<exists>cl3. deliver_connect cc (fr2, cl2) = (Ret None, (fr2, cl3)) \<and> of_res (connect_fr cl3) = cqe_res cc)"
proof -
  obtain f r' where s: "connect_await_suspend E h (fr, cl) = (Ret True, (fr\<lparr>fds := fds fr - {f}, io_ring := r'\<rparr>,
      cl\<lparr>st_fd := f, rc_count := rc_count cl + 2, socket_fr := op_frame_start h op_frame_new,
         connect_fr := op_frame_start h op_frame_new\<rparr>))" (is "_ = (_, (?fr1, ?cl1))")
      and f: "f \<in> fds fr" "0 \<le> f"
    by (rule connect_start_fresh [OF assms(1-5)])
  have own: "fd_inv ?fr1" "owned_fd_ok ?fr1 (st_fd ?cl1)" using fresh_owned [OF assms(2) f] by simp_all
  let ?fr2 = "?fr1\<lparr>fds := fds fr\<rparr>"
  let ?cl2 = "?cl1\<lparr>socket_fr := (socket_fr ?cl1)\<lparr>of_done := True, of_res := cqe_res cs, of_h := None\<rparr>, st_fd := - 1\<rparr>"
  have d: "deliver_socket cs (?fr1, ?cl1) = (Ret (Some h), (?fr2, ?cl2))"
    using deliver_socket_fail [OF own assms(6)] f(1) by (simp add: op_frame_start_def insert_absorb)
  let ?cl3 = "?cl2\<lparr>socket_fr := op_frame_new, connect_fr := op_frame_new\<rparr>"
  have r: "connect_await_resume (?fr2, ?cl2) = (Ret (Inl (- cqe_res cs)), (?fr2, ?cl3))"
    using assms(6) by (simp add: connect_await_resume_def connect_reset_def op_frame_start_def op_frame_new_def op_simps)
  have "\<exists>s. bindM (deliver_socket cs) (\<lambda>k1. bindM (deliver_connect cc) (\<lambda>k2. retM (k1, k2))) (?fr1, ?cl1) = (Ret (Some h, Some h), s) \<and>
        fst (connect_await_resume s) = Assert_failed"
    using assms(6) unfolding bindM_Ret [where m = "deliver_socket cs", OF d]
    by (simp add: deliver_connect_apply connect_await_resume_def op_frame_start_def op_simps)
  moreover have "bindM (deliver_socket cs) (\<lambda>k1. bindM connect_await_resume (\<lambda>v. retM (k1, v))) (?fr1, ?cl1) =
       (Ret (Some h, Inl (- cqe_res cs)), (?fr2, ?cl3))"
    unfolding bindM_Ret [where m = "deliver_socket cs", OF d] bindM_Ret [where m = connect_await_resume, OF r]
    by (simp add: retM_def)
  moreover have "\<exists>cl4. deliver_connect cc (?fr2, ?cl3) = (Ret None, (?fr2, cl4)) \<and> of_res (connect_fr cl4) = cqe_res cc"
    using assms(7) by (simp add: deliver_connect_apply op_frame_new_def)
  moreover have "connect_idle ?cl3" using assms(4) by (simp add: connect_idle_def)
  ultimately show ?thesis
    using s by (intro exI [of _ "(?fr1, ?cl1)"] exI [of _ ?fr2] exI [of _ ?cl3]) auto
qed

theorem connect_socket_failure_witness:
  "\<exists>s1 s. connect_await_suspend (list_platform 4) 4096 (ex_frame, ex_client) = (Ret True, s1) \<and>
     bindM (deliver_socket \<lparr>cqe_res = - ENFILE, cqe_flags = 0, cqe_data = UD 640 F_socket\<rparr>) (\<lambda>k1.
       bindM (deliver_connect \<lparr>cqe_res = - ECANCELED, cqe_flags = 0, cqe_data = UD 640 F_connect\<rparr>) (\<lambda>k2. retM (k1, k2))) s1 =
       (Ret (Some 4096, Some 4096), s) \<and> fst (connect_await_resume s) = Assert_failed"
proof -
  have ne: "fds ex_frame \<noteq> {}" by (simp add: ex_frame_def)
  have neg: "cqe_res \<lparr>cqe_res = - ENFILE, cqe_flags = 0, cqe_data = UD 640 F_socket\<rparr> < 0"
      "cqe_res \<lparr>cqe_res = - ECANCELED, cqe_flags = 0, cqe_data = UD 640 F_connect\<rparr> < 0" by simp_all
  show ?thesis
    using connect_socket_failure [OF ex_laws ex_frame_inv(1) ne ex_client_idle(1,2) neg, of 4096] by blast
qed

text \<open>
  Connecting without a free descriptor does not suspend: nothing is issued, no reference is
  added, and the caller receives \<^verbatim>\<open>ENFILE\<close> and can try again.
\<close>

theorem connect_no_descriptor:
  assumes "fds fr = {}" and "connect_idle cl" and "st_fd cl = - 1"
  shows "bindM (connect_await_suspend E h) (\<lambda>b. bindM connect_await_resume (\<lambda>v. retM (b, v))) (fr, cl) =
     (Ret (False, Inl ENFILE), (fr, cl))"
proof -
  have "get_available_fd E fr = (Ret (- 1), fr)" using assms(1) by (simp add: fdp.acquire_none)
  then have a: "connect_await_suspend E h (fr, cl) = (Ret False, (fr, cl\<lparr>socket_fr := (socket_fr cl)\<lparr>of_res := - ENFILE\<rparr>\<rparr>))"
    using assms(2,3) by (simp add: connect_await_suspend_def connect_idle_def op_frame_new_def op_simps)
  have "cl\<lparr>socket_fr := op_frame_new, connect_fr := op_frame_new\<rparr> = cl"
    using assms(2) by (simp add: connect_idle_def)
  then have r: "connect_await_resume (fr, cl\<lparr>socket_fr := (socket_fr cl)\<lparr>of_res := - ENFILE\<rparr>\<rparr>) = (Ret (Inl ENFILE), (fr, cl))"
    using assms(2) by (simp add: connect_await_resume_def connect_reset_def connect_idle_def op_simps)
      (simp add: op_frame_new_def op_simps)
  show ?thesis
    unfolding bindM_Ret [where m = "connect_await_suspend E h", OF a] bindM_Ret [where m = connect_await_resume, OF r]
    by (simp add: retM_def)
qed

theorem connect_no_descriptor_witness:
  "bindM (connect_await_suspend (list_platform 4) 4096) (\<lambda>b. bindM connect_await_resume (\<lambda>v. retM (b, v)))
     (ex_frame\<lparr>fds := {}\<rparr>, ex_client) = (Ret (False, Inl ENFILE), (ex_frame\<lparr>fds := {}\<rparr>, ex_client))"
  using connect_no_descriptor [OF _ ex_client_idle(1,2), of "ex_frame\<lparr>fds := {}\<rparr>"] by simp

end
