(* ===== verification/Stream_Class.thy ===== *)
theory Stream_Class
  imports Stream_Life Object_Heap
begin

section \<open>Streams as a class of objects\<close>

text \<open>
  Streams meet the contract \<open>counted\<close>: what the calls, completions and destructors of a stream do to its
  count, its frames and its descriptor, also as the base class of a client, and the interpretation.
  Constructing a stream takes a descriptor that the program was handed.
\<close>

subsection \<open>Releasing a pointer\<close>

text \<open>Giving up a pointer that is not the last one only lowers the count.\<close>

lemma release_not_last:
  assumes "rc_count (st :: 'a stream_impl_scheme) \<noteq> 1" and inv: "stream_inv fr st"
  shows "fst (intrusive_ptr_release dtor (fr, st)) = Ret False"
    and "stream_delta issued (fr, st) (snd (intrusive_ptr_release dtor (fr, st))) (- 1) {#} {#}"
proof -
  have run: "intrusive_ptr_release dtor (fr, st) = (Ret False, (fr, st\<lparr>rc_count := rc_count st - 1\<rparr>))"
    using assms(1) by (simp add: release_apply)
  show "fst (intrusive_ptr_release dtor (fr, st)) = Ret False" by (simp add: run)
  show "stream_delta issued (fr, st) (snd (intrusive_ptr_release dtor (fr, st))) (- 1) {#} {#}"
    unfolding run snd_conv using inv
    by (intro stream_deltaI [where es = "[]"] stream_stays) (simp_all add: active_tags_def)
qed

text \<open>Giving up the last one closes the descriptor and returns it to the pool.\<close>

lemma release_last:
  assumes laws: "uring_laws E issued n" and "rc_count (st :: 'a stream_impl_scheme) = 1" and inv: "stream_inv fr st"
  shows "\<exists>fr' st' es. intrusive_ptr_release (stream_impl_dtor E) (fr, st) = (Ret True, (fr', st')) \<and>
     issued (io_ring fr') = issued (io_ring fr) @ es \<and> posted es = {#} \<and> frame_moves (stream_owned st) fr {} fr' {}"
proof (cases "st_fd st = - 1")
  case True
  then have run: "intrusive_ptr_release (stream_impl_dtor E) (fr, st) = (Ret True, (fr, st\<lparr>rc_count := 0\<rparr>))"
    using assms(2) by (simp add: release_apply stream_impl_dtor_def op_simps)
  have "frame_moves (stream_owned st) fr {} fr {}"
    using True inv by (simp add: frame_moves_def frame_ok_def stream_owned_def stream_inv_def)
  then show ?thesis using run by (intro exI [of _ fr] exI [of _ "st\<lparr>rc_count := 0\<rparr>"] exI [of _ "[]"]) simp
next
  case False
  then have fd: "owned_fd_ok fr (st_fd st)" "fd_inv fr" "groups_inv fr" using inv by (auto simp: stream_inv_def fd_wf_def)
  obtain r' where r': "close_owned_fd E (st_fd st) (fr, st\<lparr>rc_count := 0\<rparr>) =
      (Ret (), (fr\<lparr>io_ring := r', fds := insert (st_fd st) (fds fr)\<rparr>, st\<lparr>rc_count := 0\<rparr>))"
      "issued r' = issued (io_ring fr) @ [close_sqe (st_fd st)]"
    by (rule close_owned_fd_ok [OF laws fd(2,1)])
  then have run: "intrusive_ptr_release (stream_impl_dtor E) (fr, st) =
      (Ret True, (fr\<lparr>io_ring := r', fds := insert (st_fd st) (fds fr)\<rparr>, st\<lparr>rc_count := 0, st_fd := - 1\<rparr>))"
    using assms(2) fd(1) by (simp add: release_apply stream_impl_dtor_def owned_fd_ok_def op_simps)
  have "frame_moves (stream_owned st) fr {} (fr\<lparr>io_ring := r', fds := insert (st_fd st) (fds fr)\<rparr>) {}"
    using False fd by (auto simp: frame_moves_def frame_ok_def stream_owned_def fd_inv_def owned_fd_ok_def)
  then show ?thesis using run r'(2) by (intro exI [of _ "fr\<lparr>io_ring := r', fds := insert (st_fd st) (fds fr)\<rparr>"]
      exI [of _ "st\<lparr>rc_count := 0, st_fd := - 1\<rparr>"] exI [of _ "[close_sqe (st_fd st)]"]) simp
qed

text \<open>What \<^verbatim>\<open>~stream\<close> does before it releases the last pointer of the program: two entries without completions.\<close>

lemma cancel_both_moves:
  assumes laws: "uring_laws E issued n" and inv: "stream_inv fr st"
  shows "\<exists>r' b es. thenM (cancel_timer E) (cancel_recv E) (fr, st) =
       (Ret (), (fr\<lparr>io_ring := r'\<rparr>, st\<lparr>timeout_fr := (timeout_fr st)\<lparr>tf_cancelled := b\<rparr>\<rparr>)) \<and>
     issued r' = issued (io_ring fr) @ es \<and> posted es = {#}"
proof -
  obtain q b es where q: "cancel_timer E (fr, st) = (Ret (), (fr\<lparr>io_ring := q\<rparr>, st\<lparr>timeout_fr := (timeout_fr st)\<lparr>tf_cancelled := b\<rparr>\<rparr>))"
      "issued q = issued (io_ring fr) @ es" "posted es = {#}"
  proof (cases "tf_initiated (timeout_fr st)")
    case False
    obtain q where "cancel_timer E (fr, st) = (Ret (), (fr\<lparr>io_ring := q\<rparr>, st))" "issued q = issued (io_ring fr)"
      by (rule cancel_timer_idle [OF laws False])
    moreover have "st\<lparr>timeout_fr := (timeout_fr st)\<lparr>tf_cancelled := tf_cancelled (timeout_fr st)\<rparr>\<rparr> = st" by simp
    ultimately show ?thesis using that [of q "tf_cancelled (timeout_fr st)" "[]"] by simp
  next
    case True
    obtain q where "cancel_timer E (fr, st) = (Ret (), (fr\<lparr>io_ring := q\<rparr>, st\<lparr>timeout_fr := (timeout_fr st)\<lparr>tf_cancelled := True\<rparr>\<rparr>))"
        "issued q = issued (io_ring fr) @ [timeout_remove_sqe (rc_this st)]"
      by (rule cancel_timer_armed [OF laws True])
    then show ?thesis using that [of q True "[timeout_remove_sqe (rc_this st)]"] by simp
  qed
  let ?st = "st\<lparr>timeout_fr := (timeout_fr st)\<lparr>tf_cancelled := b\<rparr>\<rparr>"
  show ?thesis
  proof (cases "rf_initiated (recv_fr st)")
    case False
    then show ?thesis
      using q by (intro exI [of _ q] exI [of _ b] exI [of _ es]) (simp add: cancel_recv_def op_simps)
  next
    case True
    obtain r' where "cancel_in_flight E (UD (rc_this ?st) F_recv) (fr\<lparr>io_ring := q\<rparr>, ?st) = (Ret (), (fr\<lparr>io_ring := q, io_ring := r'\<rparr>, ?st))"
        "issued r' = issued q @ [cancel_sqe (UD (rc_this st) F_recv)]"
      using cancel_in_flight_ok [OF laws, of "UD (rc_this ?st) F_recv" "fr\<lparr>io_ring := q\<rparr>" ?st] by auto
    then show ?thesis
      using q True by (intro exI [of _ r'] exI [of _ b] exI [of _ "es @ [cancel_sqe (UD (rc_this st) F_recv)]"])
        (simp add: cancel_recv_def op_simps)
  qed
qed

lemma stream_delta_from:
  assumes "stream_delta issued (fr\<lparr>io_ring := r\<rparr>, st\<lparr>timeout_fr := (timeout_fr st)\<lparr>tf_cancelled := b\<rparr>\<rparr>) s' k fin {#}"
    and "issued r = issued (io_ring fr) @ es" and "posted es = {#}"
  shows "stream_delta issued (fr, st) s' k fin {#}"
proof -
  obtain fs where fs: "issued (io_ring (fst s')) = issued r @ fs" "own_tags (rc_this st) fs = {#}" "own_entries (rc_this st) fs"
    using assms(1) by (auto simp: stream_delta_def)
  have "issued (io_ring (fst s')) = issued (io_ring fr) @ (es @ fs)" "own_tags (rc_this st) (es @ fs) = {#}"
    "own_entries (rc_this st) (es @ fs)"
    using fs assms(2) silent_entries [OF assms(3), of "rc_this st"] by simp_all
  moreover have "active_tags (st\<lparr>timeout_fr := (timeout_fr st)\<lparr>tf_cancelled := b\<rparr>\<rparr>) = active_tags st"
    by (simp add: active_tags_def)
  ultimately show ?thesis
    using assms(1) by (auto simp: stream_delta_def frame_moves_def groups_kept_def)
qed

text \<open>The end of \<^verbatim>\<open>~stream\<close> and \<^verbatim>\<open>~client\<close>, whichever branch is taken.\<close>

lemma drop_tail:
  assumes laws: "uring_laws E issued n" and inv: "stream_inv fr st"
  shows "\<exists>fr' st'. thenM (if b then thenM (cancel_timer E) (cancel_recv E) else retM ())
        (intrusive_ptr_release (stream_impl_dtor E)) (fr, st) = (Ret (rc_count st = 1), (fr', st')) \<and>
     (if rc_count st = 1 then \<exists>es. issued (io_ring fr') = issued (io_ring fr) @ es \<and> posted es = {#} \<and>
          frame_moves (stream_owned st) fr {} fr' {}
      else stream_delta issued (fr, st) (fr', st') (- 1) {#} {#})"
    (is "\<exists>fr' st'. ?m (fr, st) = _ \<and> _")
proof -
  obtain r b' es where r: "?m (fr, st) = intrusive_ptr_release (stream_impl_dtor E)
        (fr\<lparr>io_ring := r\<rparr>, st\<lparr>timeout_fr := (timeout_fr st)\<lparr>tf_cancelled := b'\<rparr>\<rparr>)"
      "issued r = issued (io_ring fr) @ es" "posted es = {#}"
  proof (cases b)
    case True
    obtain r b' es where "thenM (cancel_timer E) (cancel_recv E) (fr, st) =
        (Ret (), (fr\<lparr>io_ring := r\<rparr>, st\<lparr>timeout_fr := (timeout_fr st)\<lparr>tf_cancelled := b'\<rparr>\<rparr>))"
        "issued r = issued (io_ring fr) @ es" "posted es = {#}"
      using cancel_both_moves [OF laws inv] by blast
    then show ?thesis
      using that [of r b' es] True by (simp add: thenM_Ret [where m = "thenM (cancel_timer E) (cancel_recv E)"] del: thenM_apply)
  next
    case False
    then show ?thesis using that [of "io_ring fr" "tf_cancelled (timeout_fr st)" "[]"] by (simp add: op_simps)
  qed
  let ?fr = "fr\<lparr>io_ring := r\<rparr>" and ?st = "st\<lparr>timeout_fr := (timeout_fr st)\<lparr>tf_cancelled := b'\<rparr>\<rparr>"
  have inv': "stream_inv ?fr ?st" using inv by simp
  show ?thesis
  proof (cases "rc_count st = 1")
    case True
    then obtain fr' st' fs where "intrusive_ptr_release (stream_impl_dtor E) (?fr, ?st) = (Ret True, (fr', st'))"
        "issued (io_ring fr') = issued (io_ring ?fr) @ fs" "posted fs = {#}" "frame_moves (stream_owned ?st) ?fr {} fr' {}"
      using release_last [OF laws _ inv'] by auto
    moreover from this(4) have "frame_moves (stream_owned st) fr {} fr' {}" by (simp add: frame_moves_def groups_kept_def)
    ultimately show ?thesis using r True by (intro exI [of _ fr'] exI [of _ st']) (auto intro!: exI [of _ "es @ fs"])
  next
    case False
    then have nl: "rc_count ?st \<noteq> 1" by simp
    obtain x fr' st' where run: "intrusive_ptr_release (stream_impl_dtor E) (?fr, ?st) = (x, (fr', st'))"
      by (metis surj_pair)
    have "x = Ret False" "stream_delta issued (?fr, ?st) (fr', st') (- 1) {#} {#}"
      using release_not_last(1) [OF nl inv', of "stream_impl_dtor E"]
        release_not_last(2) [OF nl inv', of issued "stream_impl_dtor E"] run by simp_all
    then show ?thesis using False run r stream_delta_from by (intro exI [of _ fr'] exI [of _ st']) auto
  qed
qed

lemma stream_inv_rely: "stream_inv fr st \<Longrightarrow> frame_rely (stream_owned st) fr fr' \<Longrightarrow> stream_inv fr' st"
  by (auto simp: frame_rely_def frame_ok_def groups_kept_def stream_owned_def stream_inv_def fd_wf_def owned_fd_ok_def
      recv_frame_wf_def)

lemma active_tags_single: "count (active_tags st) t \<le> 1"
  unfolding active_tags_def by (cases t) simp_all

subsection \<open>Constructing a stream\<close>

text \<open>
  A \<^verbatim>\<open>stream\<close> around a descriptor: from \<^verbatim>\<open>async_accept\<close>, which marks it connected, or by its public
  constructor from a descriptor of \<^verbatim>\<open>async_accept_raw\<close>.
\<close>

datatype stream_new = New_accepted int int | New_wrapped int int

definition stream_from_fd :: "'r platform \<Rightarrow> addr \<Rightarrow> int \<Rightarrow> int \<Rightarrow> ('r io_context_frame, stream_impl) op" where
  "stream_from_fd E p now fd =
     construct (thenM (\<lambda>s. stream_impl_ctor E p now fd (fst s)) intrusive_ptr_add_ref) (stream_fields p now)"

definition stream_new_run :: "'r platform \<Rightarrow> stream_new \<Rightarrow> addr \<Rightarrow> ('r io_context_frame, stream_impl) op" where
  "stream_new_run E n p =
     (case n of
        New_accepted now fd \<Rightarrow> bindM (stream_from_fd E p now fd) (\<lambda>st. retM (st\<lparr>st_connected := True\<rparr>))
      | New_wrapped now fd \<Rightarrow> stream_from_fd E p now fd)"

fun stream_new_fd :: "stream_new \<Rightarrow> int" where
  "stream_new_fd (New_accepted now fd) = fd"
| "stream_new_fd (New_wrapped now fd) = fd"

definition stream_made :: "addr \<Rightarrow> int \<Rightarrow> int \<Rightarrow> stream_impl" where
  "stream_made p now fd = (stream_fields p now)\<lparr>timeout_fr := \<lparr>tf_initiated = True, tf_cancelled = False\<rparr>,
     rc_count := 2, st_fd := fd\<rparr>"

lemma stream_from_fd_ok:
  assumes "uring_laws E issued n"
  obtains r' where "stream_from_fd E p now fd fr = (Ret (stream_made p now fd), fr\<lparr>io_ring := r'\<rparr>)"
    and "issued r' = issued (io_ring fr) @ [timeout_sqe p]"
  by (rule on_issue_one [OF assms, of "timeout_sqe p" fr "stream_fields p now"])
    (use that in \<open>simp add: stream_from_fd_def construct_def stream_impl_ctor_def stream_init_def stream_made_def
       stream_fields_def op_simps\<close>)

lemma stream_made_inv:
  assumes "frame_ok fr" and "fd \<in> fd_range fr" and "fd \<notin> fds fr"
  shows "stream_inv fr (stream_made p now fd)"
  using assms by (simp add: stream_made_def stream_fields_def inv_defs recv_frame_wf_def recv_frame_new_def op_frame_new_def
      op_frame.extend_def frame_ok_def owned_fd_ok_def fd_range_def)

lemma stream_made_tags: "active_tags (stream_made p now fd) = {#F_timeout#}"
  by (simp add: stream_made_def stream_fields_def active_defs recv_frame_new_def op_frame_new_def op_frame.extend_def)

subsection \<open>The class\<close>

definition stream_class ::
  "'r platform \<Rightarrow> (nat \<Rightarrow> u8) \<Rightarrow> ('r, stream_impl, stream_call, stream_new) object_class" where
  "stream_class E junk = \<lparr>
     oc_this = rc_this, oc_count = rc_count, oc_active = active_tags,
     oc_frames = (\<lambda>_. {F_cancel, F_timeout_cancel, F_close, F_shutdown, F_send, F_recv, F_timeout}),
     oc_owned = stream_owned, oc_inv = stream_inv,
     oc_call_ok = (\<lambda>c s. call_ok c (snd s)), oc_call = exec_call E junk, oc_call_out = (\<lambda>_ _. {}),
     oc_cqe_ok = cqe_ok, oc_process = stream_process E, oc_handle = stream_handle, oc_cqe_out = (\<lambda>_ _ _. {}),
     oc_copy = intrusive_ptr_add_ref, oc_release = intrusive_ptr_release (stream_impl_dtor E), oc_drop = stream_dtor E,
     oc_left = (\<lambda>_. {}), oc_new_ok = (\<lambda>_ _. True), oc_new = stream_new_run E, oc_new_in = (\<lambda>n. {stream_new_fd n})\<rparr>"

lemma stream_class_simps [simp]:
  "oc_this (stream_class E junk) = rc_this" "oc_count (stream_class E junk) = rc_count"
  "oc_active (stream_class E junk) = active_tags"
  "oc_frames (stream_class E junk) = (\<lambda>_. {F_cancel, F_timeout_cancel, F_close, F_shutdown, F_send, F_recv, F_timeout})"
  "oc_owned (stream_class E junk) = stream_owned" "oc_inv (stream_class E junk) = stream_inv"
  "oc_call_ok (stream_class E junk) = (\<lambda>c s. call_ok c (snd s))" "oc_call (stream_class E junk) = exec_call E junk"
  "oc_call_out (stream_class E junk) = (\<lambda>_ _. {})" "oc_cqe_ok (stream_class E junk) = cqe_ok"
  "oc_process (stream_class E junk) = stream_process E" "oc_handle (stream_class E junk) = stream_handle"
  "oc_cqe_out (stream_class E junk) = (\<lambda>_ _ _. {})" "oc_copy (stream_class E junk) = intrusive_ptr_add_ref"
  "oc_release (stream_class E junk) = intrusive_ptr_release (stream_impl_dtor E)"
  "oc_drop (stream_class E junk) = stream_dtor E" "oc_left (stream_class E junk) = (\<lambda>_. {})"
  "oc_new_ok (stream_class E junk) = (\<lambda>_ _. True)" "oc_new (stream_class E junk) = stream_new_run E"
  "oc_new_in (stream_class E junk) = (\<lambda>n. {stream_new_fd n})"
  by (simp_all add: stream_class_def)

lemma stream_object_step:
  assumes "stream_delta issued s s' j fin ts" and "j = k + int (size ts) - int (size fin)"
  shows "object_step (stream_class E junk) issued s s' k fin {}"
  using assms by (auto simp: stream_delta_def object_step_def)

lemma stream_drop_ok:
  assumes laws: "uring_laws E issued n" and inv: "stream_inv fr st" and pos: "int (size (active_tags st)) < rc_count st"
  shows "stream_dtor E (fr, st) =
    thenM (if rc_count st - int (size (active_tags st)) = 1 then thenM (cancel_timer E) (cancel_recv E) else retM ())
      (intrusive_ptr_release (stream_impl_dtor E)) (fr, st)"
  using pos by (simp add: stream_dtor_def with_obj_def use_count_def count_active_size Let_def assertM_def bindM_def thenM_def)

lemma last_iff: "is_last (stream_class E junk) st = (rc_count st = 1)"
  by (simp add: is_last_def)

lemma stream_class_call:
  assumes "uring_laws E issued n" and "stream_inv fr st" and "call_ok c st"
  shows "documented (fst (exec_call E junk c (fr, st))) \<and>
     object_step (stream_class E junk) issued (fr, st) (snd (exec_call E junk c (fr, st))) 0 {#} {}"
proof -
  obtain ts where "fst (exec_call E junk c (fr, st)) \<in> {Ret (), Throw EBUSY, Throw EINVAL}"
      "stream_delta issued (fr, st) (snd (exec_call E junk c (fr, st))) (int (size ts)) {#} ts"
    using exec_call_safe [OF assms, of junk] by (auto simp: call_safe_def)
  then show ?thesis by (auto simp: documented_def intro!: stream_object_step)
qed

lemma stream_class_deliver:
  assumes "uring_laws E issued n" and "stream_inv fr st" and "t \<in># active_tags st" and "cqe_ok now t c (fr, st)"
  shows "\<exists>h s'. thenM (stream_process E now t c) (stream_handle t) (fr, st) = (Ret h, s') \<and>
     object_step (stream_class E junk) issued (fr, st) s' 1 (completion_tags t c) {}"
proof -
  obtain h s' ts where d: "deliver E now t c (fr, st) = (Ret h, s')"
      "stream_delta issued (fr, st) s' (int (size ts) + 1 - int (size (completion_tags t c))) (completion_tags t c) ts"
    using deliver_inv_ok [OF assms] by blast
  have "object_step (stream_class E junk) issued (fr, st) s' 1 (completion_tags t c) {}"
    by (rule stream_object_step [OF d(2)]) simp
  then show ?thesis using d(1) unfolding deliver_def by blast
qed

lemma stream_class_copy:
  assumes "stream_inv fr st"
  shows "fst (intrusive_ptr_add_ref (fr, st)) = Ret () \<and>
     object_step (stream_class E junk) issued (fr, st) (snd (intrusive_ptr_add_ref (fr, st))) 1 {#} {}"
proof
  have run: "intrusive_ptr_add_ref (fr, st) = (Ret (), (fr, st\<lparr>rc_count := rc_count st + 1\<rparr>))" by (simp add: add_ref_apply)
  then show "fst (intrusive_ptr_add_ref (fr, st)) = Ret ()" by simp
  have "stream_delta issued (fr, st) (fr, st\<lparr>rc_count := rc_count st + 1\<rparr>) 1 {#} {#}"
    using assms by (intro stream_deltaI [where es = "[]"] stream_stays) (simp_all add: active_tags_def)
  then show "object_step (stream_class E junk) issued (fr, st) (snd (intrusive_ptr_add_ref (fr, st))) 1 {#} {}"
    unfolding run snd_conv by (rule stream_object_step) simp
qed

lemma stream_class_drop:
  assumes laws: "uring_laws E issued n" and inv: "stream_inv fr st"
  shows "pointer_released (stream_class E junk) issued (fr, st)
    (thenM (if b then thenM (cancel_timer E) (cancel_recv E) else retM ()) (intrusive_ptr_release (stream_impl_dtor E)) (fr, st))"
    (is "pointer_released _ _ _ (?m (fr, st))")
proof -
  obtain fr' st' where t: "?m (fr, st) = (Ret (rc_count st = 1), (fr', st'))"
      "if rc_count st = 1 then \<exists>es. issued (io_ring fr') = issued (io_ring fr) @ es \<and> posted es = {#} \<and>
          frame_moves (stream_owned st) fr {} fr' {}
       else stream_delta issued (fr, st) (fr', st') (- 1) {#} {#}"
    using drop_tail [OF laws inv, of b] by blast
  then show ?thesis
    by (auto simp: pointer_released_def last_iff object_gone_def stream_delta_def intro!: stream_object_step split: if_splits)
qed

lemma stream_class_make:
  assumes laws: "uring_laws E issued n" and ok: "frame_ok fr" "{stream_new_fd a} \<subseteq> fd_range fr" "{stream_new_fd a} \<inter> fds fr = {}"
  shows "object_made (stream_class E junk) issued a p fr (stream_new_run E a p fr)"
proof -
  obtain now fd b where a: "stream_new_fd a = fd" "stream_new_run E a p =
      bindM (stream_from_fd E p now fd) (\<lambda>st. retM (if b then st\<lparr>st_connected := True\<rparr> else st))"
  proof (cases a)
    case (New_accepted now fd)
    then show ?thesis using that [of fd now True] by (simp add: stream_new_run_def)
  next
    case (New_wrapped now fd)
    then show ?thesis using that [of fd now False]
      by (auto simp: stream_new_run_def bindM_def retM_def fun_eq_iff split: prod.splits outcome.splits)
  qed
  obtain r' where r': "stream_from_fd E p now fd fr = (Ret (stream_made p now fd), fr\<lparr>io_ring := r'\<rparr>)"
      "issued r' = issued (io_ring fr) @ [timeout_sqe p]"
    by (rule stream_from_fd_ok [OF laws])
  let ?st = "if b then (stream_made p now fd)\<lparr>st_connected := True\<rparr> else stream_made p now fd"
  have run: "stream_new_run E a p fr = (Ret ?st, fr\<lparr>io_ring := r'\<rparr>)" using a(2) r'(1) by (simp add: op_simps)
  have fd: "fd \<in> fd_range fr" "fd \<notin> fds fr" using ok a(1) by auto
  have "stream_inv fr (stream_made p now fd)" by (rule stream_made_inv [OF ok(1) fd])
  then have inv: "stream_inv fr ?st" by (auto simp: inv_defs)
  have own: "stream_owned ?st = {fd}" using fd(1) by (auto simp: stream_owned_def stream_made_def fd_range_def)
  have "rc_this ?st = p" "rc_count ?st = 2" "active_tags ?st = {#F_timeout#}"
    using stream_made_tags [of p now fd] by (auto simp: stream_made_def stream_fields_def active_tags_def)
  then show ?thesis
    unfolding object_made_def run
    using inv own fd r'(2) a(1) ok(1) by (auto intro!: exI [of _ "[timeout_sqe p]"] simp: frame_moves_def)
qed

interpretation stream_objs: counted "stream_class E junk" issued "uring_laws E issued n" for E :: "'r platform" and junk issued n
proof (unfold_locales, unfold stream_class_simps snd_conv, goal_cases)
  case (1 fr st fr') then show ?case by (rule stream_inv_rely)
next
  case (2 fr st c) then show ?case by (rule stream_class_call)
next
  case (3 fr st t now c) then show ?case by (rule stream_class_deliver)
next
  case (4 fr st) then show ?case by (intro stream_class_copy)
next
  case (5 fr st)
  then show ?case using stream_class_drop [of E issued n fr st junk False] by (simp add: op_simps)
next
  case (6 fr st)
  then show ?case using stream_drop_ok [of E issued n fr st] stream_class_drop [of E issued n fr st junk] by simp
next
  case (7 fr a p) then show ?case by (intro stream_class_make)
next
  case (8 fr st t) then show ?case using active_tags_mem(8) [of t st] by auto
next
  case (9 fr st t) show ?case by (rule active_tags_single)
qed

end
