(* ===== verification/Client_Class.thy ===== *)
theory Client_Class
  imports Client Stream_Class
begin

section \<open>Clients as a class of objects\<close>

text \<open>
  A client is a stream with two more frames: the laws of a stream apply to it, and connecting
  adds its own. A connect may be awaited when none is in progress; its result may be taken when neither frame waits
  and the socket was made, or failed before the connect was tried.
\<close>

datatype client_call =
    Client_stream stream_call | Client_connect sockaddr | Client_connect_ready
  | Client_connect_suspend handle | Client_connect_resume | Client_connect_dtor

definition client_call_run :: "'r platform \<Rightarrow> (nat \<Rightarrow> u8) \<Rightarrow> client_call \<Rightarrow> ('r client_state, unit) op" where
  "client_call_run E junk c =
     (case c of
        Client_stream sc \<Rightarrow> exec_call E junk sc
      | Client_connect a \<Rightarrow> async_connect a
      | Client_connect_ready \<Rightarrow> ignoreM connect_await_ready
      | Client_connect_suspend h \<Rightarrow> ignoreM (connect_await_suspend E h)
      | Client_connect_resume \<Rightarrow> ignoreM connect_await_resume
      | Client_connect_dtor \<Rightarrow> connect_awaitable_dtor E)"

definition client_call_ok :: "client_call \<Rightarrow> client_impl \<Rightarrow> bool" where
  "client_call_ok c cl =
     (case c of
        Client_stream sc \<Rightarrow> call_ok sc cl
      | Client_connect_suspend h \<Rightarrow> connect_idle cl
      | Client_connect_resume \<Rightarrow> \<not> op_frame_active (socket_fr cl) \<and> \<not> op_frame_active (connect_fr cl) \<and>
          (of_res (socket_fr cl) < 0 \<longrightarrow> \<not> of_done (connect_fr cl))
      | _ \<Rightarrow> True)"

definition client_active :: "client_impl \<Rightarrow> frame_tag multiset" where
  "client_active cl =
     active_tags cl + (if op_frame_active (socket_fr cl) then {#F_socket#} else {#}) +
     (if op_frame_active (connect_fr cl) then {#F_connect#} else {#})"

definition client_inv :: "'r io_context_frame \<Rightarrow> client_impl \<Rightarrow> bool" where
  "client_inv fr cl =
     (stream_inv fr cl \<and> (of_done (socket_fr cl) \<longrightarrow> of_initiated (socket_fr cl)) \<and>
      (of_done (connect_fr cl) \<longrightarrow> of_initiated (connect_fr cl)))"

definition client_frames_process :: "'r platform \<Rightarrow> int \<Rightarrow> frame_tag \<Rightarrow> cqe \<Rightarrow> ('r client_state, unit) op" where
  "client_frames_process E now t c =
     (case t of F_socket \<Rightarrow> socket_process c | F_connect \<Rightarrow> connect_process c | _ \<Rightarrow> stream_process E now t c)"

definition client_frames_handle :: "frame_tag \<Rightarrow> ('r client_state, handle option) op" where
  "client_frames_handle t =
     (case t of F_socket \<Rightarrow> socket_handle | F_connect \<Rightarrow> connect_handle | _ \<Rightarrow> stream_handle t)"

definition client_cqe_ok :: "int \<Rightarrow> frame_tag \<Rightarrow> cqe \<Rightarrow> 'r client_state \<Rightarrow> bool" where
  "client_cqe_ok now t c s = (if t = F_socket \<or> t = F_connect then \<not> cqe_f_more c else cqe_ok now t c s)"

text \<open>\<^verbatim>\<open>client::client\<close>: the object is allocated and one pointer holds it; \<open>zero\<close> is the cleared address.\<close>

datatype client_new = New_client int sockaddr

definition client_new_run :: "'r platform \<Rightarrow> client_new \<Rightarrow> addr \<Rightarrow> ('r io_context_frame, client_impl) op" where
  "client_new_run E n p =
     (case n of New_client now zero \<Rightarrow>
        construct (thenM (\<lambda>s. client_impl_ctor E p now zero (fst s)) intrusive_ptr_add_ref)
          (stream_impl.extend (stream_fields p now) \<lparr>socket_fr = op_frame_new, connect_fr = op_frame_new, addr_storage = zero\<rparr>))"

definition client_class :: "'r platform \<Rightarrow> (nat \<Rightarrow> u8) \<Rightarrow> ('r, client_impl, client_call, client_new) object_class" where
  "client_class E junk = \<lparr>
     oc_this = rc_this, oc_count = rc_count, oc_active = client_active,
     oc_frames = (\<lambda>_. {F_cancel, F_timeout_cancel, F_close, F_shutdown, F_send, F_recv, F_timeout, F_socket, F_connect}),
     oc_owned = stream_owned, oc_inv = client_inv,
     oc_call_ok = (\<lambda>c s. client_call_ok c (snd s)), oc_call = client_call_run E junk, oc_call_out = (\<lambda>_ _. {}),
     oc_cqe_ok = client_cqe_ok, oc_process = client_frames_process E, oc_handle = client_frames_handle,
     oc_cqe_out = (\<lambda>_ _ _. {}), oc_copy = intrusive_ptr_add_ref,
     oc_release = intrusive_ptr_release (stream_impl_dtor E), oc_drop = client_dtor E,
     oc_left = (\<lambda>_. {}), oc_new_ok = (\<lambda>_ _. True), oc_new = client_new_run E, oc_new_in = (\<lambda>_. {})\<rparr>"

lemma client_class_simps [simp]:
  "oc_this (client_class E junk) = rc_this" "oc_count (client_class E junk) = rc_count"
  "oc_active (client_class E junk) = client_active"
  "oc_frames (client_class E junk) =
     (\<lambda>_. {F_cancel, F_timeout_cancel, F_close, F_shutdown, F_send, F_recv, F_timeout, F_socket, F_connect})"
  "oc_owned (client_class E junk) = stream_owned" "oc_inv (client_class E junk) = client_inv"
  "oc_call_ok (client_class E junk) = (\<lambda>c s. client_call_ok c (snd s))" "oc_call (client_class E junk) = client_call_run E junk"
  "oc_call_out (client_class E junk) = (\<lambda>_ _. {})" "oc_cqe_ok (client_class E junk) = client_cqe_ok"
  "oc_process (client_class E junk) = client_frames_process E" "oc_handle (client_class E junk) = client_frames_handle"
  "oc_cqe_out (client_class E junk) = (\<lambda>_ _ _. {})" "oc_copy (client_class E junk) = intrusive_ptr_add_ref"
  "oc_release (client_class E junk) = intrusive_ptr_release (stream_impl_dtor E)"
  "oc_drop (client_class E junk) = client_dtor E" "oc_left (client_class E junk) = (\<lambda>_. {})"
  "oc_new_ok (client_class E junk) = (\<lambda>_ _. True)" "oc_new (client_class E junk) = client_new_run E"
  "oc_new_in (client_class E junk) = (\<lambda>_. {})"
  by (simp_all add: client_class_def)

subsection \<open>What a client inherits from the stream\<close>

lemma client_more:
  "stream_impl.more cl' = stream_impl.more cl \<Longrightarrow>
     socket_fr cl' = socket_fr cl \<and> connect_fr cl' = connect_fr cl \<and> addr_storage cl' = addr_storage cl"
  by (cases cl, cases cl') simp

lemma client_object_step:
  assumes "stream_delta issued (fr, cl) (fr', cl') j fin ts" and "j = k + int (size ts) - int (size fin)" and "client_inv fr cl"
  shows "object_step (client_class E junk) issued (fr, cl) (fr', cl') k fin {}"
proof -
  have m: "socket_fr cl' = socket_fr cl" "connect_fr cl' = connect_fr cl"
    using client_more [of cl' cl] assms(1) by (simp_all add: stream_delta_def)
  then have "client_active cl' + fin = client_active cl + ts"
    using assms(1) by (simp add: client_active_def stream_delta_def ac_simps)
  then show ?thesis using assms m by (auto simp: stream_delta_def object_step_def client_inv_def)
qed

lemma client_inv_ring [simp]: "client_inv (fr\<lparr>io_ring := r\<rparr>) cl = client_inv fr cl"
  by (simp add: client_inv_def)

lemma client_owned_free: "client_inv fr cl \<Longrightarrow> stream_owned cl \<inter> fds fr = {}"
  by (auto simp: client_inv_def stream_inv_def fd_wf_def stream_owned_def owned_fd_ok_def)

lemma client_frame_ok: "client_inv fr cl \<Longrightarrow> frame_ok fr"
  by (simp add: client_inv_def stream_inv_def frame_ok_def)

lemma client_frames_simps [simp]:
  "active_tags (cl\<lparr>socket_fr := f\<rparr>) = active_tags cl" "active_tags (cl\<lparr>connect_fr := f\<rparr>) = active_tags cl"
  "active_tags (cl\<lparr>addr_storage := a\<rparr>) = active_tags cl" "active_tags (cl\<lparr>st_fd := fd\<rparr>) = active_tags cl"
  "active_tags (cl\<lparr>st_connected := b\<rparr>) = active_tags cl"
  "stream_owned (cl\<lparr>socket_fr := f\<rparr>) = stream_owned cl" "stream_owned (cl\<lparr>connect_fr := f\<rparr>) = stream_owned cl"
  "stream_owned (cl\<lparr>addr_storage := a\<rparr>) = stream_owned cl" "stream_owned (cl\<lparr>st_connected := b\<rparr>) = stream_owned cl"
  "stream_inv fr (cl\<lparr>socket_fr := f\<rparr>) = stream_inv fr cl" "stream_inv fr (cl\<lparr>connect_fr := f\<rparr>) = stream_inv fr cl"
  "stream_inv fr (cl\<lparr>addr_storage := a\<rparr>) = stream_inv fr cl" "stream_inv fr (cl\<lparr>st_connected := b\<rparr>) = stream_inv fr cl"
  by (simp_all add: active_tags_def stream_owned_def inv_defs)

lemma client_call_still:
  assumes "m (fr, cl) = (x, (fr, cl'))" and "documented x" and "client_inv fr cl'" and "rc_this cl' = rc_this cl"
    and "rc_count cl' = rc_count cl" and "client_active cl' = client_active cl" and "stream_owned cl' = stream_owned cl"
  shows "documented (fst (m (fr, cl))) \<and> object_step (client_class E junk) issued (fr, cl) (snd (m (fr, cl))) 0 {#} {}"
  unfolding assms(1) fst_conv snd_conv using assms(2-7) client_owned_free [OF assms(3)] client_frame_ok [OF assms(3)]
  by (auto intro!: object_step_stillI)

lemma client_call_ring:
  assumes "m (fr, cl) = (x, (fr\<lparr>io_ring := r\<rparr>, cl'))" and "documented x" and "client_inv fr cl'" and "rc_this cl' = rc_this cl"
    and "issued r = issued (io_ring fr) @ es" and "own_entries (rc_this cl) es"
    and "rc_count cl' = rc_count cl + int (size (own_tags (rc_this cl) es))"
    and "client_active cl' = client_active cl + own_tags (rc_this cl) es" and "stream_owned cl' = stream_owned cl"
  shows "documented (fst (m (fr, cl))) \<and> object_step (client_class E junk) issued (fr, cl) (snd (m (fr, cl))) 0 {#} {}"
  unfolding assms(1) fst_conv snd_conv using assms(2-9) client_owned_free [OF assms(3)] client_frame_ok [OF assms(3)]
  by (auto intro!: object_step_ringI [where es = es])

lemma connect_sqe_data [simp]: "sqe_data (socket_sqe p af fd) = UD p F_socket"
  "own_tags p (connect_sqes p fd a) = {#F_connect#}" "own_entries p (connect_sqes p fd a)"
  "sqe_data (cancel_sqe_noskip u) = UD_null"
  by (simp_all add: socket_sqe_def connect_sqes_def cancel_sqe_noskip_def)

subsection \<open>Connecting\<close>

lemma socket_head_ok:
  assumes laws: "uring_laws E issued n"
  shows "\<exists>r'. socket_head E h (fr, cl) = (Ret True, (fr\<lparr>io_ring := r'\<rparr>,
       cl\<lparr>rc_count := rc_count cl + 2, socket_fr := op_frame_start h (socket_fr cl), connect_fr := op_frame_start h (connect_fr cl)\<rparr>)) \<and>
     issued r' = issued (io_ring fr) @ socket_sqe (rc_this cl) (sa_fam (addr_storage cl)) (st_fd cl) #
       connect_sqes (rc_this cl) (st_fd cl) (addr_storage cl)"
proof -
  let ?e = "socket_sqe (rc_this cl) (sa_fam (addr_storage cl)) (st_fd cl)"
  obtain q where q: "reserve_sqes E 3 (io_ring fr) = (Ret (), q)" "issued q = issued (io_ring fr)" "3 \<le> sq_space_left E q"
    by (rule reserve_sqes_ok [OF laws, of 3]) simp
  obtain p where p: "put_sqe E ?e q = (Ret (), p)" "issued p = issued q @ [?e]" "sq_space_left E p = sq_space_left E q - 1"
    by (rule put_sqe_ok [OF laws, of q ?e]) (use q in auto)
  let ?cl = "cl\<lparr>rc_count := rc_count cl + 1, socket_fr := op_frame_start h (socket_fr cl)\<rparr>"
  have "2 \<le> sq_space_left E (io_ring (fr\<lparr>io_ring := p\<rparr>))" using p(3) q(3) by simp
  then obtain r' where r': "connect_tail E h (fr\<lparr>io_ring := p\<rparr>, ?cl) = (Ret True, (fr\<lparr>io_ring := p, io_ring := r'\<rparr>,
      ?cl\<lparr>rc_count := rc_count ?cl + 1, connect_fr := op_frame_start h (connect_fr ?cl)\<rparr>))"
      "issued r' = issued p @ connect_sqes (rc_this cl) (st_fd cl) (addr_storage cl)"
    using connect_tail_ok [OF laws, of "fr\<lparr>io_ring := p\<rparr>" h ?cl] by auto
  then show ?thesis
    using q(1,2) p(1,2) by (intro exI [of _ r']) (simp add: socket_head_def op_simps)
qed

lemma client_class_connect:
  assumes laws: "uring_laws E issued n" and inv: "client_inv fr cl" and idle: "connect_idle cl"
  shows "documented (fst (ignoreM (connect_await_suspend E h) (fr, cl))) \<and>
     object_step (client_class E junk) issued (fr, cl) (snd (ignoreM (connect_await_suspend E h) (fr, cl))) 0 {#} {}"
proof -
  let ?m = "ignoreM (connect_await_suspend E h)"
  have new: "socket_fr cl = op_frame_new" "connect_fr cl = op_frame_new" "is_inet (sa_fam (addr_storage cl))"
    using idle by (simp_all add: connect_idle_def)
  have fd: "st_fd cl = - 1 \<or> owned_fd_ok fr (st_fd cl)" and pool: "fd_inv fr" "groups_inv fr"
    using inv by (simp_all add: client_inv_def stream_inv_def fd_wf_def)
  consider (tail) "0 \<le> st_fd cl" "st_connected cl" | (reuse) "0 \<le> st_fd cl" "\<not> st_connected cl"
    | (none) "st_fd cl = - 1" "fds fr = {}" | (fresh) "st_fd cl = - 1" "fds fr \<noteq> {}"
    using fd by (auto simp: owned_fd_ok_def)
  then show ?thesis
  proof cases
    case tail
    obtain q where q: "reserve_sqes E 2 (io_ring fr) = (Ret (), q)" "issued q = issued (io_ring fr)" "2 \<le> sq_space_left E q"
      by (rule reserve_sqes_ok [OF laws, of 2]) simp
    obtain r' where r': "connect_tail E h (fr\<lparr>io_ring := q\<rparr>, cl) = (Ret True, (fr\<lparr>io_ring := q, io_ring := r'\<rparr>,
        cl\<lparr>rc_count := rc_count cl + 1, connect_fr := op_frame_start h (connect_fr cl)\<rparr>))"
        "issued r' = issued q @ connect_sqes (rc_this cl) (st_fd cl) (addr_storage cl)"
      using connect_tail_ok [OF laws, of "fr\<lparr>io_ring := q\<rparr>" h cl] q(3) by auto
    have "?m (fr, cl) = (Ret (), (fr\<lparr>io_ring := r'\<rparr>,
        cl\<lparr>rc_count := rc_count cl + 1, connect_fr := op_frame_start h (connect_fr cl)\<rparr>))"
      using tail q(1) r'(1) new by (intro ignoreM_Ret [where x = True]) (simp add: connect_await_suspend_def op_frame_new_def op_simps)
    then show ?thesis
      by (rule client_call_ring [where es = "connect_sqes (rc_this cl) (st_fd cl) (addr_storage cl)"])
        (use inv q(2) r'(2) new in \<open>simp_all add: client_active_def client_inv_def op_frame_new_def op_frame_defs\<close>)
  next
    case reuse
    obtain r' where r': "socket_head E h (fr, cl) = (Ret True, (fr\<lparr>io_ring := r'\<rparr>,
         cl\<lparr>rc_count := rc_count cl + 2, socket_fr := op_frame_start h (socket_fr cl), connect_fr := op_frame_start h (connect_fr cl)\<rparr>))"
        "issued r' = issued (io_ring fr) @ socket_sqe (rc_this cl) (sa_fam (addr_storage cl)) (st_fd cl) #
          connect_sqes (rc_this cl) (st_fd cl) (addr_storage cl)"
      using socket_head_ok [OF laws] by blast
    have "?m (fr, cl) = (Ret (), (fr\<lparr>io_ring := r'\<rparr>,
         cl\<lparr>rc_count := rc_count cl + 2, socket_fr := op_frame_start h (socket_fr cl), connect_fr := op_frame_start h (connect_fr cl)\<rparr>))"
      using reuse r'(1) new by (intro ignoreM_Ret [where x = True]) (simp add: connect_await_suspend_def op_frame_new_def op_simps)
    then show ?thesis
      by (rule client_call_ring [OF _ _ _ _ r'(2)])
        (use inv new in \<open>simp_all add: client_active_def client_inv_def op_frame_new_def op_frame_defs\<close>)
  next
    case none
    have "get_available_fd E fr = (Ret (- 1), fr)" using none(2) by (simp add: get_available_fd_def)
    then have "?m (fr, cl) = (Ret (), (fr, cl\<lparr>st_fd := - 1, socket_fr := (socket_fr cl)\<lparr>of_res := - ENFILE\<rparr>\<rparr>))"
      using none new by (intro ignoreM_Ret [where x = False]) (simp add: connect_await_suspend_def op_frame_new_def op_simps)
    moreover have "cl\<lparr>st_fd := - 1, socket_fr := (socket_fr cl)\<lparr>of_res := - ENFILE\<rparr>\<rparr> = cl\<lparr>socket_fr := (socket_fr cl)\<lparr>of_res := - ENFILE\<rparr>\<rparr>"
      using none(1) by (cases cl) simp
    ultimately have "?m (fr, cl) = (Ret (), (fr, cl\<lparr>socket_fr := (socket_fr cl)\<lparr>of_res := - ENFILE\<rparr>\<rparr>))" by simp
    then show ?thesis
      by (rule client_call_still) (use inv new in \<open>simp_all add: client_active_def client_inv_def op_frame_new_def op_frame_active_def\<close>)
  next
    case fresh
    obtain f r' where s: "connect_await_suspend E h (fr, cl) = (Ret True, (fr\<lparr>fds := fds fr - {f}, io_ring := r'\<rparr>,
        cl\<lparr>st_fd := f, rc_count := rc_count cl + 2, socket_fr := op_frame_start h op_frame_new,
           connect_fr := op_frame_start h op_frame_new\<rparr>))" (is "_ = (_, (?fr, ?cl))")
        and es: "issued r' = issued (io_ring fr) @ socket_sqe (rc_this cl) (sa_fam (addr_storage cl)) f #
             connect_sqes (rc_this cl) f (addr_storage cl)"
        and f: "f \<in> fds fr" "0 \<le> f"
      by (rule connect_start_fresh [OF laws pool(1) fresh(2) idle fresh(1)])
    have run: "?m (fr, cl) = (Ret (), (?fr, ?cl))" using s by (rule ignoreM_Ret)
    have own: "fd_inv ?fr" "owned_fd_ok ?fr f" using fresh_owned [OF pool(1) f] by simp_all
    have "frame_rely {} fr ?fr" using own pool by (simp add: frame_rely_def frame_ok_def groups_inv_def)
    then have "stream_inv ?fr cl" using inv fresh(1) stream_inv_rely [of fr cl ?fr]
      by (simp add: client_inv_def stream_owned_def)
    then have "stream_inv ?fr ?cl" using own(2) by (simp add: inv_defs)
    then have inv': "client_inv ?fr ?cl" by (simp add: client_inv_def op_frame_new_def op_frame_start_def)
    have owned: "stream_owned cl = {}" "stream_owned ?cl = {f}" using fresh(1) f(2) by (auto simp: stream_owned_def)
    have act: "client_active ?cl = client_active cl + {#F_socket, F_connect#}"
      using new by (simp add: client_active_def op_frame_new_def op_frame_start_def op_frame_active_def)
    have "frame_moves {} fr {f} ?fr {}" using f own pool by (auto simp: frame_moves_def frame_ok_def groups_inv_def)
    then have "object_step (client_class E junk) issued (fr, cl) (?fr, ?cl) 0 {#} {}"
      using es inv' owned act
      by (intro object_stepI [where es = "socket_sqe (rc_this cl) (sa_fam (addr_storage cl)) f # connect_sqes (rc_this cl) f (addr_storage cl)"])
        simp_all
    then show ?thesis using run by simp
  qed
qed

lemma client_class_resume:
  assumes inv: "client_inv fr cl" and ok: "client_call_ok Client_connect_resume cl"
  shows "documented (fst (ignoreM connect_await_resume (fr, cl))) \<and>
     object_step (client_class E junk) issued (fr, cl) (snd (ignoreM connect_await_resume (fr, cl))) 0 {#} {}"
proof -
  let ?cl = "cl\<lparr>socket_fr := op_frame_reset (socket_fr cl), connect_fr := op_frame_reset (connect_fr cl)\<rparr>"
  have na: "\<not> op_frame_active (socket_fr cl)" "\<not> op_frame_active (connect_fr cl)"
    "of_res (socket_fr cl) < 0 \<longrightarrow> \<not> of_done (connect_fr cl)" using ok by (simp_all add: client_call_ok_def)
  have "(\<not> of_initiated (socket_fr cl) \<and> \<not> of_done (socket_fr cl)) \<or> (of_initiated (socket_fr cl) \<and> of_done (socket_fr cl))"
    using na(1) inv by (auto simp: client_inv_def op_frame_active_def)
  then have "\<exists>x. connect_await_resume (fr, cl) = (Ret x, (fr, ?cl))"
    using na(3) by (auto simp: connect_await_resume_def connect_reset_def op_simps)
  then have "ignoreM connect_await_resume (fr, cl) = (Ret (), (fr, ?cl))" by (auto intro: ignoreM_Ret)
  then show ?thesis
    by (rule client_call_still) (use inv na in \<open>simp_all add: client_active_def client_inv_def op_frame_defs op_frame_new_def del: reset_is_new\<close>)
qed

lemma client_class_connect_dtor:
  assumes laws: "uring_laws E issued n" and inv: "client_inv fr cl"
  shows "fst (connect_awaitable_dtor E (fr, cl)) = Ret () \<and>
     object_step (client_class E junk) issued (fr, cl) (snd (connect_awaitable_dtor E (fr, cl))) 0 {#} {}"
proof -
  let ?a = "op_frame_active (socket_fr cl)" and ?b = "op_frame_active (connect_fr cl)"
  let ?k = "of_bool (of_initiated (socket_fr cl)) + of_bool (of_initiated (connect_fr cl)) :: nat"
  let ?u = "cancel_sqe_noskip (UD (rc_this cl) F_socket)" and ?v = "cancel_sqe_noskip (UD (rc_this cl) F_connect)"
  have k: "of_bool ?a + of_bool ?b \<le> ?k" by (simp add: op_frame_active_def)
  obtain q where q: "reserve_sqes E ?k (io_ring fr) = (Ret (), q)" "issued q = issued (io_ring fr)" "?k \<le> sq_space_left E q"
    by (rule reserve_sqes_ok [OF laws, of ?k]) auto
  obtain p where p: "(if ?a then on_ring (put_sqe E ?u) else retM ()) (fr\<lparr>io_ring := q\<rparr>, cl) = (Ret (), (fr\<lparr>io_ring := p\<rparr>, cl))"
      "issued p = issued q @ (if ?a then [?u] else [])" "of_bool ?b \<le> sq_space_left E p"
  proof (cases ?a)
    case True
    obtain p where "put_sqe E ?u q = (Ret (), p)" "issued p = issued q @ [?u]" "sq_space_left E p = sq_space_left E q - 1"
      by (rule put_sqe_ok [OF laws, of q ?u]) (use True k q(3) in auto)
    then show ?thesis using that [of p] True k q(3) by (auto simp: op_simps)
  next
    case False
    then show ?thesis using that [of q] k q(3) by (simp add: op_simps)
  qed
  obtain w where w: "(if ?b then on_ring (put_sqe E ?v) else retM ()) (fr\<lparr>io_ring := p\<rparr>, cl) = (Ret (), (fr\<lparr>io_ring := w\<rparr>, cl))"
      "issued w = issued p @ (if ?b then [?v] else [])"
  proof (cases ?b)
    case True
    obtain w where "put_sqe E ?v p = (Ret (), w)" "issued w = issued p @ [?v]"
      by (rule put_sqe_ok [OF laws, of p ?v]) (use True p(3) in auto)
    then show ?thesis using that [of w] True by (auto simp: op_simps)
  next
    case False
    then show ?thesis using that [of p] by (simp add: op_simps)
  qed
  obtain r where r: "submit_ring E w = (Ret (), r)" "issued r = issued w" by (rule submit_ring_ok [OF laws])
  have run: "connect_awaitable_dtor E (fr, cl) = (Ret (), (fr\<lparr>io_ring := r\<rparr>, cl))"
    unfolding connect_awaitable_dtor_def with_obj_apply
    using q(1) p(1) w(1) r(1) by (simp only: thenM_Ret on_ring_apply) (simp add: op_simps)
  then have "documented (fst (connect_awaitable_dtor E (fr, cl))) \<and>
     object_step (client_class E junk) issued (fr, cl) (snd (connect_awaitable_dtor E (fr, cl))) 0 {#} {}"
    by (rule client_call_ring [where es = "(if ?a then [?u] else []) @ (if ?b then [?v] else [])"])
      (use inv q(2) p(2) w(2) r(2) in simp_all)
  then show ?thesis using run by simp
qed

lemma client_class_call:
  assumes laws: "uring_laws E issued n" and inv: "client_inv fr cl" and ok: "client_call_ok c cl"
  shows "documented (fst (client_call_run E junk c (fr, cl))) \<and>
     object_step (client_class E junk) issued (fr, cl) (snd (client_call_run E junk c (fr, cl))) 0 {#} {}"
proof (cases c)
  case (Client_stream sc)
  have "stream_inv fr cl" "call_ok sc cl" using inv ok Client_stream by (simp_all add: client_inv_def client_call_ok_def)
  then obtain ts where t: "fst (exec_call E junk sc (fr, cl)) \<in> {Ret (), Throw EBUSY, Throw EINVAL}"
      "stream_delta issued (fr, cl) (snd (exec_call E junk sc (fr, cl))) (int (size ts)) {#} ts"
    using exec_call_safe [OF laws, of fr cl sc junk] by (auto simp: call_safe_def)
  have "object_step (client_class E junk) issued (fr, cl) (snd (exec_call E junk sc (fr, cl))) 0 {#} {}"
    using client_object_step [of issued fr cl "fst (snd (exec_call E junk sc (fr, cl)))" "snd (snd (exec_call E junk sc (fr, cl)))"] t(2) inv
    by simp
  then show ?thesis using t(1) by (auto simp: Client_stream client_call_run_def documented_def)
next
  case (Client_connect a)
  show ?thesis
  proof (cases "is_inet (sa_fam a)")
    case True
    then have "client_call_run E junk c (fr, cl) = (Ret (), (fr, cl\<lparr>addr_storage := a\<rparr>))"
      by (simp add: Client_connect client_call_run_def async_connect_def op_simps)
    then show ?thesis by (rule client_call_still) (use inv in \<open>simp_all add: client_active_def client_inv_def\<close>)
  next
    case False
    then have "client_call_run E junk c (fr, cl) = (Throw EINVAL, (fr, cl))"
      by (simp add: Client_connect client_call_run_def async_connect_def op_simps)
    then show ?thesis by (rule client_call_still) (use inv in simp_all)
  qed
next
  case Client_connect_ready
  have "client_call_run E junk c (fr, cl) = (if of_initiated (socket_fr cl) then Throw EBUSY else Ret (), (fr, cl))"
    by (simp add: Client_connect_ready client_call_run_def connect_await_ready_def ignoreM_def op_simps)
  then show ?thesis by (rule client_call_still) (use inv in simp_all)
next
  case (Client_connect_suspend h)
  then show ?thesis using client_class_connect [OF laws inv] ok by (simp add: client_call_run_def client_call_ok_def)
next
  case Client_connect_resume
  then show ?thesis using client_class_resume [OF inv] ok by (simp add: client_call_run_def)
next
  case Client_connect_dtor
  then show ?thesis using client_class_connect_dtor [OF laws inv] by (simp add: client_call_run_def)
qed

subsection \<open>Completions\<close>

lemma client_class_socket:
  assumes inv: "client_inv fr cl" and act: "op_frame_active (socket_fr cl)" and more: "\<not> cqe_f_more c"
  shows "\<exists>h s'. thenM (socket_process c) socket_handle (fr, cl) = (Ret h, s') \<and>
     object_step (client_class E junk) issued (fr, cl) s' 1 (completion_tags F_socket c) {}"
proof -
  have init: "of_initiated (socket_fr cl)" "\<not> of_done (socket_fr cl)" using act by (simp_all add: op_frame_active_def)
  have fd: "st_fd cl = - 1 \<or> owned_fd_ok fr (st_fd cl)" and pool: "fd_inv fr" "groups_inv fr"
    using inv by (simp_all add: client_inv_def stream_inv_def fd_wf_def)
  show ?thesis
  proof (cases "cqe_res c < 0")
    case False
    define h where "h = (if of_res (socket_fr cl) < 0 then of_h (socket_fr cl) else None)"
    define f where "f = (socket_fr cl)\<lparr>of_done := True, of_h := if of_res (socket_fr cl) < 0 then None else of_h (socket_fr cl)\<rparr>"
    have run: "thenM (socket_process c) socket_handle (fr, cl) = (Ret h, (fr, cl\<lparr>socket_fr := f\<rparr>))"
      using False by (simp add: socket_process_def socket_handle_def op_frame_handle_def op_simps h_def f_def)
    have "object_step (client_class E junk) issued (fr, cl) (fr, cl\<lparr>socket_fr := f\<rparr>) 1 (completion_tags F_socket c) {}"
      using inv init more client_owned_free [OF inv] client_frame_ok [OF inv]
      by (intro object_step_stillI)
        (simp_all add: client_active_def client_inv_def op_frame_active_def completion_tags_def f_def)
    then show ?thesis using run by blast
  next
    case True
    define fr' where "fr' = (if st_fd cl = - 1 then fr else fr\<lparr>fds := insert (st_fd cl) (fds fr)\<rparr>)"
    let ?cl = "cl\<lparr>socket_fr := (socket_fr cl)\<lparr>of_done := True, of_res := cqe_res c, of_h := None\<rparr>, st_fd := - 1\<rparr>"
    have "release_fd (st_fd cl) fr = (Ret (), fr')"
      using fd release_fd_ok [of fr "st_fd cl"] pool(1) by (auto simp: fr'_def release_fd_def owned_fd_ok_def)
    then have run: "thenM (socket_process c) socket_handle (fr, cl) = (Ret (of_h (socket_fr cl)), (fr', ?cl))"
      using True by (simp add: socket_process_def socket_handle_def op_frame_handle_def op_simps)
    have "fd_inv fr'" "groups_inv fr'" using fd pool by (auto simp: fr'_def fd_inv_def owned_fd_ok_def)
    then have "stream_inv fr' ?cl"
      using inv by (simp add: client_inv_def inv_defs fr'_def)
    then have inv': "client_inv fr' ?cl" using inv init by (simp add: client_inv_def)
    moreover have "frame_moves (stream_owned cl) fr (stream_owned ?cl) fr' {}"
      using fd client_frame_ok [OF inv'] by (auto simp: frame_moves_def stream_owned_def fr'_def owned_fd_ok_def)
    ultimately have "object_step (client_class E junk) issued (fr, cl) (fr', ?cl) 1 (completion_tags F_socket c) {}"
      using init more by (intro object_stepI [where es = "[]"])
        (simp_all add: client_active_def op_frame_active_def completion_tags_def fr'_def)
    then show ?thesis using run by blast
  qed
qed

lemma client_class_deliver:
  assumes laws: "uring_laws E issued n" and inv: "client_inv fr cl" and t: "t \<in># client_active cl" and ok: "client_cqe_ok now t c (fr, cl)"
  shows "\<exists>h s'. thenM (client_frames_process E now t c) (client_frames_handle t) (fr, cl) = (Ret h, s') \<and>
     object_step (client_class E junk) issued (fr, cl) s' 1 (completion_tags t c) {}"
proof -
  consider (strm) "t \<in># active_tags cl" | (sock) "t = F_socket" "op_frame_active (socket_fr cl)"
    | (conn) "t = F_connect" "op_frame_active (connect_fr cl)"
    using t by (auto simp: client_active_def split: if_splits)
  then show ?thesis
  proof cases
    case strm
    have nt: "t \<noteq> F_socket" "t \<noteq> F_connect" using active_tags_mem(8) [OF strm] by auto
    then have "client_frames_process E now t c = stream_process E now t c" "client_frames_handle t = stream_handle t"
      "cqe_ok now t c (fr, cl)"
      using ok by (cases t; simp add: client_frames_process_def client_frames_handle_def client_cqe_ok_def)+
    moreover from this(3) obtain h fr' cl' ts where "deliver E now t c (fr, cl) = (Ret h, (fr', cl'))"
        "stream_delta issued (fr, cl) (fr', cl') (int (size ts) + 1 - int (size (completion_tags t c))) (completion_tags t c) ts"
      using deliver_inv_ok [OF laws _ strm, of fr now c] inv by (auto simp: client_inv_def)
    moreover from this(2) have "object_step (client_class E junk) issued (fr, cl) (fr', cl') 1 (completion_tags t c) {}"
      by (rule client_object_step) (use inv in simp_all)
    ultimately show ?thesis unfolding deliver_def by metis
  next
    case sock
    then show ?thesis using client_class_socket [OF inv sock(2)] ok
      by (simp add: client_frames_process_def client_frames_handle_def client_cqe_ok_def del: thenM_apply)
  next
    case conn
    let ?cl = "cl\<lparr>connect_fr := (connect_fr cl)\<lparr>of_done := True,
        of_res := (if cqe_res c < 0 then cqe_res c else of_res (connect_fr cl)), of_h := None\<rparr>,
      st_connected := (if cqe_res c < 0 then cqe_res c = - EISCONN \<and> st_connected cl else True)\<rparr>"
    have run: "thenM (client_frames_process E now t c) (client_frames_handle t) (fr, cl) = (Ret (of_h (connect_fr cl)), (fr, ?cl))"
      using deliver_connect_apply [of c fr cl] conn(1) by (simp add: client_frames_process_def client_frames_handle_def deliver_connect_def)
    have "\<not> cqe_f_more c" using ok conn by (simp add: client_cqe_ok_def)
    then have "object_step (client_class E junk) issued (fr, cl) (fr, ?cl) 1 (completion_tags t c) {}"
      using inv conn client_owned_free [OF inv] client_frame_ok [OF inv]
      by (intro object_step_stillI)
        (simp_all add: client_active_def client_inv_def op_frame_active_def completion_tags_def)
    then show ?thesis using run by blast
  qed
qed

subsection \<open>Destroying and constructing\<close>

lemma client_class_drop:
  assumes laws: "uring_laws E issued n" and inv: "client_inv fr cl"
  shows "pointer_released (client_class E junk) issued (fr, cl)
    (thenM (if b then thenM (cancel_timer E) (cancel_recv E) else retM ()) (intrusive_ptr_release (stream_impl_dtor E)) (fr, cl))"
    (is "pointer_released _ _ _ (?m (fr, cl))")
proof -
  have sinv: "stream_inv fr cl" using inv by (simp add: client_inv_def)
  obtain fr' cl' where t: "?m (fr, cl) = (Ret (rc_count cl = 1), (fr', cl'))"
      "if rc_count cl = 1 then \<exists>es. issued (io_ring fr') = issued (io_ring fr) @ es \<and> posted es = {#} \<and>
          frame_moves (stream_owned cl) fr {} fr' {}
       else stream_delta issued (fr, cl) (fr', cl') (- 1) {#} {#}"
    using drop_tail [OF laws sinv, of b] by blast
  have last: "is_last (client_class E junk) cl = (rc_count cl = 1)" by (simp add: is_last_def)
  show ?thesis
  proof (cases "rc_count cl = 1")
    case True
    then show ?thesis using t last by (auto simp: pointer_released_def object_gone_def)
  next
    case False
    then have d: "stream_delta issued (fr, cl) (fr', cl') (- 1) {#} {#}" using t(2) by simp
    have "object_step (client_class E junk) issued (fr, cl) (fr', cl') (- 1) {#} {}"
      by (rule client_object_step [OF d]) (use inv in simp_all)
    moreover have "client_active cl' = client_active cl" using d client_more [of cl' cl] by (simp add: stream_delta_def client_active_def)
    ultimately show ?thesis using t(1) last False by (simp add: pointer_released_def)
  qed
qed

lemma client_dtor_tail:
  assumes "int (size (client_active cl)) < rc_count cl"
  shows "client_dtor E (fr, cl) =
    thenM (if rc_count cl - int (size (client_active cl)) = 1 then thenM (cancel_timer E) (cancel_recv E) else retM ())
      (intrusive_ptr_release (stream_impl_dtor E)) (fr, cl)"
proof -
  have "use_count cl - count_active cl - of_bool (op_frame_active (socket_fr cl)) - of_bool (op_frame_active (connect_fr cl)) =
      rc_count cl - int (size (client_active cl))"
    by (simp add: use_count_def count_active_size client_active_def)
  then show ?thesis
    using assms by (simp add: client_dtor_def with_obj_def Let_def assertM_def bindM_def thenM_def)
qed

lemma client_class_make:
  assumes laws: "uring_laws E issued n" and ok: "frame_ok fr"
  shows "object_made (client_class E junk) issued a p fr (client_new_run E a p fr)"
proof -
  obtain now zero where a: "a = New_client now zero" by (cases a)
  define cl :: client_impl where "cl = stream_impl.extend (stream_fields p now)
      \<lparr>socket_fr = op_frame_new, connect_fr = op_frame_new, addr_storage = zero\<rparr>"
  have new: "rc_this cl = p" "rc_count cl = 0" "st_fd cl = - 1" "socket_fr cl = op_frame_new" "connect_fr cl = op_frame_new"
    by (simp_all add: cl_def stream_impl.extend_def stream_fields_def)
  obtain r' where r': "on_ring (issue_one E (timeout_sqe p)) (fr, cl) = (Ret (), (fr\<lparr>io_ring := r'\<rparr>, cl))"
      "issued r' = issued (io_ring fr) @ [timeout_sqe p]"
    by (rule on_issue_one [OF laws])
  let ?cl = "cl\<lparr>timeout_fr := (timeout_fr cl)\<lparr>tf_initiated := True\<rparr>, rc_count := 2\<rparr>"
  have run: "client_new_run E a p fr = (Ret ?cl, fr\<lparr>io_ring := r'\<rparr>)"
    using r'(1) new(1,2)
    by (simp add: client_new_run_def a construct_def client_impl_ctor_def stream_init_def cl_def [symmetric] op_simps)
  have "active_tags cl = {#}" "frames_wf cl" "recv_frame_wf fr (recv_fr cl)"
    by (simp_all add: cl_def stream_impl.extend_def stream_fields_def active_defs recv_frame_new_def op_frame_new_def
        op_frame.extend_def inv_defs recv_frame_wf_def)
  then have tags: "active_tags ?cl = {#F_timeout#}" "stream_inv fr ?cl"
    using active_tags_mem(1-6) [of cl] ok new(3)
    by (simp_all add: active_tags_def stream_inv_def frames_wf_def fd_wf_def frame_ok_def)
  have inv: "client_inv fr ?cl" "client_active ?cl = {#F_timeout#}" "stream_owned ?cl = {}"
    using new tags by (simp_all add: client_inv_def client_active_def op_frame_new_def op_frame_active_def stream_owned_def)
  show ?thesis
    unfolding object_made_def run
    using inv r'(2) new ok by (auto intro!: exI [of _ "[timeout_sqe p]"] simp: frame_moves_def)
qed

interpretation client_objs: counted "client_class E junk" issued "uring_laws E issued n" for E :: "'r platform" and junk issued n
proof (unfold_locales, unfold client_class_simps snd_conv, goal_cases)
  case (1 fr cl fr') then show ?case using stream_inv_rely [of fr cl fr'] by (simp add: client_inv_def)
next
  case (2 fr cl c) then show ?case by (rule client_class_call)
next
  case (3 fr cl t now c) then show ?case by (rule client_class_deliver)
next
  case (4 fr cl)
  then show ?case
    using client_owned_free [of fr cl] client_frame_ok [of fr cl]
    by (auto simp: add_ref_apply client_active_def client_inv_def intro!: object_step_stillI)
next
  case (5 fr cl)
  then show ?case using client_class_drop [of E issued n fr cl junk False] by (simp add: op_simps)
next
  case (6 fr cl)
  then show ?case using client_class_drop [of E issued n fr cl junk] client_dtor_tail [of cl E fr] by simp
next
  case (7 fr a p) then show ?case by (intro client_class_make)
next
  case (8 fr cl t) then show ?case using active_tags_mem(8) [of t cl] by (auto simp: client_active_def split: if_splits)
next
  case (9 fr cl t)
  have "F_socket \<notin># active_tags cl" "F_connect \<notin># active_tags cl" using active_tags_mem(8) by blast+
  then show ?case using active_tags_single [of cl t]
    by (cases "t = F_socket"; cases "t = F_connect") (auto simp: client_active_def count_eq_zero_iff)
qed

end
