(* ===== verification/Acceptor.thy ===== *)
theory Acceptor
  imports Stream_Ops
begin

section \<open>TCP acceptors (\<open>tcp.cpp\<close>)\<close>

text \<open>
  \<^verbatim>\<open>acceptor_impl\<close> with its frames for accepting, cancelling and closing. The socket calls of its
  constructor are the fields of the record \<open>sockets\<close>, a parameter; the constructor's state also has
  the set of process descriptors it has opened. An accept takes a direct descriptor from the pool
  when it starts; the descriptor becomes the new stream's or goes back when the accept fails.
\<close>

subsection \<open>State\<close>

record accept_frame =
  ac_h :: "handle option"
  ac_peer_fd :: int
  ac_initiated :: bool
  ac_done :: bool

record acceptor_impl = ref_count +
  accept_fr :: accept_frame
  acc_cancel_fr :: op_frame
  acc_close_fr :: op_frame
  acc_addr_storage :: sockaddr
  acc_fd :: int
  acc_is_ipv4 :: bool

type_synonym 'r acceptor_state = "'r io_context_frame \<times> acceptor_impl"

definition accept_frame_reset :: "accept_frame \<Rightarrow> accept_frame" where
  "accept_frame_reset f = f\<lparr>ac_h := None, ac_peer_fd := - 1, ac_initiated := False, ac_done := False\<rparr>"

subsection \<open>Construction and destruction\<close>

record sockets =
  so_socket :: "sa_family \<Rightarrow> int + int"
  so_bind :: "int \<Rightarrow> sockaddr \<Rightarrow> int option"
  so_listen :: "int \<Rightarrow> int \<Rightarrow> int option"
  so_getsockname :: "int \<Rightarrow> int + sockaddr"

text \<open>The call returned -1 and \<^verbatim>\<open>errno\<close> is \<open>e\<close>.\<close>

definition check_errno :: "int option \<Rightarrow> ('s, unit) op" where
  "check_errno r = (case r of None \<Rightarrow> retM () | Some e \<Rightarrow> throw_errno_as_error_code e)"

definition on_fr :: "('r io_context_frame, 'a) op \<Rightarrow> ('r io_context_frame \<times> int set, 'a) op" where
  "on_fr m s = (case m (fst s) of (x, fr') \<Rightarrow> (x, (fr', snd s)))"

lemma on_fr_apply [op_simps]: "m fr = (x, fr') \<Longrightarrow> on_fr m (fr, opened) = (x, (fr', opened))"
  by (simp add: on_fr_def)

definition register_fd :: "'r platform \<Rightarrow> int \<Rightarrow> int \<Rightarrow> ('r io_context_frame, int) op" where
  "register_fd E off fd fr =
     (case io_uring_register_files_update E (io_ring fr) (of_int off) fd of (ret, r) \<Rightarrow> (Ret ret, fr\<lparr>io_ring := r\<rparr>))"

definition acceptor_impl_ctor ::
  "'r platform \<Rightarrow> sockets \<Rightarrow> addr \<Rightarrow> sockaddr \<Rightarrow> int \<Rightarrow> ('r io_context_frame \<times> int set, acceptor_impl) op" where
  "acceptor_impl_ctor E S this address backlog =
     thenM (assertM (is_inet (sa_fam address)))
     (case so_socket S (sa_fam address) of
        Inl e \<Rightarrow> throw_errno_as_error_code e
      | Inr fd \<Rightarrow>
          thenM (modifyM (\<lambda>(fr, opened). (fr, insert fd opened)))
           (thenM (check_errno (so_bind S fd address))
            (thenM (check_errno (so_listen S fd backlog))
              (case so_getsockname S fd of
                 Inl e \<Rightarrow> throw_errno_as_error_code e
               | Inr name \<Rightarrow>
                   thenM (assertM (addr_len (sa_fam name) = addr_len (sa_fam address)))
                   (bindM (on_fr (get_available_fd E)) (\<lambda>off.
                     if off < 0 then throwM ENFILE
                     else bindM (on_fr (register_fd E off fd)) (\<lambda>ret.
                       if ret < 0 then throw_errno_as_error_code (- ret)
                       else thenM (modifyM (\<lambda>(fr, opened). (fr, opened - {fd})))
                         (retM \<lparr>rc_this = this, rc_count = 0,
                            accept_fr = \<lparr>ac_h = None, ac_peer_fd = - 1, ac_initiated = False, ac_done = False\<rparr>,
                            acc_cancel_fr = op_frame_new, acc_close_fr = op_frame_new, acc_addr_storage = name,
                            acc_fd = off, acc_is_ipv4 = (sa_fam address = AF_INET)\<rparr>))))))))"

text \<open>The delegating constructors take the port as it is, in network byte order.\<close>

definition acceptor_impl_ctor_in ::
  "'r platform \<Rightarrow> sockets \<Rightarrow> addr \<Rightarrow> u8 list \<Rightarrow> u16 \<Rightarrow> int \<Rightarrow> ('r io_context_frame \<times> int set, acceptor_impl) op" where
  "acceptor_impl_ctor_in E S this ipv4_addr port backlog =
     acceptor_impl_ctor E S this \<lparr>sa_fam = AF_INET, sa_port = port, sa_addr = ipv4_addr\<rparr> backlog"

definition acceptor_impl_ctor_in6 ::
  "'r platform \<Rightarrow> sockets \<Rightarrow> addr \<Rightarrow> u8 list \<Rightarrow> u16 \<Rightarrow> int \<Rightarrow> ('r io_context_frame \<times> int set, acceptor_impl) op" where
  "acceptor_impl_ctor_in6 E S this ipv6_addr port backlog =
     acceptor_impl_ctor E S this \<lparr>sa_fam = AF_INET6, sa_port = port, sa_addr = ipv6_addr\<rparr> backlog"

definition acceptor_impl_dtor :: "'r platform \<Rightarrow> ('r acceptor_state, unit) op" where
  "acceptor_impl_dtor E =
     with_obj (\<lambda>a. if acc_fd a \<ge> 0
       then thenM (close_owned_fd E (acc_fd a)) (on_obj (\<lambda>a. a\<lparr>acc_fd := - 1\<rparr>)) else retM ())"

definition ntohs :: "u16 \<Rightarrow> u16" where
  "ntohs w = push_bit 8 w OR drop_bit 8 w"

definition acceptor_port :: "acceptor_impl \<Rightarrow> u16" where
  "acceptor_port a = ntohs (sa_port (acc_addr_storage a))"

subsection \<open>Accepting\<close>

definition accept_process :: "cqe \<Rightarrow> ('r acceptor_state, unit) op" where
  "accept_process c =
     thenM (if cqe_res c < 0
            then with_obj (\<lambda>a. thenM (assertM (ac_peer_fd (accept_fr a) \<ge> 0))
              (thenM (on_frame (release_fd (ac_peer_fd (accept_fr a))))
                (on_obj (\<lambda>a. a\<lparr>accept_fr := (accept_fr a)\<lparr>ac_peer_fd := cqe_res c\<rparr>\<rparr>))))
            else retM ())
       (on_obj (\<lambda>a. a\<lparr>accept_fr := (accept_fr a)\<lparr>ac_done := True\<rparr>\<rparr>))"

definition accept_handle :: "('r acceptor_state, handle option) op" where
  "accept_handle s = (Ret (ac_h (accept_fr (snd s))), (fst s, (snd s)\<lparr>accept_fr := (accept_fr (snd s))\<lparr>ac_h := None\<rparr>\<rparr>))"

definition accept_awaitable_dtor :: "'r platform \<Rightarrow> ('r acceptor_state, unit) op" where
  "accept_awaitable_dtor E =
     with_obj (\<lambda>a. if ac_initiated (accept_fr a) \<and> \<not> ac_done (accept_fr a)
       then cancel_in_flight E (UD (rc_this a) F_accept) else retM ())"

definition accept_sqe :: "addr \<Rightarrow> int \<Rightarrow> int \<Rightarrow> sqe" where
  "accept_sqe this fd idx =
     \<lparr>sqe_prep = Prep_accept_direct fd (of_int idx), sqe_flags = [IOSQE_FIXED_FILE], sqe_data = UD this F_accept\<rparr>"

definition accept_await_suspend :: "'r platform \<Rightarrow> handle \<Rightarrow> ('r acceptor_state, unit) op" where
  "accept_await_suspend E h =
     with_obj (\<lambda>a. if ac_initiated (accept_fr a) then throw_errno_as_error_code EBUSY
       else bindM (on_frame (get_available_fd E)) (\<lambda>idx.
         if idx < 0 then throw_errno_as_error_code ENFILE
         else thenM (on_ring (issue_one E (accept_sqe (rc_this a) (acc_fd a) idx)))
          (thenM intrusive_ptr_add_ref
            (on_obj (\<lambda>a. a\<lparr>accept_fr := (accept_fr a)\<lparr>ac_initiated := True, ac_h := Some h, ac_peer_fd := idx\<rparr>\<rparr>)))))"

definition accept_raw_await_resume :: "('r acceptor_state, int fiona_result) op" where
  "accept_raw_await_resume s =
     (Ret (if ac_peer_fd (accept_fr (snd s)) < 0 then Inl (- ac_peer_fd (accept_fr (snd s)))
           else Inr (ac_peer_fd (accept_fr (snd s)))),
      (fst s, (snd s)\<lparr>accept_fr := accept_frame_reset (accept_fr (snd s))\<rparr>))"

text \<open>A success makes a connected \<^verbatim>\<open>stream\<close>: its object is allocated at \<open>p\<close> and owned by one pointer.\<close>

definition make_stream :: "'r platform \<Rightarrow> addr \<Rightarrow> int \<Rightarrow> int \<Rightarrow> ('r acceptor_state, stream_impl) op" where
  "make_stream E p now fd s =
     (case thenM (\<lambda>fr. stream_impl_ctor E p now fd (fst fr)) intrusive_ptr_add_ref (fst s, stream_fields p now) of
        (Ret (), (fr', st)) \<Rightarrow> (Ret (st\<lparr>st_connected := True\<rparr>), (fr', snd s))
      | (Throw e, (fr', st)) \<Rightarrow> (Throw e, (fr', snd s))
      | (Assert_failed, (fr', st)) \<Rightarrow> (Assert_failed, (fr', snd s))
      | (Bad_access, (fr', st)) \<Rightarrow> (Bad_access, (fr', snd s)))"

definition accept_await_resume ::
  "'r platform \<Rightarrow> addr \<Rightarrow> int \<Rightarrow> ('r acceptor_state, stream_impl fiona_result) op" where
  "accept_await_resume E p now =
     bindM accept_raw_await_resume (\<lambda>x. case x of
         Inl e \<Rightarrow> retM (Inl e)
       | Inr fd \<Rightarrow> bindM (make_stream E p now fd) (\<lambda>st. retM (Inr st)))"

subsection \<open>Cancelling and closing\<close>

definition acc_cancel_process :: "cqe \<Rightarrow> ('r acceptor_state, unit) op" where
  "acc_cancel_process c = on_obj (\<lambda>a. a\<lparr>acc_cancel_fr := op_frame_process c (acc_cancel_fr a)\<rparr>)"

definition acc_cancel_handle :: "('r acceptor_state, handle option) op" where
  "acc_cancel_handle s =
     (case op_frame_handle (acc_cancel_fr (snd s)) of (k, f) \<Rightarrow> (Ret k, (fst s, (snd s)\<lparr>acc_cancel_fr := f\<rparr>)))"

definition accept_cancel_await_suspend :: "'r platform \<Rightarrow> handle \<Rightarrow> ('r acceptor_state, unit) op" where
  "accept_cancel_await_suspend E h =
     with_obj (\<lambda>a. thenM (on_ring (issue_one E (cancel_fd_sqe (acc_fd a) [] (UD (rc_this a) F_acceptor_cancel))))
       (thenM intrusive_ptr_add_ref (on_obj (\<lambda>a. a\<lparr>acc_cancel_fr := op_frame_start h (acc_cancel_fr a)\<rparr>))))"

definition accept_cancel_await_resume :: "('r acceptor_state, int fiona_result) op" where
  "accept_cancel_await_resume s =
     (Ret (result_of_res (of_res (acc_cancel_fr (snd s)))),
      (fst s, (snd s)\<lparr>acc_cancel_fr := op_frame_reset (acc_cancel_fr (snd s))\<rparr>))"

definition acc_close_process :: "cqe \<Rightarrow> ('r acceptor_state, unit) op" where
  "acc_close_process c =
     thenM (on_obj (\<lambda>a. a\<lparr>acc_close_fr := op_frame_process c (acc_close_fr a)\<rparr>))
       (with_obj (\<lambda>a. thenM (on_frame (release_fd (acc_fd a))) (on_obj (\<lambda>a. a\<lparr>acc_fd := - 1\<rparr>))))"

definition acc_close_handle :: "('r acceptor_state, handle option) op" where
  "acc_close_handle s =
     (case op_frame_handle (acc_close_fr (snd s)) of (k, f) \<Rightarrow> (Ret k, (fst s, (snd s)\<lparr>acc_close_fr := f\<rparr>)))"

definition acceptor_close_sqes :: "addr \<Rightarrow> int \<Rightarrow> sqe list" where
  "acceptor_close_sqes this fd =
     [cancel_fd_sqe fd [IOSQE_IO_HARDLINK, IOSQE_CQE_SKIP_SUCCESS] UD_null,
      \<lparr>sqe_prep = Prep_close_direct (of_int fd), sqe_flags = [], sqe_data = UD this F_acceptor_close\<rparr>]"

definition accept_close_await_suspend :: "'r platform \<Rightarrow> handle \<Rightarrow> ('r acceptor_state, unit) op" where
  "accept_close_await_suspend E h =
     with_obj (\<lambda>a. if acc_fd a < 0 then throw_errno_as_error_code EBADFD
       else thenM (on_ring (issue_sqes E 2 (acceptor_close_sqes (rc_this a) (acc_fd a))))
         (thenM intrusive_ptr_add_ref (on_obj (\<lambda>a. a\<lparr>acc_close_fr := op_frame_start h (acc_close_fr a)\<rparr>))))"

definition accept_close_await_resume :: "('r acceptor_state, int fiona_result) op" where
  "accept_close_await_resume s =
     (Ret (result_of_res (of_res (acc_close_fr (snd s)))),
      (fst s, (snd s)\<lparr>acc_close_fr := op_frame_reset (acc_close_fr (snd s))\<rparr>))"

text \<open>Cancelling meets the contract of one operation.\<close>

interpretation acc_cancel_op: one_shot
  "\<lambda>s :: 'r acceptor_state. uring_laws E issued n" "\<lambda>s. rc_count (snd s)"
  "\<lambda>s. fr_idle (acc_cancel_fr (snd s))" "\<lambda>h s. fr_waiting h (acc_cancel_fr (snd s))"
  "\<lambda>h c s. fr_completed h c (acc_cancel_fr (snd s))" "\<lambda>c s. fr_finished c (acc_cancel_fr (snd s))"
  "accept_cancel_await_suspend E" acc_cancel_process acc_cancel_handle accept_cancel_await_resume
  "\<lambda>_. True" "\<lambda>c. result_of_res (cqe_res c)" for E :: "'r platform" and issued n
proof
  fix s :: "'r acceptor_state" and h
  assume laws: "uring_laws E issued n" and idle: "fr_idle (acc_cancel_fr (snd s))"
  let ?e = "cancel_fd_sqe (acc_fd (snd s)) [] (UD (rc_this (snd s)) F_acceptor_cancel)"
  obtain r' where "on_ring (issue_one E ?e) (fst s, snd s) = (Ret (), ((fst s)\<lparr>io_ring := r'\<rparr>, snd s))"
    by (rule on_issue_one [OF laws])
  then show "\<exists>s'. accept_cancel_await_suspend E h s = (Ret (), s') \<and> uring_laws E issued n \<and>
      fr_waiting h (acc_cancel_fr (snd s')) \<and> rc_count (snd s') = rc_count (snd s) + 1"
    using laws idle
    by (cases s) (simp add: accept_cancel_await_suspend_def op_simps fr_state_defs op_frame_defs)
qed (auto simp: fr_state_defs op_frame_defs acc_cancel_process_def on_obj_def acc_cancel_handle_def
    accept_cancel_await_resume_def)

subsection \<open>What accepting does to the pool\<close>

lemma accept_start_ok:
  assumes laws: "uring_laws E issued n" and pool: "fd_inv fr" "fds fr \<noteq> {}" and idle: "\<not> ac_initiated (accept_fr a)"
  shows "\<exists>fd r'. accept_await_suspend E h (fr, a) = (Ret (), (fr\<lparr>fds := fds fr - {fd}, io_ring := r'\<rparr>,
       a\<lparr>rc_count := rc_count a + 1,
         accept_fr := (accept_fr a)\<lparr>ac_initiated := True, ac_h := Some h, ac_peer_fd := fd\<rparr>\<rparr>)) \<and>
     fd \<in> fds fr \<and> 0 \<le> fd \<and> issued r' = issued (io_ring fr) @ [accept_sqe (rc_this a) (acc_fd a) fd]"
proof -
  obtain fd where fd: "get_available_fd E fr = (Ret fd, fr\<lparr>fds := fds fr - {fd}\<rparr>)" "fd \<in> fds fr" "0 \<le> fd"
    by (rule get_available_fd_ok [OF pool(1) begin_ok_laws [OF laws] pool(2)])
  obtain r' where r': "on_ring (issue_one E (accept_sqe (rc_this a) (acc_fd a) fd)) (fr\<lparr>fds := fds fr - {fd}\<rparr>, a) =
      (Ret (), (fr\<lparr>fds := fds fr - {fd}, io_ring := r'\<rparr>, a))"
      "issued r' = issued (io_ring (fr\<lparr>fds := fds fr - {fd}\<rparr>)) @ [accept_sqe (rc_this a) (acc_fd a) fd]"
    by (rule on_issue_one [OF laws])
  have "accept_await_suspend E h (fr, a) = (Ret (), (fr\<lparr>fds := fds fr - {fd}, io_ring := r'\<rparr>,
       a\<lparr>rc_count := rc_count a + 1,
         accept_fr := (accept_fr a)\<lparr>ac_initiated := True, ac_h := Some h, ac_peer_fd := fd\<rparr>\<rparr>))"
    using idle fd(1,3) r'(1) by (simp add: accept_await_suspend_def op_simps)
  then show ?thesis using fd r'(2) by auto
qed

lemma accept_process_ok:
  assumes "fd_inv fr" and "owned_fd_ok fr (ac_peer_fd (accept_fr a))"
  shows "accept_process c (fr, a) =
    (if cqe_res c < 0
     then (Ret (), (fr\<lparr>fds := insert (ac_peer_fd (accept_fr a)) (fds fr)\<rparr>,
            a\<lparr>accept_fr := (accept_fr a)\<lparr>ac_peer_fd := cqe_res c, ac_done := True\<rparr>\<rparr>))
     else (Ret (), (fr, a\<lparr>accept_fr := (accept_fr a)\<lparr>ac_done := True\<rparr>\<rparr>)))"
  using assms release_fd_ok [of fr "ac_peer_fd (accept_fr a)"]
  by (simp add: accept_process_def owned_fd_ok_def op_simps)

subsection \<open>Properties\<close>

text \<open>
  C23: an accept conserves descriptors: it starts by taking a free one; while it is in flight a
  second accept throws \<^verbatim>\<open>EBUSY\<close> and changes nothing; a successful completion hands exactly the
  descriptor taken at the start to the caller, a failed one returns it to the pool and yields the
  error. The coroutine that awaits is the one resumed and the acceptor can accept again.
\<close>

theorem accept_conserves_fds:
  assumes "uring_laws E issued n" and "fd_inv fr" and "fds fr \<noteq> {}"
    and "\<not> ac_initiated (accept_fr a)" and "\<not> ac_done (accept_fr a)"
  shows "\<exists>fd s1 fr2 a2. fd \<in> fds fr \<and> accept_await_suspend E h (fr, a) = (Ret (), s1) \<and> fds (fst s1) = fds fr - {fd} \<and>
     accept_await_suspend E k s1 = (Throw EBUSY, s1) \<and>
     finish_op accept_process accept_handle accept_raw_await_resume c s1 =
       (Ret (Some h, if cqe_res c < 0 then Inl (- cqe_res c) else Inr fd), (fr2, a2)) \<and>
     fds fr2 = (if cqe_res c < 0 then fds fr else fds fr - {fd}) \<and>
     \<not> ac_initiated (accept_fr a2) \<and> \<not> ac_done (accept_fr a2) \<and> rc_count a2 = rc_count a + 1"
proof -
  obtain fd r' where st: "accept_await_suspend E h (fr, a) = (Ret (), (fr\<lparr>fds := fds fr - {fd}, io_ring := r'\<rparr>,
       a\<lparr>rc_count := rc_count a + 1,
         accept_fr := (accept_fr a)\<lparr>ac_initiated := True, ac_h := Some h, ac_peer_fd := fd\<rparr>\<rparr>))"
      and fd: "fd \<in> fds fr" "0 \<le> fd"
    using accept_start_ok [OF assms(1-4), of h] by blast
  let ?fr1 = "fr\<lparr>fds := fds fr - {fd}, io_ring := r'\<rparr>"
  let ?a1 = "a\<lparr>rc_count := rc_count a + 1,
         accept_fr := (accept_fr a)\<lparr>ac_initiated := True, ac_h := Some h, ac_peer_fd := fd\<rparr>\<rparr>"
  have own: "fd_inv ?fr1" "owned_fd_ok ?fr1 (ac_peer_fd (accept_fr ?a1))"
    using assms(2) fd by (auto simp: fd_inv_def owned_fd_ok_def)
  have busy: "accept_await_suspend E k (?fr1, ?a1) = (Throw EBUSY, (?fr1, ?a1))"
    by (simp add: accept_await_suspend_def op_simps)
  have "\<exists>fr2 a2. finish_op accept_process accept_handle accept_raw_await_resume c (?fr1, ?a1) =
       (Ret (Some h, if cqe_res c < 0 then Inl (- cqe_res c) else Inr fd), (fr2, a2)) \<and>
     fds fr2 = (if cqe_res c < 0 then fds fr else fds fr - {fd}) \<and>
     \<not> ac_initiated (accept_fr a2) \<and> \<not> ac_done (accept_fr a2) \<and> rc_count a2 = rc_count a + 1"
    using accept_process_ok [OF own, of c] fd
    by (simp add: finish_op_def accept_handle_def accept_raw_await_resume_def accept_frame_reset_def op_simps insert_absorb)
  then show ?thesis using st busy fd(1) by (intro exI [of _ fd] exI [of _ "(?fr1, ?a1)"]) auto
qed

definition ex_acceptor :: acceptor_impl where
  "ex_acceptor = \<lparr>rc_this = 320, rc_count = 1,
     accept_fr = \<lparr>ac_h = None, ac_peer_fd = - 1, ac_initiated = False, ac_done = False\<rparr>,
     acc_cancel_fr = op_frame_new, acc_close_fr = op_frame_new,
     acc_addr_storage = \<lparr>sa_fam = AF_INET, sa_port = 0x901F, sa_addr = [127, 0, 0, 1]\<rparr>, acc_fd = 9, acc_is_ipv4 = True\<rparr>"

theorem accept_conserves_fds_witness:
  "\<exists>fd s1 fr2 a2. fd \<in> {0, 1} \<and> accept_await_suspend (list_platform 4) 4096 (ex_frame, ex_acceptor) = (Ret (), s1) \<and>
     finish_op accept_process accept_handle accept_raw_await_resume
       \<lparr>cqe_res = - ECANCELED, cqe_flags = 0, cqe_data = UD 320 F_accept\<rparr> s1 =
       (Ret (Some 4096, Inl ECANCELED), (fr2, a2)) \<and> fds fr2 = {0, 1}"
proof -
  have "fds ex_frame = {0, 1}" "\<not> ac_initiated (accept_fr ex_acceptor)" "\<not> ac_done (accept_fr ex_acceptor)"
    by (simp_all add: ex_frame_def ex_acceptor_def)
  then show ?thesis
    using accept_conserves_fds [OF ex_laws ex_frame_inv(1), of ex_acceptor 4096 8192
        "\<lparr>cqe_res = - ECANCELED, cqe_flags = 0, cqe_data = UD 320 F_accept\<rparr>"] by auto
qed

text \<open>
  Constructing an acceptor for an IPv4 or IPv6 address: when every call succeeds the acceptor owns a direct descriptor
  taken from the pool, reports the port the system assigned, and the process descriptor of the
  socket is closed again. When \<^verbatim>\<open>bind\<close>, \<^verbatim>\<open>listen\<close> or \<^verbatim>\<open>getsockname\<close> fails the error is thrown but the
  socket stays open, and when the registration fails the direct descriptor is lost as well.
\<close>

theorem acceptor_ctor_outcomes:
  assumes "fd_inv fr" and "begin_ok E" and "fds fr \<noteq> {}" and "so_socket S (sa_fam address) = Inr fd" and "fd \<notin> opened"
    and "\<And>e. so_bind S fd address = Some e \<or> so_listen S fd backlog = Some e \<or> so_getsockname S fd = Inl e \<Longrightarrow> e \<noteq> 0"
    and "is_inet (sa_fam address)" and "\<And>name. so_getsockname S fd = Inr name \<Longrightarrow> sa_fam name = sa_fam address"
  shows "case (so_bind S fd address, so_listen S fd backlog, so_getsockname S fd) of
      (None, None, Inr name) \<Rightarrow>
        (\<exists>off x fr'. off \<in> fds fr \<and> fds fr' = fds fr - {off} \<and>
           fst (io_uring_register_files_update E (io_ring fr) (of_int off) fd) = x \<and>
           (if x < 0 then acceptor_impl_ctor E S this address backlog (fr, opened) = (Throw (- x), (fr', insert fd opened))
            else \<exists>a. acceptor_impl_ctor E S this address backlog (fr, opened) = (Ret a, (fr', opened)) \<and>
              acc_fd a = off \<and> acceptor_port a = ntohs (sa_port name)))
    | _ \<Rightarrow> (\<exists>e. acceptor_impl_ctor E S this address backlog (fr, opened) = (Throw e, (fr, insert fd opened)))"
proof (cases "so_bind S fd address")
  case (Some e)
  then have "acceptor_impl_ctor E S this address backlog (fr, opened) = (Throw e, (fr, insert fd opened))"
    using assms(4,6,7) by (simp add: acceptor_impl_ctor_def check_errno_def op_simps)
  then show ?thesis using Some by auto
next
  case bind: None
  show ?thesis
  proof (cases "so_listen S fd backlog")
    case (Some e)
    then have "acceptor_impl_ctor E S this address backlog (fr, opened) = (Throw e, (fr, insert fd opened))"
      using bind assms(4,6,7) by (simp add: acceptor_impl_ctor_def check_errno_def op_simps)
    then show ?thesis using bind Some by auto
  next
    case listen: None
    show ?thesis
    proof (cases "so_getsockname S fd")
      case (Inl e)
      then have "acceptor_impl_ctor E S this address backlog (fr, opened) = (Throw e, (fr, insert fd opened))"
        using bind listen assms(4,6,7) by (simp add: acceptor_impl_ctor_def check_errno_def op_simps)
      then show ?thesis using bind listen Inl by auto
    next
      case (Inr name)
      obtain off where off: "get_available_fd E fr = (Ret off, fr\<lparr>fds := fds fr - {off}\<rparr>)" "off \<in> fds fr" "0 \<le> off"
        by (rule get_available_fd_ok [OF assms(1-3)])
      obtain x r' where reg: "io_uring_register_files_update E (io_ring fr) (of_int off) fd = (x, r')" by fastforce
      let ?fr' = "fr\<lparr>fds := fds fr - {off}, io_ring := r'\<rparr>"
      have nm: "sa_fam name = sa_fam address" using assms(8) Inr by simp
      have run: "acceptor_impl_ctor E S this address backlog (fr, opened) =
          (if x < 0 then (Throw (- x), (?fr', insert fd opened))
           else (Ret \<lparr>rc_this = this, rc_count = 0,
              accept_fr = \<lparr>ac_h = None, ac_peer_fd = - 1, ac_initiated = False, ac_done = False\<rparr>,
              acc_cancel_fr = op_frame_new, acc_close_fr = op_frame_new, acc_addr_storage = name,
              acc_fd = off, acc_is_ipv4 = (sa_fam address = AF_INET)\<rparr>, (?fr', opened)))"
        using bind listen Inr off reg assms(4,5,7) nm
        by (simp add: acceptor_impl_ctor_def check_errno_def register_fd_def op_simps)
      have "\<exists>off x fr'. off \<in> fds fr \<and> fds fr' = fds fr - {off} \<and>
           fst (io_uring_register_files_update E (io_ring fr) (of_int off) fd) = x \<and>
           (if x < 0 then acceptor_impl_ctor E S this address backlog (fr, opened) = (Throw (- x), (fr', insert fd opened))
            else \<exists>a. acceptor_impl_ctor E S this address backlog (fr, opened) = (Ret a, (fr', opened)) \<and>
              acc_fd a = off \<and> acceptor_port a = ntohs (sa_port name))"
        by (intro exI [of _ off] exI [of _ x] exI [of _ ?fr']) (use run off(2) reg in \<open>simp add: acceptor_port_def\<close>)
      then show ?thesis unfolding bind listen Inr prod.case option.case sum.case .
    qed
  qed
qed

theorem acceptor_ctor_outcomes_witness:
  "\<exists>e. acceptor_impl_ctor (list_platform 4)
     \<lparr>so_socket = \<lambda>_. Inr 33, so_bind = \<lambda>_ _. Some 98, so_listen = \<lambda>_ _. None, so_getsockname = \<lambda>_. Inl 1\<rparr>
     320 \<lparr>sa_fam = AF_INET, sa_port = 0, sa_addr = [127, 0, 0, 1]\<rparr> 256 (ex_frame, {}) = (Throw e, (ex_frame, {33}))"
proof -
  let ?S = "\<lparr>so_socket = \<lambda>_. Inr 33, so_bind = \<lambda>_ _. Some 98, so_listen = \<lambda>_ _. None, so_getsockname = \<lambda>_. Inl 1\<rparr>"
  let ?a = "\<lparr>sa_fam = AF_INET, sa_port = 0, sa_addr = [127, 0, 0, 1]\<rparr>"
  have ne: "fds ex_frame \<noteq> {}" by (simp add: ex_frame_def)
  have sock: "so_socket ?S (sa_fam ?a) = Inr 33" "33 \<notin> ({} :: int set)" by simp_all
  have nz: "\<And>e. so_bind ?S 33 ?a = Some e \<or> so_listen ?S 33 256 = Some e \<or> so_getsockname ?S 33 = Inl e \<Longrightarrow> e \<noteq> 0" by auto
  show ?thesis using acceptor_ctor_outcomes [OF ex_frame_inv(1,2) ne sock nz, where this = 320 and backlog = 256] by (simp add: is_inet_def)
qed

end
