(* ===== verification/Acceptor_Class.thy ===== *)
theory Acceptor_Class
  imports Acceptor Object_Heap
begin

section \<open>Acceptors as a class of objects\<close>

text \<open>
  Acceptors meet the contract \<open>counted\<close>. An acceptor owns its listening descriptor and, from the start of an
  accept until its result is taken, the one for the connection: resuming the coroutine hands it to the program,
  which makes a stream of it; an acceptor that is deleted before abandons it.
\<close>

datatype acceptor_call =
    Accept_suspend handle | Accept_resume | Accept_dtor
  | Accept_cancel handle | Accept_cancel_resume | Accept_close handle | Accept_close_resume

definition acceptor_call_run :: "'r platform \<Rightarrow> acceptor_call \<Rightarrow> ('r acceptor_state, unit) op" where
  "acceptor_call_run E c =
     (case c of
        Accept_suspend h \<Rightarrow> accept_await_suspend E h
      | Accept_resume \<Rightarrow> ignoreM accept_raw_await_resume
      | Accept_dtor \<Rightarrow> accept_awaitable_dtor E
      | Accept_cancel h \<Rightarrow> accept_cancel_await_suspend E h
      | Accept_cancel_resume \<Rightarrow> ignoreM accept_cancel_await_resume
      | Accept_close h \<Rightarrow> accept_close_await_suspend E h
      | Accept_close_resume \<Rightarrow> ignoreM accept_close_await_resume)"

definition acceptor_call_ok :: "acceptor_call \<Rightarrow> acceptor_impl \<Rightarrow> bool" where
  "acceptor_call_ok c a =
     (case c of
        Accept_resume \<Rightarrow> ac_initiated (accept_fr a) \<and> ac_done (accept_fr a)
      | Accept_cancel h \<Rightarrow> \<not> of_initiated (acc_cancel_fr a)
      | Accept_cancel_resume \<Rightarrow> \<not> op_frame_active (acc_cancel_fr a)
      | Accept_close h \<Rightarrow> \<not> of_initiated (acc_close_fr a)
      | Accept_close_resume \<Rightarrow> \<not> op_frame_active (acc_close_fr a)
      | _ \<Rightarrow> True)"

definition accept_waits :: "acceptor_impl \<Rightarrow> bool" where
  "accept_waits a = (ac_initiated (accept_fr a) \<and> \<not> ac_done (accept_fr a))"

text \<open>The descriptor of a connection whose result has not been taken.\<close>

definition accept_peer :: "acceptor_impl \<Rightarrow> int set" where
  "accept_peer a = (if ac_initiated (accept_fr a) \<and> 0 \<le> ac_peer_fd (accept_fr a) then {ac_peer_fd (accept_fr a)} else {})"

definition acceptor_active :: "acceptor_impl \<Rightarrow> frame_tag multiset" where
  "acceptor_active a =
     (if accept_waits a then {#F_accept#} else {#}) +
     (if op_frame_active (acc_cancel_fr a) then {#F_acceptor_cancel#} else {#}) +
     (if op_frame_active (acc_close_fr a) then {#F_acceptor_close#} else {#})"

definition acceptor_owned :: "acceptor_impl \<Rightarrow> int set" where
  "acceptor_owned a = ({acc_fd a} - {- 1}) \<union> accept_peer a"

definition acceptor_inv :: "'r io_context_frame \<Rightarrow> acceptor_impl \<Rightarrow> bool" where
  "acceptor_inv fr a =
     ((ac_done (accept_fr a) \<longrightarrow> ac_initiated (accept_fr a)) \<and>
      (of_done (acc_cancel_fr a) \<longrightarrow> of_initiated (acc_cancel_fr a)) \<and>
      (of_done (acc_close_fr a) \<longrightarrow> of_initiated (acc_close_fr a)) \<and>
      (acc_fd a = - 1 \<or> owned_fd_ok fr (acc_fd a)) \<and>
      (\<forall>fd \<in> accept_peer a. owned_fd_ok fr fd \<and> fd \<noteq> acc_fd a) \<and>
      (accept_waits a \<longrightarrow> 0 \<le> ac_peer_fd (accept_fr a)) \<and> frame_ok fr)"

definition acceptor_frames_process :: "frame_tag \<Rightarrow> cqe \<Rightarrow> ('r acceptor_state, unit) op" where
  "acceptor_frames_process t c =
     (case t of F_accept \<Rightarrow> accept_process c | F_acceptor_cancel \<Rightarrow> acc_cancel_process c
      | F_acceptor_close \<Rightarrow> acc_close_process c | _ \<Rightarrow> (\<lambda>s. (Bad_access, s)))"

definition acceptor_frames_handle :: "frame_tag \<Rightarrow> ('r acceptor_state, handle option) op" where
  "acceptor_frames_handle t =
     (case t of F_accept \<Rightarrow> accept_handle | F_acceptor_cancel \<Rightarrow> acc_cancel_handle
      | F_acceptor_close \<Rightarrow> acc_close_handle | _ \<Rightarrow> retM None)"

text \<open>What the socket calls of the constructor answer: \<^verbatim>\<open>errno\<close> is set, the name has the family asked for.\<close>

definition sockets_reply :: "sockets \<Rightarrow> sockaddr \<Rightarrow> int \<Rightarrow> bool" where
  "sockets_reply S address backlog =
     (is_inet (sa_fam address) \<and>
      (case so_socket S (sa_fam address) of
         Inl e \<Rightarrow> e \<noteq> 0
       | Inr fd \<Rightarrow> so_bind S fd address \<noteq> Some 0 \<and> so_listen S fd backlog \<noteq> Some 0 \<and>
           (case so_getsockname S fd of Inl e \<Rightarrow> e \<noteq> 0 | Inr name \<Rightarrow> addr_len (sa_fam name) = addr_len (sa_fam address))))"

datatype acceptor_new = New_acceptor sockets sockaddr

definition default_backlog :: int where
  "default_backlog = 256"

definition acceptor_new_run :: "'r platform \<Rightarrow> acceptor_new \<Rightarrow> addr \<Rightarrow> ('r io_context_frame, acceptor_impl) op" where
  "acceptor_new_run E n p fr =
     (case n of New_acceptor S address \<Rightarrow>
        (case acceptor_impl_ctor E S p address default_backlog (fr, {}) of
           (Ret a, s') \<Rightarrow> construct intrusive_ptr_add_ref a (fst s')
         | (Throw e, s') \<Rightarrow> (Throw e, fst s')
         | (Assert_failed, s') \<Rightarrow> (Assert_failed, fst s')
         | (Bad_access, s') \<Rightarrow> (Bad_access, fst s')))"

definition acceptor_hands_out :: "acceptor_call \<Rightarrow> acceptor_impl \<Rightarrow> int set" where
  "acceptor_hands_out c a = (case c of Accept_resume \<Rightarrow> accept_peer a | _ \<Rightarrow> {})"

definition acceptor_class :: "'r platform \<Rightarrow> ('r, acceptor_impl, acceptor_call, acceptor_new) object_class" where
  "acceptor_class E = \<lparr>
     oc_this = rc_this, oc_count = rc_count, oc_active = acceptor_active,
     oc_frames = (\<lambda>_. {F_accept, F_acceptor_cancel, F_acceptor_close}), oc_owned = acceptor_owned, oc_inv = acceptor_inv,
     oc_call_ok = (\<lambda>c s. acceptor_call_ok c (snd s)), oc_call = acceptor_call_run E, oc_call_out = acceptor_hands_out,
     oc_cqe_ok = (\<lambda>now t c s. \<not> cqe_f_more c), oc_process = (\<lambda>now. acceptor_frames_process),
     oc_handle = acceptor_frames_handle, oc_cqe_out = (\<lambda>_ _ _. {}), oc_copy = intrusive_ptr_add_ref,
     oc_release = intrusive_ptr_release (acceptor_impl_dtor E), oc_drop = intrusive_ptr_release (acceptor_impl_dtor E),
     oc_left = accept_peer, oc_new_ok = (\<lambda>n _. case n of New_acceptor S address \<Rightarrow> sockets_reply S address default_backlog),
     oc_new = acceptor_new_run E, oc_new_in = (\<lambda>_. {})\<rparr>"

lemma acceptor_class_simps [simp]:
  "oc_this (acceptor_class E) = rc_this" "oc_count (acceptor_class E) = rc_count" "oc_active (acceptor_class E) = acceptor_active"
  "oc_frames (acceptor_class E) = (\<lambda>_. {F_accept, F_acceptor_cancel, F_acceptor_close})"
  "oc_owned (acceptor_class E) = acceptor_owned" "oc_inv (acceptor_class E) = acceptor_inv"
  "oc_call_ok (acceptor_class E) = (\<lambda>c s. acceptor_call_ok c (snd s))" "oc_call (acceptor_class E) = acceptor_call_run E"
  "oc_call_out (acceptor_class E) = acceptor_hands_out" "oc_cqe_ok (acceptor_class E) = (\<lambda>now t c s. \<not> cqe_f_more c)"
  "oc_process (acceptor_class E) = (\<lambda>now. acceptor_frames_process)" "oc_handle (acceptor_class E) = acceptor_frames_handle"
  "oc_cqe_out (acceptor_class E) = (\<lambda>_ _ _. {})" "oc_copy (acceptor_class E) = intrusive_ptr_add_ref"
  "oc_release (acceptor_class E) = intrusive_ptr_release (acceptor_impl_dtor E)"
  "oc_drop (acceptor_class E) = intrusive_ptr_release (acceptor_impl_dtor E)" "oc_left (acceptor_class E) = accept_peer"
  "oc_new_ok (acceptor_class E) = (\<lambda>n _. case n of New_acceptor S address \<Rightarrow> sockets_reply S address default_backlog)"
  "oc_new (acceptor_class E) = acceptor_new_run E" "oc_new_in (acceptor_class E) = (\<lambda>_. {})"
  by (simp_all add: acceptor_class_def)

lemmas acceptor_life_defs = acceptor_active_def acceptor_owned_def acceptor_inv_def accept_waits_def accept_peer_def
  op_frame_defs

lemma acceptor_owned_free: "acceptor_inv fr a \<Longrightarrow> acceptor_owned a \<inter> fds fr = {}"
  by (auto simp: acceptor_inv_def acceptor_owned_def owned_fd_ok_def)

lemma acceptor_inv_ring [simp]: "acceptor_inv (fr\<lparr>io_ring := r\<rparr>) a = acceptor_inv fr a"
  by (simp add: acceptor_inv_def)

lemma acceptor_simps [simp]:
  "acceptor_owned (a\<lparr>rc_count := k\<rparr>) = acceptor_owned a" "acceptor_owned (a\<lparr>acc_cancel_fr := f\<rparr>) = acceptor_owned a"
  "acceptor_owned (a\<lparr>acc_close_fr := f\<rparr>) = acceptor_owned a"
  "accept_peer (a\<lparr>rc_count := k\<rparr>) = accept_peer a" "accept_peer (a\<lparr>acc_cancel_fr := f\<rparr>) = accept_peer a"
  "accept_peer (a\<lparr>acc_close_fr := f\<rparr>) = accept_peer a" "accept_peer (a\<lparr>acc_fd := fd\<rparr>) = accept_peer a"
  "accept_waits (a\<lparr>rc_count := k\<rparr>) = accept_waits a" "accept_waits (a\<lparr>acc_cancel_fr := f\<rparr>) = accept_waits a"
  "accept_waits (a\<lparr>acc_close_fr := f\<rparr>) = accept_waits a" "accept_waits (a\<lparr>acc_fd := fd\<rparr>) = accept_waits a"
  by (simp_all add: acceptor_owned_def accept_peer_def accept_waits_def)

lemma acceptor_call_still:
  assumes "m (fr, a) = (x, (fr, a'))" and "documented x" and "acceptor_inv fr a'" and "rc_this a' = rc_this a"
    and "rc_count a' = rc_count a" and "acceptor_active a' = acceptor_active a" and "acceptor_owned a' = acceptor_owned a"
  shows "documented (fst (m (fr, a))) \<and> object_step (acceptor_class E) issued (fr, a) (snd (m (fr, a))) 0 {#} {}"
  unfolding assms(1) fst_conv snd_conv using assms(2-7) acceptor_owned_free [OF assms(3)]
  by (auto intro!: object_step_stillI simp: acceptor_inv_def)

lemma acceptor_call_ring:
  assumes "m (fr, a) = (x, (fr\<lparr>io_ring := r\<rparr>, a'))" and "documented x" and "acceptor_inv fr a'" and "rc_this a' = rc_this a"
    and "issued r = issued (io_ring fr) @ es" and "own_entries (rc_this a) es"
    and "rc_count a' = rc_count a + int (size (own_tags (rc_this a) es))"
    and "acceptor_active a' = acceptor_active a + own_tags (rc_this a) es" and "acceptor_owned a' = acceptor_owned a"
  shows "documented (fst (m (fr, a))) \<and> object_step (acceptor_class E) issued (fr, a) (snd (m (fr, a))) 0 {#} {}"
  unfolding assms(1) fst_conv snd_conv using assms(2-9) acceptor_owned_free [OF assms(3)]
  by (auto intro!: object_step_ringI [where es = es] simp: acceptor_inv_def)

lemma accept_sqe_data [simp]: "sqe_data (accept_sqe p fd idx) = UD p F_accept"
  "own_tags p (acceptor_close_sqes p fd) = {#F_acceptor_close#}" "own_entries p (acceptor_close_sqes p fd)"
  by (simp_all add: accept_sqe_def acceptor_close_sqes_def)

subsection \<open>The calls\<close>

lemma acceptor_class_accept:
  assumes laws: "uring_laws E issued n" and inv: "acceptor_inv fr a"
  shows "documented (fst (accept_await_suspend E h (fr, a))) \<and>
     object_step (acceptor_class E) issued (fr, a) (snd (accept_await_suspend E h (fr, a))) 0 {#} {}"
proof -
  have pool: "fd_inv fr" "groups_inv fr" using inv by (simp_all add: acceptor_inv_def frame_ok_def)
  consider (busy) "ac_initiated (accept_fr a)" | (none) "\<not> ac_initiated (accept_fr a)" "fds fr = {}"
    | (go) "\<not> ac_initiated (accept_fr a)" "fds fr \<noteq> {}" by blast
  then show ?thesis
  proof cases
    case busy
    then have "accept_await_suspend E h (fr, a) = (Throw EBUSY, (fr, a))" by (simp add: accept_await_suspend_def op_simps)
    then show ?thesis by (rule acceptor_call_still) (use inv in simp_all)
  next
    case none
    have "get_available_fd E fr = (Ret (- 1), fr)" using none(2) by (simp add: get_available_fd_def)
    then have "accept_await_suspend E h (fr, a) = (Throw ENFILE, (fr, a))"
      using none(1) by (simp add: accept_await_suspend_def op_simps)
    then show ?thesis by (rule acceptor_call_still) (use inv in simp_all)
  next
    case go
    obtain fd r' where run: "accept_await_suspend E h (fr, a) = (Ret (), (fr\<lparr>fds := fds fr - {fd}, io_ring := r'\<rparr>,
         a\<lparr>rc_count := rc_count a + 1,
           accept_fr := (accept_fr a)\<lparr>ac_initiated := True, ac_h := Some h, ac_peer_fd := fd\<rparr>\<rparr>))"
        (is "_ = (_, (?fr, ?a))") and fd: "fd \<in> fds fr" "0 \<le> fd"
        and es: "issued r' = issued (io_ring fr) @ [accept_sqe (rc_this a) (acc_fd a) fd]"
      using accept_start_ok [OF laws pool(1) go(2,1), of h] by blast
    have nd: "\<not> ac_done (accept_fr a)" using inv go by (auto simp: acceptor_inv_def)
    have own: "fd_inv ?fr" "owned_fd_ok ?fr fd" using pool(1) fd by (auto simp: fd_inv_def owned_fd_ok_def)
    have "- 1 \<notin> fds fr" using pool(1) by (auto simp: fd_inv_def)
    then have fdn: "acc_fd a \<noteq> fd" "acc_fd a \<notin> fds fr" using inv fd by (auto simp: acceptor_inv_def owned_fd_ok_def)
    have peer: "accept_peer ?a = {fd}" "accept_peer a = {}" using fd go by (simp_all add: accept_peer_def)
    have "acceptor_inv ?fr ?a"
      unfolding acceptor_inv_def peer using inv own pool nd fdn fd
      by (auto simp: acceptor_inv_def frame_ok_def owned_fd_ok_def)
    moreover have "acceptor_owned ?a = insert fd (acceptor_owned a)" unfolding acceptor_owned_def peer by simp
    moreover have "acceptor_active ?a = add_mset F_accept (acceptor_active a)"
      using go nd by (simp add: acceptor_active_def accept_waits_def)
    moreover have "acceptor_owned a \<inter> fds fr = {}" by (rule acceptor_owned_free [OF inv])
    ultimately have "object_step (acceptor_class E) issued (fr, a) (?fr, ?a) 0 {#} {}"
      using es fd(1)
      by (intro object_stepI [where es = "[accept_sqe (rc_this a) (acc_fd a) fd]"])
        (auto simp: frame_moves_def acceptor_inv_def)
    then show ?thesis by (simp add: run)
  qed
qed

lemma acceptor_class_call:
  assumes laws: "uring_laws E issued n" and inv: "acceptor_inv fr a" and ok: "acceptor_call_ok c a"
  shows "documented (fst (acceptor_call_run E c (fr, a))) \<and>
     object_step (acceptor_class E) issued (fr, a) (snd (acceptor_call_run E c (fr, a))) 0 {#} (acceptor_hands_out c a)"
proof (cases c)
  case (Accept_suspend h)
  then show ?thesis using acceptor_class_accept [OF laws inv] by (simp add: acceptor_call_run_def acceptor_hands_out_def)
next
  case Accept_resume
  let ?a = "a\<lparr>accept_fr := accept_frame_reset (accept_fr a)\<rparr>"
  have run: "acceptor_call_run E c (fr, a) = (Ret (), (fr, ?a))"
    by (simp add: Accept_resume acceptor_call_run_def accept_raw_await_resume_def ignoreM_def op_simps)
  have "\<not> accept_waits a" using ok Accept_resume by (simp add: acceptor_call_ok_def accept_waits_def)
  then have act: "acceptor_active ?a = acceptor_active a" by (simp add: acceptor_active_def accept_waits_def accept_frame_reset_def)
  have peer: "accept_peer ?a = {}" by (simp add: accept_peer_def accept_frame_reset_def)
  have "acceptor_inv fr ?a" unfolding acceptor_inv_def peer
    using inv by (auto simp: acceptor_inv_def accept_frame_reset_def accept_waits_def)
  moreover have "frame_moves (acceptor_owned a) fr (acceptor_owned ?a) fr (accept_peer a)"
    unfolding acceptor_owned_def peer using inv
    by (auto simp: frame_moves_def acceptor_inv_def owned_fd_ok_def)
  ultimately have "object_step (acceptor_class E) issued (fr, a) (fr, ?a) 0 {#} (accept_peer a)"
    using act by (intro object_stepI [where es = "[]"]) simp_all
  then show ?thesis unfolding run fst_conv snd_conv by (simp add: acceptor_hands_out_def Accept_resume)
next
  case Accept_dtor
  show ?thesis
  proof (cases "accept_waits a")
    case True
    obtain r' where r': "cancel_in_flight E (UD (rc_this a) F_accept) (fr, a) = (Ret (), (fr\<lparr>io_ring := r'\<rparr>, a))"
        "issued r' = issued (io_ring fr) @ [cancel_sqe (UD (rc_this a) F_accept)]"
      by (rule cancel_in_flight_ok [OF laws])
    then have "acceptor_call_run E c (fr, a) = (Ret (), (fr\<lparr>io_ring := r'\<rparr>, a))"
      using True by (simp add: Accept_dtor acceptor_call_run_def accept_awaitable_dtor_def accept_waits_def op_simps)
    then show ?thesis unfolding acceptor_hands_out_def Accept_dtor acceptor_call.case
      by (rule acceptor_call_ring [where es = "[cancel_sqe (UD (rc_this a) F_accept)]"]) (use inv r'(2) in simp_all)
  next
    case False
    then have "acceptor_call_run E c (fr, a) = (Ret (), (fr, a))"
      by (auto simp: Accept_dtor acceptor_call_run_def accept_awaitable_dtor_def accept_waits_def op_simps)
    then show ?thesis unfolding acceptor_hands_out_def Accept_dtor acceptor_call.case
      by (rule acceptor_call_still) (use inv in simp_all)
  qed
next
  case (Accept_cancel h)
  let ?e = "cancel_fd_sqe (acc_fd a) [] (UD (rc_this a) F_acceptor_cancel)"
  let ?a = "a\<lparr>rc_count := rc_count a + 1, acc_cancel_fr := op_frame_start h (acc_cancel_fr a)\<rparr>"
  obtain r' where r': "on_ring (issue_one E ?e) (fr, a) = (Ret (), (fr\<lparr>io_ring := r'\<rparr>, a))" "issued r' = issued (io_ring fr) @ [?e]"
    by (rule on_issue_one [OF laws])
  then have "acceptor_call_run E c (fr, a) = (Ret (), (fr\<lparr>io_ring := r'\<rparr>, ?a))"
    by (simp add: Accept_cancel acceptor_call_run_def accept_cancel_await_suspend_def op_simps)
  then show ?thesis unfolding acceptor_hands_out_def Accept_cancel acceptor_call.case
    by (rule acceptor_call_ring [OF _ _ _ _ r'(2)])
      (use inv ok Accept_cancel in \<open>auto simp: acceptor_call_ok_def acceptor_active_def acceptor_inv_def op_frame_defs\<close>)
next
  case Accept_cancel_resume
  then have "acceptor_call_run E c (fr, a) = (Ret (), (fr, a\<lparr>acc_cancel_fr := op_frame_reset (acc_cancel_fr a)\<rparr>))"
    by (simp add: acceptor_call_run_def accept_cancel_await_resume_def ignoreM_def op_simps)
  then show ?thesis unfolding acceptor_hands_out_def Accept_cancel_resume acceptor_call.case
    by (rule acceptor_call_still)
      (use inv ok Accept_cancel_resume in \<open>auto simp: acceptor_call_ok_def acceptor_active_def acceptor_inv_def op_frame_defs\<close>)
next
  case (Accept_close h)
  show ?thesis
  proof (cases "acc_fd a < 0")
    case True
    then have "acceptor_call_run E c (fr, a) = (Throw EBADFD, (fr, a))"
      by (simp add: Accept_close acceptor_call_run_def accept_close_await_suspend_def op_simps)
    then show ?thesis unfolding acceptor_hands_out_def Accept_close acceptor_call.case
      by (rule acceptor_call_still) (use inv in simp_all)
  next
    case False
    let ?es = "acceptor_close_sqes (rc_this a) (acc_fd a)"
    let ?a = "a\<lparr>rc_count := rc_count a + 1, acc_close_fr := op_frame_start h (acc_close_fr a)\<rparr>"
    obtain r' where r': "on_ring (issue_sqes E 2 ?es) (fr, a) = (Ret (), (fr\<lparr>io_ring := r'\<rparr>, a))"
        "issued r' = issued (io_ring fr) @ ?es"
      by (rule on_issue_sqes [OF laws, of ?es 2]) (simp_all add: acceptor_close_sqes_def)
    then have "acceptor_call_run E c (fr, a) = (Ret (), (fr\<lparr>io_ring := r'\<rparr>, ?a))"
      using False by (simp add: Accept_close acceptor_call_run_def accept_close_await_suspend_def op_simps)
    then show ?thesis unfolding acceptor_hands_out_def Accept_close acceptor_call.case
      by (rule acceptor_call_ring [OF _ _ _ _ r'(2)])
        (use inv ok Accept_close in \<open>auto simp: acceptor_call_ok_def acceptor_active_def acceptor_inv_def op_frame_defs\<close>)
  qed
next
  case Accept_close_resume
  then have "acceptor_call_run E c (fr, a) = (Ret (), (fr, a\<lparr>acc_close_fr := op_frame_reset (acc_close_fr a)\<rparr>))"
    by (simp add: acceptor_call_run_def accept_close_await_resume_def ignoreM_def op_simps)
  then show ?thesis unfolding acceptor_hands_out_def Accept_close_resume acceptor_call.case
    by (rule acceptor_call_still)
      (use inv ok Accept_close_resume in \<open>auto simp: acceptor_call_ok_def acceptor_active_def acceptor_inv_def op_frame_defs\<close>)
qed

subsection \<open>Completions, the destructor and the constructor\<close>

lemma acceptor_class_accepted:
  assumes inv: "acceptor_inv fr a" and act: "accept_waits a" and more: "\<not> cqe_f_more c"
  shows "\<exists>h s'. thenM (accept_process c) accept_handle (fr, a) = (Ret h, s') \<and>
     object_step (acceptor_class E) issued (fr, a) s' 1 (completion_tags F_accept c) {}"
proof -
  let ?p = "ac_peer_fd (accept_fr a)"
  have init: "ac_initiated (accept_fr a)" "\<not> ac_done (accept_fr a)" using act by (simp_all add: accept_waits_def)
  have p: "0 \<le> ?p" using inv act by (simp add: acceptor_inv_def)
  have peer: "accept_peer a = {?p}" using init p by (simp add: accept_peer_def)
  have own: "owned_fd_ok fr ?p" "?p \<noteq> acc_fd a" using inv peer by (simp_all add: acceptor_inv_def)
  have pool: "fd_inv fr" "groups_inv fr" using inv by (simp_all add: acceptor_inv_def frame_ok_def)
  define fr' where "fr' = (if cqe_res c < 0 then fr\<lparr>fds := insert ?p (fds fr)\<rparr> else fr)"
  define f where "f = (accept_fr a)\<lparr>ac_peer_fd := if cqe_res c < 0 then cqe_res c else ?p, ac_done := True, ac_h := None\<rparr>"
  let ?a = "a\<lparr>accept_fr := f\<rparr>"
  have run: "thenM (accept_process c) accept_handle (fr, a) = (Ret (ac_h (accept_fr a)), (fr', ?a))"
    using accept_process_ok [OF pool(1) own(1), of c] by (simp add: accept_handle_def op_simps fr'_def f_def)
  have peer': "accept_peer ?a = (if cqe_res c < 0 then {} else {?p})" using init p by (simp add: accept_peer_def f_def)
  have fd: "acc_fd a = - 1 \<or> owned_fd_ok fr (acc_fd a)" using inv by (simp add: acceptor_inv_def)
  have inv': "acceptor_inv fr' ?a"
    unfolding acceptor_inv_def peer' using inv own fd pool init p
    by (auto simp: acceptor_inv_def accept_waits_def f_def fr'_def frame_ok_def fd_inv_def owned_fd_ok_def)
  moreover have "acceptor_active ?a + {#F_accept#} = acceptor_active a"
    using init by (simp add: acceptor_active_def accept_waits_def f_def)
  moreover have "frame_moves (acceptor_owned a) fr (acceptor_owned ?a) fr' {}"
    unfolding acceptor_owned_def peer peer' using inv' own fd
    by (auto simp: frame_moves_def fr'_def acceptor_inv_def owned_fd_ok_def)
  ultimately have "object_step (acceptor_class E) issued (fr, a) (fr', ?a) 1 (completion_tags F_accept c) {}"
    using more by (intro object_stepI [where es = "[]"]) (simp_all add: completion_tags_def fr'_def)
  then show ?thesis using run by blast
qed

lemma acceptor_class_closed:
  assumes inv: "acceptor_inv fr a" and act: "op_frame_active (acc_close_fr a)" and more: "\<not> cqe_f_more c"
  shows "\<exists>h s'. thenM (acc_close_process c) acc_close_handle (fr, a) = (Ret h, s') \<and>
     object_step (acceptor_class E) issued (fr, a) s' 1 (completion_tags F_acceptor_close c) {}"
proof -
  define fr' where "fr' = (if acc_fd a = - 1 then fr else fr\<lparr>fds := insert (acc_fd a) (fds fr)\<rparr>)"
  let ?a = "a\<lparr>acc_close_fr := (acc_close_fr a)\<lparr>of_done := True, of_res := cqe_res c, of_h := None\<rparr>, acc_fd := - 1\<rparr>"
  have fd: "acc_fd a = - 1 \<or> owned_fd_ok fr (acc_fd a)" and pool: "fd_inv fr" "groups_inv fr"
    using inv by (simp_all add: acceptor_inv_def frame_ok_def)
  have "release_fd (acc_fd a) fr = (Ret (), fr')"
    using fd release_fd_ok [of fr "acc_fd a"] pool(1) by (auto simp: fr'_def release_fd_def owned_fd_ok_def)
  then have run: "thenM (acc_close_process c) acc_close_handle (fr, a) = (Ret (of_h (acc_close_fr a)), (fr', ?a))"
    by (simp add: acc_close_process_def acc_close_handle_def op_frame_process_def op_frame_handle_def op_simps)
  have inv': "acceptor_inv fr' ?a"
    using inv fd pool act by (auto simp: acceptor_inv_def fr'_def frame_ok_def fd_inv_def owned_fd_ok_def op_frame_active_def)
  have "accept_peer a \<inter> fds fr = {}" "\<And>fd. fd \<in> accept_peer a \<Longrightarrow> fd \<noteq> acc_fd a \<and> 0 \<le> fd"
    using inv by (auto simp: acceptor_inv_def owned_fd_ok_def)
  then have "frame_moves (acceptor_owned a) fr (acceptor_owned ?a) fr' {}"
    using inv' fd by (auto simp: acceptor_owned_def frame_moves_def fr'_def acceptor_inv_def)
  then have "object_step (acceptor_class E) issued (fr, a) (fr', ?a) 1 (completion_tags F_acceptor_close c) {}"
    using more inv' act by (intro object_stepI [where es = "[]"])
      (simp_all add: completion_tags_def fr'_def acceptor_active_def op_frame_active_def)
  then show ?thesis using run by blast
qed

lemma acceptor_class_deliver:
  assumes inv: "acceptor_inv fr a" and t: "t \<in># acceptor_active a" and more: "\<not> cqe_f_more c"
  shows "\<exists>h s'. thenM (acceptor_frames_process t c) (acceptor_frames_handle t) (fr, a) = (Ret h, s') \<and>
     object_step (acceptor_class E) issued (fr, a) s' 1 (completion_tags t c) {}"
proof -
  consider "t = F_accept" "accept_waits a" | "t = F_acceptor_cancel" "op_frame_active (acc_cancel_fr a)"
    | "t = F_acceptor_close" "op_frame_active (acc_close_fr a)"
    using t by (auto simp: acceptor_active_def split: if_splits)
  then show ?thesis
  proof cases
    case 1
    then show ?thesis using acceptor_class_accepted [OF inv 1(2) more]
      by (simp add: acceptor_frames_process_def acceptor_frames_handle_def del: thenM_apply)
  next
    case 2
    let ?a = "a\<lparr>acc_cancel_fr := (acc_cancel_fr a)\<lparr>of_done := True, of_res := cqe_res c, of_h := None\<rparr>\<rparr>"
    have run: "thenM (acceptor_frames_process t c) (acceptor_frames_handle t) (fr, a) = (Ret (of_h (acc_cancel_fr a)), (fr, ?a))"
      by (simp add: 2 acceptor_frames_process_def acceptor_frames_handle_def acc_cancel_process_def acc_cancel_handle_def
          op_frame_process_def op_frame_handle_def op_simps)
    have "object_step (acceptor_class E) issued (fr, a) (fr, ?a) 1 (completion_tags t c) {}"
      using 2 inv more acceptor_owned_free [OF inv]
      by (intro object_step_stillI) (simp_all add: acceptor_active_def acceptor_inv_def op_frame_active_def completion_tags_def)
    then show ?thesis using run by blast
  next
    case 3
    then show ?thesis using acceptor_class_closed [OF inv 3(2) more]
      by (simp add: acceptor_frames_process_def acceptor_frames_handle_def del: thenM_apply)
  qed
qed

lemma acceptor_count_simps [simp]: "acceptor_active (a\<lparr>rc_count := k\<rparr>) = acceptor_active a"
  "acceptor_inv fr (a\<lparr>rc_count := k\<rparr>) = acceptor_inv fr a"
  by (simp_all add: acceptor_active_def acceptor_inv_def)

lemma acceptor_class_release:
  assumes laws: "uring_laws E issued n" and inv: "acceptor_inv fr a"
  shows "pointer_released (acceptor_class E) issued (fr, a) (intrusive_ptr_release (acceptor_impl_dtor E) (fr, a))"
proof (cases "rc_count a = 1")
  case False
  then have run: "intrusive_ptr_release (acceptor_impl_dtor E) (fr, a) = (Ret False, (fr, a\<lparr>rc_count := rc_count a - 1\<rparr>))"
    by (simp add: release_apply)
  have "\<not> is_last (acceptor_class E) a" using False by (simp add: is_last_def)
  moreover have "object_step (acceptor_class E) issued (fr, a) (fr, a\<lparr>rc_count := rc_count a - 1\<rparr>) (- 1) {#} {}"
    using inv acceptor_owned_free [OF inv] by (intro object_step_stillI) (simp_all add: acceptor_inv_def)
  ultimately show ?thesis by (simp add: pointer_released_def run)
next
  case True
  then have last: "is_last (acceptor_class E) a" by (simp add: is_last_def)
  have pool: "fd_inv fr" "groups_inv fr" using inv by (simp_all add: acceptor_inv_def frame_ok_def)
  have peer: "accept_peer a \<inter> fds fr = {}" "\<And>fd. fd \<in> accept_peer a \<Longrightarrow> fd \<noteq> acc_fd a"
    using inv by (auto simp: acceptor_inv_def owned_fd_ok_def)
  show ?thesis
  proof (cases "acc_fd a = - 1")
    case True
    then have run: "intrusive_ptr_release (acceptor_impl_dtor E) (fr, a) = (Ret True, (fr, a\<lparr>rc_count := 0\<rparr>))"
      using \<open>rc_count a = 1\<close> by (simp add: release_apply acceptor_impl_dtor_def op_simps)
    have "frame_moves (acceptor_owned a) fr {} fr (accept_peer a)"
      using True peer pool by (auto simp: frame_moves_def acceptor_owned_def frame_ok_def)
    then show ?thesis using last by (auto simp: pointer_released_def object_gone_def run intro!: exI [of _ "[]"])
  next
    case False
    then have fd: "owned_fd_ok fr (acc_fd a)" using inv by (simp add: acceptor_inv_def)
    obtain r' where r': "close_owned_fd E (acc_fd a) (fr, a\<lparr>rc_count := 0\<rparr>) =
        (Ret (), (fr\<lparr>io_ring := r', fds := insert (acc_fd a) (fds fr)\<rparr>, a\<lparr>rc_count := 0\<rparr>))"
        "issued r' = issued (io_ring fr) @ [close_sqe (acc_fd a)]"
      by (rule close_owned_fd_ok [OF laws pool(1) fd])
    then have run: "intrusive_ptr_release (acceptor_impl_dtor E) (fr, a) =
        (Ret True, (fr\<lparr>io_ring := r', fds := insert (acc_fd a) (fds fr)\<rparr>, a\<lparr>rc_count := 0, acc_fd := - 1\<rparr>))"
      using \<open>rc_count a = 1\<close> fd by (simp add: release_apply acceptor_impl_dtor_def owned_fd_ok_def op_simps)
    have "frame_moves (acceptor_owned a) fr {} (fr\<lparr>io_ring := r', fds := insert (acc_fd a) (fds fr)\<rparr>) (accept_peer a)"
      using False fd pool peer by (auto simp: frame_moves_def frame_ok_def acceptor_owned_def fd_inv_def owned_fd_ok_def)
    moreover have "posted [close_sqe (acc_fd a)] = {#}" by (simp add: close_sqe_def)
    ultimately show ?thesis
      using last r'(2) by (auto simp: pointer_released_def object_gone_def run)
  qed
qed

text \<open>The constructor: an acceptor with a descriptor of the pool, or an error; a failed registration loses the descriptor.\<close>

lemma acceptor_ctor_cases:
  assumes laws: "uring_laws E issued n" and ok: "frame_ok fr" and reply: "sockets_reply S address backlog"
  shows "(\<exists>off r a. fst (acceptor_impl_ctor E S p address backlog (fr, {})) = Ret a \<and>
       fst (snd (acceptor_impl_ctor E S p address backlog (fr, {}))) = fr\<lparr>fds := fds fr - {off}, io_ring := r\<rparr> \<and>
       issued r = issued (io_ring fr) \<and> off \<in> fds fr \<and> 0 \<le> off \<and> acc_fd a = off \<and> rc_this a = p \<and> rc_count a = 0 \<and>
       accept_fr a = \<lparr>ac_h = None, ac_peer_fd = - 1, ac_initiated = False, ac_done = False\<rparr> \<and>
       acc_cancel_fr a = op_frame_new \<and> acc_close_fr a = op_frame_new) \<or>
     (\<exists>e r S'. fst (acceptor_impl_ctor E S p address backlog (fr, {})) = Throw e \<and>
       fst (snd (acceptor_impl_ctor E S p address backlog (fr, {}))) = fr\<lparr>fds := S', io_ring := r\<rparr> \<and>
       issued r = issued (io_ring fr) \<and> S' \<subseteq> fds fr)"
proof -
  have inet: "is_inet (sa_fam address)" using reply by (simp add: sockets_reply_def)
  have same: "fr\<lparr>fds := fds fr, io_ring := io_ring fr\<rparr> = fr" by simp
  consider (sock) e where "so_socket S (sa_fam address) = Inl e" "e \<noteq> 0"
    | (bind) fd e where "so_socket S (sa_fam address) = Inr fd" "so_bind S fd address = Some e" "e \<noteq> 0"
    | (lst) fd e where "so_socket S (sa_fam address) = Inr fd" "so_bind S fd address = None" "so_listen S fd backlog = Some e" "e \<noteq> 0"
    | (nm) fd e where "so_socket S (sa_fam address) = Inr fd" "so_bind S fd address = None" "so_listen S fd backlog = None"
        "so_getsockname S fd = Inl e" "e \<noteq> 0"
    | (go) fd name where "so_socket S (sa_fam address) = Inr fd" "so_bind S fd address = None" "so_listen S fd backlog = None"
        "so_getsockname S fd = Inr name" "addr_len (sa_fam name) = addr_len (sa_fam address)"
    using reply by (fastforce simp: sockets_reply_def split: sum.splits option.splits)
  then show ?thesis
  proof cases
    case go
    show ?thesis
    proof (cases "fds fr = {}")
      case True
      then have "get_available_fd E fr = (Ret (- 1), fr)" by (simp add: get_available_fd_def)
      then have "acceptor_impl_ctor E S p address backlog (fr, {}) = (Throw ENFILE, (fr, {fd}))"
        using go inet by (simp add: acceptor_impl_ctor_def check_errno_def op_simps)
      then show ?thesis using same by (metis fst_conv snd_conv subset_refl)
    next
      case False
      obtain off where off: "get_available_fd E fr = (Ret off, fr\<lparr>fds := fds fr - {off}\<rparr>)" "off \<in> fds fr" "0 \<le> off"
        by (rule get_available_fd_ok [of fr E]) (use ok begin_ok_laws [OF laws] False in \<open>simp_all add: frame_ok_def\<close>)
      obtain ret r where reg: "io_uring_register_files_update E (io_ring fr) (of_int off) fd = (ret, r)" by fastforce
      then have iss: "issued r = issued (io_ring fr)" using uring_register_files [OF laws, of "io_ring fr" "of_int off" fd] by simp
      have register: "register_fd E off fd (fr\<lparr>fds := fds fr - {off}\<rparr>) = (Ret ret, fr\<lparr>fds := fds fr - {off}, io_ring := r\<rparr>)"
        using reg by (simp add: register_fd_def)
      show ?thesis
      proof (cases "ret < 0")
        case True
        then have "acceptor_impl_ctor E S p address backlog (fr, {}) = (Throw (- ret), (fr\<lparr>fds := fds fr - {off}, io_ring := r\<rparr>, {fd}))"
          using go inet off register by (simp add: acceptor_impl_ctor_def check_errno_def op_simps)
        then show ?thesis using iss by (metis Diff_subset fst_conv snd_conv)
      next
        case False
        define a where "a = \<lparr>rc_this = p, rc_count = 0,
                accept_fr = \<lparr>ac_h = None, ac_peer_fd = - 1, ac_initiated = False, ac_done = False\<rparr>,
                acc_cancel_fr = op_frame_new, acc_close_fr = op_frame_new, acc_addr_storage = name,
                acc_fd = off, acc_is_ipv4 = (sa_fam address = AF_INET)\<rparr>"
        have "acceptor_impl_ctor E S p address backlog (fr, {}) = (Ret a, (fr\<lparr>fds := fds fr - {off}, io_ring := r\<rparr>, {}))"
          using False go inet off register by (simp add: acceptor_impl_ctor_def check_errno_def op_simps a_def)
        moreover have "acc_fd a = off" "rc_this a = p" "rc_count a = 0" "acc_cancel_fr a = op_frame_new" "acc_close_fr a = op_frame_new"
          "accept_fr a = \<lparr>ac_h = None, ac_peer_fd = - 1, ac_initiated = False, ac_done = False\<rparr>"
          by (simp_all add: a_def)
        ultimately show ?thesis using iss off by (intro disjI1 exI [of _ off] exI [of _ r] exI [of _ a]) simp
      qed
    qed
  next
    case sock
    then have "acceptor_impl_ctor E S p address backlog (fr, {}) = (Throw e, (fr, {}))"
      using inet by (simp add: acceptor_impl_ctor_def op_simps)
    then show ?thesis using same by (metis fst_conv snd_conv subset_refl)
  next
    case bind
    then have "acceptor_impl_ctor E S p address backlog (fr, {}) = (Throw e, (fr, {fd}))"
      using inet by (simp add: acceptor_impl_ctor_def check_errno_def op_simps)
    then show ?thesis using same by (metis fst_conv snd_conv subset_refl)
  next
    case lst
    then have "acceptor_impl_ctor E S p address backlog (fr, {}) = (Throw e, (fr, {fd}))"
      using inet by (simp add: acceptor_impl_ctor_def check_errno_def op_simps)
    then show ?thesis using same by (metis fst_conv snd_conv subset_refl)
  next
    case nm
    then have "acceptor_impl_ctor E S p address backlog (fr, {}) = (Throw e, (fr, {fd}))"
      using inet by (simp add: acceptor_impl_ctor_def check_errno_def op_simps)
    then show ?thesis using same by (metis fst_conv snd_conv subset_refl)
  qed
qed

lemma acceptor_class_make:
  assumes laws: "uring_laws E issued n" and ok: "frame_ok fr"
    and reply: "case N of New_acceptor S address \<Rightarrow> sockets_reply S address default_backlog"
  shows "object_made (acceptor_class E) issued N p fr (acceptor_new_run E N p fr)"
proof -
  obtain S address where N: "N = New_acceptor S address" by (cases N)
  then have "sockets_reply S address default_backlog" using reply by simp
  from acceptor_ctor_cases [OF laws ok this, of p]
  show ?thesis
  proof (elim disjE exE conjE)
    fix off r a
    assume c: "fst (acceptor_impl_ctor E S p address default_backlog (fr, {})) = Ret a"
        "fst (snd (acceptor_impl_ctor E S p address default_backlog (fr, {}))) = fr\<lparr>fds := fds fr - {off}, io_ring := r\<rparr>"
      and iss: "issued r = issued (io_ring fr)" and off: "off \<in> fds fr" "0 \<le> off"
      and a: "acc_fd a = off" "rc_this a = p" "rc_count a = 0"
        "accept_fr a = \<lparr>ac_h = None, ac_peer_fd = - 1, ac_initiated = False, ac_done = False\<rparr>"
        "acc_cancel_fr a = op_frame_new" "acc_close_fr a = op_frame_new"
    let ?fr = "fr\<lparr>fds := fds fr - {off}, io_ring := r\<rparr>" and ?a = "a\<lparr>rc_count := 1\<rparr>"
    have run: "acceptor_new_run E N p fr = (Ret ?a, ?fr)"
      using c a(3) by (cases "acceptor_impl_ctor E S p address default_backlog (fr, {})")
        (simp add: acceptor_new_run_def N construct_def add_ref_apply)
    have peer: "accept_peer a = {}" using a(4) by (simp add: accept_peer_def)
    have act: "acceptor_active ?a = {#}" using a by (simp add: acceptor_active_def accept_waits_def op_frame_active_def op_frame_new_def)
    have fok: "frame_ok ?fr" using ok by (auto simp: frame_ok_def fd_inv_def groups_inv_def)
    have "owned_fd_ok ?fr off" using ok off by (auto simp: owned_fd_ok_def frame_ok_def fd_inv_def)
    then have "acceptor_inv ?fr ?a"
      using a peer fok by (simp add: acceptor_inv_def accept_waits_def op_frame_new_def)
    moreover have "frame_moves {} fr (acceptor_owned ?a) ?fr {}"
      using a peer off fok by (auto simp: frame_moves_def acceptor_owned_def)
    ultimately show ?thesis using act a iss by (auto simp: object_made_def run intro!: exI [of _ "[]"])
  next
    fix e r S'
    assume c: "fst (acceptor_impl_ctor E S p address default_backlog (fr, {})) = Throw e"
        "fst (snd (acceptor_impl_ctor E S p address default_backlog (fr, {}))) = fr\<lparr>fds := S', io_ring := r\<rparr>"
      and iss: "issued r = issued (io_ring fr)" and sub: "S' \<subseteq> fds fr"
    have run: "acceptor_new_run E N p fr = (Throw e, fr\<lparr>fds := S', io_ring := r\<rparr>)"
      using c by (cases "acceptor_impl_ctor E S p address default_backlog (fr, {})") (simp add: acceptor_new_run_def N)
    have "frame_ok (fr\<lparr>fds := S', io_ring := r\<rparr>)" using ok sub by (auto simp: frame_ok_def fd_inv_def groups_inv_def)
    then show ?thesis using sub iss by (auto simp: object_made_def run frame_moves_def)
  qed
qed

interpretation acceptor_objs: counted "acceptor_class E" issued "uring_laws E issued n" for E :: "'r platform" and issued n
proof (unfold_locales, unfold acceptor_class_simps snd_conv, goal_cases)
  case (1 fr a fr')
  then show ?case by (auto simp: acceptor_inv_def frame_rely_def acceptor_owned_def owned_fd_ok_def)
next
  case (2 fr a c) then show ?case by (rule acceptor_class_call)
next
  case (3 fr a t now c) then show ?case by (intro acceptor_class_deliver)
next
  case (4 fr a)
  then show ?case using acceptor_owned_free [of fr a] by (auto simp: add_ref_apply acceptor_inv_def intro!: object_step_stillI)
next
  case (5 fr a) then show ?case by (intro acceptor_class_release)
next
  case (6 fr a) then show ?case by (intro acceptor_class_release)
next
  case (7 fr N p) then show ?case by (intro acceptor_class_make)
next
  case (8 fr a t) then show ?case by (auto simp: acceptor_active_def split: if_splits)
next
  case (9 fr a t) show ?case by (cases t) (simp_all add: acceptor_active_def)
qed

end
