(* ===== verification/Timer.thy ===== *)
theory Timer
  imports Stream_Ops
begin

section \<open>Timers (\<open>time.hpp\<close>, \<open>detail/time.hpp\<close>, \<open>time.cpp\<close>)\<close>

text \<open>
  \<^verbatim>\<open>timer_impl\<close> has a frame for the wait and one for its cancellation. Both awaitables are guarded
  by \<^verbatim>\<open>EBUSY\<close> and meet the contract \<open>guarded_one_shot\<close>. The properties: the conversion of durations,
  the guarded wait, a wait and its cancellation in every order, and what a second wait does to the first.
\<close>

subsection \<open>Durations\<close>

text \<open>
  A \<^verbatim>\<open>std::chrono::duration<Rep, std::ratio<num, den>>\<close> of \<open>count\<close> ticks with an integral \<^verbatim>\<open>Rep\<close>; the
  arithmetic is exact as long as it stays in range, which the code relies on. \<^verbatim>\<open>floor\<close> rounds down,
  \<^verbatim>\<open>duration_cast\<close> truncates a value that is not negative.
\<close>

record duration =
  du_count :: int
  du_num :: int
  du_den :: int

definition duration_to_timespec :: "duration \<Rightarrow> timespec" where
  "duration_to_timespec d =
     (let ticks = du_count d * du_num d; sec = ticks div du_den d; rest = ticks - sec * du_den d in
      \<lparr>tv_sec = sec, tv_nsec = rest * 1000000000 div du_den d\<rparr>)"

text \<open>The public \<^verbatim>\<open>stream::timeout\<close> takes a duration.\<close>

definition stream_timeout_duration :: "'r platform \<Rightarrow> duration \<Rightarrow> (('r, 'a) stream_state, unit) op" where
  "stream_timeout_duration E d = stream_timeout E (duration_to_timespec d)"

subsection \<open>Frames\<close>

record timer_frame =
  tm_ec :: "int option"
  tm_ts :: timespec
  tm_h :: "handle option"
  tm_initiated :: bool
  tm_done :: bool

record timer_cancel_frame =
  tmc_ec :: "int option"
  tmc_h :: "handle option"
  tmc_initiated :: bool
  tmc_done :: bool

record timer_impl = ref_count +
  timer_fr :: timer_frame
  timer_cancel_fr :: timer_cancel_frame

type_synonym 'r timer_state = "'r io_context_frame \<times> timer_impl"

definition ts_zero :: timespec where
  "ts_zero = \<lparr>tv_sec = 0, tv_nsec = 0\<rparr>"

definition timer_impl_new :: "addr \<Rightarrow> timer_impl" where
  "timer_impl_new this =
     \<lparr>rc_this = this, rc_count = 0,
      timer_fr = \<lparr>tm_ec = None, tm_ts = ts_zero, tm_h = None, tm_initiated = False, tm_done = False\<rparr>,
      timer_cancel_fr = \<lparr>tmc_ec = None, tmc_h = None, tmc_initiated = False, tmc_done = False\<rparr>\<rparr>"

definition timer_frame_reset :: "timer_frame \<Rightarrow> timer_frame" where
  "timer_frame_reset f = f\<lparr>tm_ts := ts_zero, tm_h := None, tm_initiated := False, tm_done := False, tm_ec := None\<rparr>"

definition timer_cancel_frame_reset :: "timer_cancel_frame \<Rightarrow> timer_cancel_frame" where
  "timer_cancel_frame_reset f = f\<lparr>tmc_initiated := False, tmc_done := False, tmc_ec := None\<rparr>"

definition timer_process :: "cqe \<Rightarrow> ('r timer_state, unit) op" where
  "timer_process c =
     on_obj (\<lambda>t. let f = (timer_fr t)\<lparr>tm_done := True\<rparr>; e = - cqe_res c in
       t\<lparr>timer_fr := (if e \<noteq> 0 \<and> e \<noteq> ETIME then f\<lparr>tm_ec := Some e\<rparr> else f)\<rparr>)"

definition timer_handle :: "('r timer_state, handle option) op" where
  "timer_handle s = (Ret (tm_h (timer_fr (snd s))), (fst s, (snd s)\<lparr>timer_fr := (timer_fr (snd s))\<lparr>tm_h := None\<rparr>\<rparr>))"

definition timer_cancel_process :: "cqe \<Rightarrow> ('r timer_state, unit) op" where
  "timer_cancel_process c =
     on_obj (\<lambda>t. let f = (timer_cancel_fr t)\<lparr>tmc_done := True\<rparr> in
       t\<lparr>timer_cancel_fr := (if cqe_res c < 0 then f\<lparr>tmc_ec := Some (- cqe_res c)\<rparr> else f)\<rparr>)"

definition timer_cancel_handle :: "('r timer_state, handle option) op" where
  "timer_cancel_handle s =
     (Ret (tmc_h (timer_cancel_fr (snd s))), (fst s, (snd s)\<lparr>timer_cancel_fr := (timer_cancel_fr (snd s))\<lparr>tmc_h := None\<rparr>\<rparr>))"

text \<open>An error code as the result of \<^verbatim>\<open>await_resume\<close>.\<close>

definition result_of_ec :: "int option \<Rightarrow> unit fiona_result" where
  "result_of_ec ec = (case ec of Some e \<Rightarrow> Inl e | None \<Rightarrow> Inr ())"

subsection \<open>Waiting\<close>

definition timer_awaitable_ctor :: "timespec \<Rightarrow> ('r timer_state, unit) op" where
  "timer_awaitable_ctor ts = on_obj (\<lambda>t. t\<lparr>timer_fr := (timer_fr t)\<lparr>tm_ts := ts\<rparr>\<rparr>)"

definition timer_async_wait :: "duration \<Rightarrow> ('r timer_state, unit) op" where
  "timer_async_wait d = timer_awaitable_ctor (duration_to_timespec d)"

definition timer_awaitable_dtor :: "'r platform \<Rightarrow> ('r timer_state, unit) op" where
  "timer_awaitable_dtor E =
     with_obj (\<lambda>t. if tm_initiated (timer_fr t) \<and> \<not> tm_done (timer_fr t)
       then thenM (on_ring (get_sqe E (cancel_sqe (UD (rc_this t) F_timer)))) (on_ring (submit_ring E))
       else retM ())"

definition timer_await_ready :: "('r timer_state, bool) op" where
  "timer_await_ready =
     with_obj (\<lambda>t. if tm_initiated (timer_fr t) then throw_errno_as_error_code EBUSY else retM False)"

definition timer_sqe :: "addr \<Rightarrow> sqe" where
  "timer_sqe this = \<lparr>sqe_prep = Prep_timeout (UD this F_timer) False, sqe_flags = [], sqe_data = UD this F_timer\<rparr>"

definition timer_await_suspend :: "'r platform \<Rightarrow> handle \<Rightarrow> ('r timer_state, unit) op" where
  "timer_await_suspend E h =
     with_obj (\<lambda>t. if tm_initiated (timer_fr t) then throw_errno_as_error_code EBUSY
       else thenM (on_obj (\<lambda>t. t\<lparr>timer_fr := (timer_fr t)\<lparr>tm_h := Some h\<rparr>\<rparr>))
        (thenM (on_ring (get_sqe E (timer_sqe (rc_this t))))
         (thenM intrusive_ptr_add_ref
           (on_obj (\<lambda>t. t\<lparr>timer_fr := (timer_fr t)\<lparr>tm_initiated := True\<rparr>\<rparr>)))))"

definition timer_await_resume :: "('r timer_state, unit fiona_result) op" where
  "timer_await_resume s =
     (Ret (result_of_ec (tm_ec (timer_fr (snd s)))),
      (fst s, (snd s)\<lparr>timer_fr := timer_frame_reset (timer_fr (snd s))\<rparr>))"

subsection \<open>Cancelling\<close>

definition timer_cancel_await_ready :: "('r timer_state, bool) op" where
  "timer_cancel_await_ready =
     with_obj (\<lambda>t. if tmc_initiated (timer_cancel_fr t) then throw_errno_as_error_code EBUSY else retM False)"

definition timer_cancel_sqe :: "addr \<Rightarrow> sqe" where
  "timer_cancel_sqe this =
     \<lparr>sqe_prep = Prep_cancel (UD this F_timer), sqe_flags = [], sqe_data = UD this F_timer_cancel\<rparr>"

definition timer_cancel_await_suspend :: "'r platform \<Rightarrow> handle \<Rightarrow> ('r timer_state, unit) op" where
  "timer_cancel_await_suspend E h =
     with_obj (\<lambda>t. if tmc_initiated (timer_cancel_fr t) then throw_errno_as_error_code EBUSY
       else thenM (on_ring (get_sqe E (timer_cancel_sqe (rc_this t))))
        (thenM intrusive_ptr_add_ref
          (on_obj (\<lambda>t. t\<lparr>timer_cancel_fr := (timer_cancel_fr t)\<lparr>tmc_h := Some h, tmc_initiated := True\<rparr>\<rparr>))))"

definition timer_cancel_await_resume :: "('r timer_state, unit fiona_result) op" where
  "timer_cancel_await_resume =
     with_obj (\<lambda>t. if \<not> tmc_initiated (timer_cancel_fr t) \<or> \<not> tmc_done (timer_cancel_fr t)
       then throw_errno_as_error_code EBUSY
       else thenM (on_obj (\<lambda>t. t\<lparr>timer_cancel_fr := timer_cancel_frame_reset (timer_cancel_fr t)\<rparr>))
              (retM (result_of_ec (tmc_ec (timer_cancel_fr t)))))"

subsection \<open>The operation contract\<close>

definition timer_val :: "cqe \<Rightarrow> unit fiona_result" where
  "timer_val c = (if cqe_res c = 0 \<or> cqe_res c = - ETIME then Inr () else Inl (- cqe_res c))"

definition timer_cancel_val :: "cqe \<Rightarrow> unit fiona_result" where
  "timer_cancel_val c = (if cqe_res c < 0 then Inl (- cqe_res c) else Inr ())"

definition tm_idle :: "timer_frame \<Rightarrow> bool" where
  "tm_idle f = (\<not> tm_initiated f \<and> \<not> tm_done f \<and> tm_ec f = None)"

definition tm_waiting :: "handle \<Rightarrow> timer_frame \<Rightarrow> bool" where
  "tm_waiting h f = (tm_initiated f \<and> \<not> tm_done f \<and> tm_ec f = None \<and> tm_h f = Some h)"

definition tm_completed :: "handle \<Rightarrow> cqe \<Rightarrow> timer_frame \<Rightarrow> bool" where
  "tm_completed h c f = (result_of_ec (tm_ec f) = timer_val c \<and> tm_h f = Some h)"

definition tm_finished :: "cqe \<Rightarrow> timer_frame \<Rightarrow> bool" where
  "tm_finished c f = (result_of_ec (tm_ec f) = timer_val c)"

definition tmc_idle :: "timer_cancel_frame \<Rightarrow> bool" where
  "tmc_idle f = (\<not> tmc_initiated f \<and> \<not> tmc_done f \<and> tmc_ec f = None)"

definition tmc_waiting :: "handle \<Rightarrow> timer_cancel_frame \<Rightarrow> bool" where
  "tmc_waiting h f = (tmc_initiated f \<and> \<not> tmc_done f \<and> tmc_ec f = None \<and> tmc_h f = Some h)"

definition tmc_finished :: "cqe \<Rightarrow> timer_cancel_frame \<Rightarrow> bool" where
  "tmc_finished c f = (tmc_initiated f \<and> tmc_done f \<and> result_of_ec (tmc_ec f) = timer_cancel_val c)"

lemmas tm_state_defs = tm_idle_def tm_waiting_def tm_completed_def tm_finished_def
  tmc_idle_def tmc_waiting_def tmc_finished_def timer_val_def timer_cancel_val_def result_of_ec_def

lemma timer_start:
  assumes "uring_laws E issued n" and "\<not> tm_initiated (timer_fr t)"
  obtains r' where "timer_await_suspend E h (fr, t) = (Ret (), (fr\<lparr>io_ring := r'\<rparr>,
      t\<lparr>rc_count := rc_count t + 1, timer_fr := (timer_fr t)\<lparr>tm_h := Some h, tm_initiated := True\<rparr>\<rparr>))"
    and "issued r' = issued (io_ring fr) @ [timer_sqe (rc_this t)]"
  by (rule on_get_sqe [OF assms(1), of "timer_sqe (rc_this t)" fr "t\<lparr>timer_fr := (timer_fr t)\<lparr>tm_h := Some h\<rparr>\<rparr>"])
    (use that assms(2) in \<open>simp add: timer_await_suspend_def op_simps\<close>)

lemma timer_cancel_start:
  assumes "uring_laws E issued n" and "\<not> tmc_initiated (timer_cancel_fr t)"
  obtains r' where "timer_cancel_await_suspend E h (fr, t) = (Ret (), (fr\<lparr>io_ring := r'\<rparr>,
      t\<lparr>rc_count := rc_count t + 1, timer_cancel_fr := (timer_cancel_fr t)\<lparr>tmc_h := Some h, tmc_initiated := True\<rparr>\<rparr>))"
    and "issued r' = issued (io_ring fr) @ [timer_cancel_sqe (rc_this t)]"
  by (rule on_get_sqe [OF assms(1), of "timer_cancel_sqe (rc_this t)" fr t])
    (use that assms(2) in \<open>simp add: timer_cancel_await_suspend_def op_simps\<close>)

interpretation timer_op: guarded_one_shot
  "\<lambda>_ :: 'r timer_state. uring_laws E issued n" "\<lambda>s. rc_count (snd s)"
  "\<lambda>s. tm_idle (timer_fr (snd s))" "\<lambda>h s. tm_waiting h (timer_fr (snd s))" "\<lambda>h c s. tm_completed h c (timer_fr (snd s))"
  "\<lambda>c s. tm_finished c (timer_fr (snd s))" "timer_await_suspend E" timer_process timer_handle timer_await_resume
  "\<lambda>_. True" timer_val for E :: "'r platform" and issued n
proof
  fix s :: "'r timer_state" and h
  assume a: "uring_laws E issued n" "tm_idle (timer_fr (snd s))"
  obtain r' where "timer_await_suspend E h (fst s, snd s) = (Ret (), ((fst s)\<lparr>io_ring := r'\<rparr>,
      (snd s)\<lparr>rc_count := rc_count (snd s) + 1, timer_fr := (timer_fr (snd s))\<lparr>tm_h := Some h, tm_initiated := True\<rparr>\<rparr>))"
    using timer_start [OF a(1), of "snd s" h "fst s"] a(2) by (auto simp: tm_idle_def)
  then show "\<exists>s'. timer_await_suspend E h s = (Ret (), s') \<and> uring_laws E issued n \<and>
      tm_waiting h (timer_fr (snd s')) \<and> rc_count (snd s') = rc_count (snd s) + 1"
    using a by (auto simp: tm_state_defs)
qed (auto simp: tm_state_defs timer_process_def on_obj_def timer_handle_def timer_await_resume_def Let_def
    timer_frame_reset_def timer_await_suspend_def with_obj_def op_simps)

interpretation timer_cancel_op: guarded_one_shot
  "\<lambda>_ :: 'r timer_state. uring_laws E issued n" "\<lambda>s. rc_count (snd s)"
  "\<lambda>s. tmc_idle (timer_cancel_fr (snd s))" "\<lambda>h s. tmc_waiting h (timer_cancel_fr (snd s))"
  "\<lambda>h c s. tmc_finished c (timer_cancel_fr (snd s)) \<and> tmc_h (timer_cancel_fr (snd s)) = Some h"
  "\<lambda>c s. tmc_finished c (timer_cancel_fr (snd s))" "timer_cancel_await_suspend E" timer_cancel_process
  timer_cancel_handle timer_cancel_await_resume "\<lambda>_. True" timer_cancel_val for E :: "'r platform" and issued n
proof
  fix s :: "'r timer_state" and h
  assume a: "uring_laws E issued n" "tmc_idle (timer_cancel_fr (snd s))"
  obtain r' where "timer_cancel_await_suspend E h (fst s, snd s) = (Ret (), ((fst s)\<lparr>io_ring := r'\<rparr>,
      (snd s)\<lparr>rc_count := rc_count (snd s) + 1,
        timer_cancel_fr := (timer_cancel_fr (snd s))\<lparr>tmc_h := Some h, tmc_initiated := True\<rparr>\<rparr>))"
    using timer_cancel_start [OF a(1), of "snd s" h "fst s"] a(2) by (auto simp: tmc_idle_def)
  then show "\<exists>s'. timer_cancel_await_suspend E h s = (Ret (), s') \<and> uring_laws E issued n \<and>
      tmc_waiting h (timer_cancel_fr (snd s')) \<and> rc_count (snd s') = rc_count (snd s) + 1"
    using a by (auto simp: tm_state_defs)
qed (auto simp: tm_state_defs timer_cancel_process_def on_obj_def timer_cancel_handle_def timer_cancel_await_resume_def
    Let_def timer_cancel_frame_reset_def timer_cancel_await_suspend_def with_obj_def op_simps)

subsection \<open>Properties\<close>

lemma div_mult_split: "0 < b \<Longrightarrow> (q * b + r) * k div b = q * k + r * k div (b :: int)"
proof -
  assume "0 < b"
  have "(q * b + r) * k = r * k + (q * k) * b" by (simp add: distrib_right distrib_left ac_simps)
  then show ?thesis using \<open>0 < b\<close> by simp
qed

lemma div_lt_of_less: "0 < b \<Longrightarrow> x < k * b \<Longrightarrow> x div b < (k :: int)"
  using pos_mod_sign [of b x] div_mult_mod_eq [of x b] mult_le_cancel_right_pos [of b k "x div b"] by linarith



text \<open>
  A timer waits for one coroutine at a time: a second wait while one is in flight throws
  \<^verbatim>\<open>EBUSY\<close> and changes nothing; the completion resumes the coroutine of the first, which receives
  success for an expired timer and the error otherwise, and the timer can be used again.
\<close>

theorem timer_wait_exclusive:
  assumes "uring_laws E issued n" and "tm_idle (timer_fr (snd s))"
  shows "\<exists>s1 s'. timer_await_suspend E h s = (Ret (), s1) \<and>
     timer_await_suspend E k s1 = (Throw EBUSY, s1) \<and>
     finish_op timer_process timer_handle timer_await_resume c s1 =
       (Ret (Some h, if cqe_res c = 0 \<or> cqe_res c = - ETIME then Inr () else Inl (- cqe_res c)), s') \<and>
     tm_idle (timer_fr (snd s')) \<and> rc_count (snd s') = rc_count (snd s) + 1"
  using timer_op.second_start_harmless [of E issued n s h k c] assms unfolding timer_val_def by blast

theorem timer_wait_exclusive_witness:
  "\<exists>s1 s'. timer_await_suspend (list_platform 4) 4096 (ex_frame, timer_impl_new 640) = (Ret (), s1) \<and>
     timer_await_suspend (list_platform 4) 8192 s1 = (Throw EBUSY, s1) \<and>
     finish_op timer_process timer_handle timer_await_resume \<lparr>cqe_res = - ETIME, cqe_flags = 0, cqe_data = UD 640 F_timer\<rparr> s1 =
       (Ret (Some 4096, Inr ()), s')"
proof -
  have "tm_idle (timer_fr (snd (ex_frame, timer_impl_new 640)))" by (simp add: tm_idle_def timer_impl_new_def)
  then show ?thesis
    using timer_wait_exclusive [OF ex_laws, of "(ex_frame, timer_impl_new 640)" 4096 8192
        "\<lparr>cqe_res = - ETIME, cqe_flags = 0, cqe_data = UD 640 F_timer\<rparr>"] by auto
qed

text \<open>
  C30: a wait and its cancellation are independent: when a coroutine waits and another one cancels,
  the entry of the cancellation names the wait, and in whichever order the two completions are
  processed each coroutine is resumed with the result of its own completion, both frames are idle
  afterwards and each completion holds one reference.
\<close>

theorem timer_cancel_any_order:
  assumes laws: "uring_laws E issued n" and idle: "tm_idle (timer_fr t)" "tmc_idle (timer_cancel_fr t)"
  shows "\<exists>s1. thenM (timer_await_suspend E h) (timer_cancel_await_suspend E k) (fr, t) = (Ret (), s1) \<and>
     issued (io_ring (fst s1)) = issued (io_ring fr) @ [timer_sqe (rc_this t), timer_cancel_sqe (rc_this t)] \<and>
     (let wait = finish_op timer_process timer_handle timer_await_resume cw;
          cancel = finish_op timer_cancel_process timer_cancel_handle timer_cancel_await_resume cc in
      \<exists>s2. bindM wait (\<lambda>x. bindM cancel (\<lambda>y. retM (x, y))) s1 = (Ret ((Some h, timer_val cw), (Some k, timer_cancel_val cc)), s2) \<and>
        bindM cancel (\<lambda>y. bindM wait (\<lambda>x. retM (x, y))) s1 = (Ret ((Some h, timer_val cw), (Some k, timer_cancel_val cc)), s2) \<and>
        tm_idle (timer_fr (snd s2)) \<and> tmc_idle (timer_cancel_fr (snd s2)) \<and> rc_count (snd s2) = rc_count t + 2)"
proof -
  obtain r1 where r1: "timer_await_suspend E h (fr, t) = (Ret (), (fr\<lparr>io_ring := r1\<rparr>,
      t\<lparr>rc_count := rc_count t + 1, timer_fr := (timer_fr t)\<lparr>tm_h := Some h, tm_initiated := True\<rparr>\<rparr>))"
      (is "_ = (_, (?fr1, ?t1))") "issued r1 = issued (io_ring fr) @ [timer_sqe (rc_this t)]"
    using timer_start [OF laws] idle(1) unfolding tm_idle_def by blast
  have "\<not> tmc_initiated (timer_cancel_fr ?t1)" using idle(2) by (simp add: tmc_idle_def)
  then obtain r2 where r2: "timer_cancel_await_suspend E k (?fr1, ?t1) = (Ret (), (?fr1\<lparr>io_ring := r2\<rparr>,
      ?t1\<lparr>rc_count := rc_count ?t1 + 1, timer_cancel_fr := (timer_cancel_fr ?t1)\<lparr>tmc_h := Some k, tmc_initiated := True\<rparr>\<rparr>))"
      (is "_ = (_, (?fr2, ?t2))") "issued r2 = issued (io_ring ?fr1) @ [timer_cancel_sqe (rc_this ?t1)]"
    using timer_cancel_start [OF laws] by blast
  have "thenM (timer_await_suspend E h) (timer_cancel_await_suspend E k) (fr, t) = (Ret (), (?fr2, ?t2))"
    unfolding thenM_def bindM_Ret [where m = "timer_await_suspend E h", OF r1(1)] by (rule r2(1))
  moreover have "issued (io_ring ?fr2) = issued (io_ring fr) @ [timer_sqe (rc_this t), timer_cancel_sqe (rc_this t)]"
    using r1(2) r2(2) by simp
  ultimately show ?thesis
    using idle by (intro exI [of _ "(?fr2, ?t2)"])
      (simp add: finish_op_def timer_process_def timer_handle_def timer_await_resume_def timer_cancel_process_def
        timer_cancel_handle_def timer_cancel_await_resume_def tm_state_defs Let_def timer_frame_reset_def
        timer_cancel_frame_reset_def bindM_def thenM_def on_obj_def with_obj_def retM_def)
qed

theorem timer_cancel_any_order_witness:
  "\<exists>s1 s2. thenM (timer_await_suspend (list_platform 4) 4096) (timer_cancel_await_suspend (list_platform 4) 8192)
       (ex_frame, timer_impl_new 640) = (Ret (), s1) \<and>
     bindM (finish_op timer_cancel_process timer_cancel_handle timer_cancel_await_resume
         \<lparr>cqe_res = 0, cqe_flags = 0, cqe_data = UD 640 F_timer_cancel\<rparr>) (\<lambda>y.
       bindM (finish_op timer_process timer_handle timer_await_resume
           \<lparr>cqe_res = - ECANCELED, cqe_flags = 0, cqe_data = UD 640 F_timer\<rparr>) (\<lambda>x. retM (x, y))) s1 =
       (Ret ((Some 4096, Inl ECANCELED), (Some 8192, Inr ())), s2)"
proof -
  have "tm_idle (timer_fr (timer_impl_new 640))" "tmc_idle (timer_cancel_fr (timer_impl_new 640))"
    by (simp_all add: tm_idle_def tmc_idle_def timer_impl_new_def)
  from timer_cancel_any_order [OF ex_laws this, of 4096 8192 ex_frame "\<lparr>cqe_res = - ECANCELED, cqe_flags = 0, cqe_data = UD 640 F_timer\<rparr>"
      "\<lparr>cqe_res = 0, cqe_flags = 0, cqe_data = UD 640 F_timer_cancel\<rparr>"]
  show ?thesis unfolding Let_def timer_val_def timer_cancel_val_def by auto
qed

text \<open>
  The start of \<^verbatim>\<open>co_await t.async_wait( d )\<close>: the awaitable is constructed, \<^verbatim>\<open>await_ready\<close> is called,
  then \<^verbatim>\<open>await_suspend\<close>; an exception destroys the awaitable before it leaves the expression.
\<close>

definition timer_co_await :: "'r platform \<Rightarrow> duration \<Rightarrow> handle \<Rightarrow> ('r timer_state, unit) op" where
  "timer_co_await E d h s =
     (case thenM (timer_async_wait d) (bindM timer_await_ready (\<lambda>_. timer_await_suspend E h)) s of
        (Throw e, s') \<Rightarrow> thenM (timer_awaitable_dtor E) (throwM e) s'
      | r \<Rightarrow> r)"

text \<open>
  Awaiting a timer that is in use throws \<^verbatim>\<open>EBUSY\<close>, but it does not leave the first wait alone: the
  constructor of the rejected awaitable replaces the duration, and its destructor submits a
  cancellation of the first wait, whose coroutine is then resumed with the error of a cancellation.
\<close>

theorem timer_rejected_wait_cancels_first:
  assumes "uring_laws E issued n" and "tm_waiting h (timer_fr t)" and "cqe_res c = - ECANCELED"
  shows "\<exists>r' t'. timer_co_await E d k (fr, t) = (Throw EBUSY, (fr\<lparr>io_ring := r'\<rparr>, t')) \<and>
     tm_ts (timer_fr t') = duration_to_timespec d \<and>
     issued r' = issued (io_ring fr) @ [cancel_sqe (UD (rc_this t) F_timer)] \<and>
     (\<exists>s. finish_op timer_process timer_handle timer_await_resume c (fr\<lparr>io_ring := r'\<rparr>, t') = (Ret (Some h, Inl ECANCELED), s))"
proof -
  let ?t = "t\<lparr>timer_fr := (timer_fr t)\<lparr>tm_ts := duration_to_timespec d\<rparr>\<rparr>"
  let ?e = "cancel_sqe (UD (rc_this t) F_timer)"
  have w: "tm_initiated (timer_fr ?t)" "\<not> tm_done (timer_fr ?t)" "tm_ec (timer_fr ?t) = None" "tm_h (timer_fr ?t) = Some h"
    using assms(2) by (simp_all add: tm_waiting_def)
  obtain r1 where r1: "on_ring (get_sqe E ?e) (fr, ?t) = (Ret (), (fr\<lparr>io_ring := r1\<rparr>, ?t))" "issued r1 = issued (io_ring fr) @ [?e]"
    by (rule on_get_sqe [OF assms(1)])
  obtain r2 where r2: "on_ring (submit_ring E) (fr\<lparr>io_ring := r1\<rparr>, ?t) = (Ret (), (fr\<lparr>io_ring := r1, io_ring := r2\<rparr>, ?t))"
      "issued r2 = issued (io_ring (fr\<lparr>io_ring := r1\<rparr>))"
    by (rule on_submit_ring [OF assms(1)])
  have dtor: "timer_awaitable_dtor E (fr, ?t) = (Ret (), (fr\<lparr>io_ring := r2\<rparr>, ?t))"
    using w(1,2) r1(1) r2(1) by (simp add: timer_awaitable_dtor_def op_simps)
  have "thenM (timer_async_wait d) (bindM timer_await_ready (\<lambda>_. timer_await_suspend E k)) (fr, t) = (Throw EBUSY, (fr, ?t))"
    using w(1) by (simp add: timer_async_wait_def timer_awaitable_ctor_def timer_await_ready_def op_simps)
  then have "timer_co_await E d k (fr, t) = (Throw EBUSY, (fr\<lparr>io_ring := r2\<rparr>, ?t))"
    using dtor by (simp add: timer_co_await_def op_simps)
  moreover have "\<exists>s. finish_op timer_process timer_handle timer_await_resume c (fr\<lparr>io_ring := r2\<rparr>, ?t) = (Ret (Some h, Inl ECANCELED), s)"
    using w assms(3)
    by (simp add: finish_op_def timer_process_def timer_handle_def timer_await_resume_def result_of_ec_def Let_def op_simps)
  ultimately show ?thesis using r1(2) r2(2) by (intro exI [of _ r2] exI [of _ ?t]) simp
qed

theorem timer_rejected_wait_cancels_first_witness:
  "\<exists>r' t'. timer_co_await (list_platform 4) \<lparr>du_count = 5, du_num = 1, du_den = 1\<rparr> 8192 (ex_frame, (timer_impl_new 640)\<lparr>timer_fr :=
       \<lparr>tm_ec = None, tm_ts = \<lparr>tv_sec = 1, tv_nsec = 0\<rparr>, tm_h = Some 4096, tm_initiated = True, tm_done = False\<rparr>\<rparr>) =
     (Throw EBUSY, (ex_frame\<lparr>io_ring := r'\<rparr>, t')) \<and> tm_ts (timer_fr t') = \<lparr>tv_sec = 5, tv_nsec = 0\<rparr> \<and>
     lr_issued r' = lr_issued (io_ring ex_frame) @ [cancel_sqe (UD 640 F_timer)]"
proof -
  let ?t = "(timer_impl_new 640)\<lparr>timer_fr :=
       \<lparr>tm_ec = None, tm_ts = \<lparr>tv_sec = 1, tv_nsec = 0\<rparr>, tm_h = Some 4096, tm_initiated = True, tm_done = False\<rparr>\<rparr>"
  have w: "tm_waiting 4096 (timer_fr ?t)" "rc_this ?t = 640" by (simp_all add: tm_waiting_def timer_impl_new_def)
  have c: "cqe_res \<lparr>cqe_res = - ECANCELED, cqe_flags = 0, cqe_data = UD 640 F_timer\<rparr> = - ECANCELED" by simp
  from timer_rejected_wait_cancels_first [OF ex_laws w(1) c, of "\<lparr>du_count = 5, du_num = 1, du_den = 1\<rparr>" 8192 ex_frame]
  show ?thesis unfolding w(2) by (auto simp: duration_to_timespec_def)
qed

end
