(* ===== verification/Timer_Class.thy ===== *)
theory Timer_Class
  imports Timer Object_Heap
begin

section \<open>Timers as a class of objects\<close>

text \<open>
  Timers meet the contract \<open>counted\<close>: the calls a program makes on a timer, the frames that wait, the
  invariant, and the interpretation. A timer owns no descriptor.
\<close>

datatype timer_call =
    Timer_wait duration | Timer_ready | Timer_suspend handle | Timer_resume | Timer_wait_dtor
  | Timer_cancel_ready | Timer_cancel handle | Timer_cancel_resume

definition timer_call_run :: "'r platform \<Rightarrow> timer_call \<Rightarrow> ('r timer_state, unit) op" where
  "timer_call_run E c =
     (case c of
        Timer_wait d \<Rightarrow> timer_async_wait d
      | Timer_ready \<Rightarrow> ignoreM timer_await_ready
      | Timer_suspend h \<Rightarrow> timer_await_suspend E h
      | Timer_resume \<Rightarrow> ignoreM timer_await_resume
      | Timer_wait_dtor \<Rightarrow> timer_awaitable_dtor E
      | Timer_cancel_ready \<Rightarrow> ignoreM timer_cancel_await_ready
      | Timer_cancel h \<Rightarrow> timer_cancel_await_suspend E h
      | Timer_cancel_resume \<Rightarrow> ignoreM timer_cancel_await_resume)"

definition timer_waits :: "timer_impl \<Rightarrow> bool" where
  "timer_waits t = (tm_initiated (timer_fr t) \<and> \<not> tm_done (timer_fr t))"

definition timer_cancel_waits :: "timer_impl \<Rightarrow> bool" where
  "timer_cancel_waits t = (tmc_initiated (timer_cancel_fr t) \<and> \<not> tmc_done (timer_cancel_fr t))"

definition timer_active :: "timer_impl \<Rightarrow> frame_tag multiset" where
  "timer_active t =
     (if timer_waits t then {#F_timer#} else {#}) + (if timer_cancel_waits t then {#F_timer_cancel#} else {#})"

definition timer_inv :: "'r io_context_frame \<Rightarrow> timer_impl \<Rightarrow> bool" where
  "timer_inv fr t =
     ((tm_done (timer_fr t) \<longrightarrow> tm_initiated (timer_fr t)) \<and>
      (tmc_done (timer_cancel_fr t) \<longrightarrow> tmc_initiated (timer_cancel_fr t)) \<and> frame_ok fr)"

text \<open>The virtual functions, by the frame that the user data points to.\<close>

definition timer_frames_process :: "frame_tag \<Rightarrow> cqe \<Rightarrow> ('r timer_state, unit) op" where
  "timer_frames_process t c =
     (case t of F_timer \<Rightarrow> timer_process c | F_timer_cancel \<Rightarrow> timer_cancel_process c | _ \<Rightarrow> (\<lambda>s. (Bad_access, s)))"

definition timer_frames_handle :: "frame_tag \<Rightarrow> ('r timer_state, handle option) op" where
  "timer_frames_handle t =
     (case t of F_timer \<Rightarrow> timer_handle | F_timer_cancel \<Rightarrow> timer_cancel_handle | _ \<Rightarrow> retM None)"

text \<open>The constructor of \<^verbatim>\<open>timer\<close> allocates the object and holds the first pointer.\<close>

definition timer_new_run :: "unit \<Rightarrow> addr \<Rightarrow> ('r io_context_frame, timer_impl) op" where
  "timer_new_run _ p = construct intrusive_ptr_add_ref (timer_impl_new p)"

definition timer_class :: "'r platform \<Rightarrow> ('r, timer_impl, timer_call, unit) object_class" where
  "timer_class E = \<lparr>
     oc_this = rc_this, oc_count = rc_count, oc_active = timer_active, oc_frames = (\<lambda>_. {F_timer, F_timer_cancel}),
     oc_owned = (\<lambda>_. {}), oc_inv = timer_inv,
     oc_call_ok = (\<lambda>c s. c = Timer_resume \<longrightarrow> \<not> timer_waits (snd s)), oc_call = timer_call_run E,
     oc_call_out = (\<lambda>_ _. {}), oc_cqe_ok = (\<lambda>now t c s. \<not> cqe_f_more c),
     oc_process = (\<lambda>now. timer_frames_process), oc_handle = timer_frames_handle, oc_cqe_out = (\<lambda>_ _ _. {}),
     oc_copy = intrusive_ptr_add_ref, oc_release = intrusive_ptr_release (retM ()), oc_drop = intrusive_ptr_release (retM ()),
     oc_left = (\<lambda>_. {}), oc_new_ok = (\<lambda>_ _. True), oc_new = timer_new_run, oc_new_in = (\<lambda>_. {})\<rparr>"

lemma timer_class_simps [simp]:
  "oc_this (timer_class E) = rc_this" "oc_count (timer_class E) = rc_count" "oc_active (timer_class E) = timer_active"
  "oc_frames (timer_class E) = (\<lambda>_. {F_timer, F_timer_cancel})" "oc_owned (timer_class E) = (\<lambda>_. {})"
  "oc_inv (timer_class E) = timer_inv" "oc_call_ok (timer_class E) = (\<lambda>c s. c = Timer_resume \<longrightarrow> \<not> timer_waits (snd s))"
  "oc_call (timer_class E) = timer_call_run E" "oc_call_out (timer_class E) = (\<lambda>_ _. {})"
  "oc_cqe_ok (timer_class E) = (\<lambda>now t c s. \<not> cqe_f_more c)" "oc_process (timer_class E) = (\<lambda>now. timer_frames_process)"
  "oc_handle (timer_class E) = timer_frames_handle" "oc_cqe_out (timer_class E) = (\<lambda>_ _ _. {})"
  "oc_copy (timer_class E) = intrusive_ptr_add_ref" "oc_release (timer_class E) = intrusive_ptr_release (retM ())"
  "oc_drop (timer_class E) = intrusive_ptr_release (retM ())" "oc_left (timer_class E) = (\<lambda>_. {})"
  "oc_new_ok (timer_class E) = (\<lambda>_ _. True)" "oc_new (timer_class E) = timer_new_run" "oc_new_in (timer_class E) = (\<lambda>_. {})"
  by (simp_all add: timer_class_def)

lemmas timer_life_defs = timer_active_def timer_waits_def timer_cancel_waits_def timer_inv_def

text \<open>A call that leaves the ring alone, and one that issues entries.\<close>

lemma timer_call_still:
  assumes "m (fr, t) = (x, (fr, t'))" and "documented x" and "timer_inv fr t'" and "rc_this t' = rc_this t"
    and "rc_count t' = rc_count t" and "timer_active t' = timer_active t"
  shows "documented (fst (m (fr, t))) \<and> object_step (timer_class E) issued (fr, t) (snd (m (fr, t))) 0 {#} {}"
  unfolding assms(1) fst_conv snd_conv using assms(2-6)
  by (auto intro!: object_step_stillI simp: timer_inv_def)

lemma timer_call_ring:
  assumes "m (fr, t) = (x, (fr\<lparr>io_ring := r\<rparr>, t'))" and "documented x" and "timer_inv fr t'" and "rc_this t' = rc_this t"
    and "issued r = issued (io_ring fr) @ es" and "own_entries (rc_this t) es"
    and "rc_count t' = rc_count t + int (size (own_tags (rc_this t) es))"
    and "timer_active t' = timer_active t + own_tags (rc_this t) es"
  shows "documented (fst (m (fr, t))) \<and> object_step (timer_class E) issued (fr, t) (snd (m (fr, t))) 0 {#} {}"
  unfolding assms(1) fst_conv snd_conv using assms(2-8)
  by (auto intro!: object_step_ringI [where es = es] simp: timer_inv_def)

lemma timer_sqe_data [simp]: "sqe_data (timer_sqe p) = UD p F_timer" "sqe_data (timer_cancel_sqe p) = UD p F_timer_cancel"
  by (simp_all add: timer_sqe_def timer_cancel_sqe_def)

lemma timer_class_call:
  assumes laws: "uring_laws E issued n" and inv: "timer_inv fr t" and ok: "c = Timer_resume \<longrightarrow> \<not> timer_waits t"
  shows "documented (fst (timer_call_run E c (fr, t))) \<and>
     object_step (timer_class E) issued (fr, t) (snd (timer_call_run E c (fr, t))) 0 {#} {}"
proof (cases c)
  case (Timer_wait d)
  have "timer_call_run E c (fr, t) = (Ret (), (fr, t\<lparr>timer_fr := (timer_fr t)\<lparr>tm_ts := duration_to_timespec d\<rparr>\<rparr>))"
    by (simp add: Timer_wait timer_call_run_def timer_async_wait_def timer_awaitable_ctor_def op_simps)
  then show ?thesis by (rule timer_call_still) (use inv in \<open>simp_all add: timer_life_defs\<close>)
next
  case Timer_ready
  have "timer_call_run E c (fr, t) = (if tm_initiated (timer_fr t) then Throw EBUSY else Ret (), (fr, t))"
    by (simp add: Timer_ready timer_call_run_def timer_await_ready_def ignoreM_def op_simps)
  then show ?thesis by (rule timer_call_still) (use inv in simp_all)
next
  case (Timer_suspend h)
  show ?thesis
  proof (cases "tm_initiated (timer_fr t)")
    case True
    then have "timer_call_run E c (fr, t) = (Throw EBUSY, (fr, t))"
      by (simp add: Timer_suspend timer_call_run_def timer_await_suspend_def op_simps)
    then show ?thesis by (rule timer_call_still) (use inv in simp_all)
  next
    case False
    obtain r' where r': "timer_await_suspend E h (fr, t) = (Ret (), (fr\<lparr>io_ring := r'\<rparr>,
        t\<lparr>rc_count := rc_count t + 1, timer_fr := (timer_fr t)\<lparr>tm_h := Some h, tm_initiated := True\<rparr>\<rparr>))"
        "issued r' = issued (io_ring fr) @ [timer_sqe (rc_this t)]"
      by (rule timer_start [OF laws False])
    then have "timer_call_run E c (fr, t) = (Ret (), (fr\<lparr>io_ring := r'\<rparr>,
        t\<lparr>rc_count := rc_count t + 1, timer_fr := (timer_fr t)\<lparr>tm_h := Some h, tm_initiated := True\<rparr>\<rparr>))"
      by (simp add: Timer_suspend timer_call_run_def)
    then show ?thesis by (rule timer_call_ring [OF _ _ _ _ r'(2)]) (use False inv in \<open>simp_all add: timer_life_defs\<close>)
  qed
next
  case Timer_resume
  then have "timer_call_run E c (fr, t) = (Ret (), (fr, t\<lparr>timer_fr := timer_frame_reset (timer_fr t)\<rparr>))"
    by (simp add: timer_call_run_def timer_await_resume_def ignoreM_def op_simps)
  then show ?thesis
    by (rule timer_call_still) (use inv ok Timer_resume in \<open>simp_all add: timer_life_defs timer_frame_reset_def\<close>)
next
  case Timer_wait_dtor
  show ?thesis
  proof (cases "timer_waits t")
    case False
    then have "timer_call_run E c (fr, t) = (Ret (), (fr, t))"
      by (auto simp add: Timer_wait_dtor timer_call_run_def timer_awaitable_dtor_def timer_waits_def op_simps)
    then show ?thesis by (rule timer_call_still) (use inv in simp_all)
  next
    case True
    obtain q where q: "on_ring (get_sqe E (cancel_sqe (UD (rc_this t) F_timer))) (fr, t) = (Ret (), (fr\<lparr>io_ring := q\<rparr>, t))"
        "issued q = issued (io_ring fr) @ [cancel_sqe (UD (rc_this t) F_timer)]"
      by (rule on_get_sqe [OF laws])
    obtain r' where r': "on_ring (submit_ring E) (fr\<lparr>io_ring := q\<rparr>, t) = (Ret (), (fr\<lparr>io_ring := q, io_ring := r'\<rparr>, t))"
        "issued r' = issued q"
      using on_submit_ring [OF laws, of "fr\<lparr>io_ring := q\<rparr>" t] by auto
    have "timer_call_run E c (fr, t) = (Ret (), (fr\<lparr>io_ring := r'\<rparr>, t))"
      using True q(1) r'(1) by (simp add: Timer_wait_dtor timer_call_run_def timer_awaitable_dtor_def timer_waits_def op_simps)
    then show ?thesis
      by (rule timer_call_ring [where es = "[cancel_sqe (UD (rc_this t) F_timer)]"]) (use inv q(2) r'(2) in simp_all)
  qed
next
  case Timer_cancel_ready
  have "timer_call_run E c (fr, t) = (if tmc_initiated (timer_cancel_fr t) then Throw EBUSY else Ret (), (fr, t))"
    by (simp add: Timer_cancel_ready timer_call_run_def timer_cancel_await_ready_def ignoreM_def op_simps)
  then show ?thesis by (rule timer_call_still) (use inv in simp_all)
next
  case (Timer_cancel h)
  show ?thesis
  proof (cases "tmc_initiated (timer_cancel_fr t)")
    case True
    then have "timer_call_run E c (fr, t) = (Throw EBUSY, (fr, t))"
      by (simp add: Timer_cancel timer_call_run_def timer_cancel_await_suspend_def op_simps)
    then show ?thesis by (rule timer_call_still) (use inv in simp_all)
  next
    case False
    obtain r' where r': "timer_cancel_await_suspend E h (fr, t) = (Ret (), (fr\<lparr>io_ring := r'\<rparr>,
        t\<lparr>rc_count := rc_count t + 1, timer_cancel_fr := (timer_cancel_fr t)\<lparr>tmc_h := Some h, tmc_initiated := True\<rparr>\<rparr>))"
        "issued r' = issued (io_ring fr) @ [timer_cancel_sqe (rc_this t)]"
      by (rule timer_cancel_start [OF laws False])
    then have "timer_call_run E c (fr, t) = (Ret (), (fr\<lparr>io_ring := r'\<rparr>,
        t\<lparr>rc_count := rc_count t + 1, timer_cancel_fr := (timer_cancel_fr t)\<lparr>tmc_h := Some h, tmc_initiated := True\<rparr>\<rparr>))"
      by (simp add: Timer_cancel timer_call_run_def)
    then show ?thesis by (rule timer_call_ring [OF _ _ _ _ r'(2)]) (use False inv in \<open>simp_all add: timer_life_defs\<close>)
  qed
next
  case Timer_cancel_resume
  show ?thesis
  proof (cases "tmc_initiated (timer_cancel_fr t) \<and> tmc_done (timer_cancel_fr t)")
    case False
    then have "timer_call_run E c (fr, t) = (Throw EBUSY, (fr, t))"
      by (auto simp: Timer_cancel_resume timer_call_run_def timer_cancel_await_resume_def ignoreM_def op_simps)
    then show ?thesis by (rule timer_call_still) (use inv in simp_all)
  next
    case True
    then have "timer_call_run E c (fr, t) = (Ret (), (fr, t\<lparr>timer_cancel_fr := timer_cancel_frame_reset (timer_cancel_fr t)\<rparr>))"
      by (simp add: Timer_cancel_resume timer_call_run_def timer_cancel_await_resume_def ignoreM_def op_simps)
    then show ?thesis
      by (rule timer_call_still) (use True inv in \<open>simp_all add: timer_life_defs timer_cancel_frame_reset_def\<close>)
  qed
qed

lemma timer_class_deliver:
  assumes inv: "timer_inv fr t" and f: "f \<in># timer_active t" and more: "\<not> cqe_f_more c"
  shows "\<exists>h s'. thenM (timer_frames_process f c) (timer_frames_handle f) (fr, t) = (Ret h, s') \<and>
     object_step (timer_class E) issued (fr, t) s' 1 (completion_tags f c) {}"
proof -
  consider "f = F_timer" "timer_waits t" | "f = F_timer_cancel" "timer_cancel_waits t"
    using f by (auto simp: timer_active_def split: if_splits)
  then show ?thesis
  proof cases
    case 1
    define f' where "f' = (timer_fr t)\<lparr>tm_done := True, tm_ec := (if - cqe_res c \<noteq> 0 \<and> - cqe_res c \<noteq> ETIME then Some (- cqe_res c)
        else tm_ec (timer_fr t)), tm_h := None\<rparr>"
    have run: "thenM (timer_frames_process f c) (timer_frames_handle f) (fr, t) = (Ret (tm_h (timer_fr t)), (fr, t\<lparr>timer_fr := f'\<rparr>))"
      by (simp add: 1 timer_frames_process_def timer_frames_handle_def timer_process_def timer_handle_def Let_def op_simps f'_def)
    have "object_step (timer_class E) issued (fr, t) (fr, t\<lparr>timer_fr := f'\<rparr>) 1 (completion_tags f c) {}"
      using 1 inv more by (intro object_step_stillI) (simp_all add: timer_life_defs completion_tags_def f'_def)
    then show ?thesis using run by blast
  next
    case 2
    define f' where "f' = (timer_cancel_fr t)\<lparr>tmc_done := True, tmc_ec := (if cqe_res c < 0 then Some (- cqe_res c)
        else tmc_ec (timer_cancel_fr t)), tmc_h := None\<rparr>"
    have run: "thenM (timer_frames_process f c) (timer_frames_handle f) (fr, t) =
        (Ret (tmc_h (timer_cancel_fr t)), (fr, t\<lparr>timer_cancel_fr := f'\<rparr>))"
      by (simp add: 2 timer_frames_process_def timer_frames_handle_def timer_cancel_process_def timer_cancel_handle_def Let_def
          op_simps f'_def)
    have "object_step (timer_class E) issued (fr, t) (fr, t\<lparr>timer_cancel_fr := f'\<rparr>) 1 (completion_tags f c) {}"
      using 2 inv more by (intro object_step_stillI) (simp_all add: timer_life_defs completion_tags_def f'_def)
    then show ?thesis using run by blast
  qed
qed

lemma timer_active_count [simp]: "timer_active (t\<lparr>rc_count := k\<rparr>) = timer_active t"
  "timer_inv fr (t\<lparr>rc_count := k\<rparr>) = timer_inv fr t"
  by (simp_all add: timer_life_defs)

lemma timer_class_release:
  assumes inv: "timer_inv fr t"
  shows "pointer_released (timer_class E) issued (fr, t) (intrusive_ptr_release (retM ()) (fr, t))"
proof (cases "rc_count t = 1")
  case True
  then have run: "intrusive_ptr_release (retM ()) (fr, t) = (Ret True, (fr, t\<lparr>rc_count := 0\<rparr>))"
    by (simp add: release_apply op_simps)
  have "is_last (timer_class E) t" using True by (simp add: is_last_def)
  then show ?thesis
    using inv by (auto simp: pointer_released_def run object_gone_def frame_moves_def timer_inv_def intro!: exI [of _ "[]"])
next
  case False
  then have run: "intrusive_ptr_release (retM ()) (fr, t) = (Ret False, (fr, t\<lparr>rc_count := rc_count t - 1\<rparr>))"
    by (simp add: release_apply)
  have "\<not> is_last (timer_class E) t" using False by (simp add: is_last_def)
  moreover have "object_step (timer_class E) issued (fr, t) (fr, t\<lparr>rc_count := rc_count t - 1\<rparr>) (- 1) {#} {}"
    using inv by (intro object_step_stillI) (simp_all add: timer_inv_def)
  ultimately show ?thesis by (simp add: pointer_released_def run)
qed

interpretation timer_objs: counted "timer_class E" issued "uring_laws E issued n" for E :: "'r platform" and issued n
proof (unfold_locales, unfold timer_class_simps snd_conv, goal_cases)
  case (1 fr t fr') then show ?case by (simp add: timer_inv_def frame_rely_def)
next
  case (2 fr t c) then show ?case by (rule timer_class_call)
next
  case (3 fr ob t now c) then show ?case by (intro timer_class_deliver)
next
  case (4 fr t)
  then show ?case by (auto simp: add_ref_apply timer_inv_def intro!: object_step_stillI)
next
  case (5 fr t) then show ?case by (intro timer_class_release)
next
  case (6 fr t) then show ?case by (intro timer_class_release)
next
  case (7 fr n p)
  have "timer_new_run n p fr = (Ret ((timer_impl_new p)\<lparr>rc_count := 1\<rparr>), fr)"
    by (simp add: timer_new_run_def construct_def add_ref_apply timer_impl_new_def)
  then show ?case
    using 7 by (auto simp: object_made_def timer_impl_new_def timer_life_defs frame_moves_def intro!: exI [of _ "[]"])
next
  case (8 fr ob t) then show ?case by (auto simp: timer_active_def split: if_splits)
next
  case (9 fr ob t) show ?case by (cases t) (simp_all add: timer_active_def)
qed

end
