(* ===== verification/File.thy ===== *)
theory File
  imports Stream_Ops
begin

section \<open>Files (\<open>file.hpp\<close>, \<open>file.cpp\<close>)\<close>

text \<open>
  \<^verbatim>\<open>file_impl\<close> owns a direct descriptor and has a frame each for opening, writing and reading. A write
  buffer is the list of its bytes, a read buffer an address and a size. Writing and reading meet
  the contract \<open>guarded_one_shot\<close>; opening has no guard, and the properties say what it does to the pool.
\<close>

record open_frame = op_frame +
  opn_temp_fd :: int
  opn_pathname :: string
  opn_flags :: int

record write_frame = op_frame +
  wrf_buf :: "u8 list"
  wrf_buf_index :: int

record read_frame = op_frame +
  rdf_ptr :: addr
  rdf_size :: nat
  rdf_buf_index :: int

record file_impl = ref_count +
  open_fr :: open_frame
  write_fr :: write_frame
  read_fr :: read_frame
  fi_fd :: int

type_synonym 'r file_state = "'r io_context_frame \<times> file_impl"

definition open_frame_reset :: "open_frame \<Rightarrow> open_frame" where
  "open_frame_reset f = (op_frame_reset f)\<lparr>opn_temp_fd := - 1, opn_pathname := [], opn_flags := - 1\<rparr>"

definition write_frame_reset :: "write_frame \<Rightarrow> write_frame" where
  "write_frame_reset f = (op_frame_reset f)\<lparr>wrf_buf := [], wrf_buf_index := - 1\<rparr>"

definition read_frame_reset :: "read_frame \<Rightarrow> read_frame" where
  "read_frame_reset f = (op_frame_reset f)\<lparr>rdf_ptr := null, rdf_size := 0, rdf_buf_index := - 1\<rparr>"

definition file_impl_new :: "addr \<Rightarrow> file_impl" where
  "file_impl_new this =
     \<lparr>rc_this = this, rc_count = 0,
      open_fr = op_frame.extend op_frame_new \<lparr>opn_temp_fd = - 1, opn_pathname = [], opn_flags = - 1\<rparr>,
      write_fr = op_frame.extend op_frame_new \<lparr>wrf_buf = [], wrf_buf_index = - 1\<rparr>,
      read_fr = op_frame.extend op_frame_new \<lparr>rdf_ptr = null, rdf_size = 0, rdf_buf_index = - 1\<rparr>,
      fi_fd = - 1\<rparr>"

definition file_impl_dtor :: "'r platform \<Rightarrow> ('r file_state, unit) op" where
  "file_impl_dtor E =
     with_obj (\<lambda>f. if fi_fd f \<ge> 0
       then thenM (close_owned_fd E (fi_fd f)) (on_obj (\<lambda>f. f\<lparr>fi_fd := - 1\<rparr>)) else retM ())"

subsection \<open>Members of \<open>file\<close>\<close>

definition file_async_open :: "string \<Rightarrow> int \<Rightarrow> ('r file_state, unit) op" where
  "file_async_open pathname flags =
     on_obj (\<lambda>f. f\<lparr>open_fr := (open_fr f)\<lparr>opn_pathname := pathname, opn_flags := flags\<rparr>\<rparr>)"

definition file_async_write :: "u8 list \<Rightarrow> ('r file_state, unit) op" where
  "file_async_write msg = on_obj (\<lambda>f. f\<lparr>write_fr := (write_fr f)\<lparr>wrf_buf := msg\<rparr>\<rparr>)"

text \<open>\<^verbatim>\<open>as_bytes\<close> of a length beyond the buffer is an access outside it.\<close>

definition file_async_write_fixed :: "fixed_buffer \<Rightarrow> ('r file_state, unit) op" where
  "file_async_write_fixed buf s =
     (case fixed_buffer_as_bytes buf of
        None \<Rightarrow> (Bad_access, s)
      | Some bs \<Rightarrow>
          on_obj (\<lambda>f. f\<lparr>write_fr := (write_fr f)\<lparr>wrf_buf := bs, wrf_buf_index := int (fxb_index buf)\<rparr>\<rparr>) s)"

definition file_async_read :: "addr \<Rightarrow> nat \<Rightarrow> ('r file_state, unit) op" where
  "file_async_read p n = on_obj (\<lambda>f. f\<lparr>read_fr := (read_fr f)\<lparr>rdf_ptr := p, rdf_size := n\<rparr>\<rparr>)"

text \<open>\<open>p\<close> is the address of the fixed buffer's storage.\<close>

definition file_async_read_fixed :: "addr \<Rightarrow> fixed_buffer \<Rightarrow> ('r file_state, unit) op" where
  "file_async_read_fixed p buf =
     on_obj (\<lambda>f. f\<lparr>read_fr := (read_fr f)\<lparr>rdf_ptr := p, rdf_size := length (fxb_buf buf),
        rdf_buf_index := int (fxb_index buf)\<rparr>\<rparr>)"

subsection \<open>Opening\<close>

definition open_process :: "cqe \<Rightarrow> ('r file_state, unit) op" where
  "open_process c =
     thenM (on_obj (\<lambda>f. f\<lparr>open_fr := op_frame_process c (open_fr f)\<rparr>))
      (thenM (with_obj (\<lambda>f.
          if of_res (open_fr f) \<ge> 0 then on_obj (\<lambda>f. f\<lparr>fi_fd := opn_temp_fd (open_fr f)\<rparr>)
          else thenM (assertM (opn_temp_fd (open_fr f) \<ge> 0)) (on_frame (release_fd (opn_temp_fd (open_fr f))))))
        (on_obj (\<lambda>f. f\<lparr>open_fr := (open_fr f)\<lparr>opn_temp_fd := - 1\<rparr>\<rparr>)))"

definition open_handle :: "('r file_state, handle option) op" where
  "open_handle s = (case op_frame_handle (open_fr (snd s)) of (k, f) \<Rightarrow> (Ret k, (fst s, (snd s)\<lparr>open_fr := f\<rparr>)))"

definition open_awaitable_dtor :: "'r platform \<Rightarrow> ('r file_state, unit) op" where
  "open_awaitable_dtor E =
     with_obj (\<lambda>f. if op_frame_active (open_fr f) then cancel_in_flight E (UD (rc_this f) F_open) else retM ())"

definition open_sqe :: "addr \<Rightarrow> string \<Rightarrow> int \<Rightarrow> int \<Rightarrow> sqe" where
  "open_sqe this pathname flags idx =
     \<lparr>sqe_prep = Prep_openat_direct pathname flags (of_int idx), sqe_flags = [], sqe_data = UD this F_open\<rparr>"

definition open_await_suspend :: "'r platform \<Rightarrow> handle \<Rightarrow> ('r file_state, unit) op" where
  "open_await_suspend E h =
     thenM (on_ring (reserve_sqes E 1))
      (bindM (on_frame (get_available_fd E)) (\<lambda>idx.
        with_obj (\<lambda>f. thenM (on_ring (put_sqe E (open_sqe (rc_this f) (opn_pathname (open_fr f)) (opn_flags (open_fr f)) idx)))
         (thenM intrusive_ptr_add_ref
           (on_obj (\<lambda>f. f\<lparr>open_fr := (op_frame_start h (open_fr f))\<lparr>opn_temp_fd := idx\<rparr>\<rparr>))))))"

definition open_await_resume :: "('r file_state, unit fiona_result) op" where
  "open_await_resume s =
     (Ret (void_result_of_res (of_res (open_fr (snd s)))),
      (fst s, (snd s)\<lparr>open_fr := open_frame_reset (open_fr (snd s))\<rparr>))"

subsection \<open>Writing\<close>

definition write_process :: "cqe \<Rightarrow> ('r file_state, unit) op" where
  "write_process c = on_obj (\<lambda>f. f\<lparr>write_fr := op_frame_process c (write_fr f)\<rparr>)"

definition write_handle :: "('r file_state, handle option) op" where
  "write_handle s = (case op_frame_handle (write_fr (snd s)) of (k, f) \<Rightarrow> (Ret k, (fst s, (snd s)\<lparr>write_fr := f\<rparr>)))"

definition write_awaitable_dtor :: "'r platform \<Rightarrow> ('r file_state, unit) op" where
  "write_awaitable_dtor E =
     with_obj (\<lambda>f. if op_frame_active (write_fr f) then cancel_in_flight E (UD (rc_this f) F_write) else retM ())"

definition write_sqe :: "addr \<Rightarrow> int \<Rightarrow> write_frame \<Rightarrow> sqe" where
  "write_sqe this fd w =
     \<lparr>sqe_prep = (if wrf_buf_index w \<ge> 0
        then Prep_write_fixed fd (wrf_buf w) (of_nat (length (wrf_buf w))) (wrf_buf_index w)
        else Prep_write fd (wrf_buf w) (of_nat (length (wrf_buf w)))),
      sqe_flags = [IOSQE_FIXED_FILE], sqe_data = UD this F_write\<rparr>"

definition write_await_suspend :: "'r platform \<Rightarrow> handle \<Rightarrow> ('r file_state, unit) op" where
  "write_await_suspend E h =
     with_obj (\<lambda>f. if of_initiated (write_fr f) then throw_errno_as_error_code EBUSY
       else thenM (on_ring (reserve_sqes E 1))
        (thenM (on_ring (get_sqe E (write_sqe (rc_this f) (fi_fd f) (write_fr f))))
         (thenM intrusive_ptr_add_ref
           (on_obj (\<lambda>f. f\<lparr>write_fr := op_frame_start h (write_fr f)\<rparr>)))))"

definition write_await_resume :: "('r file_state, int fiona_result) op" where
  "write_await_resume s =
     (Ret (result_of_res (of_res (write_fr (snd s)))),
      (fst s, (snd s)\<lparr>write_fr := write_frame_reset (write_fr (snd s))\<rparr>))"

subsection \<open>Reading\<close>

definition read_process :: "cqe \<Rightarrow> ('r file_state, unit) op" where
  "read_process c = on_obj (\<lambda>f. f\<lparr>read_fr := op_frame_process c (read_fr f)\<rparr>)"

definition read_handle :: "('r file_state, handle option) op" where
  "read_handle s = (case op_frame_handle (read_fr (snd s)) of (k, f) \<Rightarrow> (Ret k, (fst s, (snd s)\<lparr>read_fr := f\<rparr>)))"

definition read_awaitable_dtor :: "'r platform \<Rightarrow> ('r file_state, unit) op" where
  "read_awaitable_dtor E =
     with_obj (\<lambda>f. if op_frame_active (read_fr f) then cancel_in_flight E (UD (rc_this f) F_read) else retM ())"

definition read_sqe :: "addr \<Rightarrow> int \<Rightarrow> read_frame \<Rightarrow> sqe" where
  "read_sqe this fd r =
     \<lparr>sqe_prep = (if rdf_buf_index r \<ge> 0
        then Prep_read_fixed fd (rdf_ptr r) (of_nat (rdf_size r)) (rdf_buf_index r)
        else Prep_read fd (rdf_ptr r) (of_nat (rdf_size r))),
      sqe_flags = [IOSQE_FIXED_FILE], sqe_data = UD this F_read\<rparr>"

definition read_await_suspend :: "'r platform \<Rightarrow> handle \<Rightarrow> ('r file_state, unit) op" where
  "read_await_suspend E h =
     with_obj (\<lambda>f. if of_initiated (read_fr f) then throw_errno_as_error_code EBUSY
       else thenM (on_ring (reserve_sqes E 1))
        (thenM (on_ring (get_sqe E (read_sqe (rc_this f) (fi_fd f) (read_fr f))))
         (thenM intrusive_ptr_add_ref
           (on_obj (\<lambda>f. f\<lparr>read_fr := op_frame_start h (read_fr f)\<rparr>)))))"

definition read_await_resume :: "('r file_state, int fiona_result) op" where
  "read_await_resume s =
     (Ret (result_of_res (of_res (read_fr (snd s)))),
      (fst s, (snd s)\<lparr>read_fr := read_frame_reset (read_fr (snd s))\<rparr>))"

subsection \<open>Exact effects\<close>

lemma reserve_then_get:
  assumes "uring_laws E issued n"
  obtains r1 r2 where "on_ring (reserve_sqes E 1) (fr, ob) = (Ret (), (fr\<lparr>io_ring := r1\<rparr>, ob))"
    and "on_ring (get_sqe E e) (fr\<lparr>io_ring := r1\<rparr>, ob) = (Ret (), (fr\<lparr>io_ring := r2\<rparr>, ob))"
    and "issued r2 = issued (io_ring fr) @ [e]"
proof -
  obtain r1 where r1: "reserve_sqes E 1 (io_ring fr) = (Ret (), r1)" "issued r1 = issued (io_ring fr)"
    by (rule reserve_sqes_ok [OF assms, of 1]) simp
  obtain r2 where "on_ring (get_sqe E e) (fr\<lparr>io_ring := r1\<rparr>, ob) = (Ret (), (fr\<lparr>io_ring := r1, io_ring := r2\<rparr>, ob))"
      "issued r2 = issued (io_ring (fr\<lparr>io_ring := r1\<rparr>)) @ [e]"
    by (rule on_get_sqe [OF assms])
  then show ?thesis by (intro that [of r1 r2]) (use r1 in \<open>simp_all add: op_simps\<close>)
qed

lemma write_start:
  assumes "uring_laws E issued n" and "\<not> of_initiated (write_fr f)"
  obtains r' where "write_await_suspend E h (fr, f) = (Ret (), (fr\<lparr>io_ring := r'\<rparr>,
      f\<lparr>rc_count := rc_count f + 1, write_fr := op_frame_start h (write_fr f)\<rparr>))"
    and "issued r' = issued (io_ring fr) @ [write_sqe (rc_this f) (fi_fd f) (write_fr f)]"
  by (rule reserve_then_get [OF assms(1), of fr f "write_sqe (rc_this f) (fi_fd f) (write_fr f)"])
    (use that assms(2) in \<open>simp add: write_await_suspend_def op_simps\<close>)

lemma read_start:
  assumes "uring_laws E issued n" and "\<not> of_initiated (read_fr f)"
  obtains r' where "read_await_suspend E h (fr, f) = (Ret (), (fr\<lparr>io_ring := r'\<rparr>,
      f\<lparr>rc_count := rc_count f + 1, read_fr := op_frame_start h (read_fr f)\<rparr>))"
    and "issued r' = issued (io_ring fr) @ [read_sqe (rc_this f) (fi_fd f) (read_fr f)]"
  by (rule reserve_then_get [OF assms(1), of fr f "read_sqe (rc_this f) (fi_fd f) (read_fr f)"])
    (use that assms(2) in \<open>simp add: read_await_suspend_def op_simps\<close>)

interpretation write_op: guarded_one_shot
  "\<lambda>_ :: 'r file_state. uring_laws E issued n" "\<lambda>s. rc_count (snd s)"
  "\<lambda>s. fr_idle (write_fr (snd s))" "\<lambda>h s. fr_waiting h (write_fr (snd s))" "\<lambda>h c s. fr_completed h c (write_fr (snd s))"
  "\<lambda>c s. fr_finished c (write_fr (snd s))" "write_await_suspend E" write_process write_handle write_await_resume
  "\<lambda>_. True" "\<lambda>c. result_of_res (cqe_res c)" for E :: "'r platform" and issued n
proof
  fix s :: "'r file_state" and h
  assume a: "uring_laws E issued n" "fr_idle (write_fr (snd s))"
  obtain r' where "write_await_suspend E h (fst s, snd s) = (Ret (), ((fst s)\<lparr>io_ring := r'\<rparr>,
      (snd s)\<lparr>rc_count := rc_count (snd s) + 1, write_fr := op_frame_start h (write_fr (snd s))\<rparr>))"
    using write_start [OF a(1), of "snd s" h "fst s"] a(2) by (auto simp: fr_idle_def)
  then show "\<exists>s'. write_await_suspend E h s = (Ret (), s') \<and> uring_laws E issued n \<and>
      fr_waiting h (write_fr (snd s')) \<and> rc_count (snd s') = rc_count (snd s) + 1"
    using a by (auto simp: fr_state_defs op_frame_defs)
qed (auto simp: fr_state_defs op_frame_defs write_process_def on_obj_def write_handle_def write_await_resume_def
    write_frame_reset_def write_await_suspend_def with_obj_def op_simps)

interpretation read_op: guarded_one_shot
  "\<lambda>_ :: 'r file_state. uring_laws E issued n" "\<lambda>s. rc_count (snd s)"
  "\<lambda>s. fr_idle (read_fr (snd s))" "\<lambda>h s. fr_waiting h (read_fr (snd s))" "\<lambda>h c s. fr_completed h c (read_fr (snd s))"
  "\<lambda>c s. fr_finished c (read_fr (snd s))" "read_await_suspend E" read_process read_handle read_await_resume
  "\<lambda>_. True" "\<lambda>c. result_of_res (cqe_res c)" for E :: "'r platform" and issued n
proof
  fix s :: "'r file_state" and h
  assume a: "uring_laws E issued n" "fr_idle (read_fr (snd s))"
  obtain r' where "read_await_suspend E h (fst s, snd s) = (Ret (), ((fst s)\<lparr>io_ring := r'\<rparr>,
      (snd s)\<lparr>rc_count := rc_count (snd s) + 1, read_fr := op_frame_start h (read_fr (snd s))\<rparr>))"
    using read_start [OF a(1), of "snd s" h "fst s"] a(2) by (auto simp: fr_idle_def)
  then show "\<exists>s'. read_await_suspend E h s = (Ret (), s') \<and> uring_laws E issued n \<and>
      fr_waiting h (read_fr (snd s')) \<and> rc_count (snd s') = rc_count (snd s) + 1"
    using a by (auto simp: fr_state_defs op_frame_defs)
qed (auto simp: fr_state_defs op_frame_defs read_process_def on_obj_def read_handle_def read_await_resume_def
    read_frame_reset_def read_await_suspend_def with_obj_def op_simps)

lemma open_start_ok:
  assumes laws: "uring_laws E issued n" and pool: "fd_inv fr" "fds fr \<noteq> {}"
  obtains fd r' where "open_await_suspend E h (fr, f) = (Ret (), (fr\<lparr>fds := fds fr - {fd}, io_ring := r'\<rparr>,
      f\<lparr>rc_count := rc_count f + 1, open_fr := (op_frame_start h (open_fr f))\<lparr>opn_temp_fd := fd\<rparr>\<rparr>))"
    and "fd \<in> fds fr" and "0 \<le> fd"
    and "issued r' = issued (io_ring fr) @ [open_sqe (rc_this f) (opn_pathname (open_fr f)) (opn_flags (open_fr f)) fd]"
proof -
  obtain r1 where r1: "reserve_sqes E 1 (io_ring fr) = (Ret (), r1)" "issued r1 = issued (io_ring fr)" "1 \<le> sq_space_left E r1"
    by (rule reserve_sqes_ok [OF laws, of 1]) simp
  let ?fr1 = "fr\<lparr>io_ring := r1\<rparr>"
  obtain fd where fd: "get_available_fd E ?fr1 = (Ret fd, ?fr1\<lparr>fds := fds ?fr1 - {fd}\<rparr>)" "fd \<in> fds ?fr1" "0 \<le> fd"
    by (rule get_available_fd_ok [of ?fr1 E]) (use pool begin_ok_laws [OF laws] in simp_all)
  let ?e = "open_sqe (rc_this f) (opn_pathname (open_fr f)) (opn_flags (open_fr f)) fd"
  obtain r' where r': "put_sqe E ?e r1 = (Ret (), r')" "issued r' = issued r1 @ [?e]"
    by (rule put_sqe_ok [OF laws, of r1 ?e]) (use r1 in auto)
  have "open_await_suspend E h (fr, f) = (Ret (), (fr\<lparr>fds := fds fr - {fd}, io_ring := r'\<rparr>,
      f\<lparr>rc_count := rc_count f + 1, open_fr := (op_frame_start h (open_fr f))\<lparr>opn_temp_fd := fd\<rparr>\<rparr>))"
    using r1(1) fd(1) r'(1) by (simp add: open_await_suspend_def op_simps)
  then show ?thesis by (rule that) (use fd r'(2) r1(2) in simp_all)
qed

text \<open>The completion of an open, from the run loop to the result of the expression.\<close>

definition open_finish :: "cqe \<Rightarrow> ('r file_state, handle option \<times> unit fiona_result) op" where
  "open_finish c = finish_op open_process open_handle open_await_resume c"

lemma open_finish_ok:
  assumes "fd_inv fr" and "owned_fd_ok fr (opn_temp_fd (open_fr f))"
  shows "open_finish c (fr, f) = (Ret (of_h (open_fr f), void_result_of_res (cqe_res c)),
     (if 0 \<le> cqe_res c then fr else fr\<lparr>fds := insert (opn_temp_fd (open_fr f)) (fds fr)\<rparr>,
      f\<lparr>open_fr := open_frame_reset (open_fr f), fi_fd := (if 0 \<le> cqe_res c then opn_temp_fd (open_fr f) else fi_fd f)\<rparr>))"
  using assms release_fd_ok [of fr "opn_temp_fd (open_fr f)"]
  by (simp add: open_finish_def finish_op_def open_process_def open_handle_def open_await_resume_def open_frame_reset_def
      op_frame_defs owned_fd_ok_def op_simps)

lemma taken_owned: "fd_inv fr \<Longrightarrow> fd \<in> fds fr \<Longrightarrow> 0 \<le> fd \<Longrightarrow>
    fd_inv (fr\<lparr>fds := fds fr - {fd}, io_ring := r\<rparr>) \<and> owned_fd_ok (fr\<lparr>fds := fds fr - {fd}, io_ring := r\<rparr>) fd"
  by (auto simp: fd_inv_def owned_fd_ok_def)

definition open_file :: "'r platform \<Rightarrow> handle \<Rightarrow> cqe \<Rightarrow> ('r file_state, handle option \<times> unit fiona_result) op" where
  "open_file E h c = thenM (open_await_suspend E h) (open_finish c)"

lemma open_file_ok:
  assumes laws: "uring_laws E issued n" and pool: "fd_inv fr" "fds fr \<noteq> {}"
  obtains fd fr' f' where "open_file E h c (fr, f) = (Ret (Some h, void_result_of_res (cqe_res c)), (fr', f'))"
    and "fd \<in> fds fr" and "0 \<le> fd" and "fd_inv fr'" and "params fr' = params fr"
    and "fds fr' = (if 0 \<le> cqe_res c then fds fr - {fd} else fds fr)"
    and "fi_fd f' = (if 0 \<le> cqe_res c then fd else fi_fd f)"
    and "fr_idle (open_fr f')" and "opn_temp_fd (open_fr f') = - 1"
    and "issued (io_ring fr') = issued (io_ring fr) @
          [open_sqe (rc_this f) (opn_pathname (open_fr f)) (opn_flags (open_fr f)) fd]"
proof -
  obtain fd r' where s: "open_await_suspend E h (fr, f) = (Ret (), (fr\<lparr>fds := fds fr - {fd}, io_ring := r'\<rparr>,
      f\<lparr>rc_count := rc_count f + 1, open_fr := (op_frame_start h (open_fr f))\<lparr>opn_temp_fd := fd\<rparr>\<rparr>))"
      (is "_ = (_, (?fr, ?f))") and fd: "fd \<in> fds fr" "0 \<le> fd"
      and i: "issued r' = issued (io_ring fr) @ [open_sqe (rc_this f) (opn_pathname (open_fr f)) (opn_flags (open_fr f)) fd]"
    by (rule open_start_ok [OF assms])
  have own: "fd_inv ?fr" "owned_fd_ok ?fr (opn_temp_fd (open_fr ?f))" using taken_owned [OF pool(1) fd] by simp_all
  have run: "open_file E h c (fr, f) = open_finish c (?fr, ?f)"
    unfolding open_file_def thenM_def bindM_Ret [where m = "open_await_suspend E h", OF s] ..
  have res: "fr_idle (open_frame_reset (open_fr ?f))" "opn_temp_fd (open_frame_reset (open_fr ?f)) = - 1"
    by (simp_all add: fr_idle_def open_frame_reset_def op_frame_reset_def)
  have ret: "insert fd (fds fr - {fd}) = fds fr" using fd(1) by auto
  have h: "of_h (open_fr ?f) = Some h" "opn_temp_fd (open_fr ?f) = fd" by (simp_all add: op_frame_start_def)
  show ?thesis
  proof (cases "0 \<le> cqe_res c")
    case True
    have "open_file E h c (fr, f) = (Ret (Some h, void_result_of_res (cqe_res c)),
       (?fr, ?f\<lparr>open_fr := open_frame_reset (open_fr ?f), fi_fd := fd\<rparr>))"
      unfolding run open_finish_ok [OF own] h using True by simp
    then show ?thesis by (rule that) (use True fd own(1) i res in simp_all)
  next
    case False
    have "open_file E h c (fr, f) = (Ret (Some h, void_result_of_res (cqe_res c)),
       (?fr\<lparr>fds := fds fr\<rparr>, ?f\<lparr>open_fr := open_frame_reset (open_fr ?f), fi_fd := fi_fd f\<rparr>))"
      unfolding run open_finish_ok [OF own] h using False ret by simp
    then show ?thesis by (rule that [of _ _ fd]) (use False fd pool(1) i res in \<open>simp_all add: fd_inv_def\<close>)
  qed
qed

subsection \<open>Properties\<close>

text \<open>
  C29: opening and destroying a file conserves descriptors: an open takes a free one and resumes the
  coroutine that awaits it; if it succeeds the file owns exactly that descriptor, otherwise the
  descriptor is back in the pool and the error is returned; destroying the file afterwards
  leaves the pool as it was before the open, with a close entry for the descriptor if there is one.
\<close>

theorem open_conserves_fds:
  assumes "uring_laws E issued n" and "fd_inv fr" and "fds fr \<noteq> {}" and "fi_fd f = - 1"
  shows "\<exists>fd s1 s2. fd \<in> fds fr \<and> open_file E h c (fr, f) = (Ret (Some h, void_result_of_res (cqe_res c)), s1) \<and>
     fi_fd (snd s1) = (if 0 \<le> cqe_res c then fd else - 1) \<and>
     fds (fst s1) = (if 0 \<le> cqe_res c then fds fr - {fd} else fds fr) \<and>
     fr_idle (open_fr (snd s1)) \<and>
     file_impl_dtor E s1 = (Ret (), s2) \<and> fds (fst s2) = fds fr \<and>
     issued (io_ring (fst s2)) = issued (io_ring (fst s1)) @ (if 0 \<le> cqe_res c then [close_sqe fd] else [])"
proof -
  obtain fd fr' f' where o: "open_file E h c (fr, f) = (Ret (Some h, void_result_of_res (cqe_res c)), (fr', f'))"
      and fd: "fd \<in> fds fr" "0 \<le> fd" and fr': "fd_inv fr'" "params fr' = params fr"
        "fds fr' = (if 0 \<le> cqe_res c then fds fr - {fd} else fds fr)"
      and f': "fi_fd f' = (if 0 \<le> cqe_res c then fd else fi_fd f)" "fr_idle (open_fr f')"
    by (rule open_file_ok [OF assms(1-3)])
  show ?thesis
  proof (cases "0 \<le> cqe_res c")
    case False
    then have "file_impl_dtor E (fr', f') = (Ret (), (fr', f'))" using f'(1) assms(4) by (simp add: file_impl_dtor_def op_simps)
    then show ?thesis using False o fd fr' f' assms(4) by (intro exI [of _ fd] exI [of _ "(fr', f')"]) simp
  next
    case True
    have "owned_fd_ok fr' (fi_fd f')" using True fd fr' f' assms(2) by (auto simp: owned_fd_ok_def fd_inv_def)
    then obtain r' where r': "close_owned_fd E (fi_fd f') (fr', f') = (Ret (), (fr'\<lparr>io_ring := r', fds := insert (fi_fd f') (fds fr')\<rparr>, f'))"
        "issued r' = issued (io_ring fr') @ [close_sqe (fi_fd f')]"
      by (rule close_owned_fd_ok [OF assms(1) fr'(1)])
    have f: "fi_fd f' = fd" "fds fr' = fds fr - {fd}" using True f'(1) fr'(3) by simp_all
    then have "file_impl_dtor E (fr', f') = (Ret (), (fr'\<lparr>io_ring := r', fds := fds fr\<rparr>, f'\<lparr>fi_fd := - 1\<rparr>))"
      using r'(1) fd by (simp add: file_impl_dtor_def op_simps insert_absorb)
    then show ?thesis using True o fd(1) f f'(2) r'(2)
      by (intro exI [of _ fd] exI [of _ "(fr', f')"] exI [of _ "(fr'\<lparr>io_ring := r', fds := fds fr\<rparr>, f'\<lparr>fi_fd := - 1\<rparr>)"]) simp
  qed
qed

theorem open_conserves_fds_witness:
  "\<exists>fd s1 s2. fd \<in> fds ex_frame \<and> open_file (list_platform 4) 4096 \<lparr>cqe_res = 0, cqe_flags = 0, cqe_data = UD 640 F_open\<rparr>
       (ex_frame, file_impl_new 640) = (Ret (Some 4096, Inr ()), s1) \<and> fi_fd (snd s1) = fd \<and>
     file_impl_dtor (list_platform 4) s1 = (Ret (), s2) \<and> fds (fst s2) = fds ex_frame"
proof -
  have ne: "fds ex_frame \<noteq> {}" and fd: "fi_fd (file_impl_new 640) = - 1" by (simp_all add: ex_frame_def file_impl_new_def)
  from open_conserves_fds [OF ex_laws ex_frame_inv(1) ne fd, of 4096 "\<lparr>cqe_res = 0, cqe_flags = 0, cqe_data = UD 640 F_open\<rparr>"]
  show ?thesis by (auto simp: void_result_of_res_def)
qed

text \<open>
  Opening an open file loses its descriptor: the second successful open replaces the number
  without closing it, so destroying the file returns only the second one to the pool.
\<close>

theorem open_twice_loses_fd:
  assumes "uring_laws E issued n" and "fd_inv fr" and "fds fr \<noteq> {}" and "fi_fd f = - 1"
    and "cqe_res c = 0" and "card (fds fr) \<ge> 2"
  shows "\<exists>fd1 fd2 s1 s2 s3. fd1 \<in> fds fr \<and> fd2 \<in> fds fr \<and> fd1 \<noteq> fd2 \<and>
     open_file E h c (fr, f) = (Ret (Some h, Inr ()), s1) \<and> open_file E h c s1 = (Ret (Some h, Inr ()), s2) \<and>
     fi_fd (snd s1) = fd1 \<and> fi_fd (snd s2) = fd2 \<and>
     file_impl_dtor E s2 = (Ret (), s3) \<and> fds (fst s3) = fds fr - {fd1}"
proof -
  obtain fd1 fr1 f1 where o1: "open_file E h c (fr, f) = (Ret (Some h, void_result_of_res (cqe_res c)), (fr1, f1))"
      and fd1: "fd1 \<in> fds fr" "0 \<le> fd1" and fr1: "fd_inv fr1" "params fr1 = params fr"
        "fds fr1 = (if 0 \<le> cqe_res c then fds fr - {fd1} else fds fr)"
      and f1: "fi_fd f1 = (if 0 \<le> cqe_res c then fd1 else fi_fd f)"
    by (rule open_file_ok [OF assms(1-3)])
  have "card (fds fr - {fd1}) \<ge> 1" using assms(6) fd1(1) fd_inv_finite [OF assms(2)] by simp
  then have "fds fr - {fd1} \<noteq> {}" by (metis card.empty not_one_le_zero)
  then have ne: "fds fr1 \<noteq> {}" using fr1(3) assms(5) by simp
  obtain fd2 fr2 f2 where o2: "open_file E h c (fr1, f1) = (Ret (Some h, void_result_of_res (cqe_res c)), (fr2, f2))"
      and fd2: "fd2 \<in> fds fr1" "0 \<le> fd2" and fr2: "fd_inv fr2" "params fr2 = params fr1"
        "fds fr2 = (if 0 \<le> cqe_res c then fds fr1 - {fd2} else fds fr1)"
      and f2: "fi_fd f2 = (if 0 \<le> cqe_res c then fd2 else fi_fd f1)"
    by (rule open_file_ok [OF assms(1) fr1(1) ne])
  have own: "owned_fd_ok fr2 (fi_fd f2)" using assms(5) fd2 fr2 f2 fr1(1) by (auto simp: owned_fd_ok_def fd_inv_def)
  obtain r' where r': "close_owned_fd E (fi_fd f2) (fr2, f2) = (Ret (), (fr2\<lparr>io_ring := r', fds := insert (fi_fd f2) (fds fr2)\<rparr>, f2))"
    by (rule close_owned_fd_ok [OF assms(1) fr2(1) own])
  have v: "fi_fd f1 = fd1" "fds fr1 = fds fr - {fd1}" "fi_fd f2 = fd2" "fds fr2 = fds fr1 - {fd2}"
    using assms(5) f1 fr1(3) f2 fr2(3) by simp_all
  then have dtor: "file_impl_dtor E (fr2, f2) = (Ret (), (fr2\<lparr>io_ring := r', fds := fds fr - {fd1}\<rparr>, f2\<lparr>fi_fd := - 1\<rparr>))"
    using r' fd2 by (simp add: file_impl_dtor_def op_simps insert_absorb)
  have "fd2 \<in> fds fr" "fd1 \<noteq> fd2" using fd2(1) v(2) by auto
  then show ?thesis using o1 o2 v fd1(1) dtor assms(5)
    by (intro exI [of _ fd1] exI [of _ fd2] exI [of _ "(fr1, f1)"] exI [of _ "(fr2, f2)"]
        exI [of _ "(fr2\<lparr>io_ring := r', fds := fds fr - {fd1}\<rparr>, f2\<lparr>fi_fd := - 1\<rparr>)"]) (simp add: void_result_of_res_def)
qed

theorem open_twice_loses_fd_witness:
  "\<exists>fd1 s1 s2 s3. fd1 \<in> fds ex_frame \<and>
     open_file (list_platform 4) 4096 \<lparr>cqe_res = 0, cqe_flags = 0, cqe_data = UD 640 F_open\<rparr> (ex_frame, file_impl_new 640) =
       (Ret (Some 4096, Inr ()), s1) \<and>
     open_file (list_platform 4) 4096 \<lparr>cqe_res = 0, cqe_flags = 0, cqe_data = UD 640 F_open\<rparr> s1 = (Ret (Some 4096, Inr ()), s2) \<and>
     file_impl_dtor (list_platform 4) s2 = (Ret (), s3) \<and> fds (fst s3) = fds ex_frame - {fd1}"
proof -
  have ne: "fds ex_frame \<noteq> {}" "fi_fd (file_impl_new 640) = - 1" "2 \<le> card (fds ex_frame)"
      "cqe_res \<lparr>cqe_res = 0, cqe_flags = 0, cqe_data = UD 640 F_open\<rparr> = 0"
    by (simp_all add: ex_frame_def file_impl_new_def)
  from open_twice_loses_fd [OF ex_laws ex_frame_inv(1) ne(1,2,4,3), of 4096] show ?thesis by blast
qed

text \<open>
  Opening with no free descriptor still issues the request, with the index that asks the kernel
  to choose a slot itself: an error then fails the assertion of the completion, and a success leaves
  the file without a descriptor although the caller is told that it is open.
\<close>

theorem open_no_descriptor:
  assumes "uring_laws E issued n" and "fds fr = {}" and "fi_fd f = - 1"
  shows "\<exists>s1. open_await_suspend E h (fr, f) = (Ret (), s1) \<and>
     issued (io_ring (fst s1)) = issued (io_ring fr) @
       [open_sqe (rc_this f) (opn_pathname (open_fr f)) (opn_flags (open_fr f)) (- 1)] \<and>
     (cqe_res c < 0 \<longrightarrow> fst (open_process c s1) = Assert_failed) \<and>
     (cqe_res c = 0 \<longrightarrow> (\<exists>s2. open_finish c s1 = (Ret (Some h, Inr ()), s2) \<and> fi_fd (snd s2) = - 1))"
proof -
  obtain r1 where r1: "reserve_sqes E 1 (io_ring fr) = (Ret (), r1)" "issued r1 = issued (io_ring fr)" "1 \<le> sq_space_left E r1"
    by (rule reserve_sqes_ok [OF assms(1), of 1]) simp
  have fd: "get_available_fd E (fr\<lparr>io_ring := r1\<rparr>) = (Ret (- 1), fr\<lparr>io_ring := r1\<rparr>)" using assms(2) by (simp add: fdp.acquire_none)
  let ?e = "open_sqe (rc_this f) (opn_pathname (open_fr f)) (opn_flags (open_fr f)) (- 1)"
  obtain r' where r': "put_sqe E ?e r1 = (Ret (), r')" "issued r' = issued r1 @ [?e]"
    by (rule put_sqe_ok [OF assms(1), of r1 ?e]) (use r1 in auto)
  let ?s = "(fr\<lparr>io_ring := r'\<rparr>, f\<lparr>rc_count := rc_count f + 1, open_fr := (op_frame_start h (open_fr f))\<lparr>opn_temp_fd := - 1\<rparr>\<rparr>)"
  have "open_await_suspend E h (fr, f) = (Ret (), ?s)"
    using r1(1) fd r'(1) by (simp add: open_await_suspend_def op_simps)
  moreover have "cqe_res c < 0 \<longrightarrow> fst (open_process c ?s) = Assert_failed"
    by (simp add: open_process_def op_frame_process_def op_simps)
  moreover have "cqe_res c = 0 \<longrightarrow> (\<exists>s2. open_finish c ?s = (Ret (Some h, Inr ()), s2) \<and> fi_fd (snd s2) = - 1)"
    by (auto simp: open_finish_def finish_op_def open_process_def open_handle_def open_await_resume_def void_result_of_res_def
        op_frame_defs op_simps)
  ultimately show ?thesis using r1(2) r'(2) by (intro exI [of _ ?s]) simp
qed

theorem open_no_descriptor_witness:
  "\<exists>s1 s2. open_await_suspend (list_platform 4) 4096 (ex_frame\<lparr>fds := {}\<rparr>, file_impl_new 640) = (Ret (), s1) \<and>
     open_finish \<lparr>cqe_res = 0, cqe_flags = 0, cqe_data = UD 640 F_open\<rparr> s1 = (Ret (Some 4096, Inr ()), s2) \<and> fi_fd (snd s2) = - 1"
proof -
  have "fds (ex_frame\<lparr>fds := {}\<rparr>) = {}" "fi_fd (file_impl_new 640) = - 1" by (simp_all add: file_impl_new_def)
  from open_no_descriptor [OF ex_laws this, of 4096 "\<lparr>cqe_res = 0, cqe_flags = 0, cqe_data = UD 640 F_open\<rparr>"]
  show ?thesis by (simp del: split_paired_Ex) blast
qed

text \<open>
  Reads and writes are exclusive, each on its own: a second one while the first is in flight
  throws \<^verbatim>\<open>EBUSY\<close> and changes nothing, the completion resumes the coroutine of the first with its
  number of bytes or its error, and the same operation can be started again. The entry of the first is the
  only one issued, and it uses the registered buffer when the buffer index is not negative.
\<close>

theorem file_io_exclusive:
  assumes "uring_laws E issued n" and "fr_idle (write_fr f)" and "fr_idle (read_fr f)"
  shows "(\<exists>s1 s'. write_await_suspend E h (fr, f) = (Ret (), s1) \<and> write_await_suspend E k s1 = (Throw EBUSY, s1) \<and>
       issued (io_ring (fst s1)) = issued (io_ring fr) @ [write_sqe (rc_this f) (fi_fd f) (write_fr f)] \<and>
       finish_op write_process write_handle write_await_resume c s1 = (Ret (Some h, result_of_res (cqe_res c)), s') \<and>
       fr_idle (write_fr (snd s')) \<and> rc_count (snd s') = rc_count f + 1) \<and>
     (\<exists>s1 s'. read_await_suspend E h (fr, f) = (Ret (), s1) \<and> read_await_suspend E k s1 = (Throw EBUSY, s1) \<and>
       issued (io_ring (fst s1)) = issued (io_ring fr) @ [read_sqe (rc_this f) (fi_fd f) (read_fr f)] \<and>
       finish_op read_process read_handle read_await_resume c s1 = (Ret (Some h, result_of_res (cqe_res c)), s') \<and>
       fr_idle (read_fr (snd s')) \<and> rc_count (snd s') = rc_count f + 1)"
proof
  have i: "\<not> of_initiated (write_fr f)" "\<not> of_initiated (read_fr f)" using assms(2,3) by (simp_all add: fr_idle_def)
  obtain r1 where r1: "write_await_suspend E h (fr, f) = (Ret (), (fr\<lparr>io_ring := r1\<rparr>,
      f\<lparr>rc_count := rc_count f + 1, write_fr := op_frame_start h (write_fr f)\<rparr>))"
      "issued r1 = issued (io_ring fr) @ [write_sqe (rc_this f) (fi_fd f) (write_fr f)]"
    by (rule write_start [OF assms(1) i(1)])
  show "\<exists>s1 s'. write_await_suspend E h (fr, f) = (Ret (), s1) \<and> write_await_suspend E k s1 = (Throw EBUSY, s1) \<and>
       issued (io_ring (fst s1)) = issued (io_ring fr) @ [write_sqe (rc_this f) (fi_fd f) (write_fr f)] \<and>
       finish_op write_process write_handle write_await_resume c s1 = (Ret (Some h, result_of_res (cqe_res c)), s') \<and>
       fr_idle (write_fr (snd s')) \<and> rc_count (snd s') = rc_count f + 1"
    using write_op.second_start_harmless [of E issued n "(fr, f)" h k c] assms(1,2) r1 by auto
  obtain r2 where r2: "read_await_suspend E h (fr, f) = (Ret (), (fr\<lparr>io_ring := r2\<rparr>,
      f\<lparr>rc_count := rc_count f + 1, read_fr := op_frame_start h (read_fr f)\<rparr>))"
      "issued r2 = issued (io_ring fr) @ [read_sqe (rc_this f) (fi_fd f) (read_fr f)]"
    by (rule read_start [OF assms(1) i(2)])
  show "\<exists>s1 s'. read_await_suspend E h (fr, f) = (Ret (), s1) \<and> read_await_suspend E k s1 = (Throw EBUSY, s1) \<and>
       issued (io_ring (fst s1)) = issued (io_ring fr) @ [read_sqe (rc_this f) (fi_fd f) (read_fr f)] \<and>
       finish_op read_process read_handle read_await_resume c s1 = (Ret (Some h, result_of_res (cqe_res c)), s') \<and>
       fr_idle (read_fr (snd s')) \<and> rc_count (snd s') = rc_count f + 1"
    using read_op.second_start_harmless [of E issued n "(fr, f)" h k c] assms(1,3) r2 by auto
qed

theorem file_io_exclusive_witness:
  "\<exists>s1 s'. write_await_suspend (list_platform 4) 4096 (ex_frame, file_impl_new 640) = (Ret (), s1) \<and>
     write_await_suspend (list_platform 4) 8192 s1 = (Throw EBUSY, s1) \<and>
     finish_op write_process write_handle write_await_resume \<lparr>cqe_res = 3, cqe_flags = 0, cqe_data = UD 640 F_write\<rparr> s1 =
       (Ret (Some 4096, Inr 3), s')"
proof -
  have "fr_idle (write_fr (file_impl_new 640))" "fr_idle (read_fr (file_impl_new 640))"
    by (simp_all add: fr_idle_def file_impl_new_def op_frame.extend_def op_frame_new_def)
  from file_io_exclusive [OF ex_laws this, of 4096 ex_frame 8192 "\<lparr>cqe_res = 3, cqe_flags = 0, cqe_data = UD 640 F_write\<rparr>"]
  show ?thesis by (auto simp: result_of_res_def)
qed

end
