(* ===== verification/File_Class.thy ===== *)
theory File_Class
  imports File Object_Heap
begin

section \<open>Files as a class of objects\<close>

text \<open>
  Files meet the contract \<open>counted\<close>. A file owns its descriptor and, while an open is in flight, the one
  it has taken for it. Opening has no guard of its own: a program may start one when none is in flight and
  a descriptor is free. A file that is opened again abandons the descriptor it had.
\<close>

datatype file_call =
    File_open string int | File_open_suspend handle | File_open_resume | File_open_dtor
  | File_write "u8 list" | File_write_fixed fixed_buffer | File_write_suspend handle | File_write_resume | File_write_dtor
  | File_read addr nat | File_read_fixed addr fixed_buffer | File_read_suspend handle | File_read_resume | File_read_dtor

definition file_call_run :: "'r platform \<Rightarrow> file_call \<Rightarrow> ('r file_state, unit) op" where
  "file_call_run E c =
     (case c of
        File_open path fl \<Rightarrow> file_async_open path fl
      | File_open_suspend h \<Rightarrow> open_await_suspend E h
      | File_open_resume \<Rightarrow> ignoreM open_await_resume
      | File_open_dtor \<Rightarrow> open_awaitable_dtor E
      | File_write msg \<Rightarrow> file_async_write msg
      | File_write_fixed buf \<Rightarrow> file_async_write_fixed buf
      | File_write_suspend h \<Rightarrow> write_await_suspend E h
      | File_write_resume \<Rightarrow> ignoreM write_await_resume
      | File_write_dtor \<Rightarrow> write_awaitable_dtor E
      | File_read p n \<Rightarrow> file_async_read p n
      | File_read_fixed p buf \<Rightarrow> file_async_read_fixed p buf
      | File_read_suspend h \<Rightarrow> read_await_suspend E h
      | File_read_resume \<Rightarrow> ignoreM read_await_resume
      | File_read_dtor \<Rightarrow> read_awaitable_dtor E)"

definition file_call_ok :: "file_call \<Rightarrow> 'r file_state \<Rightarrow> bool" where
  "file_call_ok c s =
     (case c of
        File_open_suspend h \<Rightarrow> fds (fst s) \<noteq> {} \<and> \<not> of_initiated (open_fr (snd s))
      | File_open_resume \<Rightarrow> \<not> op_frame_active (open_fr (snd s))
      | File_write_fixed buf \<Rightarrow> fixed_buffer_as_bytes buf \<noteq> None
      | File_write_resume \<Rightarrow> \<not> op_frame_active (write_fr (snd s))
      | File_read_resume \<Rightarrow> \<not> op_frame_active (read_fr (snd s))
      | _ \<Rightarrow> True)"

definition file_active :: "file_impl \<Rightarrow> frame_tag multiset" where
  "file_active f =
     (if op_frame_active (open_fr f) then {#F_open#} else {#}) +
     (if op_frame_active (write_fr f) then {#F_write#} else {#}) +
     (if op_frame_active (read_fr f) then {#F_read#} else {#})"

definition file_owned :: "file_impl \<Rightarrow> int set" where
  "file_owned f =
     ({fi_fd f} - {- 1}) \<union> (if op_frame_active (open_fr f) then {opn_temp_fd (open_fr f)} else {})"

text \<open>The descriptor of an open whose completion has not arrived, which the destructor does not know.\<close>

definition file_pending :: "file_impl \<Rightarrow> int set" where
  "file_pending f = (if op_frame_active (open_fr f) then {opn_temp_fd (open_fr f)} else {})"

definition file_inv :: "'r io_context_frame \<Rightarrow> file_impl \<Rightarrow> bool" where
  "file_inv fr f =
     ((of_done (open_fr f) \<longrightarrow> of_initiated (open_fr f)) \<and> (of_done (write_fr f) \<longrightarrow> of_initiated (write_fr f)) \<and>
      (of_done (read_fr f) \<longrightarrow> of_initiated (read_fr f)) \<and> (fi_fd f = - 1 \<or> owned_fd_ok fr (fi_fd f)) \<and>
      (op_frame_active (open_fr f) \<longrightarrow> owned_fd_ok fr (opn_temp_fd (open_fr f)) \<and> opn_temp_fd (open_fr f) \<noteq> fi_fd f) \<and>
      frame_ok fr)"

definition file_frames_process :: "frame_tag \<Rightarrow> cqe \<Rightarrow> ('r file_state, unit) op" where
  "file_frames_process t c =
     (case t of F_open \<Rightarrow> open_process c | F_write \<Rightarrow> write_process c | F_read \<Rightarrow> read_process c | _ \<Rightarrow> (\<lambda>s. (Bad_access, s)))"

definition file_frames_handle :: "frame_tag \<Rightarrow> ('r file_state, handle option) op" where
  "file_frames_handle t =
     (case t of F_open \<Rightarrow> open_handle | F_write \<Rightarrow> write_handle | F_read \<Rightarrow> read_handle | _ \<Rightarrow> retM None)"

definition file_new_run :: "unit \<Rightarrow> addr \<Rightarrow> ('r io_context_frame, file_impl) op" where
  "file_new_run _ p = construct intrusive_ptr_add_ref (file_impl_new p)"

text \<open>The descriptor that a successful open replaces.\<close>

definition file_abandons :: "frame_tag \<Rightarrow> cqe \<Rightarrow> file_impl \<Rightarrow> int set" where
  "file_abandons t c f = (if t = F_open \<and> 0 \<le> cqe_res c then {fi_fd f} - {- 1} else {})"

definition file_class :: "'r platform \<Rightarrow> ('r, file_impl, file_call, unit) object_class" where
  "file_class E = \<lparr>
     oc_this = rc_this, oc_count = rc_count, oc_active = file_active, oc_frames = (\<lambda>_. {F_open, F_write, F_read}),
     oc_owned = file_owned, oc_inv = file_inv, oc_call_ok = file_call_ok, oc_call = file_call_run E,
     oc_call_out = (\<lambda>_ _. {}), oc_cqe_ok = (\<lambda>now t c s. \<not> cqe_f_more c),
     oc_process = (\<lambda>now. file_frames_process), oc_handle = file_frames_handle, oc_cqe_out = file_abandons,
     oc_copy = intrusive_ptr_add_ref, oc_release = intrusive_ptr_release (file_impl_dtor E),
     oc_drop = intrusive_ptr_release (file_impl_dtor E),
     oc_left = file_pending, oc_new_ok = (\<lambda>_ _. True), oc_new = file_new_run, oc_new_in = (\<lambda>_. {})\<rparr>"

lemma file_class_simps [simp]:
  "oc_this (file_class E) = rc_this" "oc_count (file_class E) = rc_count" "oc_active (file_class E) = file_active"
  "oc_frames (file_class E) = (\<lambda>_. {F_open, F_write, F_read})" "oc_owned (file_class E) = file_owned"
  "oc_inv (file_class E) = file_inv" "oc_call_ok (file_class E) = file_call_ok" "oc_call (file_class E) = file_call_run E"
  "oc_call_out (file_class E) = (\<lambda>_ _. {})" "oc_cqe_ok (file_class E) = (\<lambda>now t c s. \<not> cqe_f_more c)"
  "oc_process (file_class E) = (\<lambda>now. file_frames_process)" "oc_handle (file_class E) = file_frames_handle"
  "oc_cqe_out (file_class E) = file_abandons" "oc_copy (file_class E) = intrusive_ptr_add_ref"
  "oc_release (file_class E) = intrusive_ptr_release (file_impl_dtor E)"
  "oc_drop (file_class E) = intrusive_ptr_release (file_impl_dtor E)" "oc_left (file_class E) = file_pending"
  "oc_new_ok (file_class E) = (\<lambda>_ _. True)" "oc_new (file_class E) = file_new_run" "oc_new_in (file_class E) = (\<lambda>_. {})"
  by (simp_all add: file_class_def)

lemmas file_life_defs = file_active_def file_owned_def file_inv_def op_frame_defs

lemma file_owned_free: "file_inv fr f \<Longrightarrow> file_owned f \<inter> fds fr = {}"
  by (auto simp: file_inv_def file_owned_def owned_fd_ok_def)

lemma file_inv_ring [simp]: "file_inv (fr\<lparr>io_ring := r\<rparr>) f = file_inv fr f"
  by (simp add: file_inv_def)

lemma file_owned_simps [simp]: "file_owned (f\<lparr>rc_count := k\<rparr>) = file_owned f"
  "file_owned (f\<lparr>write_fr := w\<rparr>) = file_owned f" "file_owned (f\<lparr>read_fr := rd\<rparr>) = file_owned f"
  by (simp_all add: file_owned_def)

lemma file_call_still:
  assumes "m (fr, f) = (x, (fr, f'))" and "documented x" and "file_inv fr f'" and "rc_this f' = rc_this f"
    and "rc_count f' = rc_count f" and "file_active f' = file_active f" and "file_owned f' = file_owned f"
  shows "documented (fst (m (fr, f))) \<and> object_step (file_class E) issued (fr, f) (snd (m (fr, f))) 0 {#} {}"
  unfolding assms(1) fst_conv snd_conv using assms(2-7) file_owned_free [OF assms(3)]
  by (auto intro!: object_step_stillI simp: file_inv_def)

lemma file_call_ring:
  assumes "m (fr, f) = (x, (fr\<lparr>io_ring := r\<rparr>, f'))" and "documented x" and "file_inv fr f'" and "rc_this f' = rc_this f"
    and "issued r = issued (io_ring fr) @ es" and "own_entries (rc_this f) es"
    and "rc_count f' = rc_count f + int (size (own_tags (rc_this f) es))"
    and "file_active f' = file_active f + own_tags (rc_this f) es" and "file_owned f' = file_owned f"
  shows "documented (fst (m (fr, f))) \<and> object_step (file_class E) issued (fr, f) (snd (m (fr, f))) 0 {#} {}"
  unfolding assms(1) fst_conv snd_conv using assms(2-9) file_owned_free [OF assms(3)]
  by (auto intro!: object_step_ringI [where es = es] simp: file_inv_def)

lemma file_sqe_data [simp]: "sqe_data (open_sqe p path fl fd) = UD p F_open" "sqe_data (write_sqe p fd w) = UD p F_write"
  "sqe_data (read_sqe p fd rd) = UD p F_read"
  by (simp_all add: open_sqe_def write_sqe_def read_sqe_def)

lemma file_cancel_call:
  assumes laws: "uring_laws E issued n" and inv: "file_inv fr f"
    and m: "m (fr, f) = (if b then cancel_in_flight E u else retM ()) (fr, f)"
  shows "documented (fst (m (fr, f))) \<and> object_step (file_class E) issued (fr, f) (snd (m (fr, f))) 0 {#} {}"
proof (cases b)
  case True
  obtain r' where r': "cancel_in_flight E u (fr, f) = (Ret (), (fr\<lparr>io_ring := r'\<rparr>, f))" "issued r' = issued (io_ring fr) @ [cancel_sqe u]"
    by (rule cancel_in_flight_ok [OF laws])
  then have "m (fr, f) = (Ret (), (fr\<lparr>io_ring := r'\<rparr>, f))" using m True by simp
  then show ?thesis by (rule file_call_ring [where es = "[cancel_sqe u]"]) (use inv r'(2) in simp_all)
next
  case False
  then have "m (fr, f) = (Ret (), (fr, f))" using m by (simp add: op_simps)
  then show ?thesis by (rule file_call_still) (use inv in simp_all)
qed

lemma file_class_open:
  assumes laws: "uring_laws E issued n" and inv: "file_inv fr f" and ok: "fds fr \<noteq> {}" "\<not> of_initiated (open_fr f)"
  shows "documented (fst (open_await_suspend E h (fr, f))) \<and>
     object_step (file_class E) issued (fr, f) (snd (open_await_suspend E h (fr, f))) 0 {#} {}"
proof -
  have pool: "fd_inv fr" "groups_inv fr" using inv by (simp_all add: file_inv_def frame_ok_def)
  obtain fd r' where run: "open_await_suspend E h (fr, f) = (Ret (), (fr\<lparr>fds := fds fr - {fd}, io_ring := r'\<rparr>,
      f\<lparr>rc_count := rc_count f + 1, open_fr := (op_frame_start h (open_fr f))\<lparr>opn_temp_fd := fd\<rparr>\<rparr>))"
      (is "_ = (_, (?fr, ?f))") and fd: "fd \<in> fds fr" "0 \<le> fd"
      and es: "issued r' = issued (io_ring fr) @ [open_sqe (rc_this f) (opn_pathname (open_fr f)) (opn_flags (open_fr f)) fd]"
    by (rule open_start_ok [OF laws pool(1) ok(1)])
  have nd: "\<not> of_done (open_fr f)" using inv ok(2) by (auto simp: file_inv_def)
  have own: "fd_inv ?fr" "owned_fd_ok ?fr fd" using taken_owned [OF pool(1) fd] by simp_all
  have "- 1 \<notin> fds fr" using pool(1) by (auto simp: fd_inv_def)
  then have fdn: "fi_fd f \<noteq> fd" "fi_fd f \<notin> fds fr" using inv fd by (auto simp: file_inv_def owned_fd_ok_def)
  have inv': "file_inv ?fr ?f"
    using inv own pool nd fdn by (auto simp: file_inv_def frame_ok_def op_frame_defs owned_fd_ok_def)
  have "file_owned ?f = insert fd (file_owned f)" "file_active ?f = add_mset F_open (file_active f)"
    using ok(2) nd fd by (auto simp: file_owned_def file_active_def op_frame_defs)
  moreover have "file_owned f \<inter> fds fr = {}" by (rule file_owned_free [OF inv])
  ultimately have "object_step (file_class E) issued (fr, f) (?fr, ?f) 0 {#} {}"
    using es inv' fd(1)
    by (intro object_stepI [where es = "[open_sqe (rc_this f) (opn_pathname (open_fr f)) (opn_flags (open_fr f)) fd]"])
      (auto simp: frame_moves_def file_inv_def)
  then show ?thesis by (simp add: run)
qed

lemma file_class_call:
  assumes laws: "uring_laws E issued n" and inv: "file_inv fr f" and ok: "file_call_ok c (fr, f)"
  shows "documented (fst (file_call_run E c (fr, f))) \<and>
     object_step (file_class E) issued (fr, f) (snd (file_call_run E c (fr, f))) 0 {#} {}"
proof (cases c)
  case (File_open path fl)
  have "file_call_run E c (fr, f) = (Ret (), (fr, f\<lparr>open_fr := (open_fr f)\<lparr>opn_pathname := path, opn_flags := fl\<rparr>\<rparr>))"
    by (simp add: File_open file_call_run_def file_async_open_def op_simps)
  then show ?thesis by (rule file_call_still) (use inv in \<open>simp_all add: file_life_defs\<close>)
next
  case (File_open_suspend h)
  then show ?thesis using file_class_open [OF laws inv, of h] ok by (simp add: file_call_run_def file_call_ok_def)
next
  case File_open_resume
  then have "file_call_run E c (fr, f) = (Ret (), (fr, f\<lparr>open_fr := open_frame_reset (open_fr f)\<rparr>))"
    by (simp add: file_call_run_def open_await_resume_def ignoreM_def op_simps)
  then show ?thesis
    by (rule file_call_still) (use inv ok File_open_resume in \<open>auto simp: file_life_defs file_call_ok_def open_frame_reset_def\<close>)
next
  case File_open_dtor
  then show ?thesis by (intro file_cancel_call [OF laws inv]) (simp add: file_call_run_def open_awaitable_dtor_def with_obj_apply)
next
  case (File_write msg)
  have "file_call_run E c (fr, f) = (Ret (), (fr, f\<lparr>write_fr := (write_fr f)\<lparr>wrf_buf := msg\<rparr>\<rparr>))"
    by (simp add: File_write file_call_run_def file_async_write_def op_simps)
  then show ?thesis by (rule file_call_still) (use inv in \<open>simp_all add: file_life_defs\<close>)
next
  case (File_write_fixed buf)
  then obtain bs where "fixed_buffer_as_bytes buf = Some bs" using ok by (auto simp: file_call_ok_def)
  then have "file_call_run E c (fr, f) = (Ret (), (fr, f\<lparr>write_fr := (write_fr f)\<lparr>wrf_buf := bs, wrf_buf_index := int (fxb_index buf)\<rparr>\<rparr>))"
    by (simp add: File_write_fixed file_call_run_def file_async_write_fixed_def op_simps)
  then show ?thesis by (rule file_call_still) (use inv in \<open>simp_all add: file_life_defs\<close>)
next
  case (File_write_suspend h)
  show ?thesis
  proof (cases "of_initiated (write_fr f)")
    case True
    then have "file_call_run E c (fr, f) = (Throw EBUSY, (fr, f))"
      by (simp add: File_write_suspend file_call_run_def write_await_suspend_def op_simps)
    then show ?thesis by (rule file_call_still) (use inv in simp_all)
  next
    case False
    obtain r' where r': "write_await_suspend E h (fr, f) = (Ret (), (fr\<lparr>io_ring := r'\<rparr>,
        f\<lparr>rc_count := rc_count f + 1, write_fr := op_frame_start h (write_fr f)\<rparr>))"
        "issued r' = issued (io_ring fr) @ [write_sqe (rc_this f) (fi_fd f) (write_fr f)]"
      by (rule write_start [OF laws False])
    then have "file_call_run E c (fr, f) = (Ret (), (fr\<lparr>io_ring := r'\<rparr>,
        f\<lparr>rc_count := rc_count f + 1, write_fr := op_frame_start h (write_fr f)\<rparr>))"
      by (simp add: File_write_suspend file_call_run_def)
    then show ?thesis by (rule file_call_ring [OF _ _ _ _ r'(2)]) (use False inv in \<open>simp_all add: file_life_defs\<close>)
  qed
next
  case File_write_resume
  then have "file_call_run E c (fr, f) = (Ret (), (fr, f\<lparr>write_fr := write_frame_reset (write_fr f)\<rparr>))"
    by (simp add: file_call_run_def write_await_resume_def ignoreM_def op_simps)
  then show ?thesis
    by (rule file_call_still) (use inv ok File_write_resume in \<open>simp_all add: file_life_defs file_call_ok_def write_frame_reset_def\<close>)
next
  case File_write_dtor
  then show ?thesis by (intro file_cancel_call [OF laws inv]) (simp add: file_call_run_def write_awaitable_dtor_def with_obj_apply)
next
  case (File_read p k)
  have "file_call_run E c (fr, f) = (Ret (), (fr, f\<lparr>read_fr := (read_fr f)\<lparr>rdf_ptr := p, rdf_size := k\<rparr>\<rparr>))"
    by (simp add: File_read file_call_run_def file_async_read_def op_simps)
  then show ?thesis by (rule file_call_still) (use inv in \<open>simp_all add: file_life_defs\<close>)
next
  case (File_read_fixed p buf)
  have "file_call_run E c (fr, f) = (Ret (), (fr, f\<lparr>read_fr := (read_fr f)\<lparr>rdf_ptr := p, rdf_size := length (fxb_buf buf),
        rdf_buf_index := int (fxb_index buf)\<rparr>\<rparr>))"
    by (simp add: File_read_fixed file_call_run_def file_async_read_fixed_def op_simps)
  then show ?thesis by (rule file_call_still) (use inv in \<open>simp_all add: file_life_defs\<close>)
next
  case (File_read_suspend h)
  show ?thesis
  proof (cases "of_initiated (read_fr f)")
    case True
    then have "file_call_run E c (fr, f) = (Throw EBUSY, (fr, f))"
      by (simp add: File_read_suspend file_call_run_def read_await_suspend_def op_simps)
    then show ?thesis by (rule file_call_still) (use inv in simp_all)
  next
    case False
    obtain r' where r': "read_await_suspend E h (fr, f) = (Ret (), (fr\<lparr>io_ring := r'\<rparr>,
        f\<lparr>rc_count := rc_count f + 1, read_fr := op_frame_start h (read_fr f)\<rparr>))"
        "issued r' = issued (io_ring fr) @ [read_sqe (rc_this f) (fi_fd f) (read_fr f)]"
      by (rule read_start [OF laws False])
    then have "file_call_run E c (fr, f) = (Ret (), (fr\<lparr>io_ring := r'\<rparr>,
        f\<lparr>rc_count := rc_count f + 1, read_fr := op_frame_start h (read_fr f)\<rparr>))"
      by (simp add: File_read_suspend file_call_run_def)
    then show ?thesis by (rule file_call_ring [OF _ _ _ _ r'(2)]) (use False inv in \<open>simp_all add: file_life_defs\<close>)
  qed
next
  case File_read_resume
  then have "file_call_run E c (fr, f) = (Ret (), (fr, f\<lparr>read_fr := read_frame_reset (read_fr f)\<rparr>))"
    by (simp add: file_call_run_def read_await_resume_def ignoreM_def op_simps)
  then show ?thesis
    by (rule file_call_still) (use inv ok File_read_resume in \<open>simp_all add: file_life_defs file_call_ok_def read_frame_reset_def\<close>)
next
  case File_read_dtor
  then show ?thesis by (intro file_cancel_call [OF laws inv]) (simp add: file_call_run_def read_awaitable_dtor_def with_obj_apply)
qed

subsection \<open>Completions and the destructor\<close>

lemma file_class_open_done:
  assumes inv: "file_inv fr f" and act: "op_frame_active (open_fr f)" and more: "\<not> cqe_f_more c"
  shows "\<exists>h s'. thenM (open_process c) open_handle (fr, f) = (Ret h, s') \<and>
     object_step (file_class E) issued (fr, f) s' 1 (completion_tags F_open c) (file_abandons F_open c f)"
proof -
  let ?t = "opn_temp_fd (open_fr f)"
  have t: "owned_fd_ok fr ?t" "?t \<noteq> fi_fd f" and fd: "fi_fd f = - 1 \<or> owned_fd_ok fr (fi_fd f)"
    and pool: "fd_inv fr" "groups_inv fr"
    using inv act by (simp_all add: file_inv_def frame_ok_def)
  let ?o = "((open_fr f)\<lparr>of_done := True, of_res := cqe_res c, opn_temp_fd := - 1, of_h := None\<rparr>)"
  show ?thesis
  proof (cases "0 \<le> cqe_res c")
    case True
    let ?f = "f\<lparr>open_fr := ?o, fi_fd := ?t\<rparr>"
    have run: "thenM (open_process c) open_handle (fr, f) = (Ret (of_h (open_fr f)), (fr, ?f))"
      using True by (simp add: open_process_def open_handle_def op_frame_process_def op_frame_handle_def op_simps)
    have inv': "file_inv fr ?f" using inv act t by (simp add: file_inv_def op_frame_active_def)
    have tags: "file_active ?f + {#F_open#} = file_active f" using act by (simp add: file_active_def op_frame_active_def)
    have moves: "frame_moves (file_owned f) fr (file_owned ?f) fr (file_abandons F_open c f)"
      using True act t fd inv
      by (auto simp: frame_moves_def file_owned_def file_abandons_def op_frame_active_def owned_fd_ok_def file_inv_def)
    have "object_step (file_class E) issued (fr, f) (fr, ?f) 1 (completion_tags F_open c) (file_abandons F_open c f)"
      using inv' tags moves more by (intro object_stepI [where es = "[]"]) (simp_all add: completion_tags_def)
    then show ?thesis using run by blast
  next
    case False
    let ?fr = "fr\<lparr>fds := insert ?t (fds fr)\<rparr>" and ?f = "f\<lparr>open_fr := ?o\<rparr>"
    have "release_fd ?t fr = (Ret (), ?fr)" using t(1) pool(1) release_fd_ok [of fr ?t] by (simp add: owned_fd_ok_def)
    then have run: "thenM (open_process c) open_handle (fr, f) = (Ret (of_h (open_fr f)), (?fr, ?f))"
      using False t(1) by (simp add: open_process_def open_handle_def op_frame_process_def op_frame_handle_def
          owned_fd_ok_def op_simps)
    have inv': "file_inv ?fr ?f"
      using inv act t fd by (auto simp: file_inv_def op_frame_active_def frame_ok_def fd_inv_def owned_fd_ok_def)
    have tags: "file_active ?f + {#F_open#} = file_active f" using act by (simp add: file_active_def op_frame_active_def)
    have moves: "frame_moves (file_owned f) fr (file_owned ?f) ?fr (file_abandons F_open c f)"
      using False act t fd inv' by (auto simp: frame_moves_def file_owned_def file_abandons_def op_frame_active_def
          owned_fd_ok_def file_inv_def)
    have "object_step (file_class E) issued (fr, f) (?fr, ?f) 1 (completion_tags F_open c) (file_abandons F_open c f)"
      using inv' tags moves more by (intro object_stepI [where es = "[]"]) (simp_all add: completion_tags_def)
    then show ?thesis using run by blast
  qed
qed

lemma file_class_deliver:
  assumes inv: "file_inv fr f" and t: "t \<in># file_active f" and more: "\<not> cqe_f_more c"
  shows "\<exists>h s'. thenM (file_frames_process t c) (file_frames_handle t) (fr, f) = (Ret h, s') \<and>
     object_step (file_class E) issued (fr, f) s' 1 (completion_tags t c) (file_abandons t c f)"
proof -
  consider "t = F_open" "op_frame_active (open_fr f)" | "t = F_write" "op_frame_active (write_fr f)"
    | "t = F_read" "op_frame_active (read_fr f)"
    using t by (auto simp: file_active_def split: if_splits)
  then show ?thesis
  proof cases
    case 1
    then show ?thesis using file_class_open_done [OF inv 1(2) more]
      by (simp add: file_frames_process_def file_frames_handle_def del: thenM_apply)
  next
    case 2
    let ?f = "f\<lparr>write_fr := (write_fr f)\<lparr>of_done := True, of_res := cqe_res c, of_h := None\<rparr>\<rparr>"
    have run: "thenM (file_frames_process t c) (file_frames_handle t) (fr, f) = (Ret (of_h (write_fr f)), (fr, ?f))"
      by (simp add: 2 file_frames_process_def file_frames_handle_def write_process_def write_handle_def op_frame_process_def
          op_frame_handle_def op_simps)
    have "object_step (file_class E) issued (fr, f) (fr, ?f) 1 (completion_tags t c) {}"
      using 2 inv more file_owned_free [OF inv]
      by (intro object_step_stillI) (simp_all add: file_active_def file_inv_def op_frame_defs completion_tags_def)
    then show ?thesis using run 2 by (simp add: file_abandons_def del: thenM_apply)
  next
    case 3
    let ?f = "f\<lparr>read_fr := (read_fr f)\<lparr>of_done := True, of_res := cqe_res c, of_h := None\<rparr>\<rparr>"
    have run: "thenM (file_frames_process t c) (file_frames_handle t) (fr, f) = (Ret (of_h (read_fr f)), (fr, ?f))"
      by (simp add: 3 file_frames_process_def file_frames_handle_def read_process_def read_handle_def op_frame_process_def
          op_frame_handle_def op_simps)
    have "object_step (file_class E) issued (fr, f) (fr, ?f) 1 (completion_tags t c) {}"
      using 3 inv more file_owned_free [OF inv]
      by (intro object_step_stillI) (simp_all add: file_active_def file_inv_def op_frame_defs completion_tags_def)
    then show ?thesis using run 3 by (simp add: file_abandons_def del: thenM_apply)
  qed
qed

lemma file_count_simps [simp]: "file_active (f\<lparr>rc_count := k\<rparr>) = file_active f"
  "file_inv fr (f\<lparr>rc_count := k\<rparr>) = file_inv fr f"
  by (simp_all add: file_life_defs)

lemma file_class_release:
  assumes laws: "uring_laws E issued n" and inv: "file_inv fr f"
  shows "pointer_released (file_class E) issued (fr, f) (intrusive_ptr_release (file_impl_dtor E) (fr, f))"
proof (cases "rc_count f = 1")
  case False
  then have run: "intrusive_ptr_release (file_impl_dtor E) (fr, f) = (Ret False, (fr, f\<lparr>rc_count := rc_count f - 1\<rparr>))"
    by (simp add: release_apply)
  have "\<not> is_last (file_class E) f" using False by (simp add: is_last_def)
  moreover have "object_step (file_class E) issued (fr, f) (fr, f\<lparr>rc_count := rc_count f - 1\<rparr>) (- 1) {#} {}"
    using inv file_owned_free [OF inv] by (intro object_step_stillI) (simp_all add: file_inv_def)
  ultimately show ?thesis by (simp add: pointer_released_def run)
next
  case True
  then have last: "is_last (file_class E) f" by (simp add: is_last_def)
  have pool: "fd_inv fr" "groups_inv fr" using inv by (simp_all add: file_inv_def frame_ok_def)
  show ?thesis
  proof (cases "fi_fd f = - 1")
    case True
    then have "intrusive_ptr_release (file_impl_dtor E) (fr, f) = (Ret True, (fr, f\<lparr>rc_count := 0\<rparr>))"
      using \<open>rc_count f = 1\<close> by (simp add: release_apply file_impl_dtor_def op_simps)
    then show ?thesis
      using last True inv
      by (auto simp: pointer_released_def object_gone_def frame_moves_def file_owned_def file_pending_def file_inv_def
          owned_fd_ok_def intro!: exI [of _ "[]"])
  next
    case False
    then have fd: "owned_fd_ok fr (fi_fd f)" using inv by (simp add: file_inv_def)
    obtain r' where r': "close_owned_fd E (fi_fd f) (fr, f\<lparr>rc_count := 0\<rparr>) =
        (Ret (), (fr\<lparr>io_ring := r', fds := insert (fi_fd f) (fds fr)\<rparr>, f\<lparr>rc_count := 0\<rparr>))"
        "issued r' = issued (io_ring fr) @ [close_sqe (fi_fd f)]"
      by (rule close_owned_fd_ok [OF laws pool(1) fd])
    then have run: "intrusive_ptr_release (file_impl_dtor E) (fr, f) =
        (Ret True, (fr\<lparr>io_ring := r', fds := insert (fi_fd f) (fds fr)\<rparr>, f\<lparr>rc_count := 0, fi_fd := - 1\<rparr>))"
      using \<open>rc_count f = 1\<close> fd by (simp add: release_apply file_impl_dtor_def owned_fd_ok_def op_simps)
    have "frame_moves (file_owned f) fr {} (fr\<lparr>io_ring := r', fds := insert (fi_fd f) (fds fr)\<rparr>) (file_pending f)"
      using False fd pool inv
      by (auto simp: frame_moves_def frame_ok_def file_owned_def file_pending_def file_inv_def fd_inv_def owned_fd_ok_def)
    moreover have "posted [close_sqe (fi_fd f)] = {#}" by (simp add: close_sqe_def)
    ultimately show ?thesis
      using last r'(2) by (auto simp: pointer_released_def object_gone_def run)
  qed
qed

interpretation file_objs: counted "file_class E" issued "uring_laws E issued n" for E :: "'r platform" and issued n
proof (unfold_locales, unfold file_class_simps snd_conv, goal_cases)
  case (1 fr f fr')
  then show ?case
    by (auto simp: file_inv_def frame_rely_def file_owned_def owned_fd_ok_def split: if_splits)
next
  case (2 fr f c) then show ?case by (rule file_class_call)
next
  case (3 fr f t now c) then show ?case by (intro file_class_deliver)
next
  case (4 fr f)
  then show ?case using file_owned_free [of fr f] by (auto simp: add_ref_apply file_inv_def intro!: object_step_stillI)
next
  case (5 fr f) then show ?case by (intro file_class_release)
next
  case (6 fr f) then show ?case by (intro file_class_release)
next
  case (7 fr n p)
  have "file_new_run n p fr = (Ret ((file_impl_new p)\<lparr>rc_count := 1\<rparr>), fr)"
    by (simp add: file_new_run_def construct_def add_ref_apply file_impl_new_def)
  then show ?case
    using 7 by (auto simp: object_made_def file_impl_new_def file_life_defs frame_moves_def op_frame_new_def
        op_frame.extend_def intro!: exI [of _ "[]"])
next
  case (8 fr f t) then show ?case by (auto simp: file_active_def split: if_splits)
next
  case (9 fr f t) show ?case by (cases t) (simp_all add: file_active_def)
qed

end
