(* ===== verification/Runtime.thy ===== *)
theory Runtime
  imports Object_Sum Run_Turns Client_Class Acceptor_Class Timer_Class File_Class
begin

section \<open>All objects, one runtime, one run loop\<close>

text \<open>
  The whole runtime: streams, clients, acceptors, timers and files at their addresses over the shared
  frame, the program's actions on them in any order, the completions of the kernel, and the run loop that
  delivers these by their user data and resumes coroutines. The properties hold for every program that keeps to the
  documented preconditions and every kernel that delivers admissible completions.
\<close>

subsection \<open>The classes of the library\<close>

type_synonym any_object = "stream_impl + client_impl + acceptor_impl + timer_impl + file_impl"
type_synonym any_call = "stream_call + client_call + acceptor_call + timer_call + file_call"
type_synonym any_new = "stream_new + client_new + acceptor_new + unit + unit"

abbreviation (input) "A_stream \<equiv> Inl"
abbreviation (input) "A_client x \<equiv> Inr (Inl x)"
abbreviation (input) "An_acceptor x \<equiv> Inr (Inr (Inl x))"
abbreviation (input) "A_timer x \<equiv> Inr (Inr (Inr (Inl x)))"
abbreviation (input) "A_file x \<equiv> Inr (Inr (Inr (Inr x)))"

definition runtime_class :: "'r platform \<Rightarrow> (nat \<Rightarrow> u8) \<Rightarrow> ('r, any_object, any_call, any_new) object_class" where
  "runtime_class E junk =
     sum_class (stream_class E junk) (sum_class (client_class E junk)
       (sum_class (acceptor_class E) (sum_class (timer_class E) (file_class E))))"

interpretation all_objs: counted "runtime_class E junk" issued "uring_laws E issued n" for E :: "'r platform" and junk issued n
  unfolding runtime_class_def
  by (intro counted_sum stream_objs.counted_axioms client_objs.counted_axioms acceptor_objs.counted_axioms
      timer_objs.counted_axioms file_objs.counted_axioms)

text \<open>
  \<^verbatim>\<open>async_accept\<close> is the step \<open>Accept_resume\<close>, which hands the descriptor to the program, followed by the
  construction of a stream that takes it.
\<close>

lemma accept_resume_makes:
  assumes "accept_raw_await_resume (fr, a) = (Ret (Inr fd), (fr1, a1))" and "stream_new_run E (New_accepted now fd) p fr1 = (Ret st, fr2)"
  shows "accept_await_resume E p now (fr, a) = (Ret (Inr st), (fr2, a1))"
proof -
  obtain y fr' st' where ctor: "thenM (\<lambda>s. stream_impl_ctor E p now fd (fst s)) intrusive_ptr_add_ref (fr1, stream_fields p now) =
      (y, (fr', st'))"
    by (metis surj_pair)
  have "make_stream E p now fd (fr1, a1) = (Ret st, (fr2, a1))"
    using assms(2) ctor
    by (cases y) (simp_all add: make_stream_def stream_new_run_def stream_from_fd_def construct_def bindM_def retM_def
        split: unit.split del: thenM_apply)
  then show ?thesis using assms(1) by (simp add: accept_await_resume_def bindM_def retM_def)
qed

subsection \<open>The run loop over the heap\<close>

text \<open>
  What a coroutine does between two suspensions: actions on the objects, each only when it is permitted
  (what it throws is caught), spawning a task, and ending one. Which steps it takes may depend on everything it can see.
\<close>

datatype ('c, 'n) co_step = Act "('c, 'n) action" | Spawn handle | Finish handle

type_synonym ('r, 'o, 'c, 'n) coroutine = "handle \<Rightarrow> ('r, 'o) rt_state \<Rightarrow> ('c, 'n) co_step list"

definition co_step_run :: "('r, 'o, 'c, 'n) object_class \<Rightarrow> ('c, 'n) co_step \<Rightarrow> ('r, 'o) rt_state \<Rightarrow> ('r, 'o) rt_state" where
  "co_step_run K c s =
     (case c of
        Act a \<Rightarrow> if act_ok K a s then snd (rt_act K a s) else s
      | Spawn h \<Rightarrow> ((fst s)\<lparr>tasks := insert h (tasks (fst s)), run_queue := run_queue (fst s) @ [h]\<rparr>, snd s)
      | Finish h \<Rightarrow> ((fst s)\<lparr>tasks := tasks (fst s) - {h}\<rparr>, snd s))"

definition rt_program :: "('r, 'o, 'c, 'n) object_class \<Rightarrow> ('c, 'n) co_step list \<Rightarrow> (('r, 'o) rt_state, unit) op" where
  "rt_program K cs s = (Ret (), fold (co_step_run K) cs s)"

text \<open>
  The pointer that \<^verbatim>\<open>intrusive_ptr( p, false )\<close> adopts: the reference of the completion becomes one of the
  program's pointers, the count stays.
\<close>

definition adopt :: "addr \<Rightarrow> ('r, 'o) rt_state \<Rightarrow> ('r, 'o) rt_state" where
  "adopt p s = (fst s, (snd s)\<lparr>rt_ext := (rt_ext (snd s))(p := rt_ext (snd s) p + 1)\<rparr>)"

text \<open>
  What the run loop reaches through the user data of a completion and the handles of coroutines.
  Destroying the tasks that are left runs the destructors in their coroutine frames, the steps \<open>fin\<close>.
\<close>

definition rt_objects ::
  "('r, 'o, 'c, 'n) object_class \<Rightarrow> int \<Rightarrow> ('r, 'o, 'c, 'n) coroutine \<Rightarrow> (('r, 'o) rt_state \<Rightarrow> ('c, 'n) co_step list) \<Rightarrow>
     ('r, 'o runtime) objects" where
  "rt_objects K now prog fin = \<lparr>
     ob_process = (\<lambda>ud c. case ud of UD_null \<Rightarrow> no_object | UD p t \<Rightarrow> rt_exec p 0 (oc_cqe_out K t c) (oc_process K now t c)),
     ob_handle = (\<lambda>ud. case ud of UD_null \<Rightarrow> no_object | UD p t \<Rightarrow> rt_exec p 0 (\<lambda>_. {}) (oc_handle K t)),
     ob_use_count = (\<lambda>ud w. case ud of UD_null \<Rightarrow> 0
       | UD p t \<Rightarrow> (case rt_heap w p of None \<Rightarrow> 0 | Some ob \<Rightarrow> oc_count K ob)),
     ob_release = (\<lambda>ud. case ud of UD_null \<Rightarrow> no_object | UD p t \<Rightarrow> (\<lambda>s. rt_free p (oc_left K) (oc_release K) (adopt p s))),
     co_resume = (\<lambda>h s. rt_program K (prog h s) s),
     clear_map = (\<lambda>s. rt_program K (fin s) ((fst s)\<lparr>tasks := {}\<rparr>, snd s)), pipe_enter = retM (), pipe_leave = retM ()\<rparr>"

definition rt_adm :: "('r, 'o, 'c, 'n) object_class \<Rightarrow> int \<Rightarrow> cqe \<Rightarrow> ('r, 'o) rt_state \<Rightarrow> bool" where
  "rt_adm K now c s =
     (case cqe_data c of UD_null \<Rightarrow> True | UD p t \<Rightarrow> t \<in># active_at K s p \<and> rt_cqe_ok K now p t c s)"

text \<open>A coroutine spawns a bounded number of times: only coroutines of smaller rank.\<close>

definition spawns_down :: "(handle \<Rightarrow> nat) \<Rightarrow> ('r, 'o, 'c, 'n) coroutine \<Rightarrow> bool" where
  "spawns_down rank prog = (\<forall>h s k. Spawn k \<in> set (prog h s) \<longrightarrow> rank k < rank h)"

lemma rt_exec_then:
  "thenM (rt_exec p k out m) (rt_exec p 0 (\<lambda>_. {}) m') = rt_exec p k out (thenM m m')"
  by (rule ext) (auto simp: rt_exec_def thenM_def bindM_def split: option.splits prod.splits outcome.splits)

lemma rt_exec_adopt:
  "rt_exec p 1 out m s = (x, s1) \<Longrightarrow> rt_heap (snd s) p \<noteq> None \<Longrightarrow> \<exists>s0. rt_exec p 0 out m s = (x, s0) \<and> adopt p s0 = s1"
  by (auto simp: rt_exec_def adopt_def split: option.splits prod.splits)

text \<open>A completion through the loop is the step \<open>completed\<close>, then the release of the adopted pointer.\<close>

lemma loop_deliver:
  assumes K: "counted K issued ok" and "ok" and reach: "rt_reach K issued U s pend" and "cqe_data c \<noteq> UD_null"
    and adm: "rt_adm K now c s"
  shows "\<exists>k s' pend'. deliver_one (rt_objects K now prog fin) c s =
      (Ret (case exception_ptr (fst s) of Some x \<Rightarrow> Inl x | None \<Rightarrow> Inr k), s') \<and>
      rt_reach K issued U s' pend' \<and> sched (fst s') = sched (fst s)"
proof -
  let ?R = "rt_objects K now prog fin"
  have inv: "rt_inv K U s" and tags: "\<And>q. tags_of q pend = active_at K s q"
    using counted.reach_ok [OF K reach \<open>ok\<close>] by simp_all
  obtain p t where ud: "cqe_data c = UD p t" using assms(4) by (cases "cqe_data c") auto
  have t: "t \<in># active_at K s p" "rt_cqe_ok K now p t c s" using adm ud by (simp_all add: rt_adm_def)
  then have pend: "UD p t \<in># pend" by (simp add: tags_of_mem tags)
  obtain fr w where s: "s = (fr, w)" by (cases s)
  obtain ob where ob: "rt_heap w p = Some ob" "t \<in># oc_active K ob"
    using t(1) s by (auto simp: active_at_def split: option.splits)
  have "oc_count K ob = int (rt_ext w p) + int (size (oc_active K ob))"
    using shared.slot_surplus(2) [OF counted.axioms(1) [OF K], of U fr w p ob] inv s ob(1) by simp
  moreover have "0 < size (oc_active K ob)" using ob(2) by (metis empty_iff nonempty_has_size set_mset_empty)
  ultimately have alive: "with_obj (\<lambda>w. assertM (ob_use_count ?R (cqe_data c) w \<ge> 1)) s = (Ret (), s)"
    using s ob(1) ud by (simp add: with_obj_def rt_objects_def op_simps)
  obtain h s1 where s1: "rt_deliver K now p t c s = (Ret h, s1)" "rt_step K issued U s s1 p (completion_tags t c)"
      "rt_ext (snd s1) p = rt_ext (snd s) p + 1"
    using counted.deliver_step [OF K \<open>ok\<close> inv t] by blast
  obtain es1 where es1: "issued (io_ring (fst s1)) = issued (io_ring (fst s)) @ es1" using s1(2) by (auto simp: rt_step_def)
  let ?pend1 = "pend - image_mset (UD p) (completion_tags t c) + posted es1"
  have reach1: "rt_reach K issued U s1 ?pend1" by (rule rt_reach.completed [OF reach pend t(2) s1(1) es1])
  have inv1: "rt_inv K U s1" and k1: "sched (fst s1) = sched (fst s)" using s1(2) by (simp_all add: rt_step_def)
  obtain s0 where s0: "rt_exec p 0 (oc_cqe_out K t c) (thenM (oc_process K now t c) (oc_handle K t)) s = (Ret h, s0)"
      "adopt p s0 = s1"
    using rt_exec_adopt [of p "oc_cqe_out K t c" "thenM (oc_process K now t c) (oc_handle K t)" s "Ret h" s1] s1(1) ob(1) s
    by (auto simp: rt_deliver_def)
  have run: "thenM (ob_process ?R (cqe_data c) c) (ob_handle ?R (cqe_data c)) s = (Ret h, s0)"
    using s0(1) ud by (simp add: rt_objects_def rt_exec_then del: thenM_apply)
  obtain fr1 w1 where w1: "s1 = (fr1, w1)" by (cases s1)
  have ext: "0 < rt_ext w1 p" using s1(3) w1 by simp
  have "slot_ok K p fr1 (rt_heap w1 p) (rt_ext w1 p)" using inv1 w1 by (simp add: rt_inv_def)
  then obtain ob1 where ob1: "rt_heap w1 p = Some ob1" using ext by (auto simp: slot_ok_def split: option.splits)
  then have permitted: "act_ok K (Release p) s1" using ext w1 by (simp add: act_ok_def held_def)
  obtain y s2 where s2: "rt_act K (Release p) s1 = (y, s2)" "act_result (Release p :: ('c, 'd) action) y" "rt_step K issued U s1 s2 p {#}"
    using counted.act_step [OF K \<open>ok\<close> inv1 permitted] by (auto simp: act_target_def)
  obtain es2 where es2: "issued (io_ring (fst s2)) = issued (io_ring (fst s1)) @ es2" using s2(3) by (auto simp: rt_step_def)
  have reach2: "rt_reach K issued U s2 (?pend1 + posted es2)" by (rule rt_reach.acted [OF reach1 permitted s2(1) es2])
  have "y = Ret ()"
    using counted.releases(1) [OF K \<open>ok\<close> inv1, of p] permitted s2(1) by (simp add: act_ok_def)
  then have rel: "ob_release ?R (cqe_data c) s0 = (Ret (), s2)" using s2(1) ud s0(2) by (simp add: rt_objects_def rt_act_def)
  have "deliver_one ?R c s = (Ret (case exception_ptr (fst s0) of Some x \<Rightarrow> Inl x | None \<Rightarrow> Inr h), s2)"
    unfolding deliver_one_def thenM_Ret [where m = "with_obj _", OF alive] run
    by (simp add: thenM_Ret [where m = "ob_release ?R (cqe_data c)", OF rel] retM_apply)
  moreover have "exception_ptr (fst s0) = exception_ptr (fst s)" using k1 s0(2) by (auto simp: sched_def adopt_def)
  moreover have "sched (fst s2) = sched (fst s)" using s2(3) k1 by (simp add: rt_step_def)
  ultimately show ?thesis using reach2 by auto
qed

lemma loop_env:
  assumes "counted K issued ok" and "ok" and reach: "rt_reach K issued U (fr, w) pend"
    and "fd_inv fr' = fd_inv fr" and "groups_inv fr' = groups_inv fr" and "params fr' = params fr"
    and "buf_rings fr' = buf_rings fr" and "fds fr' = fds fr"
  shows "rt_reach K issued U (fr', w) pend"
proof -
  have "rt_inv K U (fr, w)" using counted.reach_ok [OF assms(1) reach \<open>ok\<close>] by simp
  then have "env_step fr fr'" using assms(4-) by (simp add: env_step_def rt_inv_def frame_ok_def groups_kept_def)
  then show ?thesis by (rule rt_reach.interfered [OF reach])
qed

lemma loop_step:
  assumes K: "counted K issued ok" and "ok" and reach: "rt_reach K issued U s pend"
  shows "\<exists>pend'. rt_reach K issued U (co_step_run K c s) pend' \<and> exception_ptr (fst (co_step_run K c s)) = exception_ptr (fst s) \<and>
     params (fst (co_step_run K c s)) = params (fst s) \<and>
     run_queue (fst (co_step_run K c s)) = run_queue (fst s) @ (case c of Spawn h \<Rightarrow> [h] | _ \<Rightarrow> [])"
proof (cases c)
  case (Act a)
  show ?thesis
  proof (cases "act_ok K a s")
    case True
    have inv: "rt_inv K U s" using counted.reach_ok [OF K reach \<open>ok\<close>] by simp
    obtain x s1 where s1: "rt_act K a s = (x, s1)" "rt_step K issued U s s1 (act_target a) {#}"
      using counted.act_step [OF K \<open>ok\<close> inv True] by blast
    obtain es where "issued (io_ring (fst s1)) = issued (io_ring (fst s)) @ es" using s1(2) by (auto simp: rt_step_def)
    from rt_reach.acted [OF reach True s1(1) this]
    show ?thesis using s1 True Act by (auto simp: co_step_run_def rt_step_def sched_def)
  next
    case False
    then show ?thesis using reach Act by (auto simp: co_step_run_def)
  qed
next
  case (Spawn h)
  have "rt_reach K issued U ((fst s)\<lparr>tasks := insert h (tasks (fst s)), run_queue := run_queue (fst s) @ [h]\<rparr>, snd s) pend"
    by (rule loop_env [OF K \<open>ok\<close>, where fr = "fst s"]) (use reach in \<open>simp_all add: fd_inv_def groups_inv_def\<close>)
  then show ?thesis using Spawn by (auto simp: co_step_run_def)
next
  case (Finish h)
  have "rt_reach K issued U ((fst s)\<lparr>tasks := tasks (fst s) - {h}\<rparr>, snd s) pend"
    by (rule loop_env [OF K \<open>ok\<close>, where fr = "fst s"]) (use reach in \<open>simp_all add: fd_inv_def groups_inv_def\<close>)
  then show ?thesis using Finish by (auto simp: co_step_run_def)
qed

lemma loop_program:
  assumes K: "counted K issued ok" and "ok"
  shows "rt_reach K issued U s pend \<Longrightarrow>
     \<exists>s' pend' new. rt_program K cs s = (Ret (), s') \<and> rt_reach K issued U s' pend' \<and>
       exception_ptr (fst s') = exception_ptr (fst s) \<and> params (fst s') = params (fst s) \<and>
       run_queue (fst s') = run_queue (fst s) @ new \<and> set new \<subseteq> {h. Spawn h \<in> set cs}"
proof (induction cs arbitrary: s pend)
  case Nil
  then show ?case by (auto simp: rt_program_def)
next
  case (Cons c cs)
  let ?s = "co_step_run K c s"
  obtain pend1 where one: "rt_reach K issued U ?s pend1" "exception_ptr (fst ?s) = exception_ptr (fst s)"
      "params (fst ?s) = params (fst s)" "run_queue (fst ?s) = run_queue (fst s) @ (case c of Spawn h \<Rightarrow> [h] | _ \<Rightarrow> [])"
    using loop_step [OF K \<open>ok\<close> Cons.prems] by blast
  obtain s' pend' new where s': "rt_program K cs ?s = (Ret (), s')" "rt_reach K issued U s' pend'"
      "exception_ptr (fst s') = exception_ptr (fst ?s)" "params (fst s') = params (fst ?s)"
      "run_queue (fst s') = run_queue (fst ?s) @ new" "set new \<subseteq> {h. Spawn h \<in> set cs}"
    using Cons.IH [OF one(1)] by blast
  let ?new = "(case c of Spawn h \<Rightarrow> [h] | _ \<Rightarrow> []) @ new"
  have "rt_program K (c # cs) s = (Ret (), s')" using s'(1) by (simp add: rt_program_def)
  moreover have "set ?new \<subseteq> {h. Spawn h \<in> set (c # cs)}" using s'(6) by (auto split: co_step.splits)
  ultimately show ?case using s' one(2-4) by (intro exI [of _ s'] exI [of _ pend'] exI [of _ ?new]) auto
qed

text \<open>The loop over all objects, whatever its coroutines do, only makes the steps of \<open>rt_reach\<close>.\<close>

definition rt_good :: "'r platform \<Rightarrow> (nat \<Rightarrow> u8) \<Rightarrow> ('r \<Rightarrow> sqe list) \<Rightarrow> int set \<Rightarrow> ('r, any_object) rt_state \<Rightarrow> bool" where
  "rt_good E junk issued U s = (\<exists>pend. rt_reach (runtime_class E junk) issued U s pend)"

interpretation runtime_loop: spawners "rt_objects (runtime_class E junk) now prog fin"
    "\<lambda>s. uring_laws E issued n \<and> spawns_down rank prog \<and> rt_good E junk issued U s" "rt_adm (runtime_class E junk) now" rank
proof
  fix s :: "('a, any_object) rt_state" and c
  assume a: "uring_laws E issued n \<and> spawns_down rank prog \<and> rt_good E junk issued U s" "cqe_data c \<noteq> UD_null"
    "rt_adm (runtime_class E junk) now c s"
  then obtain pend where "rt_reach (runtime_class E junk) issued U s pend" by (auto simp: rt_good_def)
  then show "\<exists>k s'. deliver_one (rt_objects (runtime_class E junk) now prog fin) c s =
      (Ret (case exception_ptr (fst s) of Some x \<Rightarrow> Inl x | None \<Rightarrow> Inr k), s') \<and>
      (uring_laws E issued n \<and> spawns_down rank prog \<and> rt_good E junk issued U s') \<and> sched (fst s') = sched (fst s)"
    using loop_deliver [OF all_objs.counted_axioms, of E issued n junk U s pend c now prog fin] a unfolding rt_good_def by blast
next
  fix fr :: "'a io_context_frame" and w :: "any_object runtime" and r
  assume a: "uring_laws E issued n \<and> spawns_down rank prog \<and> rt_good E junk issued U (fr, w)"
  then obtain pend where "rt_reach (runtime_class E junk) issued U (fr, w) pend" by (auto simp: rt_good_def)
  from loop_env [OF all_objs.counted_axioms _ this, of n "fr\<lparr>io_ring := r\<rparr>"]
  show "uring_laws E issued n \<and> spawns_down rank prog \<and> rt_good E junk issued U (fr\<lparr>io_ring := r\<rparr>, w)"
    using a by (auto simp: rt_good_def fd_inv_def groups_inv_def)
next
  fix s :: "('a, any_object) rt_state" and h
  assume a: "uring_laws E issued n \<and> spawns_down rank prog \<and> rt_good E junk issued U s"
  then obtain pend where reach: "rt_reach (runtime_class E junk) issued U s pend" by (auto simp: rt_good_def)
  have down: "\<forall>k. Spawn k \<in> set (prog h s) \<longrightarrow> rank k < rank h" using a unfolding spawns_down_def by blast
  from loop_program [OF all_objs.counted_axioms _ reach, of n "prog h s"] a
  obtain s' pend' new where "rt_program (runtime_class E junk) (prog h s) s = (Ret (), s')"
      "rt_reach (runtime_class E junk) issued U s' pend'" "exception_ptr (fst s') = exception_ptr (fst s)"
      "params (fst s') = params (fst s)" "run_queue (fst s') = run_queue (fst s) @ new"
      "set new \<subseteq> {k. Spawn k \<in> set (prog h s)}"
    by blast
  moreover from this(6) have "\<forall>k \<in> set new. rank k < rank h" using down by blast
  ultimately show "\<exists>s' new. co_resume (rt_objects (runtime_class E junk) now prog fin) h s = (Ret (), s') \<and>
      (uring_laws E issued n \<and> spawns_down rank prog \<and> rt_good E junk issued U s') \<and>
      exception_ptr (fst s') = exception_ptr (fst s) \<and> params (fst s') = params (fst s) \<and>
      run_queue (fst s') = run_queue (fst s) @ new \<and> (\<forall>k \<in> set new. rank k < rank h)"
    using a by (intro exI [of _ s'] exI [of _ new]) (auto simp: rt_objects_def rt_good_def)
next
  fix fr :: "'a io_context_frame" and w :: "any_object runtime" and q
  assume a: "uring_laws E issued n \<and> spawns_down rank prog \<and> rt_good E junk issued U (fr, w)"
  then obtain pend where "rt_reach (runtime_class E junk) issued U (fr, w) pend" by (auto simp: rt_good_def)
  from loop_env [OF all_objs.counted_axioms _ this, of n "fr\<lparr>run_queue := q\<rparr>"]
  show "uring_laws E issued n \<and> spawns_down rank prog \<and> rt_good E junk issued U (fr\<lparr>run_queue := q\<rparr>, w)"
    using a by (auto simp: rt_good_def fd_inv_def groups_inv_def)
qed

subsection \<open>An example\<close>

text \<open>
  A stream around descriptor 1, which the program was handed before, and a timer with a coroutine
  that waits; the pool has descriptor 0.
\<close>

definition ex_rt_frame :: "list_ring io_context_frame" where
  "ex_rt_frame = ex_frame\<lparr>fds := {0}\<rparr>"

definition ex_rt_timer :: timer_impl where
  "ex_rt_timer = (timer_impl_new 320)\<lparr>rc_count := 2,
     timer_fr := (timer_fr (timer_impl_new 320))\<lparr>tm_h := Some 4096, tm_initiated := True\<rparr>\<rparr>"

definition ex_rt :: "(list_ring, any_object) rt_state" where
  "ex_rt = (ex_rt_frame\<lparr>io_ring := \<lparr>lr_free = 2, lr_issued = [timeout_sqe 640, timer_sqe 320], lr_cq = []\<rparr>\<rparr>,
     \<lparr>rt_heap = [640 \<mapsto> A_stream (stream_made 640 5 1), 320 \<mapsto> A_timer ex_rt_timer],
      rt_ext = (\<lambda>_. 0)(640 := 1, 320 := 1), rt_loose = {}\<rparr>)"

lemmas ex_rt_defs = ex_rt_def ex_rt_timer_def ex_rt_frame_def ex_frame_def empty_ring_def default_params_def list_platform_def

lemma ex_rt_reach:
  "rt_reach (runtime_class (list_platform 4) (\<lambda>_. 0)) lr_issued {0, 1} ex_rt {#UD 640 F_timeout, UD 320 F_timer#}"
proof -
  let ?K = "runtime_class (list_platform 4) (\<lambda>_. 0)"
  let ?s0 = "(ex_rt_frame, \<lparr>rt_heap = (\<lambda>_. None), rt_ext = (\<lambda>_. 0), rt_loose = {1}\<rparr>)"
  let ?s1 = "(ex_rt_frame\<lparr>io_ring := \<lparr>lr_free = 3, lr_issued = [timeout_sqe 640], lr_cq = []\<rparr>\<rparr>,
     \<lparr>rt_heap = [640 \<mapsto> A_stream (stream_made 640 5 1)], rt_ext = (\<lambda>_. 0)(640 := 1), rt_loose = {}\<rparr>)"
  let ?s2 = "(ex_rt_frame\<lparr>io_ring := \<lparr>lr_free = 3, lr_issued = [timeout_sqe 640], lr_cq = []\<rparr>\<rparr>,
     \<lparr>rt_heap = [640 \<mapsto> A_stream (stream_made 640 5 1), 320 \<mapsto> A_timer ((timer_impl_new 320)\<lparr>rc_count := 1\<rparr>)],
      rt_ext = (\<lambda>_. 0)(640 := 1, 320 := 1), rt_loose = {}\<rparr>)"
  have "num_files (params ex_frame) = 2" by (simp add: ex_frame_def default_params_def)
  then have "frame_ok ex_rt_frame"
    using ex_frame_inv(1,3) by (simp add: frame_ok_def fd_inv_def groups_inv_def ex_rt_frame_def)
  then have "rt_reach ?K lr_issued {0, 1} ?s0 {#}"
    by (intro rt_reach.start) (simp_all add: fd_range_def, simp_all add: ex_rt_frame_def ex_frame_def default_params_def insert_commute)
  moreover have "act_ok ?K (Make 640 (Inl (New_wrapped 5 1))) ?s0" by (simp add: act_ok_def runtime_class_def)
  moreover have "rt_act ?K (Make 640 (Inl (New_wrapped 5 1))) ?s0 = (Ret (), ?s1)"
    by (simp add: rt_act_def rt_new_def runtime_class_def stream_new_run_def stream_from_fd_def construct_def
        stream_impl_ctor_def stream_init_def issue_one_def reserve_sqes_def put_sqe_def stream_made_def stream_fields_def
        op_simps ex_rt_defs)
  ultimately have r1: "rt_reach ?K lr_issued {0, 1} ?s1 ({#} + posted [timeout_sqe 640])"
    by (rule rt_reach.acted) (simp add: ex_rt_defs)
  have ok2: "act_ok ?K (Make 320 (Inr (Inr (Inr (Inl ()))))) ?s1" by (simp add: act_ok_def runtime_class_def)
  have run2: "rt_act ?K (Make 320 (Inr (Inr (Inr (Inl ()))))) ?s1 = (Ret (), ?s2)"
    by (simp add: rt_act_def rt_new_def runtime_class_def timer_new_run_def construct_def add_ref_apply timer_impl_new_def op_simps)
  from rt_reach.acted [OF r1 ok2 run2, of "[]"]
  have r2: "rt_reach ?K lr_issued {0, 1} ?s2 ({#} + posted [timeout_sqe 640] + posted [])" by simp
  let ?c = "Inr (Inr (Inr (Inl (Timer_suspend 4096)))) :: any_call"
  have ok3: "act_ok ?K (Do 320 ?c) ?s2" by (simp add: act_ok_def runtime_class_def held_def)
  have run3: "rt_act ?K (Do 320 ?c) ?s2 = (Ret (), ex_rt)"
    by (simp add: rt_act_def rt_exec_def runtime_class_def either_def timer_call_run_def timer_await_suspend_def get_sqe_def
        timer_impl_new_def intrusive_ptr_add_ref_def op_simps ex_rt_defs)
  from rt_reach.acted [OF r2 ok3 run3, of "[timer_sqe 320]"]
  show ?thesis by (simp add: ex_rt_def add_mset_commute)
qed

subsection \<open>Properties\<close>

text \<open>
  C1: reference counts are exact for all objects at once: in every state that the actions of the program,
  the completions of the kernel and whatever else uses the runtime can reach, there is an object at an address
  exactly as long as the program has a pointer to it or a completion for it is outstanding. An object knows its address, the
  frames it reports as waiting are exactly those whose completions are outstanding, and its count is
  the number of the program's pointers plus the number of these completions.
\<close>

theorem runtime_counts_exact:
  assumes "rt_reach (runtime_class E junk) issued U (fr, w) pend" and "uring_laws E issued n"
  shows "case rt_heap w p of
      None \<Rightarrow> rt_ext w p = 0 \<and> tags_of p pend = {#}
    | Some ob \<Rightarrow> (0 < rt_ext w p \<or> tags_of p pend \<noteq> {#}) \<and> oc_this (runtime_class E junk) ob = p \<and> oc_active (runtime_class E junk) ob = tags_of p pend \<and>
        oc_count (runtime_class E junk) ob = int (rt_ext w p) + int (size (tags_of p pend))"
proof -
  have inv: "rt_inv (runtime_class E junk) U (fr, w)" and "tags_of p pend = active_at (runtime_class E junk) (fr, w) p"
    using all_objs.reach_ok [OF assms] by simp_all
  moreover have "slot_ok (runtime_class E junk) p fr (rt_heap w p) (rt_ext w p)" using inv by (simp add: rt_inv_def)
  ultimately show ?thesis by (cases "rt_heap w p"; cases "rt_ext w p = 0") (auto simp: slot_ok_def active_at_def)
qed

theorem runtime_counts_exact_witness:
  "rt_ext (snd ex_rt) 5 = 0 \<and> oc_count (runtime_class (list_platform 4) (\<lambda>_. 0)) (the (rt_heap (snd ex_rt) 640)) = 2"
proof
  note reach = ex_rt_reach [unfolded ex_rt_def]
  show "rt_ext (snd ex_rt) 5 = 0" using runtime_counts_exact [OF reach ex_laws, of 5] by (simp add: ex_rt_def)
  show "oc_count (runtime_class (list_platform 4) (\<lambda>_. 0)) (the (rt_heap (snd ex_rt) 640)) = 2"
    using runtime_counts_exact [OF reach ex_laws, of 640] by (simp add: ex_rt_def points_to_def)
qed



text \<open>The frames of an object, by its class.\<close>

fun has_frame :: "any_object \<Rightarrow> frame_tag \<Rightarrow> bool" where
  "has_frame (A_stream st) t = (t \<in> {F_cancel, F_timeout_cancel, F_close, F_shutdown, F_send, F_recv, F_timeout})"
| "has_frame (A_client cl) t =
     (t \<in> {F_cancel, F_timeout_cancel, F_close, F_shutdown, F_send, F_recv, F_timeout, F_socket, F_connect})"
| "has_frame (An_acceptor a) t = (t \<in> {F_accept, F_acceptor_cancel, F_acceptor_close})"
| "has_frame (A_timer tm) t = (t \<in> {F_timer, F_timer_cancel})"
| "has_frame (A_file f) t = (t \<in> {F_open, F_write, F_read})"

lemma has_frame_class: "has_frame ob t = (t \<in> oc_frames (runtime_class E junk) ob)"
  by (cases "(ob, t)" rule: has_frame.cases) (simp_all add: runtime_class_def)







text \<open>
  C6: the run loop serves all objects together: started in a reachable state with coroutines that do
  anything permitted, spawn a bounded number of times and end tasks, and with a kernel that posts batches of admissible
  completions, any number of turns of the loop ends normally, without an exception, a failed
  assertion or a bad access, in a state that is again reachable, so that the properties above hold
  there too; and \<open>run_loop\<close> either has returned there, without tasks, or goes on from there.
\<close>

theorem runtime_turns_ok:
  assumes "rt_reach (runtime_class E junk) issued U s pend" and "uring_laws E issued n" and "spawns_down rank prog"
    and "exception_ptr (fst s) = None" and "tasks (fst s) \<noteq> {}"
    and "turns_adm k E (rt_objects (runtime_class E junk) now prog fin) (rt_adm (runtime_class E junk) now) s"
  shows "\<exists>s' pend'. run_turns k E (rt_objects (runtime_class E junk) now prog fin) s = Some (Ret None, s') \<and>
     rt_reach (runtime_class E junk) issued U s' pend' \<and>
     run_loop E (rt_objects (runtime_class E junk) now prog fin) s =
       (if tasks (fst s') = {} then Some (Ret None, s') else run_loop E (rt_objects (runtime_class E junk) now prog fin) s')"
proof -
  have good: "uring_laws E issued n \<and> spawns_down rank prog \<and> rt_good E junk issued U s"
    using assms(1-3) by (auto simp: rt_good_def)
  from runtime_loop.turns_ok [OF good assms(4-6)] show ?thesis unfolding rt_good_def by blast
qed

text \<open>The example with a task whose coroutine waits for the timer, when the timer has expired.\<close>

definition ex_rt_busy :: "(list_ring, any_object) rt_state" where
  "ex_rt_busy = ((fst ex_rt)\<lparr>tasks := {4096}, io_ring := \<lparr>lr_free = 2, lr_issued = [timeout_sqe 640, timer_sqe 320],
     lr_cq = [\<lparr>cqe_res = - ETIME, cqe_flags = 0, cqe_data = UD 320 F_timer\<rparr>]\<rparr>\<rparr>, snd ex_rt)"

definition ex_rt_prog :: "(list_ring, any_object, any_call, any_new) coroutine" where
  "ex_rt_prog h s = [Act (Do 320 (Inr (Inr (Inr (Inl Timer_resume))))), Act (Drop 320), Act (Drop 640), Finish h]"

lemma ex_rt_busy_reach:
  "rt_reach (runtime_class (list_platform 4) (\<lambda>_. 0)) lr_issued {0, 1} ex_rt_busy {#UD 640 F_timeout, UD 320 F_timer#}"
  unfolding ex_rt_busy_def
  by (rule loop_env [OF all_objs.counted_axioms ex_laws, where fr = "fst ex_rt"])
    (use ex_rt_reach in \<open>simp_all add: fd_inv_def groups_inv_def\<close>)

theorem runtime_turns_ok_witness:
  "\<exists>s' pend'. run_turns 1 (list_platform 4) (rt_objects (runtime_class (list_platform 4) (\<lambda>_. 0)) 1 ex_rt_prog (\<lambda>_. [])) ex_rt_busy =
       Some (Ret None, s') \<and> rt_reach (runtime_class (list_platform 4) (\<lambda>_. 0)) lr_issued {0, 1} s' pend'"
proof -
  let ?R = "rt_objects (runtime_class (list_platform 4) (\<lambda>_. 0)) 1 ex_rt_prog (\<lambda>_. [])"
  let ?c = "\<lparr>cqe_res = - ETIME, cqe_flags = 0, cqe_data = UD 320 F_timer\<rparr>"
  let ?r = "io_uring_submit_and_wait (list_platform 4) (io_ring (fst ex_rt_busy))"
  have queue: "run_queue_loop ?R ex_rt_busy = Some (Ret None, ex_rt_busy)"
    by (subst run_queue_loop.simps) (simp add: ex_rt_busy_def ex_rt_defs)
  have "snd (submit_and_wait (list_platform 4) s) =
      ((fst s)\<lparr>io_ring := io_uring_submit_and_wait (list_platform 4) (io_ring (fst s))\<rparr>, snd s)"
    for s :: "(list_ring, any_object) rt_state"
    by (cases s) (simp add: submit_and_wait_def on_ring_def)
  note wait = this [of ex_rt_busy]
  have cq: "cq_ready (list_platform 4) ?r = [?c]" by (simp add: list_platform_def ex_rt_busy_def)
  have adm: "rt_adm (runtime_class (list_platform 4) (\<lambda>_. 0)) 1 ?c ((fst ex_rt_busy)\<lparr>io_ring := ?r\<rparr>, snd ex_rt_busy)"
    by (simp add: rt_adm_def active_at_def rt_cqe_ok_def runtime_class_def ex_rt_busy_def ex_rt_def ex_rt_timer_def timer_impl_new_def
        timer_life_defs cqe_f_more_def)
  have fits: "cq_entries (params (fst ex_rt_busy)) = 4096" by (simp add: ex_rt_busy_def ex_rt_defs)
  have "turns_adm 1 (list_platform 4) ?R (rt_adm (runtime_class (list_platform 4) (\<lambda>_. 0)) 1) ex_rt_busy"
    using adm by (simp add: queue wait cq fits Let_def split: prod.split outcome.split option.split)
  moreover have "spawns_down (\<lambda>_. 0) ex_rt_prog" by (simp add: spawns_down_def ex_rt_prog_def)
  moreover have "exception_ptr (fst ex_rt_busy) = None" "tasks (fst ex_rt_busy) \<noteq> {}"
    by (simp_all add: ex_rt_busy_def ex_rt_defs)
  ultimately show ?thesis using runtime_turns_ok [OF ex_rt_busy_reach ex_laws, of "\<lambda>_. 0" ex_rt_prog 1 1 "\<lambda>_. []"] by blast
qed

end
