(* ===== verification/Shutdown.thy ===== *)
theory Shutdown
  imports Runtime
begin

section \<open>Leaving the run loop\<close>

text \<open>
  The guard that ends \<^verbatim>\<open>run\<close> and \<^verbatim>\<open>~io_context\<close> over all objects: it destroys the tasks that are left
  and releases the object of every completion in the queue without processing it. The
  accounting of the heap goes on with the frames that have been released in this way taken out of the
  waiting ones, so that the guard is safe and exact; what it leaves behind is not always so.
\<close>

subsection \<open>Releasing adds no completions\<close>

text \<open>
  A kernel that posts nothing while the guard runs: issuing and submitting entries leaves the completions that are
  ready.
\<close>

definition quiet :: "'r platform \<Rightarrow> bool" where
  "quiet E =
     ((\<forall>r e r'. io_uring_get_sqe E r e = Some r' \<longrightarrow> cq_ready E r' = cq_ready E r) \<and>
      (\<forall>r. cq_ready E (io_uring_submit_and_get_events E r) = cq_ready E r) \<and>
      (\<forall>r k. cq_ready E (io_uring_cq_advance E r k) = drop k (cq_ready E r)))"

definition cq_kept :: "'r platform \<Rightarrow> ('r io_context_frame \<times> 'o, 'a) op \<Rightarrow> bool" where
  "cq_kept E m = (\<forall>s. cq_ready E (io_ring (fst (snd (m s)))) = cq_ready E (io_ring (fst s)))"

lemma cq_keptD: "cq_kept E m \<Longrightarrow> m s = (x, s') \<Longrightarrow> cq_ready E (io_ring (fst s')) = cq_ready E (io_ring (fst s))"
  unfolding cq_kept_def by (metis snd_conv)

lemma cq_kept_then: "cq_kept E m \<Longrightarrow> cq_kept E k \<Longrightarrow> cq_kept E (thenM m k)"
  unfolding cq_kept_def thenM_def bindM_def by (auto split: prod.splits outcome.splits) (metis snd_conv fst_conv)+

lemma cq_kept_basic:
  "cq_kept E (retM x)" "cq_kept E (on_obj f)" "cq_kept E (on_frame (release_fd fd))"
  "(\<And>ob. cq_kept E (g ob)) \<Longrightarrow> cq_kept E (with_obj g)"
  by (auto simp: cq_kept_def retM_def on_obj_def on_frame_def release_fd_def with_obj_def split: prod.splits if_splits)

lemma cq_kept_close:
  assumes "quiet E"
  shows "cq_kept E (close_owned_fd E fd)"
  unfolding close_owned_fd_def
proof (intro cq_kept_then cq_kept_basic)
  show "cq_kept E (on_ring (get_sqe E (close_sqe fd)))"
    using assms by (auto simp: cq_kept_def on_ring_def get_sqe_def submit_ring_def quiet_def split: prod.splits option.splits)
  show "cq_kept E (on_ring (submit_ring E))"
    using assms by (auto simp: cq_kept_def on_ring_def submit_ring_def quiet_def split: prod.splits)
qed

lemma cq_kept_release:
  assumes "cq_kept E dtor"
  shows "cq_kept E (intrusive_ptr_release dtor)"
proof -
  have "cq_kept E (\<lambda>s. if rc_count (snd s) = 0 then thenM dtor (retM True) s else (Ret False, s))"
    using cq_kept_then [OF assms cq_kept_basic(1) [of E True]] by (simp add: cq_kept_def)
  then show ?thesis unfolding intrusive_ptr_release_def by (intro cq_kept_then cq_kept_basic)
qed

lemma cq_kept_if: "(P \<Longrightarrow> cq_kept E m) \<Longrightarrow> (\<not> P \<Longrightarrow> cq_kept E k) \<Longrightarrow> cq_kept E (if P then m else k)"
  by simp

lemma cq_kept_either: "cq_kept E m \<Longrightarrow> cq_kept E k \<Longrightarrow> cq_kept E (either m k)"
  by (auto simp: cq_kept_def either_def split: sum.splits prod.splits) (metis snd_conv fst_conv)+

lemma runtime_release_kept:
  assumes "quiet E"
  shows "cq_kept E (oc_release (runtime_class E junk))"
  unfolding runtime_class_def sum_class_simps stream_class_simps client_class_simps acceptor_class_simps
    timer_class_simps file_class_simps stream_impl_dtor_def acceptor_impl_dtor_def file_impl_dtor_def
  by (intro cq_kept_either cq_kept_release cq_kept_basic cq_kept_if cq_kept_then cq_kept_close [OF assms])

subsection \<open>The accounting while the guard runs\<close>

text \<open>The class in which the frames with the user data \<open>D\<close> no longer count as waiting.\<close>

definition drained :: "('r, 'o, 'c, 'n) object_class \<Rightarrow> user_data set \<Rightarrow> ('r, 'o, 'c, 'n) object_class" where
  "drained K D = K\<lparr>oc_active := (\<lambda>ob. filter_mset (\<lambda>t. UD (oc_this K ob) t \<notin> D) (oc_active K ob))\<rparr>"

lemma drained_simps [simp]:
  "oc_this (drained K D) = oc_this K" "oc_count (drained K D) = oc_count K" "oc_owned (drained K D) = oc_owned K"
  "oc_inv (drained K D) = oc_inv K" "oc_left (drained K D) = oc_left K" "drained K {} = K"
  "oc_active (drained K D) ob = filter_mset (\<lambda>t. UD (oc_this K ob) t \<notin> D) (oc_active K ob)"
  by (simp_all add: drained_def)

lemma drained_shared: "shared K \<Longrightarrow> shared (drained K D)"
  by (simp add: shared_def)

lemma drained_holds [simp]: "holds (drained K D) s h = holds K s h"
  by (cases h) (simp_all split: option.splits)

lemma drained_released:
  assumes "pointer_released K issued (fr, ob) res"
  shows "pointer_released (drained K D) issued (fr, ob) res"
proof (cases "is_last K ob")
  case True
  then show ?thesis using assms by (auto simp: pointer_released_def is_last_def object_gone_def)
next
  case False
  then have step: "object_step K issued (fr, ob) (snd res) (- 1) {#} {}" "oc_active K (snd (snd res)) = oc_active K ob"
    using assms by (simp_all add: pointer_released_def)
  then show ?thesis using assms False by (auto simp: pointer_released_def is_last_def object_step_def)
qed

lemma filter_one:
  assumes "t \<in># A" and "P t" and "count A t \<le> 1"
  shows "filter_mset P A = add_mset t (filter_mset (\<lambda>u. P u \<and> u \<noteq> t) A)"
proof (rule multiset_eqI)
  fix u
  have "count A t = 1" using assms(1,3) by (simp add: le_Suc_eq count_eq_zero_iff)
  then show "count (filter_mset P A) u = count (add_mset t (filter_mset (\<lambda>u. P u \<and> u \<noteq> t) A)) u"
    using assms(2) by auto
qed

lemma drained_adopt:
  assumes K: "counted K issued ok" and inv: "rt_inv (drained K D) U s" and t: "t \<in># active_at (drained K D) s p"
  shows "rt_inv (drained K (insert (UD p t) D)) U (adopt p s)"
proof -
  let ?D = "insert (UD p t) D"
  have slot: "slot_ok (drained K ?D) q (fst s) (rt_heap (snd s) q) (rt_ext (snd (adopt p s)) q)" for q
  proof (cases "rt_heap (snd s) q")
    case None
    then have "q \<noteq> p" using t by (auto simp: active_at_def)
    moreover have "slot_ok (drained K D) q (fst s) (rt_heap (snd s) q) (rt_ext (snd s) q)" using inv by (simp add: rt_inv_def)
    ultimately show ?thesis using None by (simp add: slot_ok_def adopt_def)
  next
    case (Some ob)
    have old: "slot_ok (drained K D) q (fst s) (Some ob) (rt_ext (snd s) q)" using inv Some unfolding rt_inv_def by metis
    then have th: "oc_this K ob = q" and oinv: "oc_inv K (fst s) ob" by (simp_all add: slot_ok_def)
    show ?thesis
    proof (cases "q = p")
      case False
      then have "(\<lambda>u. UD q u \<notin> ?D) = (\<lambda>u. UD q u \<notin> D)" by auto
      then show ?thesis using old Some False th by (simp add: slot_ok_def adopt_def)
    next
      case True
      have "t \<in># oc_active K ob" "UD p t \<notin> D" using t Some True th by (auto simp: active_at_def)
      moreover have "(\<lambda>u. UD q u \<notin> ?D) = (\<lambda>u. UD q u \<notin> D \<and> u \<noteq> t)" using True by auto
      ultimately have "filter_mset (\<lambda>u. UD q u \<notin> D) (oc_active K ob) = add_mset t (filter_mset (\<lambda>u. UD q u \<notin> ?D) (oc_active K ob))"
        using filter_one [of t "oc_active K ob" "\<lambda>u. UD q u \<notin> D"] counted.single [OF K oinv, of t] True by simp
      then show ?thesis using old Some True th by (simp add: slot_ok_def adopt_def)
    qed
  qed
  have "holds (drained K ?D) (adopt p s) h = holds (drained K D) s h" for h by (cases h) (simp_all add: adopt_def split: option.splits)
  then show ?thesis using inv slot by (simp add: rt_inv_def disjoint_family_on_def) (simp add: adopt_def)
qed

text \<open>The guard's invariant: \<open>D\<close> has been released, \<open>e\<close> are the program's pointers, \<open>A\<close> the frames that waited.\<close>

definition drain_inv ::
  "('r, 'o, 'c, 'n) object_class \<Rightarrow> int set \<Rightarrow> (addr \<Rightarrow> nat) \<Rightarrow> (addr \<Rightarrow> frame_tag multiset) \<Rightarrow> user_data set \<Rightarrow>
     ('r, 'o) rt_state \<Rightarrow> bool" where
  "drain_inv K U e A D s =
     (rt_inv (drained K D) U s \<and> rt_ext (snd s) = e \<and>
      (\<forall>p. active_at (drained K D) s p = filter_mset (\<lambda>t. UD p t \<notin> D) (A p)))"

lemma drain_release:
  assumes K: "counted K issued ok" and "ok" and kept: "cq_kept E (oc_release K)" and inv: "drain_inv K U e A D s"
    and t: "t \<in># A p" "UD p t \<notin> D"
  shows "\<exists>s'. rt_free p (oc_left K) (oc_release K) (adopt p s) = (Ret (), s') \<and> drain_inv K U e A (insert (UD p t) D) s' \<and>
     cq_ready E (io_ring (fst s')) = cq_ready E (io_ring (fst s))"
proof -
  let ?D = "insert (UD p t) D" and ?s = "adopt p s"
  have act: "t \<in># active_at (drained K D) s p" using inv t by (simp add: drain_inv_def)
  then have inv1: "rt_inv (drained K ?D) U ?s" using drained_adopt [OF K] inv by (simp add: drain_inv_def)
  obtain fr w where s: "?s = (fr, w)" by (cases ?s)
  then have heap: "rt_heap w = rt_heap (snd s)" "rt_ext w = e(p := e p + 1)" "fr = fst s"
    using inv by (auto simp: adopt_def drain_inv_def)
  obtain ob where ob: "rt_heap w p = Some ob" using act heap by (auto simp: active_at_def split: option.splits)
  have sh: "shared (drained K ?D)" using drained_shared counted.axioms(1) [OF K] .
  have sur: "oc_inv K fr ob" "oc_this K ob = p" "0 < oc_count K ob"
    using shared.slot_surplus [OF sh inv1 [unfolded s] ob] by simp_all
  have rel: "pointer_released K issued (fr, ob) (oc_release K (fr, ob))" by (rule counted.release [OF K \<open>ok\<close> sur(1,3)])
  have ext: "0 < rt_ext w p" by (simp add: heap)
  have "\<exists>s'. rt_free p (oc_left (drained K ?D)) (oc_release K) (fr, w) = (Ret (), s') \<and>
      rt_step (drained K ?D) issued U (fr, w) s' p {#} \<and>
      (rt_heap (snd s') p = None) = (rt_ext w p = 1 \<and> oc_active (drained K ?D) ob = {#}) \<and> rt_ext (snd s') p = rt_ext w p - 1"
    by (rule shared.rt_free_step [where m = "oc_release K", OF sh inv1 [unfolded s] ob ext drained_released [OF rel]])
  then obtain s' where s': "rt_free p (oc_left K) (oc_release K) (fr, w) = (Ret (), s')" "rt_inv (drained K ?D) U s'"
      "(rt_heap (snd s') p = None) = (rt_ext w p = 1 \<and> oc_active (drained K ?D) ob = {#})"
    unfolding rt_step_def drained_simps(5) by (elim exE conjE) (rule that)
  obtain fr' ob' where run: "oc_release K (fr, ob) = (Ret (is_last K ob), (fr', ob'))"
    using rel by (cases "oc_release K (fr, ob)") (auto simp: pointer_released_def)
  have "rt_heap (snd s') = (rt_heap w)(p := if is_last K ob then None else Some ob') \<and> rt_ext (snd s') = e \<and> fst s' = fr'"
    using s'(1) ob run heap(2) by (cases "is_last K ob") (auto simp: rt_free_def)
  then have heap': "rt_heap (snd s') = (rt_heap w)(p := if is_last K ob then None else Some ob')" "rt_ext (snd s') = e"
      "fst s' = fr'" by simp_all
  have "active_at (drained K ?D) s' q = filter_mset (\<lambda>u. UD q u \<notin> ?D) (A q)" for q
  proof (cases "q = p")
    case False
    then have "active_at (drained K ?D) s' q = active_at (drained K ?D) ?s q" using heap' s by (simp add: active_at_def)
    also have "\<dots> = active_at (drained K D) s q"
    proof (cases "rt_heap w q")
      case (Some b)
      then have "oc_this K b = q" using shared.slot_surplus(3) [OF sh inv1 [unfolded s] Some] by simp
      moreover have "(\<lambda>u. UD q u \<notin> ?D) = (\<lambda>u. UD q u \<notin> D)" using False by auto
      ultimately show ?thesis using Some heap(1) s by (simp add: active_at_def)
    qed (simp add: active_at_def heap(1) [symmetric] s)
    also have "\<dots> = filter_mset (\<lambda>u. UD q u \<notin> ?D) (A q)" using inv False by (simp add: drain_inv_def)
    finally show ?thesis .
  next
    case True
    have "filter_mset (\<lambda>u. UD p u \<notin> D) (oc_active K ob) = filter_mset (\<lambda>u. UD p u \<notin> D) (A p)"
      using inv ob sur(2) heap(1) unfolding drain_inv_def active_at_def by (auto split: option.splits dest: spec [of _ p])
    then have "filter_mset (\<lambda>u. u \<noteq> t) (filter_mset (\<lambda>u. UD p u \<notin> D) (oc_active K ob)) =
        filter_mset (\<lambda>u. u \<noteq> t) (filter_mset (\<lambda>u. UD p u \<notin> D) (A p))"
      by simp
    then have new: "filter_mset (\<lambda>u. UD p u \<notin> ?D) (oc_active K ob) = filter_mset (\<lambda>u. UD p u \<notin> ?D) (A p)"
      by (simp add: filter_filter_mset conj_commute)
    show ?thesis
    proof (cases "is_last K ob")
      case last: True
      then have "filter_mset (\<lambda>u. UD p u \<notin> ?D) (oc_active K ob) = {#}" using s'(3) heap'(1) sur(2) by simp
      then have "filter_mset (\<lambda>u. UD p u \<notin> ?D) (A p) = {#}" unfolding new .
      then show ?thesis using last True heap'(1) by (simp add: active_at_def)
    next
      case False
      then have "oc_active K ob' = oc_active K ob" "oc_this K ob' = oc_this K ob"
        using rel run by (auto simp: pointer_released_def object_step_def)
      then show ?thesis using False True heap'(1) new sur(2) by (simp add: active_at_def)
    qed
  qed
  moreover have "cq_ready E (io_ring (fst s')) = cq_ready E (io_ring (fst s))"
    using cq_keptD [OF kept run] heap heap'(3) by simp
  ultimately show ?thesis using s'(1,2) heap'(2) s by (simp add: drain_inv_def)
qed

text \<open>The loop of the guard: every completion in the queue names a frame that waits, or null.\<close>

lemma drain_run:
  assumes K: "counted K issued ok" and "ok" and kept: "cq_kept E (oc_release K)" and q: "quiet E"
    and "drain_inv K U e A (set bl) s" and "cq_ready E (io_ring (fst s)) = cs"
    and "\<forall>c \<in> set cs. case cqe_data c of UD_null \<Rightarrow> True | UD p t \<Rightarrow> t \<in># A p"
  shows "\<exists>s'. drain_loop E (rt_objects K now prog fin) bl s = Some (Ret (), s') \<and> cq_ready E (io_ring (fst s')) = [] \<and>
     drain_inv K U e A (set bl \<union> (cqe_data ` set cs - {UD_null})) s'"
  using assms(5-7)
proof (induction cs arbitrary: bl s)
  case Nil
  then show ?case by (subst drain_loop.simps) simp
next
  case (Cons c cs)
  let ?R = "rt_objects K now prog fin"
  have next_inv: "drain_inv K U e A D (snd (cq_advance E 1 s)) \<and> cq_ready E (io_ring (fst (snd (cq_advance E 1 s)))) = cs"
    if "drain_inv K U e A D s" "cq_ready E (io_ring (fst s)) = c # cs" for D s
  proof -
    obtain fr w where s: "s = (fr, w)" by (cases s)
    let ?fr = "fr\<lparr>io_ring := io_uring_cq_advance E (io_ring fr) 1\<rparr>"
    have adv: "cq_advance E 1 s = (Ret (), (?fr, w))" using s by (simp add: cq_advance_def on_ring_def)
    have i: "rt_inv (drained K D) U (fr, w)" using that(1) s by (simp add: drain_inv_def)
    then have env: "env_step fr ?fr" by (simp add: env_step_def rt_inv_def)
    have "rt_inv (drained K D) U (?fr, w)" by (rule shared.env_keeps [OF drained_shared [OF counted.axioms(1) [OF K]] i env])
    moreover have "cq_ready E (io_ring ?fr) = cs" using q that(2) s by (simp add: quiet_def)
    ultimately show ?thesis using that(1) s unfolding adv by (simp add: drain_inv_def active_at_def)
  qed
  have rest: "\<forall>c \<in> set cs. case cqe_data c of UD_null \<Rightarrow> True | UD p t \<Rightarrow> t \<in># A p" using Cons.prems(3) by simp
  show ?case
  proof (cases "cqe_data c = UD_null \<or> cqe_data c \<in> set bl")
    case True
    have n: "drain_inv K U e A (set bl) (snd (cq_advance E 1 s))" "cq_ready E (io_ring (fst (snd (cq_advance E 1 s)))) = cs"
      using next_inv [OF Cons.prems(1,2)] by simp_all
    have "set bl \<union> (cqe_data ` set (c # cs) - {UD_null}) = set bl \<union> (cqe_data ` set cs - {UD_null})" using True by auto
    moreover have "drain_loop E ?R bl s = drain_loop E ?R bl (snd (cq_advance E 1 s))"
      using Cons.prems(2) True by (subst drain_loop.simps) simp
    ultimately show ?thesis using Cons.IH [OF n rest] by simp
  next
    case False
    then obtain p t where ud: "cqe_data c = UD p t" by (cases "cqe_data c") auto
    have t: "t \<in># A p" "UD p t \<notin> set bl" using Cons.prems(3) False ud by simp_all
    obtain s1 where s1: "rt_free p (oc_left K) (oc_release K) (adopt p s) = (Ret (), s1)"
        "drain_inv K U e A (insert (UD p t) (set bl)) s1" "cq_ready E (io_ring (fst s1)) = cq_ready E (io_ring (fst s))"
      using drain_release [OF K \<open>ok\<close> kept Cons.prems(1) t] by blast
    have n: "drain_inv K U e A (set (UD p t # bl)) (snd (cq_advance E 1 s1))" "cq_ready E (io_ring (fst (snd (cq_advance E 1 s1)))) = cs"
      using next_inv [of "insert (UD p t) (set bl)" s1] s1(2,3) Cons.prems(2) by simp_all
    have rel: "ob_release ?R (cqe_data c) s = (Ret (), s1)" using s1(1) ud by (simp add: rt_objects_def)
    have "drain_loop E ?R bl s = drain_loop E ?R (UD p t # bl) (snd (cq_advance E 1 s1))"
      using Cons.prems(2) False rel ud by (subst drain_loop.simps) simp
    moreover have "set (UD p t # bl) \<union> (cqe_data ` set cs - {UD_null}) = set bl \<union> (cqe_data ` set (c # cs) - {UD_null})"
      using ud by auto
    ultimately show ?thesis using Cons.IH [OF n rest] by simp
  qed
qed

subsection \<open>What the guard leaves\<close>

text \<open>
  The frames that still wait for a completion after the guard; then for every address: an object is left
  if and only if the program has a pointer to it or such a frame exists, its count is the number of both, and the
  descriptors are where they were or in the pool.
\<close>

definition still_waiting :: "('r, 'o, 'c, 'n) object_class \<Rightarrow> 'r platform \<Rightarrow> ('r, 'o) rt_state \<Rightarrow> addr \<Rightarrow> frame_tag multiset" where
  "still_waiting K E s p = filter_mset (\<lambda>t. UD p t \<notin> cqe_data ` set (cq_ready E (io_ring (fst s)))) (active_at K s p)"

definition guard_leaves :: "('r, 'o, 'c, 'n) object_class \<Rightarrow> 'r platform \<Rightarrow> ('r, 'o) rt_state \<Rightarrow> ('r, 'o) rt_state \<Rightarrow> bool" where
  "guard_leaves K E s s' =
     (cq_ready E (io_ring (fst s')) = [] \<and> rt_ext (snd s') = rt_ext (snd s) \<and>
      disjoint_family (holds K s') \<and> (\<Union>h. holds K s' h) = (\<Union>h. holds K s h) \<and>
      (\<forall>p. case rt_heap (snd s') p of
          None \<Rightarrow> rt_ext (snd s) p = 0 \<and> still_waiting K E s p = {#}
        | Some ob \<Rightarrow> (0 < rt_ext (snd s) p \<or> still_waiting K E s p \<noteq> {#}) \<and> oc_this K ob = p \<and>
            oc_count K ob = int (rt_ext (snd s) p) + int (size (still_waiting K E s p))))"

definition cq_typed :: "('r, 'o, 'c, 'n) object_class \<Rightarrow> 'r platform \<Rightarrow> ('r, 'o) rt_state \<Rightarrow> bool" where
  "cq_typed K E s =
     list_all (\<lambda>c. case cqe_data c of UD_null \<Rightarrow> True | UD p t \<Rightarrow> t \<in># active_at K s p) (cq_ready E (io_ring (fst s)))"

lemma drain_leaves:
  assumes K: "counted K issued ok" and "ok" and kept: "cq_kept E (oc_release K)" and q: "quiet E"
    and inv: "rt_inv K U s" and typed: "cq_typed K E s"
  shows "\<exists>s'. drain_loop E (rt_objects K now prog fin) [] s = Some (Ret (), s') \<and> guard_leaves K E s s'"
proof -
  have start: "drain_inv K U (rt_ext (snd s)) (active_at K s) (set []) s" using inv by (simp add: drain_inv_def)
  have "\<forall>c \<in> set (cq_ready E (io_ring (fst s))). case cqe_data c of UD_null \<Rightarrow> True | UD p t \<Rightarrow> t \<in># active_at K s p"
    using typed by (simp add: cq_typed_def list_all_iff)
  from drain_run [where now = now and prog = prog and fin = fin, OF K \<open>ok\<close> kept q start refl this] obtain s' where
      s': "drain_loop E (rt_objects K now prog fin) [] s = Some (Ret (), s')" "cq_ready E (io_ring (fst s')) = []"
        "drain_inv K U (rt_ext (snd s)) (active_at K s) (cqe_data ` set (cq_ready E (io_ring (fst s))) - {UD_null}) s'"
    by (auto simp del: drained_simps(6))
  let ?D = "cqe_data ` set (cq_ready E (io_ring (fst s))) - {UD_null}"
  have inv': "rt_inv (drained K ?D) U s'" "rt_ext (snd s') = rt_ext (snd s)"
      "\<And>p. active_at (drained K ?D) s' p = still_waiting K E s p"
    using s'(3) by (simp_all add: drain_inv_def still_waiting_def)
  have "case rt_heap (snd s') p of
          None \<Rightarrow> rt_ext (snd s) p = 0 \<and> still_waiting K E s p = {#}
        | Some ob \<Rightarrow> (0 < rt_ext (snd s) p \<or> still_waiting K E s p \<noteq> {#}) \<and> oc_this K ob = p \<and>
            oc_count K ob = int (rt_ext (snd s) p) + int (size (still_waiting K E s p))" for p
  proof -
    have slot: "slot_ok (drained K ?D) p (fst s') (rt_heap (snd s') p) (rt_ext (snd s) p)" using inv'(1,2) by (simp add: rt_inv_def)
    show ?thesis
    proof (cases "rt_heap (snd s') p")
      case None
      then show ?thesis using slot inv'(3) [of p] by (simp add: slot_ok_def active_at_def)
    next
      case (Some ob)
      then have "oc_active (drained K ?D) ob = still_waiting K E s p" using inv'(3) [of p] by (simp add: active_at_def)
      then have "0 < oc_count K ob" "oc_this K ob = p"
          "oc_count K ob = int (rt_ext (snd s) p) + int (size (still_waiting K E s p))"
        using slot Some by (simp_all add: slot_ok_def del: drained_simps(7))
      then show ?thesis using Some by (cases "rt_ext (snd s) p = 0") auto
    qed
  qed
  moreover have "disjoint_family (holds K s')" "(\<Union>h. holds K s' h) = (\<Union>h. holds K s h)"
    using inv'(1) inv by (simp_all add: rt_inv_def disjoint_family_on_def)
  ultimately show ?thesis using s'(1,2) inv'(2) by (auto simp: guard_leaves_def)
qed

text \<open>The state in which the loop of the guard starts: submitted, and the tasks destroyed.\<close>

definition guard_enter :: "'r platform \<Rightarrow> ('r, 'w) objects \<Rightarrow> ('r, 'w) world \<Rightarrow> ('r, 'w) world" where
  "guard_enter E R s = snd (thenM (on_ring (\<lambda>r. (Ret (), io_uring_submit E r))) (clear_map R) s)"

lemma guard_enter_ok:
  assumes K: "counted K issued ok" and "ok" and reach: "rt_reach K issued U s pend"
  shows "\<exists>s1 pend1. thenM (on_ring (\<lambda>r. (Ret (), io_uring_submit E r))) (clear_map (rt_objects K now prog fin)) s = (Ret (), s1) \<and>
     rt_reach K issued U s1 pend1"
proof -
  let ?s0 = "((fst s)\<lparr>io_ring := io_uring_submit E (io_ring (fst s))\<rparr>, snd s)"
  have sub: "on_ring (\<lambda>r. (Ret (), io_uring_submit E r)) s = (Ret (), ?s0)" by (cases s) (simp add: on_ring_def)
  have "rt_reach K issued U ((fst ?s0)\<lparr>tasks := {}\<rparr>, snd ?s0) pend"
    by (rule loop_env [OF K \<open>ok\<close>, where fr = "fst s"]) (use reach in \<open>simp_all add: fd_inv_def groups_inv_def\<close>)
  from loop_program [OF K \<open>ok\<close> this, of "fin ?s0"] obtain s1 pend1 where
      "rt_program K (fin ?s0) ((fst ?s0)\<lparr>tasks := {}\<rparr>, snd ?s0) = (Ret (), s1)" "rt_reach K issued U s1 pend1"
    by blast
  then show ?thesis using sub by (auto simp: thenM_Ret [where m = "on_ring _", OF sub] rt_objects_def)
qed

lemma guard_ok:
  assumes "rt_reach (runtime_class E junk) issued U s pend" and "uring_laws E issued n" and "quiet E"
    and "cq_typed (runtime_class E junk) E (guard_enter E (rt_objects (runtime_class E junk) now prog fin) s)"
  shows "\<exists>s'. guard_dtor E (rt_objects (runtime_class E junk) now prog fin) s = Some (Ret (), s') \<and>
     guard_leaves (runtime_class E junk) E (guard_enter E (rt_objects (runtime_class E junk) now prog fin) s) s'"
proof -
  let ?K = "runtime_class E junk" and ?R = "rt_objects (runtime_class E junk) now prog fin"
  obtain s1 pend1 where s1: "thenM (on_ring (\<lambda>r. (Ret (), io_uring_submit E r))) (clear_map ?R) s = (Ret (), s1)"
      "rt_reach ?K issued U s1 pend1"
    using guard_enter_ok [OF all_objs.counted_axioms assms(2,1), of E now prog fin] by blast
  have enter: "guard_enter E ?R s = s1" by (simp add: guard_enter_def s1(1) del: thenM_apply)
  have inv: "rt_inv ?K U s1" using all_objs.reach_ok [OF s1(2) assms(2)] by simp
  from drain_leaves [where now = now and prog = prog and fin = fin, OF all_objs.counted_axioms assms(2) runtime_release_kept [OF assms(3)] assms(3) inv]
  obtain s' where "drain_loop E ?R [] s1 = Some (Ret (), s')" "guard_leaves ?K E s1 s'" using assms(4) enter by auto
  then show ?thesis using s1(1) enter by (simp add: guard_dtor_def del: thenM_apply)
qed

subsection \<open>Properties\<close>


text \<open>The example, with the completion of the timer in the queue; the program drops both of its pointers.\<close>

definition ex_rt_fin :: "(list_ring, any_object) rt_state \<Rightarrow> (any_call, any_new) co_step list" where
  "ex_rt_fin s = [Act (Release 320), Act (Release 640)]"

lemma list_platform_quiet: "quiet (list_platform n)"
  by (auto simp: quiet_def list_platform_def split: if_splits)

lemma ex_rt_entered:
  "guard_enter (list_platform 4) (rt_objects (runtime_class (list_platform 4) (\<lambda>_. 0)) 1 prog ex_rt_fin) ex_rt_busy =
    ((fst ex_rt_busy)\<lparr>tasks := {}, io_ring := (io_ring (fst ex_rt_busy))\<lparr>lr_free := 4\<rparr>\<rparr>,
     \<lparr>rt_heap = [640 \<mapsto> A_stream ((stream_made 640 5 1)\<lparr>rc_count := 1\<rparr>), 320 \<mapsto> A_timer (ex_rt_timer\<lparr>rc_count := 1\<rparr>)],
      rt_ext = (\<lambda>_. 0), rt_loose = {}\<rparr>)"
  by (simp add: guard_enter_def rt_objects_def rt_program_def ex_rt_fin_def co_step_run_def act_ok_def held_def rt_act_def
      rt_free_def runtime_class_def either_def release_apply ex_rt_busy_def ex_rt_defs stream_made_def stream_fields_def
      timer_impl_new_def op_simps fun_upd_twist fun_upd_idem)



text \<open>The example with its coroutine in the run queue: it drops both pointers and ends.\<close>

definition ex_rt_queued :: "(list_ring, any_object) rt_state" where
  "ex_rt_queued = ((fst ex_rt_busy)\<lparr>run_queue := [4096]\<rparr>, snd ex_rt_busy)"

definition ex_rt_last :: "(list_ring, any_object, any_call, any_new) coroutine" where
  "ex_rt_last h s = [Act (Release 320), Act (Release 640), Finish h]"

definition ex_rt_ended :: "(list_ring, any_object) rt_state" where
  "ex_rt_ended = ((fst ex_rt_busy)\<lparr>tasks := {}\<rparr>,
     \<lparr>rt_heap = [640 \<mapsto> A_stream ((stream_made 640 5 1)\<lparr>rc_count := 1\<rparr>), 320 \<mapsto> A_timer (ex_rt_timer\<lparr>rc_count := 1\<rparr>)],
      rt_ext = (\<lambda>_. 0), rt_loose = {}\<rparr>)"

lemma ex_rt_queued_reach:
  "rt_reach (runtime_class (list_platform 4) (\<lambda>_. 0)) lr_issued {0, 1} ex_rt_queued {#UD 640 F_timeout, UD 320 F_timer#}"
  unfolding ex_rt_queued_def
  by (rule loop_env [OF all_objs.counted_axioms ex_laws, where fr = "fst ex_rt_busy"])
    (use ex_rt_busy_reach in \<open>simp_all add: fd_inv_def groups_inv_def\<close>)

lemma ex_rt_queue_loop:
  "run_queue_loop (rt_objects (runtime_class (list_platform 4) (\<lambda>_. 0)) 1 ex_rt_last (\<lambda>_. [])) ex_rt_queued = Some (Ret None, ex_rt_ended)"
proof -
  let ?R = "rt_objects (runtime_class (list_platform 4) (\<lambda>_. 0)) 1 ex_rt_last (\<lambda>_. [])"
  have "co_resume ?R 4096 ex_rt_queued = (Ret (), ((fst ex_rt_ended)\<lparr>run_queue := [4096]\<rparr>, snd ex_rt_ended))"
    by (simp add: rt_objects_def rt_program_def ex_rt_last_def co_step_run_def act_ok_def held_def rt_act_def
        rt_free_def runtime_class_def either_def release_apply ex_rt_queued_def ex_rt_ended_def ex_rt_busy_def ex_rt_defs
        stream_made_def stream_fields_def timer_impl_new_def op_simps fun_upd_twist fun_upd_idem)
  then have "thenM (co_resume ?R 4096) pop_run_queue ex_rt_queued = (Ret (), ex_rt_ended)"
    by (simp add: pop_run_queue_def op_simps) (simp add: ex_rt_ended_def ex_rt_busy_def ex_rt_defs)
  moreover have "run_queue (fst ex_rt_queued) = [4096]" "exception_ptr (fst ex_rt_ended) = None" "run_queue (fst ex_rt_ended) = []"
    by (simp_all add: ex_rt_queued_def ex_rt_ended_def ex_rt_busy_def ex_rt_defs)
  moreover from this(3) have "run_queue_loop ?R ex_rt_ended = Some (Ret None, ex_rt_ended)"
    by (subst run_queue_loop.simps) simp
  ultimately show ?thesis by (subst run_queue_loop.simps) (simp del: thenM_apply)
qed


text \<open>
  C20: a stream that outlives \<^verbatim>\<open>run\<close> is broken by the guard: when a completion of the stream has been released unprocessed while
  the program still holds its last pointer, the frame still counts as active, and destroying the stream
  fails the assertion \<^verbatim>\<open>use_count > 0\<close> of \<^verbatim>\<open>~stream\<close>.
\<close>

theorem released_stream_dtor_fails:
  assumes "rt_reach (runtime_class E junk) issued U (fr, w) pend" and "uring_laws E issued n"
    and "rt_heap w p = Some (A_stream st)" and "rt_ext w p = 1" and "UD p t \<in># pend"
  shows "fst (thenM (ob_release (rt_objects (runtime_class E junk) now prog fin) (UD p t))
           (rt_act (runtime_class E junk) (Drop p)) (fr, w)) = Assert_failed"
proof -
  let ?K = "runtime_class E junk"
  have inv: "rt_inv ?K U (fr, w)" and tags: "tags_of p pend = active_at ?K (fr, w) p"
    using all_objs.reach_ok [OF assms(1,2)] by simp_all
  have "t \<in># active_tags st" using assms(3,5) tags by (simp add: tags_of_mem active_at_def runtime_class_def)
  then have "0 < size (active_tags st)" by (metis empty_iff nonempty_has_size set_mset_empty)
  moreover have "rc_count st = 1 + int (size (active_tags st))"
    using all_objs.slot_surplus(2) [where E = E and junk = junk, OF inv assms(3)] assms(4) by (simp add: runtime_class_def)
  ultimately have more: "rc_count st \<noteq> 1" and all: "rc_count st - 1 = int (size (active_tags st))" by linarith+
  have rel: "ob_release (rt_objects ?K now prog fin) (UD p t) (fr, w) =
      (Ret (), (fr, w\<lparr>rt_heap := (rt_heap w)(p \<mapsto> A_stream (st\<lparr>rc_count := rc_count st - 1\<rparr>))\<rparr>))"
    using assms(3,4) more by (simp add: rt_objects_def adopt_def rt_free_def runtime_class_def either_def release_apply fun_upd_idem)
  have "active_tags (st\<lparr>rc_count := rc_count st - 1\<rparr>) = active_tags st" by (simp add: active_tags_def)
  then have zero: "use_count (st\<lparr>rc_count := rc_count st - 1\<rparr>) - count_active (st\<lparr>rc_count := rc_count st - 1\<rparr>) = 0"
    using all by (simp add: use_count_def count_active_size)
  have "fst (rt_act ?K (Drop p) (fr, w\<lparr>rt_heap := (rt_heap w)(p \<mapsto> A_stream (st\<lparr>rc_count := rc_count st - 1\<rparr>))\<rparr>)) = Assert_failed"
    using zero by (simp add: rt_act_def rt_free_def runtime_class_def either_def stream_dtor_def with_obj_def Let_def assertM_def
        op_simps)
  then show ?thesis by (simp add: thenM_Ret [where m = "ob_release _ _", OF rel])
qed

theorem released_stream_dtor_fails_witness:
  "fst (thenM (ob_release (rt_objects (runtime_class (list_platform 4) (\<lambda>_. 0)) 1 ex_rt_prog ex_rt_fin) (UD 640 F_timeout))
     (rt_act (runtime_class (list_platform 4) (\<lambda>_. 0)) (Drop 640)) ex_rt) = Assert_failed"
  using released_stream_dtor_fails [OF ex_rt_reach [unfolded ex_rt_def] ex_laws, of 640 "stream_made 640 5 1" F_timeout
      1 ex_rt_prog ex_rt_fin]
  by (simp add: ex_rt_def del: thenM_apply)

text \<open>
  Two guards do not share what they have released: \<^verbatim>\<open>~io_context\<close>, or a second \<^verbatim>\<open>run\<close>, that finds another completion of a
  multishot operation whose object the first guard deleted uses freed memory.
\<close>

lemma second_guard_bad_access:
  assumes "rt_heap w p = None" and "cq_ready E (io_uring_submit E (io_ring fr)) = c # cs" and "cqe_data c = UD p t"
  shows "io_context_dtor E (rt_objects K now prog (\<lambda>_. [])) (fr, w) \<noteq> None \<and>
     fst (the (io_context_dtor E (rt_objects K now prog (\<lambda>_. [])) (fr, w))) = Bad_access"
proof -
  let ?R = "rt_objects K now prog (\<lambda>_. [])" and ?s = "(fr\<lparr>io_ring := io_uring_submit E (io_ring fr), tasks := {}\<rparr>, w)"
  have enter: "thenM (on_ring (\<lambda>r. (Ret (), io_uring_submit E r))) (clear_map ?R) (fr, w) = (Ret (), ?s)"
    by (simp add: rt_objects_def rt_program_def op_simps on_ring_def)
  have "ob_release ?R (UD p t) ?s = (Bad_access, adopt p ?s)"
    using assms(1) by (simp add: rt_objects_def adopt_def rt_free_def)
  then have "drain_loop E ?R [] ?s = Some (Bad_access, adopt p ?s)"
    using assms(2,3) by (subst drain_loop.simps) simp
  then show ?thesis using enter by (simp add: io_context_dtor_def guard_dtor_def del: thenM_apply)
qed

end
