(* ===== verification/Dns.thy ===== *)
theory Dns
  imports Executor
begin

section \<open>Name resolution (\<open>dns.hpp\<close>, \<open>dns.cpp\<close>)\<close>

text \<open>
  A resolver starts a thread that calls \<^verbatim>\<open>getaddrinfo\<close>, stores what it returns in the shared frame under
  the mutex and wakes the coroutine through the pipe of the runtime. The thread's progress is part of
  the state, so that its steps can interleave with the coroutine's. \<^verbatim>\<open>getaddrinfo\<close> is a parameter: for a
  node and a service (null pointers are \<open>None\<close>) it gives its return value and the list it
  allocates; \<open>lists\<close> are the lists that have not been freed.
\<close>

datatype dns_thread =
    No_thread
  | Thread_started handle
  | Thread_looked_up handle int "addr option"
  | Thread_stored handle
  | Thread_ended

record dns_frame =
  dns_t :: dns_thread
  dns_node :: "string option"
  dns_service :: "string option"
  dns_addrlist :: "addr option"
  dns_res :: int

record dns_state =
  dns_frame :: dns_frame
  dns_pipe :: "u64 list"
  lists :: "addr set"

type_synonym lookup = "string option \<Rightarrow> string option \<Rightarrow> int \<times> addr option"

definition dns_frame_new :: dns_frame where
  "dns_frame_new = \<lparr>dns_t = No_thread, dns_node = None, dns_service = None, dns_addrlist = None, dns_res = - 1\<rparr>"

subsection \<open>\<open>dns_entry_list\<close>\<close>

text \<open>
  An entry list is the pointer it holds. Freeing a list that is not allocated is a bad access. The
  move operations return the target and the source.
\<close>

definition freeaddrinfo :: "addr \<Rightarrow> (addr set, unit) op" where
  "freeaddrinfo p S = (if p \<in> S then (Ret (), S - {p}) else (Bad_access, S))"

definition entry_list_move :: "addr option \<Rightarrow> addr option \<times> addr option" where
  "entry_list_move rhs = (rhs, None)"

definition entry_list_assign :: "bool \<Rightarrow> addr option \<Rightarrow> addr option \<Rightarrow> addr option \<times> addr option" where
  "entry_list_assign self lhs rhs = (if self then (lhs, rhs) else (rhs, None))"

definition entry_list_dtor :: "addr option \<Rightarrow> (addr set, unit) op" where
  "entry_list_dtor l = (case l of None \<Rightarrow> retM () | Some p \<Rightarrow> freeaddrinfo p)"

definition entry_list_data :: "addr option \<Rightarrow> addr option" where
  "entry_list_data l = l"

subsection \<open>The resolver and its awaitable\<close>

definition async_resolve :: "string option \<Rightarrow> string option \<Rightarrow> (dns_state, unit) op" where
  "async_resolve node service s =
     (Ret (), s\<lparr>dns_frame := (dns_frame s)\<lparr>dns_node := node, dns_service := service\<rparr>\<rparr>)"

definition dns_await_ready :: "(dns_state, bool) op" where
  "dns_await_ready = retM False"

text \<open>Assigning a thread to a variable that holds a joinable one terminates the program.\<close>

definition dns_await_suspend :: "handle \<Rightarrow> (dns_state, unit) op" where
  "dns_await_suspend h s =
     (if dns_t (dns_frame s) \<noteq> No_thread then (Assert_failed, s)
      else (Ret (), s\<lparr>dns_frame := (dns_frame s)\<lparr>dns_t := Thread_started h\<rparr>\<rparr>))"

text \<open>The three steps of the thread: the lookup, the store under the mutex, the wake-up.\<close>

definition thread_lookup :: "lookup \<Rightarrow> (dns_state, unit) op" where
  "thread_lookup G s =
     (case dns_t (dns_frame s) of
        Thread_started h \<Rightarrow>
          (case G (dns_node (dns_frame s)) (dns_service (dns_frame s)) of (res, al) \<Rightarrow>
             (Ret (), s\<lparr>dns_frame := (dns_frame s)\<lparr>dns_t := Thread_looked_up h res al\<rparr>, lists := lists s \<union> set_option al\<rparr>))
      | _ \<Rightarrow> (Ret (), s))"

definition thread_store :: "(dns_state, unit) op" where
  "thread_store s =
     (case dns_t (dns_frame s) of
        Thread_looked_up h res al \<Rightarrow>
          (Ret (), s\<lparr>dns_frame := (dns_frame s)\<lparr>dns_t := Thread_stored h, dns_res := res, dns_addrlist := al\<rparr>\<rparr>)
      | _ \<Rightarrow> (Ret (), s))"

text \<open>An exception that leaves the thread's function, such as a wake-up after the end of the runtime, terminates the program.\<close>

definition thread_wake :: "bool \<Rightarrow> (u64 \<Rightarrow> int option) \<Rightarrow> (dns_state, unit) op" where
  "thread_wake alive wr s =
     (case dns_t (dns_frame s) of
        Thread_stored h \<Rightarrow>
          (case waker_wake alive wr h (dns_pipe s) of
             (Ret _, pipe) \<Rightarrow> (Ret (), s\<lparr>dns_frame := (dns_frame s)\<lparr>dns_t := Thread_ended\<rparr>, dns_pipe := pipe\<rparr>)
           | (_, pipe) \<Rightarrow> (Assert_failed, s))
      | _ \<Rightarrow> (Ret (), s))"

text \<open>
  \<^verbatim>\<open>join()\<close> waits for the end of the thread: \<open>None\<close> while it has not ended. Joining without a
  thread throws \<^verbatim>\<open>std::system_error\<close> with \<^verbatim>\<open>EINVAL\<close>.
\<close>

definition dns_await_resume :: "(dns_state, (addr option) fiona_result option) op" where
  "dns_await_resume s =
     (let f = dns_frame s in
      case dns_t f of
        No_thread \<Rightarrow> (Throw EINVAL, s)
      | Thread_ended \<Rightarrow>
          (Ret (Some (if dns_res f \<noteq> 0 then Inl (dns_res f) else Inr (dns_addrlist f))),
           s\<lparr>dns_frame := f\<lparr>dns_t := No_thread\<rparr>\<rparr>)
      | _ \<Rightarrow> (Ret None, s))"

subsection \<open>One resolver, its thread and its callers\<close>

text \<open>
  The machine of a resolver that is used by one coroutine at a time. The second argument follows the
  query, the third is the set of lists that callers hold. A lookup may return anything that
  \<^verbatim>\<open>getaddrinfo\<close> may: a newly allocated list, or an error and no list. The run loop resumes the
  coroutine when it reads the message of the thread.
\<close>

datatype dns_query =
    Q_none
  | Q_asked handle "string option" "string option"
  | Q_answered handle int "addr option"

inductive dns_run :: "(u64 \<Rightarrow> int option) \<Rightarrow> dns_state \<Rightarrow> dns_query \<Rightarrow> addr set \<Rightarrow> bool" for wr where
  fresh: "dns_run wr \<lparr>dns_frame = dns_frame_new, dns_pipe = [], lists = {}\<rparr> Q_none {}"
| query: "dns_run wr s Q_none own \<Longrightarrow> h < 2 ^ 64 \<Longrightarrow> 4 dvd h \<Longrightarrow>
    thenM (async_resolve node service) (dns_await_suspend h) s = (Ret (), s') \<Longrightarrow> dns_run wr s' (Q_asked h node service) own"
| lookup: "dns_run wr s (Q_asked h node service) own \<Longrightarrow> G node service = (res, al) \<Longrightarrow>
    set_option al \<inter> lists s = {} \<Longrightarrow> (res = 0) = (al \<noteq> None) \<Longrightarrow>
    thread_lookup G s = (Ret (), s') \<Longrightarrow> dns_run wr s' (Q_answered h res al) own"
| store: "dns_run wr s q own \<Longrightarrow> thread_store s = (Ret (), s') \<Longrightarrow> dns_run wr s' q own"
| wake: "dns_run wr s q own \<Longrightarrow> thread_wake True wr s = (Ret (), s') \<Longrightarrow> dns_run wr s' q own"
| resume: "dns_run wr s q own \<Longrightarrow> dns_pipe s = d # ds \<Longrightarrow>
    dns_await_resume (s\<lparr>dns_pipe := ds\<rparr>) = (Ret (Some v), s') \<Longrightarrow>
    dns_run wr s' Q_none (own \<union> (case v of Inl e \<Rightarrow> {} | Inr l \<Rightarrow> set_option l))"
| destroy: "dns_run wr s q own \<Longrightarrow> p \<in> own \<Longrightarrow> entry_list_dtor (Some p) (lists s) = (Ret (), S) \<Longrightarrow>
    dns_run wr (s\<lparr>lists := S\<rparr>) q (own - {p})"

inductive_cases dns_runE: "dns_run wr s q own"

definition dns_inv :: "dns_state \<Rightarrow> dns_query \<Rightarrow> addr set \<Rightarrow> bool" where
  "dns_inv s q own =
     (let f = dns_frame s in
      case q of
        Q_none \<Rightarrow> dns_t f = No_thread \<and> dns_pipe s = [] \<and> lists s = own
      | Q_asked h node service \<Rightarrow> dns_t f = Thread_started h \<and> dns_pipe s = [] \<and> lists s = own \<and>
          dns_node f = node \<and> dns_service f = service \<and> h < 2 ^ 64 \<and> 4 dvd h
      | Q_answered h res al \<Rightarrow> lists s = own \<union> set_option al \<and> own \<inter> set_option al = {} \<and> (res = 0) = (al \<noteq> None) \<and>
          h < 2 ^ 64 \<and> 4 dvd h \<and>
          (dns_t f = Thread_looked_up h res al \<and> dns_pipe s = [] \<or>
           dns_res f = res \<and> dns_addrlist f = al \<and>
             (dns_t f = Thread_stored h \<and> dns_pipe s = [] \<or>
              dns_t f = Thread_ended \<and> (\<exists>d. dns_pipe s = [d] \<and> decode_pipe d = Wake_handle h))))"

lemma waker_wake_Ret:
  assumes "waker_wake True wr h [] = (Ret (), pipe)" and "h < 2 ^ 64" and "4 dvd h"
  shows "\<exists>d. pipe = [d] \<and> decode_pipe d = Wake_handle h"
proof -
  obtain d where "waker_wake True (\<lambda>_. None) h [] = (Ret (), [d])" "decode_pipe d = Wake_handle h"
    using pipe_roundtrip [OF assms(2,3), of "\<lambda>_. None" "[]"] by auto
  then show ?thesis using assms(1)
    by (auto simp: waker_wake_def Let_def throw_errno_as_error_code_def split: option.splits)
qed

lemma dns_run_inv: "dns_run wr s q own \<Longrightarrow> dns_inv s q own"
proof (induction rule: dns_run.induct)
  case fresh
  then show ?case by (simp add: dns_inv_def dns_frame_new_def)
next
  case (query s own h node service s')
  then show ?case by (auto simp: dns_inv_def async_resolve_def dns_await_suspend_def op_simps Let_def)
next
  case (lookup s h node service own G res al s')
  then show ?case by (auto simp: dns_inv_def thread_lookup_def Let_def)
next
  case (store s q own s')
  show ?case
  proof (cases "dns_t (dns_frame s)")
    case (Thread_looked_up h r al)
    then have s': "s' = s\<lparr>dns_frame := (dns_frame s)\<lparr>dns_t := Thread_stored h, dns_res := r, dns_addrlist := al\<rparr>\<rparr>"
      using store.hyps(2) by (simp add: thread_store_def)
    show ?thesis unfolding s' using store.IH Thread_looked_up by (cases q) (simp_all add: dns_inv_def Let_def)
  qed (use store in \<open>simp_all add: thread_store_def\<close>)
next
  case (wake s q own s')
  show ?case
  proof (cases "dns_t (dns_frame s)")
    case (Thread_stored h)
    then obtain pipe where w: "waker_wake True wr h (dns_pipe s) = (Ret (), pipe)"
        and s': "s' = s\<lparr>dns_frame := (dns_frame s)\<lparr>dns_t := Thread_ended\<rparr>, dns_pipe := pipe\<rparr>"
      using wake.hyps(2) by (simp add: thread_wake_def split: prod.splits outcome.splits)
    show ?thesis
    proof (cases q)
      case (Q_answered k r al)
      then have "k = h" "dns_pipe s = []" "h < 2 ^ 64" "4 dvd h" using wake.IH Thread_stored by (simp_all add: dns_inv_def Let_def)
      then show ?thesis unfolding s' using wake.IH Thread_stored Q_answered waker_wake_Ret [of wr h pipe] w
        by (simp add: dns_inv_def Let_def)
    qed (use wake.IH Thread_stored in \<open>simp_all add: dns_inv_def Let_def\<close>)
  qed (use wake in \<open>simp_all add: thread_wake_def\<close>)
next
  case (resume s q own d ds v s')
  then show ?case
    by (cases q; cases "dns_t (dns_frame s)") (auto simp: dns_inv_def dns_await_resume_def Let_def split: if_splits)
next
  case (destroy s q own p S)
  then show ?case
    by (cases q) (auto simp: dns_inv_def entry_list_dtor_def freeaddrinfo_def Let_def split: if_splits)
qed

subsection \<open>Properties\<close>

text \<open>The lists that no caller holds: the one of an answered query.\<close>

definition in_flight :: "dns_query \<Rightarrow> addr set" where
  "in_flight q = (case q of Q_answered h res al \<Rightarrow> set_option al | _ \<Rightarrow> {})"


text \<open>
  A resolver does not support two queries at a time, and a query must not outlive the runtime:
  a second \<^verbatim>\<open>async_resolve\<close> while the thread of the first has not looked up its arguments makes that
  thread look up the arguments of the second, awaiting the second terminates the program, and so
  does the thread when it finds the runtime gone.
\<close>

theorem dns_overlap:
  assumes "dns_run wr s (Q_asked h node service) own" and "async_resolve node2 service2 s = (Ret (), s1)"
    and "G node2 service2 = (res, al)"
  shows "(\<exists>s2. thread_lookup G s1 = (Ret (), s2) \<and> dns_t (dns_frame s2) = Thread_looked_up h res al) \<and>
     dns_await_suspend k s1 = (Assert_failed, s1) \<and>
     (\<forall>s3 s4. thread_lookup G s = (Ret (), s3) \<longrightarrow> thread_store s3 = (Ret (), s4) \<longrightarrow>
        thread_wake False wr s4 = (Assert_failed, s4))"
proof -
  have t: "dns_t (dns_frame s) = Thread_started h" using dns_run_inv [OF assms(1)] by (simp add: dns_inv_def Let_def)
  have s1: "s1 = s\<lparr>dns_frame := (dns_frame s)\<lparr>dns_node := node2, dns_service := service2\<rparr>\<rparr>"
    using assms(2) by (simp add: async_resolve_def)
  have "thread_wake False wr s4 = (Assert_failed, s4)"
    if "thread_lookup G s = (Ret (), s3)" "thread_store s3 = (Ret (), s4)" for s3 s4
  proof -
    obtain r a where G: "G (dns_node (dns_frame s)) (dns_service (dns_frame s)) = (r, a)" by fastforce
    then have "dns_t (dns_frame s4) = Thread_stored h" using that t by (auto simp: thread_lookup_def thread_store_def)
    then show ?thesis by (simp add: thread_wake_def waker_wake_def op_simps)
  qed
  moreover have "dns_await_suspend k s1 = (Assert_failed, s1)" using t s1 by (simp add: dns_await_suspend_def)
  moreover have "\<exists>s2. thread_lookup G s1 = (Ret (), s2) \<and> dns_t (dns_frame s2) = Thread_looked_up h res al"
    using t s1 assms(3) by (simp add: thread_lookup_def)
  ultimately show ?thesis by blast
qed

text \<open>
  Move assignment does not free the list it overwrites: after both entry lists have been destroyed,
  the old list of the target is still allocated.
\<close>

lemma entry_list_assign_leaks:
  assumes "p \<in> S" and "q \<in> S" and "p \<noteq> q"
  shows "\<exists>l r. entry_list_assign False (Some p) (Some q) = (l, r) \<and>
     thenM (entry_list_dtor l) (entry_list_dtor r) S = (Ret (), S - {q}) \<and> p \<in> S - {q}"
  using assms by (simp add: entry_list_assign_def entry_list_dtor_def freeaddrinfo_def op_simps)

lemma ex_dns_asked: "dns_run (\<lambda>_. None)
    \<lparr>dns_frame = dns_frame_new\<lparr>dns_t := Thread_started 4096, dns_node := Some ''fiona'', dns_service := None\<rparr>, dns_pipe = [], lists = {}\<rparr>
    (Q_asked 4096 (Some ''fiona'') None) {}"
  by (rule dns_run.query [OF dns_run.fresh])
    (simp_all add: async_resolve_def dns_await_suspend_def dns_frame_new_def op_simps)

theorem dns_overlap_witness:
  "\<exists>s1. async_resolve (Some ''other'') None
      \<lparr>dns_frame = dns_frame_new\<lparr>dns_t := Thread_started 4096, dns_node := Some ''fiona'', dns_service := None\<rparr>, dns_pipe = [], lists = {}\<rparr> =
      (Ret (), s1) \<and> dns_await_suspend 8192 s1 = (Assert_failed, s1)"
proof -
  let ?s = "\<lparr>dns_frame = dns_frame_new\<lparr>dns_t := Thread_started 4096, dns_node := Some ''fiona'', dns_service := None\<rparr>,
      dns_pipe = [], lists = {}\<rparr>"
  obtain s1 where s1: "async_resolve (Some ''other'') None ?s = (Ret (), s1)" by (simp add: async_resolve_def)
  from dns_overlap [OF ex_dns_asked s1, of "\<lambda>_ _. (- 2, None)" "- 2" None 8192] s1 show ?thesis by auto
qed


end
