(* ===== verification/Ip.thy ===== *)
theory Ip
  imports Acceptor
begin

section \<open>Socket addresses (\<open>ip.hpp\<close>, \<open>ip.cpp\<close>)\<close>

text \<open>
  Making a socket address from its text and back. The library's conversions are the fields of the
  record \<open>inet\<close>, a parameter: \<^verbatim>\<open>inet_pton\<close> gives its return value and the bytes of the address,
  \<^verbatim>\<open>inet_ntop\<close> the text that it writes with a terminating NUL into a buffer of the given size, or
  \<open>None\<close> for a null pointer. A thrown C string is the value \<open>Inl\<close> of the result. The fields of an
  IPv6 address that the code leaves zero are not part of the record.
\<close>

record inet =
  inet_pton :: "sa_family \<Rightarrow> string \<Rightarrow> int \<times> u8 list"
  inet_ntop :: "sa_family \<Rightarrow> u8 list \<Rightarrow> nat \<Rightarrow> string option"
  inet_errno :: int

definition htons :: "u16 \<Rightarrow> u16" where
  "htons p = push_bit 8 p OR drop_bit 8 p"

definition make_sockaddr_ipv4 :: "inet \<Rightarrow> string \<Rightarrow> u16 \<Rightarrow> (unit, string + sockaddr) op" where
  "make_sockaddr_ipv4 I ipv4_addr port =
     (case inet_pton I AF_INET ipv4_addr of (ret, bytes) \<Rightarrow>
        if ret = 0 then retM (Inl ''invalid network address was used'')
        else if ret \<noteq> 1 then throw_errno_as_error_code (inet_errno I)
        else retM (Inr \<lparr>sa_fam = AF_INET, sa_port = htons port, sa_addr = bytes\<rparr>))"

definition make_sockaddr_ipv6 :: "inet \<Rightarrow> string \<Rightarrow> u16 \<Rightarrow> (unit, string + sockaddr) op" where
  "make_sockaddr_ipv6 I ipv6_addr port =
     (case inet_pton I AF_INET6 ipv6_addr of (ret, bytes) \<Rightarrow>
        if ret = 0 then retM (Inl ''invalid network address was used'')
        else if ret \<noteq> 1 then throw_errno_as_error_code (inet_errno I)
        else retM (Inr \<lparr>sa_fam = AF_INET6, sa_port = htons port, sa_addr = bytes\<rparr>))"

text \<open>
  The string has \<^verbatim>\<open>INET_ADDRSTRLEN\<close> (16) NUL characters, the first of which that is left ends the text;
  without one \<^verbatim>\<open>erase( npos )\<close> throws.
\<close>

definition NUL :: char where "NUL = CHR 0x00"

definition to_string :: "inet \<Rightarrow> sockaddr \<Rightarrow> (unit, string) op" where
  "to_string I a =
     (let s = replicate 16 NUL in
      case inet_ntop I AF_INET (sa_addr a) (length s) of
        None \<Rightarrow> throw_errno_as_error_code (inet_errno I)
      | Some tx \<Rightarrow>
          let s' = tx @ [NUL] @ drop (length tx + 1) s; idx = length (takeWhile (\<lambda>c. c \<noteq> NUL) s') in
          if idx = length s' then throwM EINVAL else retM (take idx s'))"

lemma ntohs_htons: "ntohs (htons p) = p"
  unfolding ntohs_def htons_def by (rule bit_word_eqI) (auto simp: bit_simps)

lemma takeWhile_nul: "NUL \<notin> set xs \<Longrightarrow> takeWhile (\<lambda>c. c \<noteq> NUL) (xs @ NUL # r) = xs"
  by (induction xs) auto

text \<open>
  What the functions promise: \<^verbatim>\<open>inet_ntop\<close> writes a text without NUL that fits the buffer, and the text of
  an address that \<^verbatim>\<open>inet_pton\<close> has made is read back as the same address.
\<close>

definition inet_laws :: "inet \<Rightarrow> bool" where
  "inet_laws I =
     ((\<forall>bytes tx n. inet_ntop I AF_INET bytes n = Some tx \<longrightarrow> length tx < n \<and> NUL \<notin> set tx) \<and>
      (\<forall>tx bytes. inet_pton I AF_INET tx = (1, bytes) \<longrightarrow>
         (\<exists>c. inet_ntop I AF_INET bytes 16 = Some c \<and> inet_pton I AF_INET c = (1, bytes))))"


text \<open>A library that knows two ways to write the loopback address.\<close>

definition ex_inet :: inet where
  "ex_inet = \<lparr>
     inet_pton = (\<lambda>f t. if t \<in> {''127.0.0.1'', ''127.1''} then (1, [127, 0, 0, 1]) else (0, [])),
     inet_ntop = (\<lambda>f b n. if b = [127, 0, 0, 1] \<and> 9 < n then Some ''127.0.0.1'' else None), inet_errno = 28\<rparr>"


end
