(* ===== verification/Tls_Record.thy ===== *)
theory Tls_Record
  imports Prelude
begin

section \<open>TLS: errors, credentials and the callbacks of the engine (\<open>tls.cpp\<close>)\<close>

text \<open>
  The TLS engine is Botan, which is not part of the sources. This theory holds what Fiona implements for
  it: the error category, the credentials manager, and the callbacks through which the engine emits
  records to send and delivers decrypted bytes.
\<close>

subsection \<open>\<open>botan_error_category\<close>\<close>

datatype error_type =
    Unknown | SystemError | NotImplemented | OutOfMemory | InternalError | IoError
  | InvalidObjectState | KeyNotSet | InvalidArgument | InvalidKeyLength | InvalidNonceLength | LookupError
  | EncodingFailure | DecodingFailure | TLSError | HttpError | InvalidTag | RoughtimeError
  | CommonCryptoError | Pkcs11Error | TPMError | DatabaseError | ZlibError | Bzip2Error | LzmaError
  | Other_error int

fun message :: "error_type \<Rightarrow> string" where
  "message Unknown = ''Some unknown error''"
| "message SystemError = ''An error while calling a system interface''"
| "message NotImplemented = ''An operation seems valid, but not supported by the current version''"
| "message OutOfMemory = ''Memory allocation failure''"
| "message InternalError = ''An internal error occurred''"
| "message IoError = ''An I/O error occurred''"
| "message InvalidObjectState = ''Invalid object state''"
| "message KeyNotSet = ''A key was not set on an object when this is required''"
| "message InvalidArgument = ''The application provided an argument which is invalid''"
| "message InvalidKeyLength = ''A key with invalid length was provided''"
| "message InvalidNonceLength = ''A nonce with invalid length was provided''"
| "message LookupError = ''An object type was requested but cannot be found''"
| "message EncodingFailure = ''Encoding a message or datum failed''"
| "message DecodingFailure = ''Decoding a message or datum failed''"
| "message TLSError = ''A TLS error (error_code will be the alert type)''"
| "message HttpError = ''An error during an HTTP operation''"
| "message InvalidTag = ''A message with an invalid authentication tag was detected''"
| "message RoughtimeError = ''An error during Roughtime validation''"
| "message CommonCryptoError = ''An error when interacting with CommonCrypto API''"
| "message Pkcs11Error = ''An error when interacting with a PKCS11 device''"
| "message TPMError = ''An error when interacting with a TPM device''"
| "message DatabaseError = ''An error when interacting with a database''"
| "message ZlibError = ''An error when interacting with zlib''"
| "message Bzip2Error = ''An error when interacting with bzip2''"
| "message LzmaError = ''An error when interacting with lzma''"
| "message (Other_error e) = ''unhandled Botan error, this is a bug in Fiona''"

text \<open>Whether the category knows the error.\<close>

definition handled_error :: "error_type \<Rightarrow> bool" where
  "handled_error e = (case e of Other_error i \<Rightarrow> False | _ \<Rightarrow> True)"

definition known_errors :: "error_type list" where
  "known_errors =
     [Unknown, SystemError, NotImplemented, OutOfMemory, InternalError, IoError, InvalidObjectState, KeyNotSet,
      InvalidArgument, InvalidKeyLength, InvalidNonceLength, LookupError, EncodingFailure, DecodingFailure, TLSError,
      HttpError, InvalidTag, RoughtimeError, CommonCryptoError, Pkcs11Error, TPMError, DatabaseError, ZlibError,
      Bzip2Error, LzmaError]"

lemma known_errors_handled: "handled_error e = (e \<in> set known_errors)"
  by (cases e) (simp_all add: handled_error_def known_errors_def)

text \<open>No two errors that the category knows share a message, and none has the message for unknown errors.\<close>

lemma messages_distinct: "distinct (map message (known_errors @ [Other_error i]))"
  by (simp add: known_errors_def)

lemma message_inj:
  "handled_error e \<Longrightarrow> handled_error e' \<Longrightarrow> message e = message e' \<Longrightarrow> e = e'"
  "handled_error e \<Longrightarrow> message e \<noteq> message (Other_error i)"
  using messages_distinct [of i] by (auto simp: known_errors_handled distinct_map dest: inj_onD) (metis imageI)

subsection \<open>\<open>tls_credentials_manager\<close>\<close>

text \<open>What the code asks of a certificate and of a key.\<close>

record ('c, 'k, 'd) cert_ops =
  algo_name :: "'k \<Rightarrow> string"
  matches_dns_name :: "'c \<Rightarrow> string \<Rightarrow> bool"
  issuer_dn :: "'c \<Rightarrow> 'd"

type_synonym ('c, 'k) credentials = "('c \<times> 'k) list"

definition add_certificate_key_pair :: "'c \<Rightarrow> 'k \<Rightarrow> ('c, 'k) credentials \<Rightarrow> ('c, 'k) credentials" where
  "add_certificate_key_pair cert key pairs = pairs @ [(cert, key)]"

text \<open>The manager's own store of trusted certificates is offered before the system's.\<close>

definition add_certificate_authority :: "'c \<Rightarrow> 'c list \<Rightarrow> 'c list" where
  "add_certificate_authority cert cert_store = cert_store @ [cert]"

definition trusted_certificate_authorities :: "'c list \<Rightarrow> 'c list \<Rightarrow> 'c list list" where
  "trusted_certificate_authorities cert_store system_store = [cert_store, system_store]"

fun private_key_for :: "'c \<Rightarrow> ('c, 'k) credentials \<Rightarrow> 'k option" where
  "private_key_for cert [] = None"
| "private_key_for cert ((mcert, pkey) # ps) = (if cert = mcert then Some pkey else private_key_for cert ps)"

fun server_cert ::
  "('c, 'k, 'd) cert_ops \<Rightarrow> string list \<Rightarrow> string \<Rightarrow> ('c, 'k) credentials \<Rightarrow> 'c option" where
  "server_cert C algos hostname [] = None"
| "server_cert C algos hostname ((cert, pkey) # ps) =
     (if algo_name C pkey \<notin> set algos then server_cert C algos hostname ps
      else if hostname \<noteq> [] \<and> matches_dns_name C cert hostname then Some cert
      else server_cert C algos hostname ps)"

fun issued_by :: "('c, 'k, 'd) cert_ops \<Rightarrow> 'd \<Rightarrow> ('c, 'k) credentials \<Rightarrow> 'c option" where
  "issued_by C dn [] = None"
| "issued_by C dn ((cert, pkey) # ps) = (if dn = issuer_dn C cert then Some cert else issued_by C dn ps)"

fun client_cert :: "('c, 'k, 'd) cert_ops \<Rightarrow> 'd list \<Rightarrow> ('c, 'k) credentials \<Rightarrow> 'c option" where
  "client_cert C [] pairs = None"
| "client_cert C (dn # dns) pairs = (case issued_by C dn pairs of Some c \<Rightarrow> Some c | None \<Rightarrow> client_cert C dns pairs)"

definition tls_server :: string where "tls_server = ''tls-server''"
definition tls_client :: string where "tls_client = ''tls-client''"

lemma cert_types_distinct [simp]: "tls_server \<noteq> tls_client" "tls_client \<noteq> tls_server"
  by (simp_all add: tls_server_def tls_client_def)

definition find_cert_chain ::
  "('c, 'k, 'd) cert_ops \<Rightarrow> string list \<Rightarrow> 'd list \<Rightarrow> string \<Rightarrow> string \<Rightarrow> ('c, 'k) credentials \<Rightarrow> 'c list" where
  "find_cert_chain C algos acceptable_cas type hostname pairs =
     (if type = tls_server then case server_cert C algos hostname pairs of Some c \<Rightarrow> [c] | None \<Rightarrow> []
      else if type = tls_client then case client_cert C acceptable_cas pairs of Some c \<Rightarrow> [c] | None \<Rightarrow> []
      else [])"

lemma private_key_for_member:
  "distinct (map fst pairs) \<Longrightarrow> (c, k) \<in> set pairs \<Longrightarrow> private_key_for c pairs = Some k"
  by (induction pairs) (auto simp: rev_image_eqI)

lemma server_cert_Some:
  "server_cert C algos hostname pairs = Some c \<Longrightarrow>
     \<exists>k. (c, k) \<in> set pairs \<and> algo_name C k \<in> set algos \<and> hostname \<noteq> [] \<and> matches_dns_name C c hostname"
  by (induction pairs) (auto split: if_splits)

lemma server_cert_None:
  "server_cert C algos hostname pairs = None \<Longrightarrow> (c, k) \<in> set pairs \<Longrightarrow> algo_name C k \<in> set algos \<Longrightarrow>
     hostname = [] \<or> \<not> matches_dns_name C c hostname"
  by (induction pairs) (auto split: if_splits)

lemma issued_by_Some: "issued_by C dn pairs = Some c \<Longrightarrow> \<exists>k. (c, k) \<in> set pairs \<and> issuer_dn C c = dn"
  by (induction pairs) (auto split: if_splits)

lemma issued_by_None: "issued_by C dn pairs = None \<Longrightarrow> (c, k) \<in> set pairs \<Longrightarrow> issuer_dn C c \<noteq> dn"
  by (induction pairs) (auto split: if_splits)

lemma client_cert_Some:
  "client_cert C dns pairs = Some c \<Longrightarrow> \<exists>k. (c, k) \<in> set pairs \<and> issuer_dn C c \<in> set dns"
  by (induction dns) (auto split: option.splits dest: issued_by_Some)

lemma client_cert_None:
  "client_cert C dns pairs = None \<Longrightarrow> (c, k) \<in> set pairs \<Longrightarrow> issuer_dn C c \<notin> set dns"
  by (induction dns) (auto split: option.splits dest: issued_by_None)

text \<open>
  C38: the certificate that the credentials manager offers can be used: as long as no certificate is
  added twice, every certificate it returns is one of the stored ones for which \<^verbatim>\<open>private_key_for\<close>
  returns the key that was added with it, for a server one that matches the requested host name
  and whose key has an algorithm the peer accepts, for a client one whose issuer the peer accepts;
  and nothing is returned only if no stored pair qualifies.
\<close>

theorem find_cert_chain_usable:
  assumes "distinct (map fst pairs)"
  shows "(\<forall>c \<in> set (find_cert_chain C algos cas type host pairs). \<exists>k. (c, k) \<in> set pairs \<and> private_key_for c pairs = Some k \<and>
       (type = tls_server \<and> algo_name C k \<in> set algos \<and> host \<noteq> [] \<and> matches_dns_name C c host \<or>
        type = tls_client \<and> issuer_dn C c \<in> set cas)) \<and>
     (find_cert_chain C algos cas type host pairs = [] \<longrightarrow> (\<forall>(c, k) \<in> set pairs.
       (type = tls_server \<longrightarrow> algo_name C k \<notin> set algos \<or> host = [] \<or> \<not> matches_dns_name C c host) \<and>
       (type = tls_client \<longrightarrow> issuer_dn C c \<notin> set cas)))"
proof (intro conjI ballI impI)
  fix c assume c: "c \<in> set (find_cert_chain C algos cas type host pairs)"
  consider "type = tls_server" "server_cert C algos host pairs = Some c"
    | "type = tls_client" "client_cert C cas pairs = Some c"
  proof (cases "type = tls_server")
    case True
    then have "server_cert C algos host pairs = Some c" using c by (cases "server_cert C algos host pairs") (simp_all add: find_cert_chain_def)
    then show ?thesis using that(1) True by blast
  next
    case False
    then have t: "type = tls_client" using c by (cases "type = tls_client") (simp_all add: find_cert_chain_def)
    then have "client_cert C cas pairs = Some c" using c by (cases "client_cert C cas pairs") (simp_all add: find_cert_chain_def)
    then show ?thesis using that(2) t by blast
  qed
  then show "\<exists>k. (c, k) \<in> set pairs \<and> private_key_for c pairs = Some k \<and>
       (type = tls_server \<and> algo_name C k \<in> set algos \<and> host \<noteq> [] \<and> matches_dns_name C c host \<or>
        type = tls_client \<and> issuer_dn C c \<in> set cas)"
  proof cases
    case 1
    then show ?thesis using server_cert_Some [OF 1(2)] private_key_for_member [OF assms] by blast
  next
    case 2
    then show ?thesis using client_cert_Some [OF 2(2)] private_key_for_member [OF assms] by blast
  qed
next
  fix p assume none: "find_cert_chain C algos cas type host pairs = []" and p: "p \<in> set pairs"
  obtain c k where ck: "p = (c, k)" by (cases p)
  have "server_cert C algos host pairs = None" if "type = tls_server"
    using none that by (simp add: find_cert_chain_def split: option.splits)
  moreover have "client_cert C cas pairs = None" if "type = tls_client"
    using none that by (simp add: find_cert_chain_def split: option.splits if_splits)
  ultimately show "case p of (c, k) \<Rightarrow>
       (type = tls_server \<longrightarrow> algo_name C k \<notin> set algos \<or> host = [] \<or> \<not> matches_dns_name C c host) \<and>
       (type = tls_client \<longrightarrow> issuer_dn C c \<notin> set cas)"
    using server_cert_None [of C algos host pairs c k] client_cert_None [of C cas pairs c k] p
    unfolding ck prod.case by blast
qed

theorem find_cert_chain_usable_witness:
  "\<exists>k. private_key_for (1 :: nat) [(0, ''RSA''), (1, ''ECDSA'')] = Some k \<and>
     1 \<in> set (find_cert_chain \<lparr>algo_name = id, matches_dns_name = (\<lambda>c h. c = 1 \<and> h = ''fiona''), issuer_dn = (\<lambda>c. c)\<rparr>
       [''ECDSA''] [] tls_server ''fiona'' [(0 :: nat, ''RSA''), (1, ''ECDSA'')])"
proof -
  let ?C = "\<lparr>algo_name = id, matches_dns_name = (\<lambda>c h. c = (1 :: nat) \<and> h = ''fiona''), issuer_dn = (\<lambda>c. c)\<rparr>"
  let ?p = "[(0 :: nat, ''RSA''), (1, ''ECDSA'')]"
  have d: "distinct (map fst ?p)" by simp
  have m: "1 \<in> set (find_cert_chain ?C [''ECDSA''] [] tls_server ''fiona'' ?p)" by (simp add: find_cert_chain_def)
  have "\<exists>k. private_key_for 1 ?p = Some k"
    using bspec [OF conjunct1 [OF find_cert_chain_usable [OF d]] m] by (elim exE conjE) (rule exI)
  then obtain k where "private_key_for 1 ?p = Some k" by (rule exE)
  then show ?thesis using m by blast
qed

end
