(* ===== verification/Tls_Callbacks.thy ===== *)
theory Tls_Callbacks
  imports Tls_Record
begin

section \<open>TLS: the callbacks and their buffers (\<open>tls_callbacks\<close> of \<open>tls.cpp\<close>)\<close>

text \<open>
  What the engine emits is collected in \<^verbatim>\<open>send_buf_\<close>, what it decrypts in \<^verbatim>\<open>input_sequence_\<close>; the
  buffers the encrypted bytes came in wait in \<^verbatim>\<open>output_sequence_\<close> to be filled again. A buffer is its
  address, capacity and length; its bytes live in the memory \<open>mem\<close>, so that the engine can read a
  buffer while the callbacks write it. Addresses from \<open>next_addr\<close> on are free.
\<close>

record tls_buf =
  tb_addr :: addr
  tb_cap :: nat
  tb_len :: nat

record tls_state =
  send_buf :: "u8 list"
  input_sequence :: "tls_buf list"
  output_sequence :: "tls_buf list"
  received_record :: bool
  close_notify_received :: bool
  mem :: "addr \<Rightarrow> nat \<Rightarrow> u8"
  next_addr :: addr

definition read_bytes :: "(addr \<Rightarrow> nat \<Rightarrow> u8) \<Rightarrow> addr \<Rightarrow> nat \<Rightarrow> nat \<Rightarrow> u8 list" where
  "read_bytes m p off n = map (m p) [off..<off + n]"

definition write_bytes :: "addr \<Rightarrow> nat \<Rightarrow> u8 list \<Rightarrow> (addr \<Rightarrow> nat \<Rightarrow> u8) \<Rightarrow> addr \<Rightarrow> nat \<Rightarrow> u8" where
  "write_bytes p off bs m =
     m(p := (\<lambda>i. if off \<le> i \<and> i < off + length bs then bs ! (i - off) else m p i))"

definition buf_bytes :: "(addr \<Rightarrow> nat \<Rightarrow> u8) \<Rightarrow> tls_buf \<Rightarrow> u8 list" where
  "buf_bytes m b = read_bytes m (tb_addr b) 0 (tb_len b)"

definition seq_bytes_of :: "(addr \<Rightarrow> nat \<Rightarrow> u8) \<Rightarrow> tls_buf list \<Rightarrow> u8 list" where
  "seq_bytes_of m bs = concat (map (buf_bytes m) bs)"

subsection \<open>The callbacks\<close>

definition tls_emit_data :: "u8 list \<Rightarrow> ('a tls_state_scheme, unit) op" where
  "tls_emit_data d s = (Ret (), s\<lparr>send_buf := send_buf s @ d\<rparr>)"

datatype alert_type = Close_notify | Other_alert nat

definition tls_alert :: "alert_type \<Rightarrow> ('a tls_state_scheme, unit) op" where
  "tls_alert a s = (Ret (), if a = Close_notify then s\<lparr>close_notify_received := True\<rparr> else s)"

text \<open>A buffer to fill: a used one, or a new one as large as the first of the input.\<close>

definition next_output :: "('a tls_state_scheme, tls_buf) op" where
  "next_output s =
     (case output_sequence s of
        b # bs \<Rightarrow> (Ret b, s\<lparr>output_sequence := bs\<rparr>)
      | [] \<Rightarrow>
          (case input_sequence s of
             [] \<Rightarrow> (Assert_failed, s)
           | f # _ \<Rightarrow> (Ret \<lparr>tb_addr = next_addr s, tb_cap = tb_cap f, tb_len = 0\<rparr>, s\<lparr>next_addr := next_addr s + 1\<rparr>)))"

function record_loop :: "u8 list \<Rightarrow> ('a tls_state_scheme, unit) op" where
  "record_loop plaintext s =
     (if plaintext = [] then (Ret (), s)
      else if input_sequence s \<noteq> [] \<and> tb_len (last (input_sequence s)) < tb_cap (last (input_sequence s)) then
        let b = last (input_sequence s); n = min (tb_cap b - tb_len b) (length plaintext) in
        record_loop (drop n plaintext)
          (s\<lparr>mem := write_bytes (tb_addr b) (tb_len b) (take n plaintext) (mem s),
             input_sequence := butlast (input_sequence s) @ [b\<lparr>tb_len := tb_len b + n\<rparr>]\<rparr>)
      else
        (case next_output s of
           (Ret b, s1) \<Rightarrow>
             (if tb_cap b = 0 then (Assert_failed, s1)
              else let n = min (tb_cap b) (length plaintext) in
                record_loop (drop n plaintext)
                  (s1\<lparr>mem := write_bytes (tb_addr b) 0 (take n plaintext) (mem s1),
                      input_sequence := input_sequence s1 @ [b\<lparr>tb_len := n\<rparr>]\<rparr>))
         | (Throw e, s1) \<Rightarrow> (Throw e, s1)
         | (Assert_failed, s1) \<Rightarrow> (Assert_failed, s1)
         | (Bad_access, s1) \<Rightarrow> (Bad_access, s1)))"
  by pat_completeness auto

termination by (relation "measure (\<lambda>(p, s). length p)") auto

declare record_loop.simps [simp del]

definition tls_record_received :: "u8 list \<Rightarrow> ('a tls_state_scheme, unit) op" where
  "tls_record_received plaintext s = record_loop plaintext (s\<lparr>received_record := True\<rparr>)"

text \<open>Certificates: \<open>valid\<close> is the result of the library's path validation. \<open>Some\<close> text is thrown.\<close>

definition tls_verify_cert_chain :: "bool \<Rightarrow> string option" where
  "tls_verify_cert_chain valid = (if valid then None else Some ''invalid certificate'')"

subsection \<open>Reading and writing buffers\<close>

lemma read_write_other: "p \<noteq> q \<Longrightarrow> read_bytes (write_bytes p off bs m) q o' n = read_bytes m q o' n"
  by (simp add: read_bytes_def write_bytes_def)

lemma length_read_bytes [simp]: "length (read_bytes m p off n) = n"
  by (simp add: read_bytes_def)

lemma read_write_append: "read_bytes (write_bytes p off bs m) p 0 (off + length bs) = read_bytes m p 0 off @ bs"
  by (rule nth_equalityI) (auto simp: read_bytes_def write_bytes_def nth_append)

lemma read_write_start: "read_bytes (write_bytes p 0 bs m) p 0 (length bs) = bs"
  using read_write_append [of p 0 bs m] by (simp add: read_bytes_def)

lemma seq_bytes_of_simps [simp]:
  "seq_bytes_of m [] = []" "seq_bytes_of m (b # bs) = buf_bytes m b @ seq_bytes_of m bs"
  "seq_bytes_of m (xs @ ys) = seq_bytes_of m xs @ seq_bytes_of m ys"
  by (simp_all add: seq_bytes_of_def)

lemma seq_bytes_of_write:
  "p \<notin> tb_addr ` set bs \<Longrightarrow> seq_bytes_of (write_bytes p off ys m) bs = seq_bytes_of m bs"
  by (induction bs) (auto simp: buf_bytes_def read_write_other)

subsection \<open>The invariant of the two sequences\<close>

definition tls_wf :: "'a tls_state_scheme \<Rightarrow> bool" where
  "tls_wf s =
     (distinct (map tb_addr (input_sequence s @ output_sequence s)) \<and>
      (\<forall>b \<in> set (input_sequence s @ output_sequence s). tb_addr b < next_addr s \<and> tb_len b \<le> tb_cap b \<and> 0 < tb_cap b))"

text \<open>Memory that neither sequence refers to is left alone and does not come into use.\<close>

definition tls_addrs :: "'a tls_state_scheme \<Rightarrow> addr set" where
  "tls_addrs s = tb_addr ` set (input_sequence s @ output_sequence s)"

definition tls_frame :: "'a tls_state_scheme \<Rightarrow> 'a tls_state_scheme \<Rightarrow> bool" where
  "tls_frame s s' =
     (next_addr s \<le> next_addr s' \<and> (\<forall>p < next_addr s. p \<notin> tls_addrs s \<longrightarrow> mem s' p = mem s p \<and> p \<notin> tls_addrs s'))"

lemma tls_frame_refl [simp]: "tls_frame s s"
  by (simp add: tls_frame_def)

lemma tls_frame_trans: "tls_frame s t \<Longrightarrow> tls_frame t u \<Longrightarrow> tls_frame s u"
  by (auto simp: tls_frame_def)

lemma tls_wf_append:
  assumes wf: "tls_wf s" and "input_sequence s \<noteq> []"
    and b: "b = last (input_sequence s)" and n: "tb_len b + n \<le> tb_cap b"
  shows "tls_wf (s\<lparr>mem := m, input_sequence := butlast (input_sequence s) @ [b\<lparr>tb_len := tb_len b + n\<rparr>]\<rparr>)"
proof -
  have i: "input_sequence s = butlast (input_sequence s) @ [b]" using assms(2) b by simp
  have "tls_wf (s\<lparr>input_sequence := butlast (input_sequence s) @ [b]\<rparr>)" using wf i by simp
  then show ?thesis using n by (auto simp: tls_wf_def)
qed

lemma append_bytes:
  assumes wf: "tls_wf s" and "input_sequence s \<noteq> []" and b: "b = last (input_sequence s)"
  shows "seq_bytes_of (write_bytes (tb_addr b) (tb_len b) ys (mem s))
      (butlast (input_sequence s) @ [b\<lparr>tb_len := tb_len b + length ys\<rparr>]) = seq_bytes_of (mem s) (input_sequence s) @ ys"
proof -
  have i: "input_sequence s = butlast (input_sequence s) @ [b]" using assms(2) b by simp
  have "distinct (map tb_addr (butlast (input_sequence s) @ [b]))" using wf unfolding tls_wf_def by (simp flip: i)
  then have "tb_addr b \<notin> tb_addr ` set (butlast (input_sequence s))" by simp
  then have "seq_bytes_of (write_bytes (tb_addr b) (tb_len b) ys (mem s)) (butlast (input_sequence s) @ [b\<lparr>tb_len := tb_len b + length ys\<rparr>]) =
      seq_bytes_of (mem s) (butlast (input_sequence s) @ [b]) @ ys"
    by (simp add: seq_bytes_of_write buf_bytes_def read_write_append)
  then show ?thesis by (simp flip: i)
qed

lemma next_output_ok:
  assumes "tls_wf s" and "input_sequence s \<noteq> [] \<or> output_sequence s \<noteq> []"
  obtains b q a where "next_output s = (Ret b, s\<lparr>output_sequence := q, next_addr := a\<rparr>)" and "0 < tb_cap b"
    and "next_addr s \<le> a" and "tb_addr b \<notin> tb_addr ` set (input_sequence s)"
    and "set q \<subseteq> set (output_sequence s)" and "b \<in> set (output_sequence s) \<or> tb_addr b = next_addr s"
    and "\<And>n m. n \<le> tb_cap b \<Longrightarrow>
      tls_wf (s\<lparr>output_sequence := q, next_addr := a, mem := m, input_sequence := input_sequence s @ [b\<lparr>tb_len := n\<rparr>]\<rparr>)"
proof (cases "output_sequence s")
  case (Cons b q)
  have "next_output s = (Ret b, s\<lparr>output_sequence := q, next_addr := next_addr s\<rparr>)" using Cons by (simp add: next_output_def)
  then show ?thesis using assms(1) Cons by (intro that [where b = b and q = q and a = "next_addr s"]) (auto simp: tls_wf_def)
next
  case Nil
  then obtain f i where i: "input_sequence s = f # i" using assms(2) by (cases "input_sequence s") auto
  let ?b = "\<lparr>tb_addr = next_addr s, tb_cap = tb_cap f, tb_len = 0\<rparr>"
  have "next_output s = (Ret ?b, s\<lparr>output_sequence := [], next_addr := next_addr s + 1\<rparr>)"
    using Nil i by (simp add: next_output_def)
  then show ?thesis using assms(1) Nil i by (intro that [where b = ?b and q = "[]" and a = "next_addr s + 1"]) (auto simp: tls_wf_def)
qed

lemma record_loop_ok:
  assumes "tls_wf s" and "plaintext = [] \<or> input_sequence s \<noteq> [] \<or> output_sequence s \<noteq> []"
  shows "\<exists>m i q a. record_loop plaintext s =
       (Ret (), s\<lparr>mem := m, input_sequence := i, output_sequence := q, next_addr := a\<rparr>) \<and>
     tls_wf (s\<lparr>mem := m, input_sequence := i, output_sequence := q, next_addr := a\<rparr>) \<and>
     seq_bytes_of m i = seq_bytes_of (mem s) (input_sequence s) @ plaintext \<and>
     tls_frame s (s\<lparr>mem := m, input_sequence := i, output_sequence := q, next_addr := a\<rparr>) \<and>
     (input_sequence s \<noteq> [] \<or> output_sequence s \<noteq> [] \<longrightarrow> i \<noteq> [] \<or> q \<noteq> [])"
  using assms
proof (induction "length plaintext" arbitrary: plaintext s rule: less_induct)
  case less
  show ?case
  proof (cases "plaintext = []")
    case True
    then have "record_loop plaintext s = (Ret (), s)" by (simp add: record_loop.simps)
    then show ?thesis using True less.prems
      by (intro exI [of _ "mem s"] exI [of _ "input_sequence s"] exI [of _ "output_sequence s"] exI [of _ "next_addr s"]) simp
  next
    case nonempty: False
    show ?thesis
    proof (cases "input_sequence s \<noteq> [] \<and> tb_len (last (input_sequence s)) < tb_cap (last (input_sequence s))")
      case True
      define b where "b = last (input_sequence s)"
      define n where "n = min (tb_cap b - tb_len b) (length plaintext)"
      let ?i = "butlast (input_sequence s) @ [b\<lparr>tb_len := tb_len b + n\<rparr>]"
      let ?m = "write_bytes (tb_addr b) (tb_len b) (take n plaintext) (mem s)"
      let ?s = "s\<lparr>mem := ?m, input_sequence := ?i\<rparr>"
      have n: "0 < n" "n \<le> length plaintext" "tb_len b + n \<le> tb_cap b" using True nonempty by (auto simp: n_def b_def)
      have wf: "tls_wf ?s" using tls_wf_append [OF less.prems(1) _ b_def n(3)] True by simp
      have bytes: "seq_bytes_of ?m ?i = seq_bytes_of (mem s) (input_sequence s) @ take n plaintext"
        using append_bytes [OF less.prems(1) _ b_def, of "take n plaintext"] True n(2) by simp
      have "length (drop n plaintext) < length plaintext" using n nonempty by simp
      from less.hyps [OF this wf] obtain m i q a where r: "record_loop (drop n plaintext) ?s =
            (Ret (), ?s\<lparr>mem := m, input_sequence := i, output_sequence := q, next_addr := a\<rparr>)"
          "tls_wf (?s\<lparr>mem := m, input_sequence := i, output_sequence := q, next_addr := a\<rparr>)"
          "seq_bytes_of m i = seq_bytes_of ?m ?i @ drop n plaintext"
          "tls_frame ?s (?s\<lparr>mem := m, input_sequence := i, output_sequence := q, next_addr := a\<rparr>)" "i \<noteq> [] \<or> q \<noteq> []"
        by auto
      obtain xs where "input_sequence s = xs @ [b]" using True unfolding b_def by (metis append_butlast_last_id)
      then have "tls_addrs ?s = tls_addrs s" "tb_addr b \<in> tls_addrs s" by (simp_all add: tls_addrs_def)
      then have "tls_frame s ?s" by (auto simp: tls_frame_def write_bytes_def)
      then have frame: "tls_frame s (s\<lparr>mem := m, input_sequence := i, output_sequence := q, next_addr := a\<rparr>)"
        using tls_frame_trans r(4) by fastforce
      have all: "seq_bytes_of m i = seq_bytes_of (mem s) (input_sequence s) @ plaintext" using r(3) unfolding bytes by simp
      have "record_loop plaintext s = record_loop (drop n plaintext) ?s"
        using nonempty True by (subst record_loop.simps) (simp add: b_def n_def Let_def)
      then show ?thesis using r(1,2,5) all frame by (intro exI [of _ m] exI [of _ i] exI [of _ q] exI [of _ a]) simp
    next
      case full: False
      obtain b q0 a0 where o: "next_output s = (Ret b, s\<lparr>output_sequence := q0, next_addr := a0\<rparr>)" "0 < tb_cap b"
          "next_addr s \<le> a0" "tb_addr b \<notin> tb_addr ` set (input_sequence s)"
          "set q0 \<subseteq> set (output_sequence s)" "b \<in> set (output_sequence s) \<or> tb_addr b = next_addr s"
          "\<And>n m. n \<le> tb_cap b \<Longrightarrow>
             tls_wf (s\<lparr>output_sequence := q0, next_addr := a0, mem := m, input_sequence := input_sequence s @ [b\<lparr>tb_len := n\<rparr>]\<rparr>)"
        by (rule next_output_ok [OF less.prems(1)]) (use less.prems(2) nonempty in auto)
      define n where "n = min (tb_cap b) (length plaintext)"
      let ?i = "input_sequence s @ [b\<lparr>tb_len := n\<rparr>]"
      let ?m = "write_bytes (tb_addr b) 0 (take n plaintext) (mem s)"
      let ?s = "s\<lparr>output_sequence := q0, next_addr := a0, mem := ?m, input_sequence := ?i\<rparr>"
      have n: "0 < n" "n \<le> length plaintext" "n \<le> tb_cap b" using o(2) nonempty by (auto simp: n_def)
      have bytes: "seq_bytes_of ?m ?i = seq_bytes_of (mem s) (input_sequence s) @ take n plaintext"
        using o(4) n(2) read_write_start [of "tb_addr b" "take n plaintext" "mem s"]
        by (simp add: seq_bytes_of_write buf_bytes_def)
      have "length (drop n plaintext) < length plaintext" using n nonempty by simp
      from less.hyps [OF this o(7) [OF n(3), of ?m]] obtain m i q a where r: "record_loop (drop n plaintext) ?s =
            (Ret (), ?s\<lparr>mem := m, input_sequence := i, output_sequence := q, next_addr := a\<rparr>)"
          "tls_wf (?s\<lparr>mem := m, input_sequence := i, output_sequence := q, next_addr := a\<rparr>)"
          "seq_bytes_of m i = seq_bytes_of ?m ?i @ drop n plaintext"
          "tls_frame ?s (?s\<lparr>mem := m, input_sequence := i, output_sequence := q, next_addr := a\<rparr>)" "i \<noteq> [] \<or> q \<noteq> []"
        by auto
      have "tls_frame s ?s" using o(3,5,6) by (auto simp: tls_frame_def tls_addrs_def write_bytes_def)
      then have frame: "tls_frame s (s\<lparr>mem := m, input_sequence := i, output_sequence := q, next_addr := a\<rparr>)"
        using tls_frame_trans r(4) by fastforce
      have all: "seq_bytes_of m i = seq_bytes_of (mem s) (input_sequence s) @ plaintext" using r(3) unfolding bytes by simp
      have "record_loop plaintext s = record_loop (drop n plaintext) ?s"
        using nonempty full o(1,2) by (subst record_loop.simps) (auto simp: n_def Let_def)
      then show ?thesis using r(1,2,5) all frame by (intro exI [of _ m] exI [of _ i] exI [of _ q] exI [of _ a]) simp
    qed
  qed
qed

subsection \<open>Properties\<close>

text \<open>
  C26: a decrypted record is delivered completely: whatever its length and however the buffers are
  filled, the callback terminates, the bytes of the input sequence are those from before followed by
  the record, every buffer stays within its capacity and no two buffers share memory. Without any
  buffer, that is when the engine decrypts data before \<^verbatim>\<open>async_recv\<close> has been called, its
  assertion that the input sequence is not empty fails.
\<close>

theorem record_received_appends:
  assumes "tls_wf s"
  shows "if plaintext \<noteq> [] \<and> input_sequence s = [] \<and> output_sequence s = []
     then fst (tls_record_received plaintext s) = Assert_failed
     else \<exists>s'. tls_record_received plaintext s = (Ret (), s') \<and> tls_wf s' \<and> received_record s' \<and>
       seq_bytes_of (mem s') (input_sequence s') = seq_bytes_of (mem s) (input_sequence s) @ plaintext \<and> send_buf s' = send_buf s"
proof (cases "plaintext \<noteq> [] \<and> input_sequence s = [] \<and> output_sequence s = []")
  case True
  then have "record_loop plaintext (s\<lparr>received_record := True\<rparr>) = (Assert_failed, s\<lparr>received_record := True\<rparr>)"
    by (subst record_loop.simps) (simp add: next_output_def)
  then show ?thesis using True by (simp add: tls_record_received_def)
next
  case False
  have "tls_wf (s\<lparr>received_record := True\<rparr>)" using assms by (simp add: tls_wf_def)
  then show ?thesis using record_loop_ok [of "s\<lparr>received_record := True\<rparr>" plaintext] False
    by (auto simp: tls_record_received_def)
qed

text \<open>
  C36: the callback may overwrite what the engine has not read yet: when the only buffer at hand is the
  one the engine is reading, of which it has consumed \<open>k\<close> bytes, a record longer than that (its
  beginning came in an earlier buffer) is written over the unread rest, so an engine that reads its
  input piece by piece continues with the plaintext of the record in place of the encrypted bytes.
\<close>

theorem plaintext_overwrites_unread:
  assumes "tls_wf s" and "input_sequence s = []" and "output_sequence s = [b]" and "k < length plaintext" and "length plaintext \<le> tb_len b"
  shows "\<exists>s'. tls_record_received plaintext s = (Ret (), s') \<and>
     read_bytes (mem s') (tb_addr b) k (tb_len b - k) =
       drop k plaintext @ read_bytes (mem s) (tb_addr b) (length plaintext) (tb_len b - length plaintext)"
proof -
  let ?m = "write_bytes (tb_addr b) 0 plaintext (mem s)"
  have cap: "0 < tb_cap b" "length plaintext \<le> tb_cap b" using assms by (auto simp: tls_wf_def)
  have ended: "record_loop [] t = (Ret (), t)" for t :: "'a tls_state_scheme" by (simp add: record_loop.simps)
  let ?s = "s\<lparr>received_record := True, output_sequence := [], mem := ?m, input_sequence := [b\<lparr>tb_len := length plaintext\<rparr>]\<rparr>"
  have "tls_record_received plaintext s = (Ret (), ?s)"
    using assms(2-4) cap unfolding tls_record_received_def
    by (subst record_loop.simps) (auto simp: next_output_def ended)
  moreover have "read_bytes ?m (tb_addr b) k (tb_len b - k) =
      drop k plaintext @ read_bytes (mem s) (tb_addr b) (length plaintext) (tb_len b - length plaintext)"
    using assms(4,5) by (intro nth_equalityI) (auto simp: read_bytes_def write_bytes_def nth_append add.commute)
  ultimately show ?thesis by (intro exI [of _ ?s]) simp
qed

definition ex_tls :: "tls_buf list \<Rightarrow> tls_buf list \<Rightarrow> tls_state" where
  "ex_tls i q = \<lparr>send_buf = [], input_sequence = i, output_sequence = q, received_record = False,
     close_notify_received = False, mem = (\<lambda>p i. of_nat (p + i)), next_addr = 10\<rparr>"

theorem record_received_appends_witness:
  "\<exists>s'. tls_record_received [104, 101, 121] (ex_tls [\<lparr>tb_addr = 1, tb_cap = 4, tb_len = 2\<rparr>] [\<lparr>tb_addr = 2, tb_cap = 4, tb_len = 4\<rparr>]) =
     (Ret (), s') \<and> seq_bytes_of (mem s') (input_sequence s') = [1, 2, 104, 101, 121]"
proof -
  have "tls_wf (ex_tls [\<lparr>tb_addr = 1, tb_cap = 4, tb_len = 2\<rparr>] [\<lparr>tb_addr = 2, tb_cap = 4, tb_len = 4\<rparr>])"
    by (simp add: tls_wf_def ex_tls_def)
  from record_received_appends [OF this, of "[104, 101, 121]"] show ?thesis
    by (simp add: ex_tls_def buf_bytes_def read_bytes_def upt_rec) blast
qed

theorem plaintext_overwrites_unread_witness:
  "\<exists>s'. tls_record_received [104, 101, 121] (ex_tls [] [\<lparr>tb_addr = 2, tb_cap = 4, tb_len = 4\<rparr>]) = (Ret (), s') \<and>
     read_bytes (mem s') 2 1 3 = [101, 121, 5]"
proof -
  let ?b = "\<lparr>tb_addr = 2, tb_cap = 4, tb_len = 4\<rparr>"
  have s: "tls_wf (ex_tls [] [?b])" "input_sequence (ex_tls [] [?b]) = []" "output_sequence (ex_tls [] [?b]) = [?b]"
    by (simp_all add: tls_wf_def ex_tls_def)
  have k: "1 < length [104, 101, 121 :: u8]" "length [104, 101, 121 :: u8] \<le> tb_len ?b" by simp_all
  from plaintext_overwrites_unread [OF s k] show ?thesis
    by (simp add: read_bytes_def upt_rec ex_tls_def)
qed

end
