(* ===== verification/Tls.thy ===== *)
theory Tls
  imports Tls_Callbacks
begin

section \<open>TLS clients and servers (\<open>tls.hpp\<close>, \<open>tls.cpp\<close>)\<close>

text \<open>
  The coroutines of a TLS stream over a TCP stream and an engine. The engine is a parameter: given the
  unread bytes of its input it consumes a prefix of them and then makes callbacks, and it
  may throw. The TCP stream is seen through what its awaitables deliver: \<open>tcp_in\<close> are the results of
  the receives still to come, \<open>send_results\<close> those of the sends, \<open>wire\<close> the bytes that the
  peer has been sent. A coroutine that awaits a result that never comes is \<open>Waiting\<close>.
\<close>

datatype tls_exn = Botan_exn error_type | Text_exn string | System_exn int

datatype tls_error = Errno int | Botan_error error_type

datatype 'a task_result = Returned "tls_error + 'a" | Raised tls_exn | Waiting

datatype tls_event = Emit "u8 list" | Record "u8 list" | Alert alert_type | Verify bool

record 'ch engine =
  is_active :: "'ch \<Rightarrow> bool"
  is_closed :: "'ch \<Rightarrow> bool"
  is_handshake_complete :: "'ch \<Rightarrow> bool"
  ch_client :: "string \<Rightarrow> 'ch \<times> tls_event list"
  ch_server :: "'ch \<times> tls_event list"
  ch_piece :: "'ch \<Rightarrow> u8 list \<Rightarrow> nat \<times> tls_event list \<times> tls_exn option \<times> 'ch"
  ch_send :: "'ch \<Rightarrow> u8 list \<Rightarrow> tls_event list \<times> tls_exn option \<times> 'ch"
  ch_close :: "'ch \<Rightarrow> tls_event list \<times> 'ch"

type_synonym tcp_recv = "int + (nat \<times> u8 list) list"

record 'ch tls_stream = tls_state +
  chan :: 'ch
  tcp_in :: "tcp_recv list"
  send_results :: "int fiona_result list"
  wire :: "u8 list"

subsection \<open>The engine at work\<close>

definition run_event :: "tls_event \<Rightarrow> ('a tls_state_scheme, tls_exn option) op" where
  "run_event ev =
     (case ev of
        Emit d \<Rightarrow> thenM (tls_emit_data d) (retM None)
      | Record d \<Rightarrow> thenM (tls_record_received d) (retM None)
      | Alert a \<Rightarrow> thenM (tls_alert a) (retM None)
      | Verify v \<Rightarrow> retM (map_option Text_exn (tls_verify_cert_chain v)))"

fun run_events :: "tls_event list \<Rightarrow> ('a tls_state_scheme, tls_exn option) op" where
  "run_events [] = retM None"
| "run_events (ev # evs) = bindM (run_event ev) (\<lambda>x. case x of Some e \<Rightarrow> retM (Some e) | None \<Rightarrow> run_events evs)"

text \<open>The input of \<^verbatim>\<open>received_data\<close>: a part of a buffer, read when the engine gets there, or bytes of its own.\<close>

datatype span = In_buffer addr nat nat | Owned "u8 list"

fun span_size :: "span \<Rightarrow> nat" where
  "span_size (In_buffer p off n) = n"
| "span_size (Owned bs) = length bs"

fun span_bytes :: "(addr \<Rightarrow> nat \<Rightarrow> u8) \<Rightarrow> span \<Rightarrow> u8 list" where
  "span_bytes m (In_buffer p off n) = read_bytes m p off n"
| "span_bytes m (Owned bs) = bs"

fun span_drop :: "nat \<Rightarrow> span \<Rightarrow> span" where
  "span_drop k (In_buffer p off n) = In_buffer p (off + k) (n - k)"
| "span_drop k (Owned bs) = Owned (drop k bs)"

lemma span_size_drop [simp]: "span_size (span_drop k sp) = span_size sp - k"
  by (cases sp) simp_all

function received_data :: "'ch engine \<Rightarrow> span \<Rightarrow> ('ch tls_stream, tls_exn option) op" where
  "received_data E sp s =
     (if span_size sp = 0 then (Ret None, s)
      else case ch_piece E (chan s) (span_bytes (mem s) sp) of (k, evs, ex, ch) \<Rightarrow>
        (case run_events evs (s\<lparr>chan := ch\<rparr>) of
           (Ret None, s1) \<Rightarrow>
             (if ex \<noteq> None \<or> k = 0 then (Ret ex, s1) else received_data E (span_drop k sp) s1)
         | (x, s1) \<Rightarrow> (x, s1)))"
  by pat_completeness auto

termination by (relation "measure (\<lambda>(E, sp, s). span_size sp)") auto

declare received_data.simps [simp del]

subsection \<open>The TCP stream below\<close>

text \<open>Received buffers are allocations of their own; capacity 0 marks the end of the stream.\<close>

fun arrive :: "(nat \<times> u8 list) list \<Rightarrow> 'a tls_state_scheme \<Rightarrow> tls_buf list \<times> 'a tls_state_scheme" where
  "arrive [] s = ([], s)"
| "arrive ((cap, bytes) # r) s =
     (case arrive r (s\<lparr>mem := write_bytes (next_addr s) 0 bytes (mem s), next_addr := next_addr s + 1\<rparr>) of
        (bs, s') \<Rightarrow> (\<lparr>tb_addr = next_addr s, tb_cap = cap, tb_len = length bytes\<rparr> # bs, s'))"

definition tcp_send :: "u8 list \<Rightarrow> 'ch tls_stream \<Rightarrow> int fiona_result option \<times> 'ch tls_stream" where
  "tcp_send data s =
     (case send_results s of
        [] \<Rightarrow> (None, s)
      | Inl e # r \<Rightarrow> (Some (Inl e), s\<lparr>send_results := r\<rparr>)
      | Inr n # r \<Rightarrow> (Some (Inr n), s\<lparr>send_results := r, wire := wire s @ take (nat n) data\<rparr>))"

subsection \<open>Receiving\<close>

text \<open>
  The inner loop of \<^verbatim>\<open>async_recv_impl\<close>; the buffers behind an end-of-stream marker are dropped. \<open>recv_step\<close> is the
  body of the outer loop for one result of the TCP receive: \<open>None\<close> goes round again.
\<close>

fun recv_bufs :: "'ch engine \<Rightarrow> tls_buf list \<Rightarrow> ('ch tls_stream, tls_exn option) op" where
  "recv_bufs E [] s = (Ret None, s)"
| "recv_bufs E (b # bs) s =
     (if tb_cap b = 0
      then (Ret None, s\<lparr>input_sequence := input_sequence s @ [b], received_record := True\<rparr>)
      else (case received_data E (In_buffer (tb_addr b) 0 (tb_len b)) (s\<lparr>output_sequence := output_sequence s @ [b]\<rparr>) of
          (Ret None, s1) \<Rightarrow> recv_bufs E bs s1
        | (x, s1) \<Rightarrow> (x, s1)))"

definition recv_exn :: "tls_exn \<Rightarrow> 'a task_result" where
  "recv_exn e = (case e of Botan_exn t \<Rightarrow> Returned (Inl (Botan_error t)) | _ \<Rightarrow> Raised e)"

definition recv_finish :: "('ch tls_stream, tls_buf list task_result) op" where
  "recv_finish s = (Ret (Returned (Inr (input_sequence s))), s\<lparr>received_record := False, input_sequence := []\<rparr>)"

definition recv_step :: "'ch engine \<Rightarrow> tcp_recv \<Rightarrow> ('ch tls_stream, tls_buf list task_result option) op" where
  "recv_step E i s =
     (case i of
        Inl e \<Rightarrow> (Ret (Some (Returned (Inl (Errno e)))), s)
      | Inr arrived \<Rightarrow> (case arrive arrived s of (bufs, s1) \<Rightarrow>
          bindM (recv_bufs E bufs) (\<lambda>x. retM (map_option recv_exn x)) s1))"

fun recv_loop :: "'ch engine \<Rightarrow> tcp_recv list \<Rightarrow> ('ch tls_stream, tls_buf list task_result) op" where
  "recv_loop E [] s = (if received_record s then recv_finish (s\<lparr>tcp_in := []\<rparr>) else (Ret Waiting, s\<lparr>tcp_in := []\<rparr>))"
| "recv_loop E (i # r) s =
     (if received_record s then recv_finish (s\<lparr>tcp_in := i # r\<rparr>)
      else bindM (recv_step E i) (\<lambda>x. case x of
          None \<Rightarrow> recv_loop E r
        | Some y \<Rightarrow> (\<lambda>s1. (Ret y, s1\<lparr>tcp_in := r\<rparr>))) s)"

definition async_recv_impl :: "'ch engine \<Rightarrow> ('ch tls_stream, tls_buf list task_result) op" where
  "async_recv_impl E s = recv_loop E (tcp_in s) s"

subsection \<open>Sending\<close>

definition async_send_impl :: "'ch engine \<Rightarrow> u8 list \<Rightarrow> ('ch tls_stream, nat task_result) op" where
  "async_send_impl E data s =
     (case ch_send E (chan s) data of (evs, ex, ch) \<Rightarrow>
        bindM (run_events evs) (\<lambda>x. case (if x = None then ex else x) of
            Some e \<Rightarrow> retM (Raised e)
          | None \<Rightarrow> (\<lambda>s1. case tcp_send (send_buf s1) s1 of
               (None, s2) \<Rightarrow> (Ret Waiting, s2)
             | (Some (Inl e), s2) \<Rightarrow> (Ret (Returned (Inl (Errno e))), s2\<lparr>send_buf := []\<rparr>)
             | (Some (Inr n), s2) \<Rightarrow> (Ret (Returned (Inr (length data))), s2\<lparr>send_buf := []\<rparr>)))
          (s\<lparr>chan := ch\<rparr>))"

text \<open>The members of \<^verbatim>\<open>client\<close> and \<^verbatim>\<open>server\<close>; a text is sent as its bytes.\<close>

definition client_async_recv :: "'ch engine \<Rightarrow> ('ch tls_stream, tls_buf list task_result) op" where
  "client_async_recv E = async_recv_impl E"

definition server_async_recv :: "'ch engine \<Rightarrow> ('ch tls_stream, tls_buf list task_result) op" where
  "server_async_recv E = async_recv_impl E"

definition client_async_send :: "'ch engine \<Rightarrow> u8 list \<Rightarrow> ('ch tls_stream, nat task_result) op" where
  "client_async_send E data = async_send_impl E data"

definition server_async_send :: "'ch engine \<Rightarrow> u8 list \<Rightarrow> ('ch tls_stream, nat task_result) op" where
  "server_async_send E data = async_send_impl E data"

definition client_async_send_text :: "'ch engine \<Rightarrow> string \<Rightarrow> ('ch tls_stream, nat task_result) op" where
  "client_async_send_text E msg = client_async_send E (map of_char msg)"

definition server_async_send_text :: "'ch engine \<Rightarrow> string \<Rightarrow> ('ch tls_stream, nat task_result) op" where
  "server_async_send_text E msg = server_async_send E (map of_char msg)"

subsection \<open>Construction\<close>

definition tls_stream_new :: "'ch \<Rightarrow> 'ch tls_stream" where
  "tls_stream_new ch = \<lparr>send_buf = [], input_sequence = [], output_sequence = [], received_record = False,
     close_notify_received = False, mem = (\<lambda>_ _. 0), next_addr = 1, chan = ch, tcp_in = [], send_results = [], wire = []\<rparr>"

text \<open>The constructor of the engine runs with the callbacks in place; a client's emits its first message.\<close>

definition client_impl_new :: "'ch engine \<Rightarrow> string \<Rightarrow> tls_exn option outcome \<times> 'ch tls_stream" where
  "client_impl_new E hostname = (case ch_client E hostname of (ch, evs) \<Rightarrow> run_events evs (tls_stream_new ch))"

definition server_impl_new :: "'ch engine \<Rightarrow> tls_exn option outcome \<times> 'ch tls_stream" where
  "server_impl_new E = (case ch_server E of (ch, evs) \<Rightarrow> run_events evs (tls_stream_new ch))"

subsection \<open>The handshake\<close>

text \<open>Sending what the engine has emitted; the result of the send is ignored. \<open>False\<close>: still waiting.\<close>

definition flush :: "'ch tls_stream \<Rightarrow> bool \<times> 'ch tls_stream" where
  "flush s = (case tcp_send (send_buf s) s of (None, s1) \<Rightarrow> (False, s1) | (Some _, s1) \<Rightarrow> (True, s1\<lparr>send_buf := []\<rparr>))"

definition flush_emitted :: "'ch tls_stream \<Rightarrow> bool \<times> 'ch tls_stream" where
  "flush_emitted s = (if send_buf s \<noteq> [] then flush s else (True, s))"

fun client_handshake_bufs :: "'ch engine \<Rightarrow> tls_buf list \<Rightarrow> ('ch tls_stream, unit task_result option) op" where
  "client_handshake_bufs E [] s = (Ret None, s)"
| "client_handshake_bufs E (b # bs) s =
     (if tb_cap b = 0 then (Ret (Some (Returned (Inl (Errno EINVAL)))), s)
      else bindM (received_data E (In_buffer (tb_addr b) 0 (tb_len b)))
        (\<lambda>x. case x of Some e \<Rightarrow> retM (Some (Raised e)) | None \<Rightarrow> client_handshake_bufs E bs) s)"

fun client_handshake_loop :: "'ch engine \<Rightarrow> tcp_recv list \<Rightarrow> ('ch tls_stream, unit task_result) op" where
  "client_handshake_loop E [] s =
     (Ret (if is_handshake_complete E (chan s) then Returned (Inr ()) else Waiting), s\<lparr>tcp_in := []\<rparr>)"
| "client_handshake_loop E (i # r) s =
     (if is_handshake_complete E (chan s) then (Ret (Returned (Inr ())), s\<lparr>tcp_in := i # r\<rparr>)
      else (case i of
          Inl e \<Rightarrow> (Ret (Returned (Inl (Errno e))), s\<lparr>tcp_in := r\<rparr>)
        | Inr arrived \<Rightarrow>
            (case arrive arrived s of (bufs, s1) \<Rightarrow>
              bindM (client_handshake_bufs E bufs) (\<lambda>x. case x of
                  Some y \<Rightarrow> (\<lambda>s2. (Ret y, s2\<lparr>tcp_in := r\<rparr>))
                | None \<Rightarrow> (\<lambda>s2. case flush_emitted s2 of
                     (True, s3) \<Rightarrow> client_handshake_loop E r s3
                   | (False, s3) \<Rightarrow> (Ret Waiting, s3\<lparr>tcp_in := r\<rparr>))) s1)))"

definition client_async_handshake :: "'ch engine \<Rightarrow> ('ch tls_stream, unit task_result) op" where
  "client_async_handshake E s =
     (if is_active E (chan s) \<or> is_closed E (chan s) then (Ret (Returned (Inl (Errno EINVAL))), s)
      else if send_buf s = [] then (Ret (Returned (Inl (Errno EINVAL))), s)
      else (case flush s of
          (True, s1) \<Rightarrow> client_handshake_loop E (tcp_in s1) s1
        | (False, s1) \<Rightarrow> (Ret Waiting, s1)))"

text \<open>The server copies the received bytes and does not look for the end of the stream.\<close>

fun server_handshake_loop :: "'ch engine \<Rightarrow> tcp_recv list \<Rightarrow> ('ch tls_stream, unit task_result) op" where
  "server_handshake_loop E [] s =
     (Ret (if is_handshake_complete E (chan s) then Returned (Inr ()) else Waiting), s\<lparr>tcp_in := []\<rparr>)"
| "server_handshake_loop E (i # r) s =
     (if is_handshake_complete E (chan s) then (Ret (Returned (Inr ())), s\<lparr>tcp_in := i # r\<rparr>)
      else (case i of
          Inl e \<Rightarrow> (Ret (Returned (Inl (Errno e))), s\<lparr>tcp_in := r\<rparr>)
        | Inr arrived \<Rightarrow>
            bindM (received_data E (Owned (concat (map snd arrived)))) (\<lambda>x. case x of
                Some e \<Rightarrow> (\<lambda>s1. (Ret (Raised e), s1\<lparr>tcp_in := r\<rparr>))
              | None \<Rightarrow> (\<lambda>s1. case flush_emitted s1 of
                   (True, s2) \<Rightarrow> server_handshake_loop E r s2
                 | (False, s2) \<Rightarrow> (Ret Waiting, s2\<lparr>tcp_in := r\<rparr>))) s))"

definition server_async_handshake :: "'ch engine \<Rightarrow> ('ch tls_stream, unit task_result) op" where
  "server_async_handshake E s =
     (if is_active E (chan s) \<or> is_closed E (chan s) then (Ret (Returned (Inl (Errno EINVAL))), s)
      else server_handshake_loop E (tcp_in s) s)"

subsection \<open>Shutdown\<close>

fun feed_views :: "'ch engine \<Rightarrow> tls_buf list \<Rightarrow> ('ch tls_stream, tls_exn option) op" where
  "feed_views E [] s = (Ret None, s)"
| "feed_views E (b # bs) s =
     bindM (received_data E (In_buffer (tb_addr b) 0 (tb_len b)))
       (\<lambda>x. case x of Some e \<Rightarrow> retM (Some e) | None \<Rightarrow> feed_views E bs) s"

definition client_async_shutdown :: "'ch engine \<Rightarrow> ('ch tls_stream, unit task_result) op" where
  "client_async_shutdown E s =
     (case ch_close E (chan s) of (evs, ch) \<Rightarrow>
        bindM (run_events evs) (\<lambda>x. case x of Some e \<Rightarrow> retM (Raised e) | None \<Rightarrow> (\<lambda>s1.
          case tcp_send (send_buf s1) s1 of
            (None, s2) \<Rightarrow> (Ret Waiting, s2)
          | (Some (Inl e), s2) \<Rightarrow> (Ret (Returned (Inl (Errno e))), s2)
          | (Some (Inr n), s2) \<Rightarrow>
              (let s3 = s2\<lparr>send_buf := []\<rparr> in
               case tcp_in s3 of
                 [] \<Rightarrow> (Ret Waiting, s3)
               | Inl e # r \<Rightarrow> (Ret (Returned (Inl (Errno e))), s3\<lparr>tcp_in := r\<rparr>)
               | Inr arrived # r \<Rightarrow>
                   (case arrive arrived (s3\<lparr>tcp_in := r\<rparr>) of (bufs, s4) \<Rightarrow>
                      bindM (feed_views E bufs)
                        (\<lambda>y. case y of Some e \<Rightarrow> retM (Raised e) | None \<Rightarrow> retM (Returned (Inr ()))) s4)))) (s\<lparr>chan := ch\<rparr>))"

text \<open>\<^verbatim>\<open>m_bufs.value()\<close> of an error throws.\<close>

definition server_async_shutdown :: "'ch engine \<Rightarrow> ('ch tls_stream, unit task_result) op" where
  "server_async_shutdown E s =
     (case tcp_in s of
        [] \<Rightarrow> (Ret Waiting, s)
      | Inl e # r \<Rightarrow> (Ret (Raised (System_exn e)), s\<lparr>tcp_in := r\<rparr>)
      | Inr arrived # r \<Rightarrow>
          bindM (received_data E (Owned (concat (map snd arrived)))) (\<lambda>x. case x of
              Some e \<Rightarrow> retM (Raised e)
            | None \<Rightarrow> (\<lambda>s1.
                if \<not> close_notify_received s1 then (Ret (Returned (Inl (Errno EINVAL))), s1)
                else case tcp_send (send_buf s1) s1 of
                    (None, s2) \<Rightarrow> (Ret Waiting, s2)
                  | (Some (Inl e), s2) \<Rightarrow> (Ret (Returned (Inl (Errno EINVAL))), s2)
                  | (Some (Inr n), s2) \<Rightarrow> (Ret (Returned (Inr ())), s2\<lparr>send_buf := []\<rparr>))) (s\<lparr>tcp_in := r\<rparr>))"

subsection \<open>What the events of the engine do\<close>

definition records :: "tls_event list \<Rightarrow> u8 list" where
  "records evs = concat (map (\<lambda>ev. case ev of Record d \<Rightarrow> d | _ \<Rightarrow> []) evs)"

definition has_record :: "tls_event list \<Rightarrow> bool" where
  "has_record evs = list_ex (\<lambda>ev. case ev of Record d \<Rightarrow> True | _ \<Rightarrow> False) evs"

definition emitted :: "tls_event list \<Rightarrow> u8 list" where
  "emitted evs = concat (map (\<lambda>ev. case ev of Emit d \<Rightarrow> d | _ \<Rightarrow> []) evs)"

lemmas event_defs = records_def has_record_def emitted_def

text \<open>From \<open>s\<close> to \<open>t\<close> the bytes \<open>pt\<close> have been delivered; \<open>b\<close> says whether a record has.\<close>

definition delivered :: "'a tls_state_scheme \<Rightarrow> u8 list \<Rightarrow> bool \<Rightarrow> 'a tls_state_scheme \<Rightarrow> bool" where
  "delivered s pt b t =
     (tls_wf t \<and> (input_sequence t \<noteq> [] \<or> output_sequence t \<noteq> []) \<and> tls_frame s t \<and>
      seq_bytes_of (mem t) (input_sequence t) = seq_bytes_of (mem s) (input_sequence s) @ pt \<and>
      received_record t = (received_record s \<or> b) \<and> tls_state.more t = tls_state.more s)"

lemma delivered_trans: "delivered s p b t \<Longrightarrow> delivered t q c u \<Longrightarrow> delivered s (p @ q) (b \<or> c) u"
  by (auto simp: delivered_def intro: tls_frame_trans)

lemma run_event_delivered:
  assumes "tls_wf s" and bufs: "input_sequence s \<noteq> [] \<or> output_sequence s \<noteq> []" and "ev \<noteq> Verify False"
  shows "\<exists>t. run_event ev s = (Ret None, t) \<and> delivered s (records [ev]) (has_record [ev]) t"
proof (cases ev)
  case (Record d)
  have "tls_wf (s\<lparr>received_record := True\<rparr>)" using assms(1) by (simp add: tls_wf_def)
  from record_loop_ok [OF this, of d] bufs obtain m i q a where
      r: "record_loop d (s\<lparr>received_record := True\<rparr>) =
        (Ret (), s\<lparr>received_record := True, mem := m, input_sequence := i, output_sequence := q, next_addr := a\<rparr>)"
      "tls_wf (s\<lparr>received_record := True, mem := m, input_sequence := i, output_sequence := q, next_addr := a\<rparr>)"
      "seq_bytes_of m i = seq_bytes_of (mem s) (input_sequence s) @ d"
      "tls_frame (s\<lparr>received_record := True\<rparr>) (s\<lparr>received_record := True, mem := m, input_sequence := i, output_sequence := q, next_addr := a\<rparr>)"
      "i \<noteq> [] \<or> q \<noteq> []"
    by auto
  from r(4) have "tls_frame s (s\<lparr>received_record := True, mem := m, input_sequence := i, output_sequence := q, next_addr := a\<rparr>)"
    by (simp add: tls_frame_def tls_addrs_def)
  then show ?thesis using r(1-3,5) Record
    by (auto simp: run_event_def tls_record_received_def event_defs delivered_def op_simps)
qed (use assms in \<open>auto simp: run_event_def tls_emit_data_def tls_alert_def tls_verify_cert_chain_def event_defs delivered_def
    tls_wf_def tls_frame_def tls_addrs_def op_simps\<close>)

lemma run_events_delivered:
  assumes "tls_wf s" and "input_sequence s \<noteq> [] \<or> output_sequence s \<noteq> []" and "Verify False \<notin> set evs"
  shows "\<exists>t. run_events evs s = (Ret None, t) \<and> delivered s (records evs) (has_record evs) t"
  using assms
proof (induction evs arbitrary: s)
  case Nil
  then show ?case by (auto simp: delivered_def event_defs op_simps)
next
  case (Cons ev evs)
  obtain t where t: "run_event ev s = (Ret None, t)" "delivered s (records [ev]) (has_record [ev]) t"
    using run_event_delivered [OF Cons.prems(1,2), of ev] Cons.prems(3) by auto
  then have "tls_wf t" "input_sequence t \<noteq> [] \<or> output_sequence t \<noteq> []" by (simp_all add: delivered_def)
  then obtain u where u: "run_events evs t = (Ret None, u)" "delivered t (records evs) (has_record evs) u"
    using Cons.IH [of t] Cons.prems(3) by auto
  have "records (ev # evs) = records [ev] @ records evs" "has_record (ev # evs) = (has_record [ev] \<or> has_record evs)"
    by (simp_all add: event_defs)
  then show ?case using t(1) u(1) delivered_trans [OF t(2) u(2)] by (auto simp: op_simps)
qed

lemma more_chan: "tls_state.more t = tls_state.more (s :: 'ch tls_stream) \<Longrightarrow> chan t = chan s \<and> tcp_in t = tcp_in s \<and>
    send_results t = send_results s \<and> wire t = wire s"
  by (cases s; cases t) simp

text \<open>An engine that takes in all of its input before it makes callbacks.\<close>

definition reads_ahead :: "'ch engine \<Rightarrow> bool" where
  "reads_ahead E = (\<forall>ch bs k evs ex ch'. bs \<noteq> [] \<longrightarrow> ch_piece E ch bs = (k, evs, ex, ch') \<longrightarrow>
     k = length bs \<and> Verify False \<notin> set evs)"

lemma received_data_ahead:
  fixes s :: "'ch tls_stream"
  assumes "reads_ahead E" and "tls_wf s" and "input_sequence s \<noteq> [] \<or> output_sequence s \<noteq> []"
    and "span_bytes (mem s) sp \<noteq> []" and piece: "ch_piece E (chan s) (span_bytes (mem s) sp) = (k, evs, ex, ch)"
  shows "\<exists>t. received_data E sp s = (Ret ex, t) \<and> delivered (s\<lparr>chan := ch\<rparr>) (records evs) (has_record evs) t"
proof -
  have sz: "span_size sp = length (span_bytes (mem s) sp)" by (cases sp) simp_all
  have k: "k = span_size sp" "Verify False \<notin> set evs" using assms(1,4) piece unfolding sz reads_ahead_def by blast+
  have "tls_wf (s\<lparr>chan := ch\<rparr>)" using assms(2) by (simp add: tls_wf_def)
  then obtain t where t: "run_events evs (s\<lparr>chan := ch\<rparr>) = (Ret None, t)"
      "delivered (s\<lparr>chan := ch\<rparr>) (records evs) (has_record evs) t"
    using run_events_delivered [of "s\<lparr>chan := ch\<rparr>" evs] assms(3) k(2) by auto
  have "received_data E (span_drop k sp) t = (Ret None, t)" using k(1) by (simp add: received_data.simps)
  then have "received_data E sp s = (Ret ex, t)"
    using assms(4) piece t(1) sz by (subst received_data.simps) auto
  then show ?thesis using t(2) by blast
qed

subsection \<open>Buffers that have arrived\<close>

definition fresh_bufs :: "'a tls_state_scheme \<Rightarrow> tls_buf list \<Rightarrow> bool" where
  "fresh_bufs s bufs =
     (distinct (map tb_addr bufs) \<and>
      (\<forall>b \<in> set bufs. tb_addr b < next_addr s \<and> tb_addr b \<notin> tls_addrs s \<and> tb_len b \<le> tb_cap b))"

definition contents :: "'a tls_state_scheme \<Rightarrow> tls_buf list \<Rightarrow> (nat \<times> u8 list) list" where
  "contents s bufs = map (\<lambda>b. (tb_cap b, buf_bytes (mem s) b)) bufs"

lemma fresh_bufs_frame:
  assumes "fresh_bufs s bufs" and "tls_frame s t"
  shows "fresh_bufs t bufs \<and> contents t bufs = contents s bufs"
  using assms by (fastforce simp: fresh_bufs_def contents_def tls_frame_def buf_bytes_def read_bytes_def)

definition sized :: "(nat \<times> u8 list) list \<Rightarrow> bool" where
  "sized arrived = (\<forall>(c, bs) \<in> set arrived. length bs \<le> c)"

lemma arrive_ok:
  assumes "sized arrived" and "arrive arrived s = (bufs, t)"
  shows "distinct (map tb_addr bufs) \<and> (\<forall>b \<in> set bufs. next_addr s \<le> tb_addr b \<and> tb_addr b < next_addr t \<and> tb_len b \<le> tb_cap b) \<and>
     contents t bufs = arrived \<and> (\<forall>p < next_addr s. mem t p = mem s p) \<and> next_addr s \<le> next_addr t \<and>
     t = s\<lparr>mem := mem t, next_addr := next_addr t\<rparr>"
  using assms
proof (induction arrived arbitrary: s bufs)
  case Nil
  then show ?case by (simp add: contents_def)
next
  case (Cons cb r)
  obtain c bs where cb: "cb = (c, bs)" by (cases cb)
  let ?s = "s\<lparr>mem := write_bytes (next_addr s) 0 bs (mem s), next_addr := next_addr s + 1\<rparr>"
  obtain bufs' where a: "arrive r ?s = (bufs', t)" "bufs = \<lparr>tb_addr = next_addr s, tb_cap = c, tb_len = length bs\<rparr> # bufs'"
    using Cons.prems(2) cb by (auto split: prod.splits)
  have IH: "distinct (map tb_addr bufs') \<and> (\<forall>b \<in> set bufs'. next_addr ?s \<le> tb_addr b \<and> tb_addr b < next_addr t \<and> tb_len b \<le> tb_cap b) \<and>
     contents t bufs' = r \<and> (\<forall>p < next_addr ?s. mem t p = mem ?s p) \<and> next_addr ?s \<le> next_addr t \<and>
     t = ?s\<lparr>mem := mem t, next_addr := next_addr t\<rparr>"
    by (rule Cons.IH [OF _ a(1)]) (use Cons.prems(1) in \<open>simp add: sized_def\<close>)
  have "mem t (next_addr s) = mem ?s (next_addr s)" using IH by auto
  then have "buf_bytes (mem t) \<lparr>tb_addr = next_addr s, tb_cap = c, tb_len = length bs\<rparr> = bs"
    using read_write_start [of "next_addr s" bs "mem s"] by (simp add: buf_bytes_def read_bytes_def)
  moreover have "mem t p = mem s p" if "p < next_addr s" for p
    using IH that by (auto simp: write_bytes_def)
  moreover have "t = s\<lparr>mem := mem t, next_addr := next_addr t\<rparr>" using IH by simp
  ultimately show ?case using IH a(2) cb Cons.prems(1)
    by (auto simp: contents_def sized_def)
qed

subsection \<open>What a receive delivers\<close>

text \<open>
  The reference: the engine is run over the contents of the buffers as they arrived; the plaintext of
  its records is the result as soon as there is a record or the end of the stream.
\<close>

fun bufs_spec :: "'ch engine \<Rightarrow> 'ch \<Rightarrow> (nat \<times> u8 list) list \<Rightarrow> (tls_exn + u8 list \<times> bool) \<times> 'ch" where
  "bufs_spec E ch [] = (Inr ([], False), ch)"
| "bufs_spec E ch ((cap, bytes) # r) =
     (if cap = 0 then (Inr ([], True), ch)
      else if bytes = [] then bufs_spec E ch r
      else case ch_piece E ch bytes of (k, evs, ex, ch1) \<Rightarrow>
        (case ex of
           Some e \<Rightarrow> (Inl e, ch1)
         | None \<Rightarrow> (case bufs_spec E ch1 r of
              (Inr (pt, got), ch2) \<Rightarrow> (Inr (records evs @ pt, has_record evs \<or> got), ch2)
            | (Inl e, ch2) \<Rightarrow> (Inl e, ch2))))"

fun recv_spec :: "'ch engine \<Rightarrow> 'ch \<Rightarrow> tcp_recv list \<Rightarrow> u8 list task_result \<times> 'ch \<times> tcp_recv list" where
  "recv_spec E ch [] = (Waiting, ch, [])"
| "recv_spec E ch (Inl e # r) = (Returned (Inl (Errno e)), ch, r)"
| "recv_spec E ch (Inr arrived # r) =
     (case bufs_spec E ch arrived of
        (Inl ex, ch1) \<Rightarrow> (recv_exn ex, ch1, r)
      | (Inr (pt, got), ch1) \<Rightarrow> if got then (Returned (Inr pt), ch1, r) else recv_spec E ch1 r)"

lemma bufs_spec_nothing: "bufs_spec E ch arrived = (Inr (pt, False), ch1) \<Longrightarrow> pt = []"
proof (induction arrived arbitrary: ch pt)
  case (Cons cb r)
  obtain cap bytes where "cb = (cap, bytes)" by (cases cb)
  then show ?case using Cons
    by (fastforce simp: event_defs list_all_iff list_ex_iff split: if_splits prod.splits option.splits sum.splits tls_event.splits)
qed simp

text \<open>What the inner loop leaves: after the end of the stream only the emptied sequence is well-formed.\<close>

definition received_ok :: "'ch tls_stream \<Rightarrow> u8 list \<Rightarrow> bool \<Rightarrow> 'ch \<Rightarrow> 'ch tls_stream \<Rightarrow> bool" where
  "received_ok s pt got ch t =
     (chan t = ch \<and> tcp_in t = tcp_in s \<and> seq_bytes_of (mem t) (input_sequence t) = seq_bytes_of (mem s) (input_sequence s) @ pt \<and>
      received_record t = (received_record s \<or> got) \<and> tls_wf (t\<lparr>input_sequence := []\<rparr>) \<and> (\<not> received_record t \<longrightarrow> tls_wf t))"

lemma tls_wf_input: "tls_wf s \<Longrightarrow> tls_wf (s\<lparr>input_sequence := []\<rparr>)"
  by (simp add: tls_wf_def)

lemma delivered_chan:
  fixes s t :: "'ch tls_stream"
  assumes "delivered (s\<lparr>chan := ch\<rparr>) pt b t"
  shows "tls_wf t" "input_sequence t \<noteq> [] \<or> output_sequence t \<noteq> []" "tls_frame s t"
    "seq_bytes_of (mem t) (input_sequence t) = seq_bytes_of (mem s) (input_sequence s) @ pt"
    "received_record t = (received_record s \<or> b)" "chan t = ch" "tcp_in t = tcp_in s"
  using assms more_chan [of t "s\<lparr>chan := ch\<rparr>"] by (simp_all add: delivered_def tls_frame_def tls_addrs_def)

lemma recv_bufs_ok:
  fixes s :: "'ch tls_stream"
  assumes E: "reads_ahead E" and "tls_wf s" and "fresh_bufs s bufs"
  shows "\<exists>t. case bufs_spec E (chan s) (contents s bufs) of
       (Inl ex, ch) \<Rightarrow> recv_bufs E bufs s = (Ret (Some ex), t) \<and> chan t = ch \<and> tcp_in t = tcp_in s
     | (Inr (pt, got), ch) \<Rightarrow> recv_bufs E bufs s = (Ret None, t) \<and> received_ok s pt got ch t"
  using assms(2,3)
proof (induction bufs arbitrary: s)
  case Nil
  then show ?case using tls_wf_input by (auto simp: contents_def received_ok_def)
next
  case (Cons b bs)
  show ?case
  proof (cases "tb_cap b = 0")
    case True
    then have "buf_bytes (mem s) b = []" using Cons.prems(2) by (simp add: fresh_bufs_def buf_bytes_def read_bytes_def)
    then show ?thesis using True tls_wf_input [OF Cons.prems(1)]
      by (intro exI [of _ "s\<lparr>input_sequence := input_sequence s @ [b], received_record := True\<rparr>"])
        (simp add: contents_def received_ok_def tls_wf_def)
  next
    case False
    let ?s = "s\<lparr>output_sequence := output_sequence s @ [b]\<rparr>"
    have wf: "tls_wf ?s" and out: "input_sequence ?s \<noteq> [] \<or> output_sequence ?s \<noteq> []"
      using Cons.prems False by (auto simp: tls_wf_def fresh_bufs_def tls_addrs_def)
    have fresh: "fresh_bufs ?s bs" using Cons.prems(2) by (auto simp: fresh_bufs_def tls_addrs_def) (metis image_eqI)
    have cont: "contents s (b # bs) = (tb_cap b, buf_bytes (mem s) b) # contents ?s bs" by (simp add: contents_def)
    have sp: "span_bytes (mem ?s) (In_buffer (tb_addr b) 0 (tb_len b)) = buf_bytes (mem s) b" by (simp add: buf_bytes_def)
    show ?thesis
    proof (cases "buf_bytes (mem s) b = []")
      case True
      then have "received_data E (In_buffer (tb_addr b) 0 (tb_len b)) ?s = (Ret None, ?s)"
        by (simp add: received_data.simps buf_bytes_def read_bytes_def)
      then have run: "recv_bufs E (b # bs) s = recv_bufs E bs ?s" using False by simp
      have spec: "bufs_spec E (chan s) (contents s (b # bs)) = bufs_spec E (chan ?s) (contents ?s bs)"
        unfolding cont using True False by simp
      have ok: "received_ok ?s pt got ch u = received_ok s pt got ch u" for pt got ch u by (simp add: received_ok_def)
      have tcp: "tcp_in ?s = tcp_in s" by simp
      show ?thesis using Cons.IH [OF wf fresh] unfolding run spec ok tcp .
    next
      case nonempty: False
      obtain k evs ex ch where piece: "ch_piece E (chan ?s) (buf_bytes (mem s) b) = (k, evs, ex, ch)"
        by (cases "ch_piece E (chan ?s) (buf_bytes (mem s) b)")
      have ne: "span_bytes (mem ?s) (In_buffer (tb_addr b) 0 (tb_len b)) \<noteq> []" using nonempty sp by simp
      obtain t where t: "received_data E (In_buffer (tb_addr b) 0 (tb_len b)) ?s = (Ret ex, t)"
          "delivered (?s\<lparr>chan := ch\<rparr>) (records evs) (has_record evs) t"
        using received_data_ahead [OF E wf out ne] piece unfolding sp by blast
      note d = delivered_chan [OF t(2)]
      have fr: "fresh_bufs t bs" "contents t bs = contents ?s bs" using fresh_bufs_frame [OF fresh d(3)] by simp_all
      show ?thesis
      proof (cases ex)
        case (Some e)
        then show ?thesis using t(1) d(6,7) piece nonempty False unfolding cont by (intro exI [of _ t]) simp
      next
        case None
        obtain x ch2 where spec: "bufs_spec E ch (contents ?s bs) = (x, ch2)" by (cases "bufs_spec E ch (contents ?s bs)")
        obtain u where u: "case (x, ch2) of
            (Inl ex, ch) \<Rightarrow> recv_bufs E bs t = (Ret (Some ex), u) \<and> chan u = ch \<and> tcp_in u = tcp_in t
          | (Inr (pt, got), ch) \<Rightarrow> recv_bufs E bs t = (Ret None, u) \<and> received_ok t pt got ch u"
          using Cons.IH [OF d(1) fr(1)] spec d(6) fr(2) by auto
        have run: "recv_bufs E (b # bs) s = recv_bufs E bs t" using False t(1) None by simp
        show ?thesis
        proof (cases x)
          case (Inl e)
          then show ?thesis using u spec piece nonempty False None d(7) run unfolding cont by (intro exI [of _ u]) simp
        next
          case (Inr pg)
          obtain pt got where pg: "pg = (pt, got)" by (cases pg)
          have "received_ok s (records evs @ pt) (has_record evs \<or> got) ch2 u"
            using u Inr pg d(4,5,7) by (auto simp: received_ok_def)
          then show ?thesis using u spec piece nonempty False None run Inr pg unfolding cont by (intro exI [of _ u]) simp
        qed
      qed
    qed
  qed
qed

text \<open>The result of a receive against its reference.\<close>

definition recv_refines ::
  "u8 list task_result \<Rightarrow> 'ch \<Rightarrow> tcp_recv list \<Rightarrow> tls_buf list task_result \<Rightarrow> 'ch tls_stream \<Rightarrow> bool" where
  "recv_refines x ch r y t =
     (chan t = ch \<and> tcp_in t = r \<and>
      (case x of
         Waiting \<Rightarrow> y = Waiting
       | Raised e \<Rightarrow> y = Raised e
       | Returned (Inl e) \<Rightarrow> y = Returned (Inl e)
       | Returned (Inr pt) \<Rightarrow> (\<exists>bufs. y = Returned (Inr bufs) \<and> seq_bytes_of (mem t) bufs = pt) \<and>
           input_sequence t = [] \<and> \<not> received_record t \<and> tls_wf t))"

text \<open>One round of the outer loop, for buffers that have arrived.\<close>

lemma recv_step_ok:
  fixes s :: "'ch tls_stream"
  assumes E: "reads_ahead E" and "tls_wf s" and "\<not> received_record s" and "seq_bytes_of (mem s) (input_sequence s) = []"
    and sized: "sized arrived"
  shows "\<exists>t. case bufs_spec E (chan s) arrived of
       (Inl ex, ch) \<Rightarrow> recv_step E (Inr arrived) s = (Ret (Some (recv_exn ex)), t) \<and> chan t = ch \<and> tcp_in t = tcp_in s
     | (Inr (pt, got), ch) \<Rightarrow> recv_step E (Inr arrived) s = (Ret None, t) \<and> received_ok (s\<lparr>input_sequence := []\<rparr>) pt got ch t"
proof -
  obtain bufs s1 where a: "arrive arrived s = (bufs, s1)" by (cases "arrive arrived s")
  have a1: "distinct (map tb_addr bufs)" "contents s1 bufs = arrived" "next_addr s \<le> next_addr s1"
      "s1 = s\<lparr>mem := mem s1, next_addr := next_addr s1\<rparr>" "\<And>p. p < next_addr s \<Longrightarrow> mem s1 p = mem s p"
      "\<And>b. b \<in> set bufs \<Longrightarrow> next_addr s \<le> tb_addr b \<and> tb_addr b < next_addr s1 \<and> tb_len b \<le> tb_cap b"
    using arrive_ok [OF sized a] by auto
  have same: "input_sequence s1 = input_sequence s" "output_sequence s1 = output_sequence s" "chan s1 = chan s"
      "received_record s1 = received_record s" "tcp_in s1 = tcp_in s"
    by (subst a1(4), simp)+
  have wf: "tls_wf s1" using assms(2) a1(3) unfolding tls_wf_def same by fastforce
  have old: "tb_addr b < next_addr s" if "b \<in> set (input_sequence s @ output_sequence s)" for b
    using assms(2) that by (simp add: tls_wf_def)
  have fresh: "fresh_bufs s1 bufs"
    using a1(1,6) old unfolding fresh_bufs_def tls_addrs_def same by (force dest: leD)
  have "\<forall>b \<in> set (input_sequence s). buf_bytes (mem s1) b = buf_bytes (mem s) b"
    using old a1(5) by (auto simp: buf_bytes_def read_bytes_def)
  then have "seq_bytes_of (mem s1) (input_sequence s) = seq_bytes_of (mem s) (input_sequence s)"
    by (simp add: seq_bytes_of_def cong: map_cong)
  then have none: "seq_bytes_of (mem s1) (input_sequence s1) = []" using assms(4) same(1) by simp
  have eq: "received_ok s1 pt got ch t = received_ok (s\<lparr>input_sequence := []\<rparr>) pt got ch t" for pt got ch t
    unfolding received_ok_def none using same by (simp add: seq_bytes_of_def)
  show ?thesis
    using recv_bufs_ok [OF E wf fresh] a
    unfolding a1(2) same eq
    by (auto simp: recv_step_def op_simps split: prod.splits sum.splits)
qed

lemma recv_loop_ok:
  fixes s :: "'ch tls_stream"
  assumes E: "reads_ahead E" and "tls_wf s" and "\<not> received_record s" and "seq_bytes_of (mem s) (input_sequence s) = []"
    and "\<forall>arrived. Inr arrived \<in> set ins \<longrightarrow> sized arrived"
  shows "\<exists>y t. recv_loop E ins s = (Ret y, t) \<and> (case recv_spec E (chan s) ins of (x, ch, r) \<Rightarrow> recv_refines x ch r y t)"
  using assms(2-)
proof (induction ins arbitrary: s)
  case Nil
  then show ?case by (simp add: recv_refines_def)
next
  case (Cons i r)
  show ?case
  proof (cases i)
    case (Inl e)
    then show ?thesis using Cons.prems by (simp add: recv_refines_def recv_step_def op_simps)
  next
    case (Inr arrived)
    have sized: "sized arrived" using Cons.prems(4) Inr by simp
    obtain x ch1 where spec: "bufs_spec E (chan s) arrived = (x, ch1)" by (cases "bufs_spec E (chan s) arrived")
    obtain t where t: "case (x, ch1) of
        (Inl ex, ch) \<Rightarrow> recv_step E i s = (Ret (Some (recv_exn ex)), t) \<and> chan t = ch \<and> tcp_in t = tcp_in s
      | (Inr (pt, got), ch) \<Rightarrow> recv_step E i s = (Ret None, t) \<and> received_ok (s\<lparr>input_sequence := []\<rparr>) pt got ch t"
      using recv_step_ok [OF E Cons.prems(1-3) sized] spec Inr by auto
    show ?thesis
    proof (cases x)
      case (Inl ex)
      then have "recv_loop E (i # r) s = (Ret (recv_exn ex), t\<lparr>tcp_in := r\<rparr>)"
        using t Cons.prems(2) by (simp add: op_simps)
      moreover have "recv_refines (recv_exn ex) ch1 r (recv_exn ex) (t\<lparr>tcp_in := r\<rparr>)"
        using t Inl by (cases ex) (simp_all add: recv_refines_def recv_exn_def)
      ultimately show ?thesis using spec Inl Inr by auto
    next
      case inr: (Inr pg)
      obtain pt got where pg: "pg = (pt, got)" by (cases pg)
      have run: "recv_loop E (i # r) s = recv_loop E r t"
          and ok: "chan t = ch1" "seq_bytes_of (mem t) (input_sequence t) = pt" "received_record t = got"
            "tls_wf (t\<lparr>input_sequence := []\<rparr>)" "\<not> got \<Longrightarrow> tls_wf t"
        using t inr pg Cons.prems(2) by (auto simp: op_simps received_ok_def seq_bytes_of_def)
      show ?thesis
      proof (cases got)
        case True
        have "recv_loop E r t = recv_finish (t\<lparr>tcp_in := r\<rparr>)"
          using ok True by (cases r) simp_all
        moreover have "recv_refines (Returned (Inr pt)) ch1 r (Returned (Inr (input_sequence t)))
            (t\<lparr>tcp_in := r, received_record := False, input_sequence := []\<rparr>)"
          using ok by (simp add: recv_refines_def tls_wf_def)
        ultimately show ?thesis using run spec inr pg True Inr by (auto simp: recv_finish_def)
      next
        case False
        then have "pt = []" using bufs_spec_nothing [of E "chan s" arrived pt ch1] spec inr pg by simp
        then show ?thesis using Cons.IH [of t] ok Cons.prems(4) run spec inr pg False Inr by simp
      qed
    qed
  qed
qed

subsection \<open>Properties\<close>

text \<open>
  A receive delivers exactly what the engine decrypts: for an engine that takes in its input before
  it makes callbacks, receiving on a stream computes the reference, which runs the engine over the
  contents of the arriving buffers in order. It returns the plaintext of the records of the first
  batch that completes one, or ends at the end of the TCP stream; it returns the TCP error or the
  engine's error; it keeps waiting when neither comes; and after a result the next receive starts
  from a clean state with the engine and the remaining input where the reference has them.
\<close>

theorem tls_recv_refines:
  fixes s :: "'ch tls_stream"
  assumes "reads_ahead E" and "tls_wf s" and "\<not> received_record s" and "input_sequence s = []"
    and "\<forall>arrived. Inr arrived \<in> set (tcp_in s) \<longrightarrow> sized arrived"
  shows "\<exists>y t. async_recv_impl E s = (Ret y, t) \<and>
     (case recv_spec E (chan s) (tcp_in s) of (x, ch, r) \<Rightarrow> recv_refines x ch r y t)"
  using recv_loop_ok [OF assms(1-3) _ assms(5)] assms(4) by (simp add: async_recv_impl_def)

lemma run_events_emit:
  assumes "set evs \<subseteq> range Emit"
  shows "run_events evs s = (Ret None, s\<lparr>send_buf := send_buf s @ emitted evs\<rparr>)"
  using assms
proof (induction evs arbitrary: s)
  case (Cons ev evs)
  then obtain d where "ev = Emit d" by auto
  then show ?case using Cons by (simp add: run_event_def tls_emit_data_def emitted_def op_simps)
qed (simp add: emitted_def op_simps)

text \<open>
  A send reports success for all of its data although the TCP stream may have taken only a part of
  the encrypted bytes: what goes to the peer is the prefix that the one \<^verbatim>\<open>async_send\<close> accepted, the rest is
  dropped with the buffer, so the peer gets the whole ciphertext only if that was accepted at once.
\<close>

theorem tls_send_prefix:
  assumes "ch_send E (chan s) data = (evs, None, ch)" and "set evs \<subseteq> range Emit" and "send_buf s = []"
    and "send_results s = Inr n # rs"
  shows "\<exists>t. async_send_impl E data s = (Ret (Returned (Inr (length data))), t) \<and> send_buf t = [] \<and>
     wire t = wire s @ take (nat n) (emitted evs) \<and> (wire t = wire s @ emitted evs) = (length (emitted evs) \<le> nat n)"
proof -
  let ?t = "s\<lparr>chan := ch, send_buf := [], send_results := rs, wire := wire s @ take (nat n) (emitted evs)\<rparr>"
  have "async_send_impl E data s = (Ret (Returned (Inr (length data))), ?t)"
    using assms run_events_emit [OF assms(2), of "s\<lparr>chan := ch\<rparr>"]
    by (simp add: async_send_impl_def tcp_send_def op_simps)
  moreover have "(take (nat n) (emitted evs) = emitted evs) = (length (emitted evs) \<le> nat n)"
    by (metis length_take min.absorb_iff1 take_all_iff)
  ultimately show ?thesis by (intro exI [of _ ?t]) simp
qed

lemma server_handshake_eofs:
  assumes "\<not> is_handshake_complete E (chan s)" and "send_buf s = []"
  shows "server_handshake_loop E (replicate n (Inr [(0, [])])) s = (Ret Waiting, s\<lparr>tcp_in := []\<rparr>)"
  using assms by (induction n) (simp_all add: flush_emitted_def received_data.simps op_simps)

text \<open>
  C37: the two sides treat a peer that hangs up during the handshake differently: the client's handshake
  returns an error at the end of the stream, but the server's consumes every such completion,
  however many come, without making progress or returning, so it receives again and again.
\<close>

theorem tls_handshake_eof:
  assumes "\<not> is_active E (chan s)" and "\<not> is_closed E (chan s)" and "\<not> is_handshake_complete E (chan s)"
    and "send_buf s = []" and "tcp_in s = replicate n (Inr [(0, [])])"
  shows "server_async_handshake E s = (Ret Waiting, s\<lparr>tcp_in := []\<rparr>) \<and>
     (0 < n \<longrightarrow> hello \<noteq> [] \<longrightarrow>
       fst (client_async_handshake E (s\<lparr>send_buf := hello, send_results := Inr k # rs\<rparr>)) = Ret (Returned (Inl (Errno EINVAL))))"
proof
  show "server_async_handshake E s = (Ret Waiting, s\<lparr>tcp_in := []\<rparr>)"
    using assms server_handshake_eofs [OF assms(3,4)] by (simp add: server_async_handshake_def)
  show "0 < n \<longrightarrow> hello \<noteq> [] \<longrightarrow>
       fst (client_async_handshake E (s\<lparr>send_buf := hello, send_results := Inr k # rs\<rparr>)) = Ret (Returned (Inl (Errno EINVAL)))"
  proof (intro impI)
    assume "0 < n" and "hello \<noteq> []"
    then obtain m where "n = Suc m" by (cases n) auto
    then show "fst (client_async_handshake E (s\<lparr>send_buf := hello, send_results := Inr k # rs\<rparr>)) = Ret (Returned (Inl (Errno EINVAL)))"
      using assms \<open>hello \<noteq> []\<close> by (simp add: client_async_handshake_def flush_def tcp_send_def op_simps)
  qed
qed

text \<open>
  The server reports a clean shutdown only after the peer's \<^verbatim>\<open>close_notify\<close>; the client reports one also when
  the peer just ends the stream.
\<close>

lemma server_shutdown_close_notify:
  assumes "server_async_shutdown E s = (Ret (Returned (Inr ())), t)"
  shows "close_notify_received t"
  using assms
  by (auto simp: server_async_shutdown_def bindM_def retM_def tcp_send_def
      split: list.splits sum.splits prod.splits outcome.splits option.splits if_splits)

lemma client_shutdown_eof:
  assumes "ch_close E (chan s) = (evs, ch)" and "set evs \<subseteq> range Emit" and "send_results s = Inr n # rs"
    and "tcp_in s = Inr [(0, [])] # r"
  shows "fst (client_async_shutdown E s) = Ret (Returned (Inr ()))"
  using assms run_events_emit [OF assms(2), of "s\<lparr>chan := ch\<rparr>"]
  by (simp add: client_async_shutdown_def tcp_send_def Let_def received_data.simps op_simps)

text \<open>An engine for the examples: a byte is encrypted by adding one; the handshake is never complete.\<close>

definition ex_engine :: "unit engine" where
  "ex_engine = \<lparr>is_active = (\<lambda>_. False), is_closed = (\<lambda>_. False), is_handshake_complete = (\<lambda>_. False),
     ch_client = (\<lambda>_. ((), [Emit [1]])), ch_server = ((), []),
     ch_piece = (\<lambda>_ bs. (length bs, [Record (map (\<lambda>b. b - 1) bs)], None, ())),
     ch_send = (\<lambda>_ d. ([Emit (map (\<lambda>b. b + 1) d)], None, ())), ch_close = (\<lambda>_. ([Emit [0]], ()))\<rparr>"

theorem tls_recv_refines_witness:
  "\<exists>bufs t. async_recv_impl ex_engine ((tls_stream_new ())\<lparr>tcp_in := [Inr [(4, [105, 106])], Inl 104]\<rparr>) =
     (Ret (Returned (Inr bufs)), t) \<and> seq_bytes_of (mem t) bufs = [104, 105] \<and> tcp_in t = [Inl 104]"
proof -
  let ?s = "(tls_stream_new ())\<lparr>tcp_in := [Inr [(4, [105, 106])], Inl 104]\<rparr>"
  have h: "reads_ahead ex_engine" "tls_wf ?s" "\<not> received_record ?s" "input_sequence ?s = []"
      "\<forall>arrived. Inr arrived \<in> set (tcp_in ?s) \<longrightarrow> sized arrived"
    by (auto simp: reads_ahead_def ex_engine_def tls_wf_def tls_stream_new_def sized_def)
  have spec: "recv_spec ex_engine (chan ?s) (tcp_in ?s) = (Returned (Inr [104, 105]), (), [Inl 104])"
    by (simp add: ex_engine_def event_defs)
  show ?thesis using tls_recv_refines [OF h] unfolding spec by (auto simp: recv_refines_def)
qed

theorem tls_send_prefix_witness:
  "\<exists>t. async_send_impl ex_engine [104, 105] ((tls_stream_new ())\<lparr>send_results := [Inr 1]\<rparr>) = (Ret (Returned (Inr 2)), t) \<and>
     wire t = [105]"
proof -
  let ?s = "(tls_stream_new ())\<lparr>send_results := [Inr 1]\<rparr>"
  have "ch_send ex_engine (chan ?s) [104, 105] = ([Emit [105, 106]], None, ())" "set [Emit [105, 106]] \<subseteq> range Emit"
      "send_buf ?s = []" "send_results ?s = Inr 1 # []"
    by (simp_all add: ex_engine_def tls_stream_new_def)
  from tls_send_prefix [OF this] show ?thesis by (auto simp: emitted_def tls_stream_new_def)
qed

theorem tls_handshake_eof_witness:
  "server_async_handshake ex_engine ((tls_stream_new ())\<lparr>tcp_in := replicate 3 (Inr [(0, [])])\<rparr>) =
     (Ret Waiting, (tls_stream_new ())\<lparr>tcp_in := []\<rparr>)"
proof -
  let ?s = "(tls_stream_new ())\<lparr>tcp_in := replicate 3 (Inr [(0, [])])\<rparr>"
  have "\<not> is_active ex_engine (chan ?s)" "\<not> is_closed ex_engine (chan ?s)" "\<not> is_handshake_complete ex_engine (chan ?s)"
      "send_buf ?s = []" "tcp_in ?s = replicate 3 (Inr [(0, [])])"
    by (simp_all add: ex_engine_def tls_stream_new_def)
  from tls_handshake_eof [OF this] show ?thesis by simp
qed

end
