(* ===== verification/Tls_Tcp.thy ===== *)
theory Tls_Tcp
  imports Tls Stream_Ops
begin

section \<open>TLS over the TCP stream\<close>

text \<open>
  The receive of a TLS stream composed with the TCP stream below it: the \<^verbatim>\<open>co_await stream.async_recv()\<close> of
  \<^verbatim>\<open>async_recv_impl\<close> are the operations of \<open>Stream\<close>, and what they yield comes from the completions that the
  kernel posts while the coroutine is suspended. A state is the TCP side (the shared frame and the
  stream object) and the TLS side. The properties: the coroutine refines the run of the engine over
  the bytes the kernel wrote, and what one side sends is what the other receives.
\<close>

subsection \<open>The coroutine\<close>

text \<open>What TLS sees of a result of the TCP receive: capacities and readable bytes.\<close>

definition tcp_view :: "(recv_buf list) fiona_result \<Rightarrow> tcp_recv" where
  "tcp_view x = map_sum id (map (\<lambda>b. (rb_capacity b, rb_data b))) x"

text \<open>
  \<open>tls_recv_turn\<close> runs \<^verbatim>\<open>async_recv_impl\<close> from the head of its loop until it suspends (\<open>Ret None\<close>) or ends;
  \<open>tls_recv_resumed\<close> runs it from the \<^verbatim>\<open>await_resume\<close> of the receive that it was suspended on.
\<close>

partial_function (option) tls_recv_turn ::
  "'r platform \<Rightarrow> int \<Rightarrow> (nat \<Rightarrow> u8) \<Rightarrow> handle \<Rightarrow> 'ch engine \<Rightarrow> ('r, 'a) stream_state \<times> 'ch tls_stream \<Rightarrow>
   (tls_buf list task_result option outcome \<times> ('r, 'a) stream_state \<times> 'ch tls_stream) option" where
  "tls_recv_turn P now junk h E s =
     (if received_record (snd s) then Some (on_snd (bindM recv_finish (\<lambda>y. retM (Some y))) s)
      else case on_fst (co_await_recv P now junk h) s of
          (Ret None, s1) \<Rightarrow> Some (Ret None, s1)
        | (Ret (Some x), s1) \<Rightarrow>
            (case on_snd (recv_step E (tcp_view x)) s1 of
               (Ret None, s2) \<Rightarrow> tls_recv_turn P now junk h E s2
             | (y, s2) \<Rightarrow> Some (y, s2))
        | (Throw e, s1) \<Rightarrow> Some (Throw e, s1)
        | (Assert_failed, s1) \<Rightarrow> Some (Assert_failed, s1)
        | (Bad_access, s1) \<Rightarrow> Some (Bad_access, s1))"

definition tls_recv_resumed ::
  "'r platform \<Rightarrow> int \<Rightarrow> (nat \<Rightarrow> u8) \<Rightarrow> handle \<Rightarrow> 'ch engine \<Rightarrow> ('r, 'a) stream_state \<times> 'ch tls_stream \<Rightarrow>
   (tls_buf list task_result option outcome \<times> ('r, 'a) stream_state \<times> 'ch tls_stream) option" where
  "tls_recv_resumed P now junk h E s =
     (case on_fst (recv_await_resume P junk) s of
        (Ret x, s1) \<Rightarrow>
          (case on_snd (recv_step E (tcp_view x)) s1 of
             (Ret None, s2) \<Rightarrow> tls_recv_turn P now junk h E s2
           | (y, s2) \<Rightarrow> Some (y, s2))
      | (Throw e, s1) \<Rightarrow> Some (Throw e, s1)
      | (Assert_failed, s1) \<Rightarrow> Some (Assert_failed, s1)
      | (Bad_access, s1) \<Rightarrow> Some (Bad_access, s1))"

subsection \<open>Completions of the TCP receive\<close>

text \<open>
  What the run loop does with the completions of a batch: it has each processed, takes the handle and
  resumes the handles after the batch. \<open>Got\<close> is a completion with data in a slot, \<open>Ended\<close> one that ends
  the multishot receive, with the end of the stream or an error.
\<close>

datatype tcp_completion = Got int nat "u8 list" | Ended int cqe

fun tcp_complete :: "tcp_completion \<Rightarrow> (('r, 'a) stream_state, handle option) op" where
  "tcp_complete (Got now i d) = thenM (arrival now i d) recv_handle"
| "tcp_complete (Ended now c) = thenM (recv_process now c) recv_handle"

fun tcp_batch :: "tcp_completion list \<Rightarrow> (('r, 'a) stream_state, handle list) op" where
  "tcp_batch [] = retM []"
| "tcp_batch (c # cs) =
     bindM (tcp_complete c) (\<lambda>k. bindM (tcp_batch cs) (\<lambda>hs. retM (case k of None \<Rightarrow> hs | Some h \<Rightarrow> h # hs)))"

type_synonym tcp_round = "int \<times> tcp_completion list"

definition tls_recv_round ::
  "'r platform \<Rightarrow> (nat \<Rightarrow> u8) \<Rightarrow> handle \<Rightarrow> 'ch engine \<Rightarrow> tcp_round \<Rightarrow> ('r, 'a) stream_state \<times> 'ch tls_stream \<Rightarrow>
   (tls_buf list task_result option outcome \<times> ('r, 'a) stream_state \<times> 'ch tls_stream) option" where
  "tls_recv_round P junk h E rd s =
     (case on_fst (tcp_batch (snd rd)) s of
        (Ret hs, s1) \<Rightarrow> if h \<in> set hs then tls_recv_resumed P (fst rd) junk h E s1 else Some (Ret None, s1)
      | (Throw e, s1) \<Rightarrow> Some (Throw e, s1)
      | (Assert_failed, s1) \<Rightarrow> Some (Assert_failed, s1)
      | (Bad_access, s1) \<Rightarrow> Some (Bad_access, s1))"

fun tls_recv_rounds ::
  "'r platform \<Rightarrow> (nat \<Rightarrow> u8) \<Rightarrow> handle \<Rightarrow> 'ch engine \<Rightarrow> tcp_round list \<Rightarrow> ('r, 'a) stream_state \<times> 'ch tls_stream \<Rightarrow>
   (tls_buf list task_result option outcome \<times> ('r, 'a) stream_state \<times> 'ch tls_stream) option" where
  "tls_recv_rounds P junk h E [] s = Some (Ret None, s)"
| "tls_recv_rounds P junk h E (rd # rds) s =
     (case tls_recv_round P junk h E rd s of
        Some (Ret None, s1) \<Rightarrow> tls_recv_rounds P junk h E rds s1
      | r \<Rightarrow> r)"

text \<open>A receive: the coroutine runs until it suspends, then a batch of completions arrives, and so on.\<close>

definition tls_recv_on_tcp ::
  "'r platform \<Rightarrow> int \<Rightarrow> (nat \<Rightarrow> u8) \<Rightarrow> handle \<Rightarrow> 'ch engine \<Rightarrow> tcp_round list \<Rightarrow> ('r, 'a) stream_state \<times> 'ch tls_stream \<Rightarrow>
   (tls_buf list task_result option outcome \<times> ('r, 'a) stream_state \<times> 'ch tls_stream) option" where
  "tls_recv_on_tcp P now junk h E rds s =
     (case tls_recv_turn P now junk h E s of
        Some (Ret None, s1) \<Rightarrow> tls_recv_rounds P junk h E rds s1
      | r \<Rightarrow> r)"

subsection \<open>What the kernel may post, and what it says\<close>

fun got_slot :: "tcp_completion \<Rightarrow> nat list" where
  "got_slot (Got now i d) = [i]"
| "got_slot (Ended now c) = []"

fun got_ok :: "buf_ring \<Rightarrow> tcp_completion \<Rightarrow> bool" where
  "got_ok br (Got now i d) = (slot_ready br i d \<and> length d \<le> cap_of (br_bufs br ! i))"
| "got_ok br (Ended now c) = (cqe_res c \<le> 0 \<and> \<not> cqe_f_more c \<and> \<not> cqe_f_buffer c)"

fun is_got :: "tcp_completion \<Rightarrow> bool" where
  "is_got (Got now i d) = True"
| "is_got (Ended now c) = False"

definition batch_ok :: "('r, 'a) stream_state \<Rightarrow> tcp_completion list \<Rightarrow> bool" where
  "batch_ok s cs =
     (cs \<noteq> [] \<and> distinct (concat (map got_slot cs)) \<and> list_all is_got (butlast cs) \<and>
      (case rf_p_buf_ring (recv_fr (snd s)) of None \<Rightarrow> False
       | Some g \<Rightarrow> (case buf_rings (fst s) g of None \<Rightarrow> False | Some br \<Rightarrow> list_all (got_ok br) cs)))"

fun rounds_adm ::
  "'r platform \<Rightarrow> (nat \<Rightarrow> u8) \<Rightarrow> handle \<Rightarrow> 'ch engine \<Rightarrow> tcp_round list \<Rightarrow> ('r, 'a) stream_state \<times> 'ch tls_stream \<Rightarrow> bool" where
  "rounds_adm P junk h E [] s = True"
| "rounds_adm P junk h E (rd # rds) s =
     (batch_ok (fst s) (snd rd) \<and>
      (case tls_recv_round P junk h E rd s of Some (Ret None, s1) \<Rightarrow> rounds_adm P junk h E rds s1 | _ \<Rightarrow> True))"

definition recv_adm ::
  "'r platform \<Rightarrow> int \<Rightarrow> (nat \<Rightarrow> u8) \<Rightarrow> handle \<Rightarrow> 'ch engine \<Rightarrow> tcp_round list \<Rightarrow> ('r, 'a) stream_state \<times> 'ch tls_stream \<Rightarrow> bool" where
  "recv_adm P now junk h E rds s =
     (case tls_recv_turn P now junk h E s of Some (Ret None, s1) \<Rightarrow> rounds_adm P junk h E rds s1 | _ \<Rightarrow> True)"

text \<open>
  What a batch says in terms of bytes and errors, with a capacity that only distinguishes the end of the
  stream; and what is waiting on a stream.
\<close>

fun said_bufs :: "tcp_completion list \<Rightarrow> (nat \<times> u8 list) list" where
  "said_bufs [] = []"
| "said_bufs (Got now i d # cs) = (1, d) # said_bufs cs"
| "said_bufs (Ended now c # cs) = (if cqe_res c = 0 then [(0, [])] else []) @ said_bufs cs"

fun said_error :: "bool \<Rightarrow> tcp_completion list \<Rightarrow> int option" where
  "said_error can [] = None"
| "said_error can (Got now i d # cs) = said_error can cs"
| "said_error can (Ended now c # cs) =
     (if cqe_res c < 0 then Some (if cqe_res c = - ECANCELED \<and> \<not> can then ETIMEDOUT else - cqe_res c) else said_error can cs)"

definition tcp_input :: "(nat \<times> u8 list) list \<Rightarrow> int option \<Rightarrow> tcp_recv list" where
  "tcp_input bufs ec = (if bufs = [] then [] else [Inr bufs]) @ (case ec of None \<Rightarrow> [] | Some e \<Rightarrow> [Inl e])"

definition said :: "bool \<Rightarrow> tcp_completion list \<Rightarrow> tcp_recv list" where
  "said can cs = tcp_input (said_bufs cs) (said_error can cs)"

definition waiting_bufs :: "recv_frame \<Rightarrow> (nat \<times> u8 list) list" where
  "waiting_bufs rf = map (\<lambda>b. (min 1 (rb_capacity b), rb_data b)) (rf_buffers rf)"

definition waiting_input :: "recv_frame \<Rightarrow> tcp_recv list" where
  "waiting_input rf = tcp_input (waiting_bufs rf) (rf_ec rf)"

subsection \<open>The TCP side\<close>

definition tcp_ok :: "bool \<Rightarrow> ('r, 'a) stream_state \<Rightarrow> bool" where
  "tcp_ok can t =
     (stream_inv (fst t) (snd t) \<and> st_cancelled (snd t) = can \<and> rf_buffer_group_id (recv_fr (snd t)) \<noteq> - 1 \<and>
      (\<forall>b \<in> set (rf_buffers (recv_fr (snd t))). length (rb_data b) \<le> rb_capacity b))"

definition tcp_waiting :: "handle \<Rightarrow> ('r, 'a) stream_state \<Rightarrow> bool" where
  "tcp_waiting h t =
     (rf_initiated (recv_fr (snd t)) \<and> rf_buffers (recv_fr (snd t)) = [] \<and> rf_ec (recv_fr (snd t)) = None \<and>
      rf_h (recv_fr (snd t)) = Some h)"

lemma bufs_spec_cap: "bufs_spec E ch (map (\<lambda>(c, b). (min 1 c, b)) xs) = bufs_spec E ch xs"
  by (induction xs arbitrary: ch) (auto split: prod.splits option.splits)

lemma recv_spec_cap: "recv_spec E ch (Inr (map (\<lambda>(c, b). (min 1 c, b)) xs) # r) = recv_spec E ch (Inr xs # r)"
  by (simp only: recv_spec.simps bufs_spec_cap)

lemma resume_ok:
  fixes t :: "('r, 'a) stream_state"
  assumes laws: "uring_laws P issued n" and ok: "tcp_ok can t"
    and some: "rf_buffers (recv_fr (snd t)) \<noteq> [] \<or> rf_ec (recv_fr (snd t)) \<noteq> None"
  shows "\<exists>x t'. recv_await_resume P junk t = (Ret x, t') \<and> tcp_ok can t' \<and> rf_buffers (recv_fr (snd t')) = [] \<and>
     (if rf_buffers (recv_fr (snd t)) \<noteq> []
      then x = Inr (rf_buffers (recv_fr (snd t))) \<and> rf_ec (recv_fr (snd t')) = rf_ec (recv_fr (snd t))
      else x = Inl (the (rf_ec (recv_fr (snd t)))) \<and> rf_ec (recv_fr (snd t')) = None)"
proof -
  obtain fr st where t: "t = (fr, st)" by (cases t)
  have inv: "stream_inv fr st" using ok t by (simp add: tcp_ok_def)
  show ?thesis
  proof (cases "rf_buffers (recv_fr st) = []")
    case True
    then obtain e where "rf_ec (recv_fr st) = Some e" using some t by auto
    then show ?thesis using recv_resume_error [of st e P junk fr] True ok t
      by (auto simp: tcp_ok_def inv_defs recv_frame_wf_def)
  next
    case False
    then obtain fr' where r: "recv_await_resume P junk (fr, st) =
        (Ret (Inr (rf_buffers (recv_fr st))), (fr', st\<lparr>recv_fr := (recv_fr st)\<lparr>rf_buffers := []\<rparr>\<rparr>))"
      using recv_resume_data [OF inv] by blast
    have "ignoreM (recv_await_resume P junk) (fr, st) = (Ret (), (fr', st\<lparr>recv_fr := (recv_fr st)\<lparr>rf_buffers := []\<rparr>\<rparr>))"
      by (rule ignoreM_Ret [where m = "recv_await_resume P junk", OF r])
    then have "stream_inv fr' (st\<lparr>recv_fr := (recv_fr st)\<lparr>rf_buffers := []\<rparr>\<rparr>)"
      using safe_recv_resume [OF laws inv, of junk] False by (auto simp: call_safe_def stream_delta_def)
    then show ?thesis using r False ok t by (auto simp: tcp_ok_def)
  qed
qed

lemma co_await_suspends:
  assumes "rf_buffers (recv_fr st) = []" and "recv_await_suspend P now h (fr, st) = (Ret True, t')"
  shows "co_await_recv P now junk h (fr, st) = (Ret None, t')"
  using assms by (simp add: co_await_recv_def recv_await_ready_def bindM_def retM_def)

lemma co_await_ready:
  assumes "rf_buffers (recv_fr st) \<noteq> []" and "recv_await_resume P junk (fr, st) = (Ret x, t')"
  shows "co_await_recv P now junk h (fr, st) = (Ret (Some x), t')"
  using assms by (simp add: co_await_recv_def recv_await_ready_def bindM_def retM_def)

lemma await_ok:
  fixes t :: "('r, 'a) stream_state"
  assumes laws: "uring_laws P issued n" and ok: "tcp_ok can t"
  shows "\<exists>y t'. co_await_recv P now junk h t = (Ret y, t') \<and> tcp_ok can t' \<and> rf_buffers (recv_fr (snd t')) = [] \<and>
     (if rf_buffers (recv_fr (snd t)) \<noteq> []
      then y = Some (Inr (rf_buffers (recv_fr (snd t)))) \<and> rf_ec (recv_fr (snd t')) = rf_ec (recv_fr (snd t))
      else rf_ec (recv_fr (snd t')) = None \<and>
        (case rf_ec (recv_fr (snd t)) of Some e \<Rightarrow> y = Some (Inl e) | None \<Rightarrow> y = None \<and> tcp_waiting h t'))"
proof -
  obtain fr st where t: "t = (fr, st)" by (cases t)
  let ?st = "st\<lparr>recv_fr := (recv_fr st)\<lparr>rf_h := Some h\<rparr>\<rparr>"
  have inv: "stream_inv fr st" and gid: "rf_buffer_group_id (recv_fr st) \<noteq> - 1" using ok t by (simp_all add: tcp_ok_def)
  consider (data) "rf_buffers (recv_fr st) \<noteq> []"
    | (error) e where "rf_buffers (recv_fr st) = []" "rf_ec (recv_fr st) = Some e"
    | (started) "rf_buffers (recv_fr st) = []" "rf_ec (recv_fr st) = None" "rf_initiated (recv_fr st)"
    | (idle) "rf_buffers (recv_fr st) = []" "rf_ec (recv_fr st) = None" "\<not> rf_initiated (recv_fr st)"
    by (cases "rf_ec (recv_fr st)") auto
  then show ?thesis
  proof cases
    case data
    obtain x t' where r: "recv_await_resume P junk t = (Ret x, t')" and t': "tcp_ok can t'" "rf_buffers (recv_fr (snd t')) = []"
        "x = Inr (rf_buffers (recv_fr (snd t)))" "rf_ec (recv_fr (snd t')) = rf_ec (recv_fr (snd t))"
      using resume_ok [OF laws ok, of junk] data t by auto
    have "co_await_recv P now junk h t = (Ret (Some x), t')"
      unfolding t by (rule co_await_ready [OF data r [unfolded t]])
    then show ?thesis using t' data t by simp
  next
    case error
    then show ?thesis using co_await_recv_error [of st e P now junk h fr] ok t
      by (auto simp: tcp_ok_def inv_defs recv_frame_wf_def)
  next
    case started
    then have "recv_await_suspend P now h (fr, st) = (Ret True, (fr, ?st))"
      by (simp add: recv_await_suspend_def Let_def op_simps)
    then have "co_await_recv P now junk h t = (Ret None, (fr, ?st))"
      unfolding t by (rule co_await_suspends [OF started(1)])
    moreover have "tcp_ok can (fr, ?st)" "tcp_waiting h (fr, ?st)"
      using ok t started by (auto simp: tcp_ok_def tcp_waiting_def inv_defs recv_frame_wf_def)
    ultimately show ?thesis using started t by simp
  next
    case idle
    obtain g :: u16 and br where g: "rf_buffer_group_id (recv_fr st) = uint g" "buf_rings fr g = Some br" "br_bgid br = g"
      using gid inv by (auto simp: stream_inv_def recv_frame_wf_def groups_inv_def)
    let ?st1 = "?st\<lparr>recv_fr := (recv_fr ?st)\<lparr>rf_p_buf_ring := Some g\<rparr>\<rparr>"
    let ?st2 = "?st1\<lparr>rc_count := rc_count st + 1, recv_fr := (recv_fr ?st1)\<lparr>rf_initiated := True, rf_last_recv := now\<rparr>\<rparr>"
    obtain r' where r': "schedule_recv P now (fr, ?st1) = (Ret (), (fr\<lparr>io_ring := r'\<rparr>, ?st2))"
      using schedule_recv_ok [OF laws, of now fr ?st1] g(1) by auto
    have "recv_await_suspend P now h (fr, st) = (Ret True, (fr\<lparr>io_ring := r'\<rparr>, ?st2))"
      using idle r' g by (simp add: recv_await_suspend_def Let_def op_simps get_buffer_group_def)
    then have "co_await_recv P now junk h t = (Ret None, (fr\<lparr>io_ring := r'\<rparr>, ?st2))"
      unfolding t by (rule co_await_suspends [OF idle(1)])
    moreover have "tcp_ok can (fr\<lparr>io_ring := r'\<rparr>, ?st2)" "tcp_waiting h (fr\<lparr>io_ring := r'\<rparr>, ?st2)"
      using ok t idle g by (auto simp: tcp_ok_def tcp_waiting_def inv_defs recv_frame_wf_def)
    ultimately show ?thesis using idle t by simp
  qed
qed

text \<open>A batch hands the coroutine that waits to the run loop, once, and leaves what the kernel said on the stream.\<close>

lemma ended_ok:
  fixes t :: "('r, 'a) stream_state"
  assumes ok: "tcp_ok can t" and init: "rf_initiated (recv_fr (snd t))" and c: "cqe_res c \<le> 0" "\<not> cqe_f_more c" "\<not> cqe_f_buffer c"
  shows "\<exists>t'. tcp_complete (Ended now c) t = (Ret (rf_h (recv_fr (snd t))), t') \<and> tcp_ok can t' \<and>
     waiting_bufs (recv_fr (snd t')) = waiting_bufs (recv_fr (snd t)) @ said_bufs [Ended now c] \<and>
     rf_ec (recv_fr (snd t')) = said_error can [Ended now c]"
proof -
  obtain fr st where t: "t = (fr, st)" by (cases t)
  have ec: "rf_ec (recv_fr st) = None" using ok init t by (auto simp: tcp_ok_def stream_inv_def recv_frame_wf_def)
  show ?thesis
  proof (cases "cqe_res c = 0")
    case True
    show ?thesis
      using recv_process_zero [OF True c(2,3), of now fr st] ok t ec True
      by (auto simp: op_simps recv_handle_def tcp_ok_def inv_defs recv_frame_wf_def waiting_bufs_def rb_new_def rb_data_def)
  next
    case False
    then have neg: "cqe_res c < 0" using c(1) by simp
    show ?thesis
      using recv_process_neg [OF neg c(2) ec, of now fr] ok t neg
      by (auto simp: op_simps recv_handle_def tcp_ok_def inv_defs recv_frame_wf_def waiting_bufs_def)
  qed
qed

lemma got_complete:
  fixes t :: "('r, 'a) stream_state"
  assumes ok: "tcp_ok can t" and init: "rf_initiated (recv_fr (snd t))"
    and g: "rf_p_buf_ring (recv_fr (snd t)) = Some g" "buf_rings (fst t) g = Some br" and slot: "got_ok br (Got now i d)"
  shows "\<exists>t' br'. tcp_complete (Got now i d) t = (Ret (rf_h (recv_fr (snd t))), t') \<and> tcp_ok can t' \<and>
     rf_initiated (recv_fr (snd t')) \<and> rf_h (recv_fr (snd t')) = None \<and>
     rf_p_buf_ring (recv_fr (snd t')) = Some g \<and> buf_rings (fst t') g = Some br' \<and>
     waiting_bufs (recv_fr (snd t')) = waiting_bufs (recv_fr (snd t)) @ [(1, d)] \<and>
     (\<forall>c. i \<notin> set (got_slot c) \<longrightarrow> got_ok br c \<longrightarrow> got_ok br' c)"
proof -
  obtain fr st where t: "t = (fr, st)" by (cases t)
  have inv: "stream_inv fr st" using ok t by (simp add: tcp_ok_def)
  have slot': "slot_ready br i d" "length d \<le> cap_of (br_bufs br ! i)" "d \<noteq> []" using slot by (simp_all add: slot_ready_def)
  obtain fr1 st1 br1 b where a: "arrival now i d (fr, st) = (Ret (), (fr1, st1))" "stream_inv fr1 st1"
      "st_cancelled st1 = st_cancelled st" "rf_p_buf_ring (recv_fr st1) = Some g" "buf_rings fr1 g = Some br1"
      "rf_initiated (recv_fr st1)" "rf_buffer_group_id (recv_fr st1) = rf_buffer_group_id (recv_fr st)"
      "rf_buffers (recv_fr st1) = rf_buffers (recv_fr st) @ [b]" "rb_data b = d" "rb_capacity b = cap_of (br_bufs br ! i)"
      "rf_h (recv_fr st1) = rf_h (recv_fr st)"
      "\<forall>j e. j \<noteq> i \<longrightarrow> slot_ready br j e \<longrightarrow> slot_ready br1 j e \<and> br_bufs br1 ! j = br_bufs br ! j"
    using arrival_ok [OF inv, of g br i d now] init g slot'(1) t by auto
  let ?st = "st1\<lparr>recv_fr := (recv_fr st1)\<lparr>rf_h := None\<rparr>\<rparr>"
  have "tcp_complete (Got now i d) t = (Ret (rf_h (recv_fr st)), (fr1, ?st))"
    using a(1,11) t by (simp add: thenM_Ret [where m = "arrival now i d", OF a(1)] recv_handle_def)
  moreover have "tcp_ok can (fr1, ?st)"
    using a(2,3,7-10) ok slot'(2) t by (auto simp: tcp_ok_def inv_defs recv_frame_wf_def)
  moreover have "min 1 (rb_capacity b) = 1" using slot'(2,3) a(10) by (cases d) auto
  moreover have "got_ok br1 c" if "i \<notin> set (got_slot c)" "got_ok br c" for c
    using that a(12) by (cases c) auto
  ultimately show ?thesis using a t
    by (intro exI [of _ "(fr1, ?st)"] exI [of _ br1]) (simp add: waiting_bufs_def)
qed

lemma tcp_batch_run:
  fixes t :: "('r, 'a) stream_state"
  assumes "tcp_ok can t" and "rf_initiated (recv_fr (snd t))"
    and "rf_p_buf_ring (recv_fr (snd t)) = Some g" and "buf_rings (fst t) g = Some br"
    and "distinct (concat (map got_slot cs))" and "list_all is_got (butlast cs)" and "list_all (got_ok br) cs"
  shows "\<exists>t'. tcp_batch cs t = (Ret (if cs = [] then [] else case rf_h (recv_fr (snd t)) of None \<Rightarrow> [] | Some h \<Rightarrow> [h]), t') \<and>
     tcp_ok can t' \<and> waiting_bufs (recv_fr (snd t')) = waiting_bufs (recv_fr (snd t)) @ said_bufs cs \<and>
     rf_ec (recv_fr (snd t')) = said_error can cs"
  using assms
proof (induction cs arbitrary: t br)
  case Nil
  have "rf_ec (recv_fr (snd t)) = None" using Nil.prems(1,2) by (auto simp: tcp_ok_def stream_inv_def recv_frame_wf_def)
  then show ?case using Nil.prems(1) by (simp add: op_simps)
next
  case (Cons c cs)
  show ?case
  proof (cases c)
    case (Got now i d)
    obtain t1 br1 where t1: "tcp_complete c t = (Ret (rf_h (recv_fr (snd t))), t1)" "tcp_ok can t1"
        "rf_initiated (recv_fr (snd t1))" "rf_h (recv_fr (snd t1)) = None" "rf_p_buf_ring (recv_fr (snd t1)) = Some g"
        "buf_rings (fst t1) g = Some br1" "waiting_bufs (recv_fr (snd t1)) = waiting_bufs (recv_fr (snd t)) @ [(1, d)]"
        "\<forall>c. i \<notin> set (got_slot c) \<longrightarrow> got_ok br c \<longrightarrow> got_ok br1 c"
      using got_complete [OF Cons.prems(1-4), of now i d] Cons.prems(7) Got by (auto simp del: got_ok.simps tcp_complete.simps)
    have "distinct (concat (map got_slot cs))" "list_all is_got (butlast cs)"
      using Cons.prems(5,6) by (auto split: if_splits)
    moreover have "list_all (got_ok br1) cs"
      using Cons.prems(5,7) t1(8) Got by (auto simp: list_all_iff)
    ultimately obtain t' where "tcp_batch cs t1 = (Ret [], t')" "tcp_ok can t'"
        "waiting_bufs (recv_fr (snd t')) = waiting_bufs (recv_fr (snd t1)) @ said_bufs cs" "rf_ec (recv_fr (snd t')) = said_error can cs"
      using Cons.IH [OF t1(2,3,5,6)] t1(4) by auto
    then show ?thesis using t1(1,7) Got
      by (cases "rf_h (recv_fr (snd t))") (auto simp: op_simps bindM_Ret [where m = "tcp_complete c", OF t1(1)] simp del: tcp_complete.simps)
  next
    case (Ended now x)
    have "cs = []" using Cons.prems(6) Ended by (auto split: if_splits)
    moreover obtain t' where "tcp_complete c t = (Ret (rf_h (recv_fr (snd t))), t')" "tcp_ok can t'"
        "waiting_bufs (recv_fr (snd t')) = waiting_bufs (recv_fr (snd t)) @ said_bufs [c]" "rf_ec (recv_fr (snd t')) = said_error can [c]"
      using ended_ok [OF Cons.prems(1,2), of x now] Cons.prems(7) Ended by auto
    ultimately show ?thesis
      by (cases "rf_h (recv_fr (snd t))") (auto simp: op_simps simp del: tcp_complete.simps said_bufs.simps said_error.simps)
  qed
qed

lemma said_something: "cs \<noteq> [] \<Longrightarrow> list_all (got_ok br) cs \<Longrightarrow> said_bufs cs \<noteq> [] \<or> said_error can cs \<noteq> None"
  by (cases cs rule: said_bufs.cases) auto

lemma tcp_batch_ok:
  fixes t :: "('r, 'a) stream_state"
  assumes "tcp_ok can t" and "tcp_waiting h t" and "batch_ok t cs"
  shows "\<exists>t'. tcp_batch cs t = (Ret [h], t') \<and> tcp_ok can t' \<and> waiting_input (recv_fr (snd t')) = said can cs \<and>
     (rf_buffers (recv_fr (snd t')) \<noteq> [] \<or> rf_ec (recv_fr (snd t')) \<noteq> None)"
proof -
  obtain g br where g: "rf_p_buf_ring (recv_fr (snd t)) = Some g" "buf_rings (fst t) g = Some br" "list_all (got_ok br) cs"
    using assms(3) by (auto simp: batch_ok_def split: option.splits)
  obtain t' where "tcp_batch cs t = (Ret [h], t')" "tcp_ok can t'"
      "waiting_bufs (recv_fr (snd t')) = said_bufs cs" "rf_ec (recv_fr (snd t')) = said_error can cs"
    using tcp_batch_run [OF assms(1) _ g(1,2), of cs] g(3) assms(2,3)
    by (auto simp: tcp_waiting_def batch_ok_def waiting_bufs_def)
  moreover from this have "rf_buffers (recv_fr (snd t')) \<noteq> [] \<or> rf_ec (recv_fr (snd t')) \<noteq> None"
    using said_something [of cs br can] g(3) assms(3) by (auto simp: waiting_bufs_def batch_ok_def)
  ultimately show ?thesis by (auto simp: waiting_input_def said_def)
qed

subsection \<open>The coroutine against the reference\<close>

definition tls_clean :: "'ch tls_stream \<Rightarrow> bool" where
  "tls_clean u = (tls_wf u \<and> \<not> received_record u \<and> seq_bytes_of (mem u) (input_sequence u) = [])"

text \<open>The result of a receive against that of the reference, and the TLS state it leaves.\<close>

fun outcome_ok :: "u8 list task_result \<Rightarrow> tls_buf list task_result option \<Rightarrow> 'ch tls_stream \<Rightarrow> bool" where
  "outcome_ok Waiting y u = (y = None \<and> tls_clean u)"
| "outcome_ok (Raised e) y u = (y = Some (Raised e))"
| "outcome_ok (Returned (Inl (Errno e))) y u = (y = Some (Returned (Inl (Errno e))) \<and> tls_clean u)"
| "outcome_ok (Returned (Inl (Botan_error e))) y u = (y = Some (Returned (Inl (Botan_error e))))"
| "outcome_ok (Returned (Inr pt)) y u =
     ((\<exists>bufs. y = Some (Returned (Inr bufs)) \<and> seq_bytes_of (mem u) bufs = pt) \<and> input_sequence u = [] \<and> tls_clean u)"

text \<open>
  A receive that had \<open>ins\<close> to read: it computes the reference, and what the reference leaves unread still
  waits on the stream or is \<open>later\<close>.
\<close>

definition receives ::
  "'ch engine \<Rightarrow> bool \<Rightarrow> handle \<Rightarrow> 'ch \<Rightarrow> tcp_recv list \<Rightarrow> tcp_recv list \<Rightarrow> tls_buf list task_result option \<Rightarrow>
   ('r, 'a) stream_state \<times> 'ch tls_stream \<Rightarrow> bool" where
  "receives E can h ch ins later y s =
     (case recv_spec E ch ins of (x, ch', rest) \<Rightarrow>
        chan (snd s) = ch' \<and> outcome_ok x y (snd s) \<and> rest = waiting_input (recv_fr (snd (fst s))) @ later \<and>
        tcp_ok can (fst s) \<and> (y = None \<longrightarrow> tcp_waiting h (fst s)))"

lemma waiting_input_none [simp]: "rf_buffers rf = [] \<Longrightarrow> rf_ec rf = None \<Longrightarrow> waiting_input rf = []"
  by (simp add: waiting_input_def waiting_bufs_def tcp_input_def)

lemma turn_idle:
  fixes t :: "('r, 'a) stream_state"
  assumes laws: "uring_laws P issued n" and ok: "tcp_ok can t" and none: "rf_buffers (recv_fr (snd t)) = []" and u: "tls_clean u"
  shows "\<exists>y s. tls_recv_turn P now junk h E (t, u) = Some (Ret y, s) \<and>
     receives E can h (chan u) (waiting_input (recv_fr (snd t))) [] y s"
proof -
  obtain y t' where a: "co_await_recv P now junk h t = (Ret y, t')" "tcp_ok can t'" "rf_buffers (recv_fr (snd t')) = []"
      "rf_ec (recv_fr (snd t')) = None"
      "case rf_ec (recv_fr (snd t)) of Some e \<Rightarrow> y = Some (Inl e) | None \<Rightarrow> y = None \<and> tcp_waiting h t'"
    using await_ok [OF laws ok, of now junk h] none by auto
  have rr: "\<not> received_record u" using u by (simp add: tls_clean_def)
  show ?thesis
  proof (cases "rf_ec (recv_fr (snd t))")
    case None
    then have "tls_recv_turn P now junk h E (t, u) = Some (Ret None, (t', u))"
      using a rr by (simp add: tls_recv_turn.simps on_fst_apply)
    then show ?thesis using a None none u by (auto simp: receives_def)
  next
    case (Some e)
    then have "tls_recv_turn P now junk h E (t, u) = Some (Ret (Some (Returned (Inl (Errno e)))), (t', u))"
      using a rr by (simp add: tls_recv_turn.simps on_fst_apply on_snd_def recv_step_def tcp_view_def)
    then show ?thesis using a Some none u
      by (auto simp: receives_def waiting_input_def waiting_bufs_def tcp_input_def)
  qed
qed

lemma continue_ok:
  fixes t :: "('r, 'a) stream_state"
  assumes laws: "uring_laws P issued n" and E: "reads_ahead E" and ok: "tcp_ok can t"
    and none: "rf_buffers (recv_fr (snd t)) = []" and u: "tls_clean u" and bs: "\<forall>b \<in> set bs. length (rb_data b) \<le> rb_capacity b"
  shows "\<exists>y s. (case on_snd (recv_step E (tcp_view (Inr bs))) (t, u) of
         (Ret None, s2) \<Rightarrow> tls_recv_turn P now junk h E s2 | (x, s2) \<Rightarrow> Some (x, s2)) = Some (Ret y, s) \<and>
     receives E can h (chan u) (Inr (map (\<lambda>b. (min 1 (rb_capacity b), rb_data b)) bs) # waiting_input (recv_fr (snd t))) [] y s"
proof -
  define arrived where "arrived = map (\<lambda>b. (rb_capacity b, rb_data b)) bs"
  have sized: "sized arrived" using bs by (auto simp: arrived_def sized_def)
  have wf: "tls_wf u" "\<not> received_record u" "seq_bytes_of (mem u) (input_sequence u) = []" using u by (simp_all add: tls_clean_def)
  have marked: "map (\<lambda>b. (min 1 (rb_capacity b), rb_data b)) bs = map (\<lambda>(c, b). (min 1 c, b)) arrived"
    by (simp add: arrived_def comp_def)
  obtain x ch where spec: "bufs_spec E (chan u) arrived = (x, ch)" by (cases "bufs_spec E (chan u) arrived")
  obtain v where v: "case (x, ch) of
      (Inl ex, ch) \<Rightarrow> recv_step E (Inr arrived) u = (Ret (Some (recv_exn ex)), v) \<and> chan v = ch \<and> tcp_in v = tcp_in u
    | (Inr (pt, got), ch) \<Rightarrow> recv_step E (Inr arrived) u = (Ret None, v) \<and> received_ok (u\<lparr>input_sequence := []\<rparr>) pt got ch v"
    using recv_step_ok [OF E wf sized] spec by auto
  have view: "tcp_view (Inr bs) = Inr arrived" by (simp add: tcp_view_def arrived_def)
  show ?thesis
  proof (cases x)
    case (Inl ex)
    then show ?thesis unfolding view marked receives_def recv_spec_cap using v spec ok
      by (cases ex) (auto simp: on_snd_def recv_exn_def)
  next
    case (Inr pg)
    obtain pt got where pg: "pg = (pt, got)" by (cases pg)
    have st: "recv_step E (Inr arrived) u = (Ret None, v)" and rec: "chan v = ch" "seq_bytes_of (mem v) (input_sequence v) = pt"
        "received_record v = got" "tls_wf (v\<lparr>input_sequence := []\<rparr>)" "\<not> got \<Longrightarrow> tls_wf v"
      using v Inr pg wf(2) by (auto simp: received_ok_def seq_bytes_of_def)
    show ?thesis
    proof (cases got)
      case True
      let ?v = "v\<lparr>received_record := False, input_sequence := []\<rparr>"
      have "tls_recv_turn P now junk h E (t, v) = Some (Ret (Some (Returned (Inr (input_sequence v)))), (t, ?v))"
        using rec(3) True by (simp add: tls_recv_turn.simps on_snd_def recv_finish_def op_simps)
      moreover have "tls_clean ?v" using rec(4) by (simp add: tls_clean_def tls_wf_def seq_bytes_of_def)
      ultimately show ?thesis unfolding view marked receives_def recv_spec_cap
        using st spec Inr pg True rec(1,2) ok by (auto simp: on_snd_def)
    next
      case False
      then have "pt = []" using bufs_spec_nothing [of E "chan u" arrived pt ch] spec Inr pg by simp
      then have "tls_clean v" using rec False by (simp add: tls_clean_def)
      then show ?thesis unfolding view marked receives_def recv_spec_cap
        using turn_idle [OF laws ok none, of v now junk h E] st spec Inr pg False rec(1)
        by (auto simp: on_snd_def receives_def)
    qed
  qed
qed

lemma waiting_input_data: "rf_buffers rf \<noteq> [] \<Longrightarrow> waiting_input rf =
    Inr (map (\<lambda>b. (min 1 (rb_capacity b), rb_data b)) (rf_buffers rf)) # waiting_input (rf\<lparr>rf_buffers := []\<rparr>)"
  by (simp add: waiting_input_def waiting_bufs_def tcp_input_def)

lemma waiting_input_cong: "rf_buffers rf = rf_buffers rf' \<Longrightarrow> rf_ec rf = rf_ec rf' \<Longrightarrow> waiting_input rf = waiting_input rf'"
  by (simp add: waiting_input_def waiting_bufs_def)

lemma resumed_ok:
  fixes t :: "('r, 'a) stream_state"
  assumes laws: "uring_laws P issued n" and E: "reads_ahead E" and ok: "tcp_ok can t" and u: "tls_clean u"
    and some: "rf_buffers (recv_fr (snd t)) \<noteq> [] \<or> rf_ec (recv_fr (snd t)) \<noteq> None"
  shows "\<exists>y s. tls_recv_resumed P now junk h E (t, u) = Some (Ret y, s) \<and>
     receives E can h (chan u) (waiting_input (recv_fr (snd t))) [] y s"
proof -
  let ?rf = "recv_fr (snd t)"
  obtain x t' where r: "recv_await_resume P junk t = (Ret x, t')" "tcp_ok can t'" "rf_buffers (recv_fr (snd t')) = []"
      "if rf_buffers ?rf \<noteq> [] then x = Inr (rf_buffers ?rf) \<and> rf_ec (recv_fr (snd t')) = rf_ec ?rf
       else x = Inl (the (rf_ec ?rf)) \<and> rf_ec (recv_fr (snd t')) = None"
    using resume_ok [OF laws ok some, of junk] by auto
  show ?thesis
  proof (cases "rf_buffers ?rf = []")
    case True
    then obtain e where e: "rf_ec ?rf = Some e" using some by auto
    then have "tls_recv_resumed P now junk h E (t, u) = Some (Ret (Some (Returned (Inl (Errno e)))), (t', u))"
      using r True by (simp add: tls_recv_resumed_def on_fst_apply on_snd_def recv_step_def tcp_view_def)
    then show ?thesis using r True e u
      by (auto simp: receives_def waiting_input_def waiting_bufs_def tcp_input_def)
  next
    case False
    have "\<forall>b \<in> set (rf_buffers ?rf). length (rb_data b) \<le> rb_capacity b" using ok by (simp add: tcp_ok_def)
    note c = continue_ok [OF laws E r(2,3) u this, of now junk h]
    have "waiting_input (?rf\<lparr>rf_buffers := []\<rparr>) = waiting_input (recv_fr (snd t'))"
      using r(3,4) False by (intro waiting_input_cong) auto
    then show ?thesis using c r(1,4) False by (simp add: tls_recv_resumed_def on_fst_apply waiting_input_data)
  qed
qed

lemma turn_ok:
  fixes t :: "('r, 'a) stream_state"
  assumes laws: "uring_laws P issued n" and E: "reads_ahead E" and ok: "tcp_ok can t" and u: "tls_clean u"
  shows "\<exists>y s. tls_recv_turn P now junk h E (t, u) = Some (Ret y, s) \<and>
     receives E can h (chan u) (waiting_input (recv_fr (snd t))) [] y s"
proof (cases "rf_buffers (recv_fr (snd t)) = []")
  case True
  then show ?thesis by (rule turn_idle [OF laws ok _ u])
next
  case False
  let ?rf = "recv_fr (snd t)"
  obtain t' where a: "co_await_recv P now junk h t = (Ret (Some (Inr (rf_buffers ?rf))), t')" "tcp_ok can t'"
      "rf_buffers (recv_fr (snd t')) = []" "rf_ec (recv_fr (snd t')) = rf_ec ?rf"
    using await_ok [OF laws ok, of now junk h] False by auto
  have "\<forall>b \<in> set (rf_buffers ?rf). length (rb_data b) \<le> rb_capacity b" using ok by (simp add: tcp_ok_def)
  note c = continue_ok [OF laws E a(2,3) u this, of now junk h]
  have "waiting_input (?rf\<lparr>rf_buffers := []\<rparr>) = waiting_input (recv_fr (snd t'))"
    using a(3,4) False by (intro waiting_input_cong) auto
  moreover have "\<not> received_record u" using u by (simp add: tls_clean_def)
  ultimately show ?thesis using c a(1) False by (subst tls_recv_turn.simps) (simp add: on_fst_apply waiting_input_data)
qed

lemma recv_spec_append:
  "recv_spec E ch (a @ b) = (case recv_spec E ch a of (x, ch', r) \<Rightarrow> if x = Waiting then recv_spec E ch' b else (x, ch', r @ b))"
proof (induction a arbitrary: ch)
  case (Cons i a)
  show ?case
  proof (cases i)
    case (Inr arrived)
    then show ?thesis using Cons by (auto split: prod.splits sum.splits tls_exn.splits simp: recv_exn_def)
  qed simp
qed simp

lemma recv_spec_waiting: "recv_spec E ch ins = (Waiting, ch', r) \<Longrightarrow> r = []"
  by (induction E ch ins rule: recv_spec.induct) (auto simp: recv_exn_def split: prod.splits sum.splits if_splits tls_exn.splits)

lemma outcome_none [simp]: "outcome_ok x None u = (x = Waiting \<and> tls_clean u)"
  by (cases "(x, None :: tls_buf list task_result option, u)" rule: outcome_ok.cases) auto

lemma receives_none:
  assumes "receives E can h ch a later None s"
  shows "tls_clean (snd s)" "tcp_ok can (fst s)" "tcp_waiting h (fst s)"
  using assms by (auto simp: receives_def split: prod.splits)

lemma receives_then:
  assumes "receives E can h ch a [] None s" and "receives E can h (chan (snd s)) b later y s'"
  shows "receives E can h ch (a @ b) later y s'"
  using assms by (auto simp: receives_def recv_spec_append split: prod.splits)

lemma receives_later:
  assumes "receives E can h ch a [] (Some y) s"
  shows "receives E can h ch (a @ b) b (Some y) s"
  using assms by (auto simp: receives_def recv_spec_append split: prod.splits)

definition said_rounds :: "bool \<Rightarrow> tcp_round list \<Rightarrow> tcp_recv list" where
  "said_rounds can rds = concat (map (\<lambda>rd. said can (snd rd)) rds)"

lemma said_rounds_simps [simp]:
  "said_rounds can [] = []" "said_rounds can (rd # rds) = said can (snd rd) @ said_rounds can rds"
  by (simp_all add: said_rounds_def)

lemma round_ok:
  fixes t :: "('r, 'a) stream_state"
  assumes laws: "uring_laws P issued n" and E: "reads_ahead E" and ok: "tcp_ok can t" "tcp_waiting h t" and u: "tls_clean u"
    and adm: "batch_ok t (snd rd)"
  shows "\<exists>y s. tls_recv_round P junk h E rd (t, u) = Some (Ret y, s) \<and> receives E can h (chan u) (said can (snd rd)) [] y s"
proof -
  obtain t' where t': "tcp_batch (snd rd) t = (Ret [h], t')" "tcp_ok can t'" "waiting_input (recv_fr (snd t')) = said can (snd rd)"
      "rf_buffers (recv_fr (snd t')) \<noteq> [] \<or> rf_ec (recv_fr (snd t')) \<noteq> None"
    using tcp_batch_ok [OF ok adm] by blast
  show ?thesis
    using resumed_ok [OF laws E t'(2) u t'(4), of "fst rd" junk h] t'(1,3) by (simp add: tls_recv_round_def on_fst_apply)
qed

lemma rounds_ok:
  fixes t :: "('r, 'a) stream_state"
  assumes laws: "uring_laws P issued n" and E: "reads_ahead E"
    and "tcp_ok can t" and "tcp_waiting h t" and "tls_clean u" and "rounds_adm P junk h E rds (t, u)"
  shows "\<exists>y s k. tls_recv_rounds P junk h E rds (t, u) = Some (Ret y, s) \<and>
     receives E can h (chan u) (said_rounds can rds) (said_rounds can (drop k rds)) y s"
  using assms(3-)
proof (induction rds arbitrary: t u)
  case Nil
  then show ?case by (simp add: receives_def tcp_waiting_def)
next
  case (Cons rd rds)
  have "batch_ok t (snd rd)" using Cons.prems(4) by simp
  then obtain y s where s: "tls_recv_round P junk h E rd (t, u) = Some (Ret y, s)"
      "receives E can h (chan u) (said can (snd rd)) [] y s"
    using round_ok [OF laws E Cons.prems(1-3)] by blast
  show ?case
  proof (cases y)
    case None
    obtain t1 u1 where s1: "s = (t1, u1)" by (cases s)
    have "tls_clean u1" "tcp_ok can t1" "tcp_waiting h t1"
      using receives_none [OF s(2) [unfolded None]] s1 by simp_all
    moreover have "rounds_adm P junk h E rds (t1, u1)" using Cons.prems(4) s(1) None s1 by simp
    ultimately obtain y' s' k where k: "tls_recv_rounds P junk h E rds (t1, u1) = Some (Ret y', s')"
        "receives E can h (chan u1) (said_rounds can rds) (said_rounds can (drop k rds)) y' s'"
      using Cons.IH [of t1 u1] by auto
    have "receives E can h (chan u) (said can (snd rd) @ said_rounds can rds) (said_rounds can (drop k rds)) y' s'"
      by (rule receives_then [OF s(2) [unfolded None]]) (use k(2) s1 in simp)
    then show ?thesis using k(1) s(1) None s1 by (intro exI [of _ y'] exI [of _ s'] exI [of _ "Suc k"]) simp
  next
    case (Some z)
    then show ?thesis using receives_later [OF s(2) [unfolded Some], of "said_rounds can rds"] s(1)
      by (intro exI [of _ y] exI [of _ s] exI [of _ 1]) simp
  qed
qed

lemma recv_on_tcp_ok:
  fixes t :: "('r, 'a) stream_state"
  assumes laws: "uring_laws P issued n" and E: "reads_ahead E"
    and ok: "tcp_ok can t" and u: "tls_clean u" and adm: "recv_adm P now junk h E rds (t, u)"
  shows "\<exists>y s k. tls_recv_on_tcp P now junk h E rds (t, u) = Some (Ret y, s) \<and>
     receives E can h (chan u) (waiting_input (recv_fr (snd t)) @ said_rounds can rds) (said_rounds can (drop k rds)) y s"
proof -
  obtain y s where s: "tls_recv_turn P now junk h E (t, u) = Some (Ret y, s)"
      "receives E can h (chan u) (waiting_input (recv_fr (snd t))) [] y s"
    using turn_ok [OF laws E ok u] by blast
  show ?thesis
  proof (cases y)
    case None
    obtain t1 u1 where s1: "s = (t1, u1)" by (cases s)
    have "tls_clean u1" "tcp_ok can t1" "tcp_waiting h t1"
      using receives_none [OF s(2) [unfolded None]] s1 by simp_all
    moreover have "rounds_adm P junk h E rds (t1, u1)" using adm s(1) None s1 by (simp add: recv_adm_def)
    ultimately obtain y' s' k where k: "tls_recv_rounds P junk h E rds (t1, u1) = Some (Ret y', s')"
        "receives E can h (chan u1) (said_rounds can rds) (said_rounds can (drop k rds)) y' s'"
      using rounds_ok [OF laws E, of can t1 h u1 junk rds] by auto
    have "receives E can h (chan u) (waiting_input (recv_fr (snd t)) @ said_rounds can rds) (said_rounds can (drop k rds)) y' s'"
      by (rule receives_then [OF s(2) [unfolded None]]) (use k(2) s1 in simp)
    then show ?thesis using k(1) s(1) None s1 by (auto simp: tls_recv_on_tcp_def)
  next
    case (Some z)
    then show ?thesis using receives_later [OF s(2) [unfolded Some], of "said_rounds can rds"] s(1)
      by (intro exI [of _ y] exI [of _ s] exI [of _ 0]) (simp add: tls_recv_on_tcp_def)
  qed
qed

subsection \<open>From one side to the other\<close>

text \<open>
  The plaintext of an engine that is given pieces of input one after the other. \<open>deciphers\<close> is what TLS promises
  of the engine of a receiver: however the ciphertext is cut into pieces, its records make up the plaintext.
\<close>

fun feed :: "'ch engine \<Rightarrow> 'ch \<Rightarrow> u8 list list \<Rightarrow> (u8 list \<times> 'ch) option" where
  "feed E ch [] = Some ([], ch)"
| "feed E ch (b # bs) =
     (case ch_piece E ch b of (k, evs, ex, ch1) \<Rightarrow>
        if ex \<noteq> None then None else map_option (\<lambda>(pt, ch2). (records evs @ pt, ch2)) (feed E ch1 bs))"

definition deciphers :: "'ch engine \<Rightarrow> 'ch \<Rightarrow> u8 list \<Rightarrow> u8 list \<Rightarrow> bool" where
  "deciphers E ch c pt = (\<forall>bss. concat bss = c \<longrightarrow> [] \<notin> set bss \<longrightarrow> (\<exists>ch'. feed E ch bss = Some (pt, ch')))"

definition pieces :: "tcp_recv list \<Rightarrow> u8 list list" where
  "pieces ins = concat (map (\<lambda>i. case i of Inl e \<Rightarrow> [] | Inr bufs \<Rightarrow> map snd bufs) ins)"

lemma pieces_simps [simp]: "pieces [] = []" "pieces (Inl e # r) = pieces r" "pieces (Inr bufs # r) = map snd bufs @ pieces r"
    "pieces (a @ b) = pieces a @ pieces b"
  by (simp_all add: pieces_def)

lemma feed_append:
  "feed E ch (a @ b) = (case feed E ch a of None \<Rightarrow> None | Some (p, ch1) \<Rightarrow> map_option (\<lambda>(q, ch2). (p @ q, ch2)) (feed E ch1 b))"
  by (induction a arbitrary: ch) (auto split: prod.splits option.splits simp: map_option_case)

text \<open>Input of data only: no end of the stream, no error, no empty piece.\<close>

definition data_only :: "tcp_recv list \<Rightarrow> bool" where
  "data_only ins = list_all (\<lambda>i. case i of Inl e \<Rightarrow> False | Inr bufs \<Rightarrow> list_all (\<lambda>(c, b). c \<noteq> 0 \<and> b \<noteq> []) bufs) ins"

lemma no_record: "\<not> has_record evs \<Longrightarrow> records evs = []"
  by (auto simp: event_defs list_ex_iff split: tls_event.splits)

lemma bufs_spec_feed:
  assumes "list_all (\<lambda>(c, b). c \<noteq> 0 \<and> b \<noteq> []) bufs" and "feed E ch (map snd bufs) = Some (pt, ch')"
  shows "\<exists>got. bufs_spec E ch bufs = (Inr (pt, got), ch') \<and> (got \<or> pt = [])"
  using assms
proof (induction bufs arbitrary: ch pt)
  case (Cons cb bufs)
  obtain c b k evs ex ch1 where p: "cb = (c, b)" "ch_piece E ch b = (k, evs, ex, ch1)"
    by (cases cb; cases "ch_piece E ch (snd cb)") auto
  obtain pt1 where pt1: "ex = None" "feed E ch1 (map snd bufs) = Some (pt1, ch')" "pt = records evs @ pt1"
    using Cons.prems(2) p by (auto split: if_splits)
  obtain got where "bufs_spec E ch1 bufs = (Inr (pt1, got), ch')" "got \<or> pt1 = []"
    using Cons.IH [OF _ pt1(2)] Cons.prems(1) by auto
  then show ?case using Cons.prems(1) p pt1(1,3) no_record [of evs] by auto
qed auto

lemma recv_spec_feed:
  assumes "data_only ins" and "feed E ch (pieces ins) = Some (pt, ch')" and "recv_spec E ch ins = (x, ch1, rest)"
  shows "(x = Waiting \<and> pt = []) \<or> (\<exists>p q. x = Returned (Inr p) \<and> pt = p @ q \<and> feed E ch1 (pieces rest) = Some (q, ch') \<and>
     (length ins = 1 \<longrightarrow> q = []))"
  using assms
proof (induction ins arbitrary: ch pt)
  case (Cons i ins)
  obtain bufs where i: "i = Inr bufs" "list_all (\<lambda>(c, b). c \<noteq> 0 \<and> b \<noteq> []) bufs" "data_only ins"
    using Cons.prems(1) by (cases i) (auto simp: data_only_def)
  obtain p ch2 q where f: "feed E ch (map snd bufs) = Some (p, ch2)" "feed E ch2 (pieces ins) = Some (q, ch')" "pt = p @ q"
    using Cons.prems(2) i(1) by (auto simp: feed_append split: option.splits)
  obtain got where b: "bufs_spec E ch bufs = (Inr (p, got), ch2)" "got \<or> p = []"
    using bufs_spec_feed [OF i(2) f(1)] by blast
  show ?case
  proof (cases got)
    case True
    then show ?thesis using Cons.prems(3) i(1) b f by auto
  next
    case False
    then have "p = []" "recv_spec E ch2 ins = (x, ch1, rest)" using Cons.prems(3) i(1) b by auto
    moreover have "ins \<noteq> []" if "x \<noteq> Waiting" using that calculation(2) by auto
    ultimately show ?thesis using Cons.IH [OF i(3) f(2)] f(3) by auto
  qed
qed simp

text \<open>What the rounds carry when the kernel only posts data.\<close>

fun got_bytes :: "tcp_completion \<Rightarrow> u8 list" where
  "got_bytes (Got now i d) = d"
| "got_bytes (Ended now c) = []"

definition carried :: "tcp_round list \<Rightarrow> u8 list" where
  "carried rds = concat (map (\<lambda>rd. concat (map got_bytes (snd rd))) rds)"

definition all_data :: "tcp_round list \<Rightarrow> bool" where
  "all_data rds = list_all (\<lambda>rd. snd rd \<noteq> [] \<and> list_all (\<lambda>c. is_got c \<and> got_bytes c \<noteq> []) (snd rd)) rds"

lemma said_data:
  assumes "list_all (\<lambda>c. is_got c \<and> got_bytes c \<noteq> []) cs" and "cs \<noteq> []"
  shows "said can cs = [Inr (map (\<lambda>c. (1, got_bytes c)) cs)]"
proof -
  have "said_bufs cs = map (\<lambda>c. (1, got_bytes c)) cs" "said_error can cs = None"
    using assms(1) by (induction cs rule: said_bufs.induct) auto
  then show ?thesis using assms(2) by (simp add: said_def tcp_input_def)
qed

lemma said_rounds_data:
  assumes "all_data rds"
  shows "data_only (said_rounds can rds)" "concat (pieces (said_rounds can rds)) = carried rds"
    "[] \<notin> set (pieces (said_rounds can rds))" "length (said_rounds can rds) = length rds"
proof -
  have "data_only (said_rounds can rds) \<and> concat (pieces (said_rounds can rds)) = carried rds \<and>
    [] \<notin> set (pieces (said_rounds can rds)) \<and> length (said_rounds can rds) = length rds"
    using assms by (induction rds) (auto simp: all_data_def data_only_def carried_def said_data list_all_iff comp_def)
  then show "data_only (said_rounds can rds)" "concat (pieces (said_rounds can rds)) = carried rds"
    "[] \<notin> set (pieces (said_rounds can rds))" "length (said_rounds can rds) = length rds"
    by blast+
qed

subsection \<open>Properties\<close>



text \<open>The receiving stream of \<open>Stream_Ops\<close> below a fresh TLS stream.\<close>

lemma rounds_adm_single: "rounds_adm P junk h E [rd] s = batch_ok (fst s) (snd rd)"
  by (simp split: option.splits prod.splits outcome.splits)

lemma ex_recv_adm:
  assumes "batch_ok (ex_rframe, ex_receiver) cs"
  shows "recv_adm P now junk h ex_engine [(now', cs)] ((ex_rframe, ex_receiver), tls_stream_new ())"
proof -
  have "recv_await_suspend P now h (ex_rframe, ex_receiver) =
      (Ret True, (ex_rframe, ex_receiver\<lparr>recv_fr := (recv_fr ex_receiver)\<lparr>rf_h := Some h\<rparr>\<rparr>))"
    by (simp add: recv_await_suspend_def Let_def op_simps ex_receiver_def stream_fields_def recv_frame_new_def)
  then have "co_await_recv P now junk h (ex_rframe, ex_receiver) =
      (Ret None, (ex_rframe, ex_receiver\<lparr>recv_fr := (recv_fr ex_receiver)\<lparr>rf_h := Some h\<rparr>\<rparr>))"
    by (intro co_await_suspends) (simp add: ex_receiver_def stream_fields_def recv_frame_new_def)
  then have "tls_recv_turn P now junk h ex_engine ((ex_rframe, ex_receiver), tls_stream_new ()) =
      Some (Ret None, ((ex_rframe, ex_receiver\<lparr>recv_fr := (recv_fr ex_receiver)\<lparr>rf_h := Some h\<rparr>\<rparr>), tls_stream_new ()))"
    by (simp add: tls_recv_turn.simps on_fst_apply tls_stream_new_def)
  then show ?thesis using assms
    by (simp only: recv_adm_def option.case prod.case outcome.case rounds_adm_single)
      (auto simp: batch_ok_def split: option.splits)
qed

lemma ex_tls_tcp_ok: "tcp_ok False (ex_rframe, ex_receiver)" "waiting_input (recv_fr ex_receiver) = []" "st_cancelled ex_receiver = False"
    "tls_clean (tls_stream_new ())" "reads_ahead ex_engine"
  using ex_receiver_inv
  by (auto simp: tcp_ok_def ex_receiver_def stream_fields_def recv_frame_new_def waiting_input_def waiting_bufs_def tcp_input_def
      tls_clean_def tls_stream_new_def tls_wf_def seq_bytes_of_def reads_ahead_def ex_engine_def)

lemma ex_feed: "feed ex_engine ch bss = Some (map (\<lambda>b. b - 1) (concat bss), ())"
  by (induction bss arbitrary: ch) (simp_all add: ex_engine_def records_def)

lemma ex_batch_ok:
  "batch_ok (ex_rframe, ex_receiver) [Got 10 1 [105], Got 11 0 [106]]"
  "batch_ok (ex_rframe, ex_receiver) [Got 10 1 [105, 106], Ended 20 \<lparr>cqe_res = - ECANCELED, cqe_flags = 0, cqe_data = UD 640 F_recv\<rparr>]"
  by (simp_all add: batch_ok_def ex_receiver_def stream_fields_def recv_frame_new_def ex_rframe_def slot_ready_def
      ex_full_ring_def rb_new_def cap_of_def cqe_f_more_def cqe_f_buffer_def)



end
