(* ===== verification/Handles.thy ===== *)
theory Handles
  imports Runtime
begin

section \<open>The handles and awaitables of a program\<close>

text \<open>
  The classes that a program holds: \<^verbatim>\<open>tcp::acceptor\<close>, \<^verbatim>\<open>tcp::stream\<close>, \<^verbatim>\<open>tcp::client\<close>, \<^verbatim>\<open>timer\<close>, \<^verbatim>\<open>file\<close> and the
  awaitables that their members make. Each has one member, a \<^verbatim>\<open>boost::intrusive_ptr\<close> to the object; a
  declaration says which special members the class has and what its destructor does. A program is a sequence of
  statements over variables of these classes. (That \<^verbatim>\<open>await_ready\<close> is \<^verbatim>\<open>return false\<close> or looks at the object is part of the
  calls.) \<open>Handle_Programs\<close> shows that such a program makes only the steps of the runtime, with its variables as the
  pointers that \<open>Runtime\<close> counts.
\<close>

subsection \<open>Declarations\<close>

datatype handle_class =
    C_acceptor | C_stream | C_client | C_timer | C_file
  | C_accept | C_accept_raw | C_accept_cancel | C_accept_close | C_connect
  | C_stream_close | C_stream_cancel | C_send | C_recv | C_shutdown
  | C_timer_wait | C_timer_cancel | C_open | C_write | C_read

datatype object_kind = K_stream | K_client | K_acceptor | K_timer | K_file

fun kind_of :: "any_object \<Rightarrow> object_kind" where
  "kind_of (A_stream st) = K_stream"
| "kind_of (A_client cl) = K_client"
| "kind_of (An_acceptor a) = K_acceptor"
| "kind_of (A_timer tm) = K_timer"
| "kind_of (A_file f) = K_file"

text \<open>
  The destructor: only that of the pointer (\<open>Members_only\<close>), the body of \<^verbatim>\<open>~stream\<close> and \<^verbatim>\<open>~client\<close> before it, or a body
  that follows the pointer without a check and may cancel the operation in flight.
\<close>

datatype dtor_decl = Members_only | Handle_body | Cancel_body "object_kind \<Rightarrow> any_call option"

record class_decl =
  cd_default :: bool
  cd_copy :: bool
  cd_move :: bool
  cd_dtor :: dtor_decl
  cd_kinds :: "object_kind list"

definition acceptor_decl :: class_decl where
  "acceptor_decl = \<lparr>cd_default = False, cd_copy = True, cd_move = True, cd_dtor = Members_only,
     cd_kinds = [K_acceptor]\<rparr>"

definition stream_decl :: class_decl where
  "stream_decl = \<lparr>cd_default = True, cd_copy = True, cd_move = True, cd_dtor = Handle_body,
     cd_kinds = [K_stream]\<rparr>"

definition client_decl :: class_decl where
  "client_decl = \<lparr>cd_default = True, cd_copy = True, cd_move = True, cd_dtor = Handle_body,
     cd_kinds = [K_client]\<rparr>"

definition timer_decl :: class_decl where
  "timer_decl = \<lparr>cd_default = False, cd_copy = True, cd_move = True, cd_dtor = Members_only,
     cd_kinds = [K_timer]\<rparr>"

definition file_decl :: class_decl where
  "file_decl = \<lparr>cd_default = True, cd_copy = True, cd_move = True, cd_dtor = Members_only,
     cd_kinds = [K_file]\<rparr>"

text \<open>The calls of the destructor bodies, on the object of the pointer.\<close>

definition on_acceptor :: "acceptor_call \<Rightarrow> object_kind \<Rightarrow> any_call option" where
  "on_acceptor c k = (case k of K_acceptor \<Rightarrow> Some (An_acceptor c) | _ \<Rightarrow> None)"

definition on_stream :: "stream_call \<Rightarrow> object_kind \<Rightarrow> any_call option" where
  "on_stream c k = (case k of K_stream \<Rightarrow> Some (A_stream c) | K_client \<Rightarrow> Some (A_client (Client_stream c)) | _ \<Rightarrow> None)"

definition on_client :: "client_call \<Rightarrow> object_kind \<Rightarrow> any_call option" where
  "on_client c k = (case k of K_client \<Rightarrow> Some (A_client c) | _ \<Rightarrow> None)"

definition on_timer :: "timer_call \<Rightarrow> object_kind \<Rightarrow> any_call option" where
  "on_timer c k = (case k of K_timer \<Rightarrow> Some (A_timer c) | _ \<Rightarrow> None)"

definition on_file :: "file_call \<Rightarrow> object_kind \<Rightarrow> any_call option" where
  "on_file c k = (case k of K_file \<Rightarrow> Some (A_file c) | _ \<Rightarrow> None)"

lemmas on_kind_defs = on_acceptor_def on_stream_def on_client_def on_timer_def on_file_def

text \<open>
  The awaitables: their copies are deleted, which leaves them without moves too, except for those of the timer, whose
  user-declared destructor leaves the implicit copies.
\<close>

definition accept_decl :: class_decl where
  "accept_decl = \<lparr>cd_default = False, cd_copy = False, cd_move = False, cd_dtor = Cancel_body (on_acceptor Accept_dtor), cd_kinds = [K_acceptor]\<rparr>"

definition accept_raw_decl :: class_decl where
  "accept_raw_decl = accept_decl"

definition accept_cancel_decl :: class_decl where
  "accept_cancel_decl = \<lparr>cd_default = False, cd_copy = False, cd_move = False, cd_dtor = Members_only,
     cd_kinds = [K_acceptor]\<rparr>"

definition accept_close_decl :: class_decl where
  "accept_close_decl = \<lparr>cd_default = False, cd_copy = False, cd_move = False, cd_dtor = Members_only,
     cd_kinds = [K_acceptor]\<rparr>"

definition connect_decl :: class_decl where
  "connect_decl = \<lparr>cd_default = False, cd_copy = False, cd_move = False, cd_dtor = Cancel_body (on_client Client_connect_dtor), cd_kinds = [K_client]\<rparr>"

definition stream_close_decl :: class_decl where
  "stream_close_decl = \<lparr>cd_default = False, cd_copy = False, cd_move = False, cd_dtor = Members_only,
     cd_kinds = [K_stream, K_client]\<rparr>"

definition stream_cancel_decl :: class_decl where
  "stream_cancel_decl = \<lparr>cd_default = False, cd_copy = False, cd_move = False, cd_dtor = Members_only,
     cd_kinds = [K_stream, K_client]\<rparr>"

definition send_decl :: class_decl where
  "send_decl = \<lparr>cd_default = False, cd_copy = False, cd_move = False, cd_dtor = Cancel_body (on_stream Call_send_dtor), cd_kinds = [K_stream, K_client]\<rparr>"

definition recv_decl :: class_decl where
  "recv_decl = \<lparr>cd_default = False, cd_copy = False, cd_move = False, cd_dtor = Members_only,
     cd_kinds = [K_stream, K_client]\<rparr>"

definition shutdown_decl :: class_decl where
  "shutdown_decl = \<lparr>cd_default = False, cd_copy = False, cd_move = False, cd_dtor = Members_only,
     cd_kinds = [K_stream, K_client]\<rparr>"

definition timer_wait_decl :: class_decl where
  "timer_wait_decl = \<lparr>cd_default = False, cd_copy = True, cd_move = False, cd_dtor = Cancel_body (on_timer Timer_wait_dtor), cd_kinds = [K_timer]\<rparr>"

definition timer_cancel_decl :: class_decl where
  "timer_cancel_decl = \<lparr>cd_default = False, cd_copy = True, cd_move = False, cd_dtor = Members_only,
     cd_kinds = [K_timer]\<rparr>"

definition open_decl :: class_decl where
  "open_decl = \<lparr>cd_default = False, cd_copy = False, cd_move = False, cd_dtor = Cancel_body (on_file File_open_dtor), cd_kinds = [K_file]\<rparr>"

definition write_decl :: class_decl where
  "write_decl = \<lparr>cd_default = False, cd_copy = False, cd_move = False, cd_dtor = Cancel_body (on_file File_write_dtor), cd_kinds = [K_file]\<rparr>"

definition read_decl :: class_decl where
  "read_decl = \<lparr>cd_default = False, cd_copy = False, cd_move = False, cd_dtor = Cancel_body (on_file File_read_dtor), cd_kinds = [K_file]\<rparr>"

definition decl :: "handle_class \<Rightarrow> class_decl" where
  "decl c =
     (case c of
        C_acceptor \<Rightarrow> acceptor_decl | C_stream \<Rightarrow> stream_decl | C_client \<Rightarrow> client_decl | C_timer \<Rightarrow> timer_decl | C_file \<Rightarrow> file_decl
      | C_accept \<Rightarrow> accept_decl | C_accept_raw \<Rightarrow> accept_raw_decl | C_accept_cancel \<Rightarrow> accept_cancel_decl
      | C_accept_close \<Rightarrow> accept_close_decl | C_connect \<Rightarrow> connect_decl | C_stream_close \<Rightarrow> stream_close_decl
      | C_stream_cancel \<Rightarrow> stream_cancel_decl | C_send \<Rightarrow> send_decl | C_recv \<Rightarrow> recv_decl | C_shutdown \<Rightarrow> shutdown_decl
      | C_timer_wait \<Rightarrow> timer_wait_decl | C_timer_cancel \<Rightarrow> timer_cancel_decl | C_open \<Rightarrow> open_decl
      | C_write \<Rightarrow> write_decl | C_read \<Rightarrow> read_decl)"

lemmas decl_defs = decl_def acceptor_decl_def stream_decl_def client_decl_def timer_decl_def file_decl_def accept_decl_def
  accept_raw_decl_def accept_cancel_decl_def accept_close_decl_def connect_decl_def stream_close_decl_def stream_cancel_decl_def
  send_decl_def recv_decl_def shutdown_decl_def timer_wait_decl_def timer_cancel_decl_def open_decl_def write_decl_def read_decl_def

text \<open>Which object a constructor makes.\<close>

definition makes_object :: "handle_class \<Rightarrow> any_new \<Rightarrow> bool" where
  "makes_object c n =
     (c = (case n of A_stream _ \<Rightarrow> C_stream | A_client _ \<Rightarrow> C_client | An_acceptor _ \<Rightarrow> C_acceptor | A_timer _ \<Rightarrow> C_timer | A_file _ \<Rightarrow> C_file))"

text \<open>
  Which awaitables the members \<^verbatim>\<open>async_\<dots>\<close> of a class make, and the call on the object that comes before. (What
  \<^verbatim>\<open>async_shutdown\<close> stores is part of \<open>Call_shutdown\<close>.)
\<close>

definition acceptor_async :: "handle_class \<Rightarrow> any_call option \<Rightarrow> bool" where
  "acceptor_async a c = (c = None \<and> a \<in> {C_accept, C_accept_raw, C_accept_cancel, C_accept_close})"

definition stream_async :: "handle_class \<Rightarrow> any_call option \<Rightarrow> bool" where
  "stream_async a c = (c = None \<and> a \<in> {C_stream_close, C_stream_cancel, C_send, C_recv, C_shutdown})"

definition client_async :: "handle_class \<Rightarrow> any_call option \<Rightarrow> bool" where
  "client_async a c = (case c of Some (A_client (Client_connect addr)) \<Rightarrow> a = C_connect | _ \<Rightarrow> False)"

definition timer_async :: "handle_class \<Rightarrow> any_call option \<Rightarrow> bool" where
  "timer_async a c = (case c of Some (A_timer (Timer_wait d)) \<Rightarrow> a = C_timer_wait | None \<Rightarrow> a = C_timer_cancel | _ \<Rightarrow> False)"

definition file_async :: "handle_class \<Rightarrow> any_call option \<Rightarrow> bool" where
  "file_async a c =
     (case c of
        Some (A_file (File_open path fl)) \<Rightarrow> a = C_open
      | Some (A_file (File_write msg)) \<Rightarrow> a = C_write
      | Some (A_file (File_write_fixed b)) \<Rightarrow> a = C_write
      | Some (A_file (File_read p n)) \<Rightarrow> a = C_read
      | Some (A_file (File_read_fixed p b)) \<Rightarrow> a = C_read
      | _ \<Rightarrow> False)"

definition has_async :: "handle_class \<Rightarrow> handle_class \<Rightarrow> any_call option \<Rightarrow> bool" where
  "has_async h a c =
     (case h of
        C_acceptor \<Rightarrow> acceptor_async a c
      | C_stream \<Rightarrow> stream_async a c
      | C_client \<Rightarrow> stream_async a c \<or> client_async a c
      | C_timer \<Rightarrow> timer_async a c
      | C_file \<Rightarrow> file_async a c
      | _ \<Rightarrow> False)"

text \<open>Which class has a member function, by the call on the object that it is; \<^verbatim>\<open>async_\<dots>\<close> and destructors are not among them.\<close>

fun stream_member :: "stream_call \<Rightarrow> handle_class set" where
  "stream_member (Call_send now buf h) = {C_send}"
| "stream_member Call_send_resume = {C_send}"
| "stream_member Call_send_dtor = {}"
| "stream_member (Call_cancel h) = {C_stream_cancel}"
| "stream_member Call_cancel_resume = {C_stream_cancel}"
| "stream_member (Call_close h) = {C_stream_close}"
| "stream_member Call_close_resume = {C_stream_close}"
| "stream_member (Call_shutdown how h) = {C_shutdown}"
| "stream_member Call_shutdown_resume = {C_shutdown}"
| "stream_member (Call_recv now h) = {C_recv}"
| "stream_member Call_recv_resume = {C_recv}"
| "stream_member (Call_timeout ts) = {C_stream, C_client}"
| "stream_member (Call_set_buffer_group g) = {C_stream, C_client}"

fun client_member :: "client_call \<Rightarrow> handle_class set" where
  "client_member (Client_stream c) = stream_member c - {C_stream}"
| "client_member Client_connect_ready = {C_connect}"
| "client_member (Client_connect_suspend h) = {C_connect}"
| "client_member Client_connect_resume = {C_connect}"
| "client_member _ = {}"

fun acceptor_member :: "acceptor_call \<Rightarrow> handle_class set" where
  "acceptor_member (Accept_suspend h) = {C_accept, C_accept_raw}"
| "acceptor_member Accept_resume = {C_accept, C_accept_raw}"
| "acceptor_member Accept_dtor = {}"
| "acceptor_member (Accept_cancel h) = {C_accept_cancel}"
| "acceptor_member Accept_cancel_resume = {C_accept_cancel}"
| "acceptor_member (Accept_close h) = {C_accept_close}"
| "acceptor_member Accept_close_resume = {C_accept_close}"

fun timer_member :: "timer_call \<Rightarrow> handle_class set" where
  "timer_member Timer_ready = {C_timer_wait}"
| "timer_member (Timer_suspend h) = {C_timer_wait}"
| "timer_member Timer_resume = {C_timer_wait}"
| "timer_member Timer_cancel_ready = {C_timer_cancel}"
| "timer_member (Timer_cancel h) = {C_timer_cancel}"
| "timer_member Timer_cancel_resume = {C_timer_cancel}"
| "timer_member _ = {}"

fun file_member :: "file_call \<Rightarrow> handle_class set" where
  "file_member (File_open_suspend h) = {C_open}"
| "file_member File_open_resume = {C_open}"
| "file_member (File_write_suspend h) = {C_write}"
| "file_member File_write_resume = {C_write}"
| "file_member (File_read_suspend h) = {C_read}"
| "file_member File_read_resume = {C_read}"
| "file_member _ = {}"

definition has_member :: "handle_class \<Rightarrow> any_call \<Rightarrow> bool" where
  "has_member k c =
     (k \<in> (case c of A_stream sc \<Rightarrow> stream_member sc | A_client cc \<Rightarrow> client_member cc | An_acceptor ac \<Rightarrow> acceptor_member ac
            | A_timer tc \<Rightarrow> timer_member tc | A_file fc \<Rightarrow> file_member fc))"

subsection \<open>Statements\<close>

text \<open>
  The variables of a program: those of its coroutine frames too, each with its class and its pointer. The special
  members are those of \<^verbatim>\<open>boost::intrusive_ptr\<close>: a copy adds a reference, a move leaves a null pointer behind, an
  assignment makes a temporary of its argument, swaps it with the pointer and destroys the temporary.
\<close>

type_synonym var = nat
type_synonym 'r program = "('r, any_object) rt_state \<times> (var \<rightharpoonup> handle_class \<times> addr option)"
type_synonym 'r any_class = "('r, any_object, any_call, any_new) object_class"

definition ptr_of :: "(handle_class \<times> addr option) option \<Rightarrow> addr option" where
  "ptr_of x = (case x of Some (c, q) \<Rightarrow> q | None \<Rightarrow> None)"

definition set_var :: "var \<Rightarrow> (handle_class \<times> addr option) option \<Rightarrow> ('r program, unit) op" where
  "set_var v x s = (Ret (), (fst s, (snd s)(v := x)))"

definition acquire :: "'r any_class \<Rightarrow> addr option \<Rightarrow> ('r program, unit) op" where
  "acquire K q = (case q of None \<Rightarrow> retM () | Some p \<Rightarrow> on_fst (rt_act K (Copy p)))"

definition discard :: "'r any_class \<Rightarrow> addr option \<Rightarrow> ('r program, unit) op" where
  "discard K q = (case q of None \<Rightarrow> retM () | Some p \<Rightarrow> on_fst (rt_act K (Release p)))"

definition copy_init :: "'r any_class \<Rightarrow> var \<Rightarrow> handle_class \<Rightarrow> addr option \<Rightarrow> ('r program, unit) op" where
  "copy_init K v c q = thenM (acquire K q) (set_var v (Some (c, q)))"

definition move_init :: "var \<Rightarrow> var \<Rightarrow> handle_class \<Rightarrow> addr option \<Rightarrow> ('r program, unit) op" where
  "move_init v u c q = thenM (set_var u (Some (c, None))) (set_var v (Some (c, q)))"

definition copy_assign :: "'r any_class \<Rightarrow> var \<Rightarrow> handle_class \<Rightarrow> addr option \<Rightarrow> ('r program, unit) op" where
  "copy_assign K v c q =
     thenM (acquire K q) (\<lambda>s. thenM (set_var v (Some (c, q))) (discard K (ptr_of (snd s v))) s)"

definition move_assign :: "'r any_class \<Rightarrow> var \<Rightarrow> var \<Rightarrow> handle_class \<Rightarrow> addr option \<Rightarrow> ('r program, unit) op" where
  "move_assign K v u c q =
     thenM (set_var u (Some (c, None))) (\<lambda>s. thenM (set_var v (Some (c, q))) (discard K (ptr_of (snd s v))) s)"

definition cancel_body :: "'r any_class \<Rightarrow> (object_kind \<Rightarrow> any_call option) \<Rightarrow> addr \<Rightarrow> ('r program, unit) op" where
  "cancel_body K f p s =
     (case rt_heap (snd (fst s)) p of
        None \<Rightarrow> (Bad_access, s)
      | Some ob \<Rightarrow> (case f (kind_of ob) of None \<Rightarrow> (Bad_access, s) | Some c \<Rightarrow> on_fst (rt_act K (Do p c)) s))"

definition run_dtor :: "'r any_class \<Rightarrow> dtor_decl \<Rightarrow> addr option \<Rightarrow> ('r program, unit) op" where
  "run_dtor K d q =
     (case d of
        Members_only \<Rightarrow> discard K q
      | Handle_body \<Rightarrow> (case q of None \<Rightarrow> retM () | Some p \<Rightarrow> on_fst (rt_act K (Drop p)))
      | Cancel_body f \<Rightarrow> (case q of None \<Rightarrow> (\<lambda>s. (Bad_access, s)) | Some p \<Rightarrow> thenM (cancel_body K f p) (discard K q)))"

definition member :: "'r any_class \<Rightarrow> addr option \<Rightarrow> any_call \<Rightarrow> ('r program, unit) op" where
  "member K q c = (case q of None \<Rightarrow> (\<lambda>s. (Bad_access, s)) | Some p \<Rightarrow> on_fst (rt_act K (Do p c)))"

text \<open>
  A member \<^verbatim>\<open>async_\<dots>\<close> makes an awaitable with one more pointer; the parameter of its constructor is a copy that is gone when
  it returns.
\<close>

definition make_awaitable :: "'r any_class \<Rightarrow> var \<Rightarrow> handle_class \<Rightarrow> addr option \<Rightarrow> any_call option \<Rightarrow> ('r program, unit) op" where
  "make_awaitable K v a q c =
     thenM (case c of None \<Rightarrow> retM () | Some d \<Rightarrow> member K q d) (copy_init K v a q)"

datatype stmt =
    Construct var handle_class addr any_new | Default_init var handle_class
  | Copy_init var var | Move_init var var | Copy_assign var var | Move_assign var var
  | Member var any_call | Async var var handle_class "any_call option" | Destroy var

definition exec :: "'r any_class \<Rightarrow> stmt \<Rightarrow> ('r program, unit) op" where
  "exec K st s =
     (case st of
        Construct v c p n \<Rightarrow> thenM (on_fst (rt_act K (Make p n))) (set_var v (Some (c, Some p))) s
      | Default_init v c \<Rightarrow> set_var v (Some (c, None)) s
      | Copy_init v u \<Rightarrow> (case snd s u of Some (c, q) \<Rightarrow> copy_init K v c q s | None \<Rightarrow> (Bad_access, s))
      | Move_init v u \<Rightarrow> (case snd s u of Some (c, q) \<Rightarrow> move_init v u c q s | None \<Rightarrow> (Bad_access, s))
      | Copy_assign v u \<Rightarrow> (case snd s u of Some (c, q) \<Rightarrow> copy_assign K v c q s | None \<Rightarrow> (Bad_access, s))
      | Move_assign v u \<Rightarrow> (case snd s u of Some (c, q) \<Rightarrow> move_assign K v u c q s | None \<Rightarrow> (Bad_access, s))
      | Member v d \<Rightarrow> (case snd s v of Some (c, q) \<Rightarrow> member K q d s | None \<Rightarrow> (Bad_access, s))
      | Async v u a d \<Rightarrow> (case snd s u of Some (c, q) \<Rightarrow> make_awaitable K v a q d s | None \<Rightarrow> (Bad_access, s))
      | Destroy v \<Rightarrow> (case snd s v of
            Some (c, q) \<Rightarrow> thenM (run_dtor K (cd_dtor (decl c)) q) (set_var v None) s | None \<Rightarrow> (Bad_access, s)))"

text \<open>
  A statement that compiles, declares a new variable or uses one that lives, does not follow a null pointer
  and keeps to the preconditions of the call on the object.
\<close>

definition do_ok :: "'r any_class \<Rightarrow> addr option \<Rightarrow> any_call \<Rightarrow> 'r program \<Rightarrow> bool" where
  "do_ok K q d s = (case q of None \<Rightarrow> False | Some p \<Rightarrow> act_ok K (Do p d) (fst s))"

definition stmt_ok :: "'r any_class \<Rightarrow> stmt \<Rightarrow> 'r program \<Rightarrow> bool" where
  "stmt_ok K st s =
     (case st of
        Construct v c p n \<Rightarrow> snd s v = None \<and> makes_object c n \<and> act_ok K (Make p n) (fst s)
      | Default_init v c \<Rightarrow> snd s v = None \<and> cd_default (decl c)
      | Copy_init v u \<Rightarrow> snd s v = None \<and> (case snd s u of Some (c, q) \<Rightarrow> cd_copy (decl c) | None \<Rightarrow> False)
      | Move_init v u \<Rightarrow> snd s v = None \<and> (case snd s u of Some (c, q) \<Rightarrow> cd_move (decl c) | None \<Rightarrow> False)
      | Copy_assign v u \<Rightarrow> (case snd s u of Some (c, q) \<Rightarrow> cd_copy (decl c) \<and> map_option fst (snd s v) = Some c | None \<Rightarrow> False)
      | Move_assign v u \<Rightarrow> (case snd s u of Some (c, q) \<Rightarrow> cd_move (decl c) \<and> map_option fst (snd s v) = Some c | None \<Rightarrow> False)
      | Member v d \<Rightarrow> (case snd s v of Some (c, q) \<Rightarrow> has_member c d \<and> do_ok K q d s | None \<Rightarrow> False)
      | Async v u a d \<Rightarrow> snd s v = None \<and>
          (case snd s u of
             Some (c, q) \<Rightarrow> has_async c a d \<and> q \<noteq> None \<and> (case d of None \<Rightarrow> True | Some d \<Rightarrow> do_ok K q d s) | None \<Rightarrow> False)
      | Destroy v \<Rightarrow> snd s v \<noteq> None)"

text \<open>A constructor may throw what the system reports and a call on the object its documented errors; nothing else throws.\<close>

definition stmt_result :: "stmt \<Rightarrow> unit outcome \<Rightarrow> bool" where
  "stmt_result st x =
     (case st of
        Construct v c p n \<Rightarrow> x = Ret () \<or> (\<exists>e. x = Throw e)
      | Member v d \<Rightarrow> documented x
      | Async v u a (Some d) \<Rightarrow> documented x
      | _ \<Rightarrow> x = Ret ())"

text \<open>The run loop with a completion: the frame processes it, then the pointer that the loop adopted is released.\<close>

definition complete_one :: "'r any_class \<Rightarrow> int \<Rightarrow> addr \<Rightarrow> frame_tag \<Rightarrow> cqe \<Rightarrow> (('r, any_object) rt_state, unit) op" where
  "complete_one K now p t c = bindM (rt_deliver K now p t c) (\<lambda>h. rt_act K (Release p))"

inductive prog_reach ::
  "'r any_class \<Rightarrow> ('r \<Rightarrow> sqe list) \<Rightarrow> int set \<Rightarrow> 'r program \<Rightarrow> user_data multiset \<Rightarrow> bool"
  for K issued U where
  start: "frame_ok fr \<Longrightarrow> fds fr \<inter> L = {} \<Longrightarrow> fds fr \<union> L = U \<Longrightarrow> U \<subseteq> fd_range fr \<Longrightarrow>
      prog_reach K issued U ((fr, \<lparr>rt_heap = (\<lambda>_. None), rt_ext = (\<lambda>_. 0), rt_loose = L\<rparr>), (\<lambda>_. None)) {#}"
| executed: "prog_reach K issued U s pend \<Longrightarrow> stmt_ok K st s \<Longrightarrow> exec K st s = (x, s') \<Longrightarrow>
      issued (io_ring (fst (fst s'))) = issued (io_ring (fst (fst s))) @ es \<Longrightarrow> prog_reach K issued U s' (pend + posted es)"
| completed: "prog_reach K issued U (s, vs) pend \<Longrightarrow> UD p t \<in># pend \<Longrightarrow> rt_cqe_ok K now p t c s \<Longrightarrow>
      complete_one K now p t c s = (x, s') \<Longrightarrow> issued (io_ring (fst s')) = issued (io_ring (fst s)) @ es \<Longrightarrow>
      prog_reach K issued U (s', vs) (pend - image_mset (UD p) (completion_tags t c) + posted es)"
| interfered: "prog_reach K issued U ((fr, w), vs) pend \<Longrightarrow> env_step fr fr' \<Longrightarrow> prog_reach K issued U ((fr', w), vs) pend"

end
