(* ===== verification/Handle_Programs.thy ===== *)
theory Handle_Programs
  imports Handles
begin

section \<open>Programs over handles\<close>

text \<open>
  The statements of \<open>Handles\<close> over the runtime: each makes only steps of \<open>rt_reach\<close>, keeps the pointers that the
  runtime counts equal to the variables (\<open>vars_inv\<close>), and ends as it should. The properties: a program over the
  handles refines the runtime, and what assigning to the last handle of a stream leaves undone.
\<close>

subsection \<open>The actions of a statement\<close>

text \<open>An object stays what it is, and only a constructor makes one.\<close>

definition kinds_from :: "('r, any_object) rt_state \<Rightarrow> ('r, any_object) rt_state \<Rightarrow> bool" where
  "kinds_from s s' =
     (\<forall>q ob'. rt_heap (snd s') q = Some ob' \<longrightarrow> (\<exists>ob. rt_heap (snd s) q = Some ob \<and> kind_of ob' = kind_of ob))"

lemma kinds_from_refl: "kinds_from s s"
  by (simp add: kinds_from_def)

lemma kinds_from_trans: "kinds_from s s1 \<Longrightarrow> kinds_from s1 s2 \<Longrightarrow> kinds_from s s2"
  unfolding kinds_from_def by metis

definition keeps_kind :: "('r io_context_frame \<times> any_object, 'x) op \<Rightarrow> bool" where
  "keeps_kind m = (\<forall>fr ob. kind_of (snd (snd (m (fr, ob)))) = kind_of ob)"

lemma keeps_kind_either: "keeps_kind (either m0 (either m1 (either m2 (either m3 m4))))"
  unfolding keeps_kind_def by (intro allI, rename_tac fr ob, case_tac ob rule: kind_of.cases) (simp_all add: either_Inl either_Inr)

lemma runtime_keeps_kind:
  "keeps_kind (oc_call (runtime_class E junk) c)" "keeps_kind (oc_copy (runtime_class E junk))"
  "keeps_kind (oc_release (runtime_class E junk))" "keeps_kind (oc_drop (runtime_class E junk))"
  "keeps_kind (thenM (oc_process (runtime_class E junk) now t ce) (oc_handle (runtime_class E junk) t))"
proof -
  show "keeps_kind (oc_call (runtime_class E junk) c)"
    unfolding keeps_kind_def runtime_class_def
    by (intro allI, rename_tac fr ob, case_tac ob rule: kind_of.cases)
      (auto simp: either_Inl either_Inr no_object_def split: sum.split)
qed (simp_all add: runtime_class_def keeps_kind_either either_then del: thenM_apply)

lemma rt_exec_kinds: "keeps_kind m \<Longrightarrow> rt_exec p k out m s = (x, s') \<Longrightarrow> kinds_from s s'"
  unfolding keeps_kind_def
  by (auto simp: rt_exec_def kinds_from_def split: option.splits prod.splits if_splits) (metis snd_conv)+

lemma rt_free_kinds: "keeps_kind m \<Longrightarrow> rt_free p left m s = (x, s') \<Longrightarrow> kinds_from s s'"
  unfolding keeps_kind_def
  by (auto simp: rt_free_def kinds_from_def split: option.splits prod.splits if_splits outcome.splits bool.splits) (metis snd_conv)+

lemma act_kinds:
  assumes "rt_act (runtime_class E junk) a s = (x, s')" and "\<forall>p n. a \<noteq> Make p n"
  shows "kinds_from s s'"
  using assms rt_exec_kinds [OF runtime_keeps_kind(1)] rt_exec_kinds [OF runtime_keeps_kind(2)]
    rt_free_kinds [OF runtime_keeps_kind(3)] rt_free_kinds [OF runtime_keeps_kind(4)]
  by (cases a) (simp_all add: rt_act_def)

text \<open>The pointers of the program after an action.\<close>

lemma rt_exec_ext: "rt_exec p k out m s = (x, s') \<Longrightarrow> rt_heap (snd s) p \<noteq> None \<Longrightarrow> rt_ext (snd s') = (rt_ext (snd s))(p := rt_ext (snd s) p + k)"
  by (auto simp: rt_exec_def split: option.splits prod.splits)

lemma rt_free_ext: "rt_free p left m s = (x, s') \<Longrightarrow> rt_heap (snd s) p \<noteq> None \<Longrightarrow> rt_ext (snd s') = (rt_ext (snd s))(p := rt_ext (snd s) p - 1)"
  by (auto simp: rt_free_def split: option.splits prod.splits outcome.splits bool.splits)

text \<open>A sequence of actions none of which makes an object: what it issues, that it only takes steps of the runtime.\<close>

definition moved ::
  "'r any_class \<Rightarrow> ('r \<Rightarrow> sqe list) \<Rightarrow> int set \<Rightarrow> ('r, any_object) rt_state \<Rightarrow> user_data multiset \<Rightarrow>
     ('r, any_object) rt_state \<Rightarrow> user_data multiset \<Rightarrow> bool" where
  "moved K issued U s pend s' pend' =
     (rt_reach K issued U s' pend' \<and> kinds_from s s' \<and>
      (\<exists>es. issued (io_ring (fst s')) = issued (io_ring (fst s)) @ es \<and> pend' = pend + posted es))"

lemma moved_refl: "rt_reach K issued U s pend \<Longrightarrow> moved K issued U s pend s pend"
  by (auto simp: moved_def kinds_from_refl intro: exI [of _ "[]"])

lemma moved_trans:
  assumes "moved K issued U s pend s1 pend1" and "moved K issued U s1 pend1 s2 pend2"
  shows "moved K issued U s pend s2 pend2"
proof -
  obtain es1 es2 where "issued (io_ring (fst s2)) = issued (io_ring (fst s)) @ (es1 @ es2)" "pend2 = pend + posted (es1 @ es2)"
    using assms unfolding moved_def by auto
  then show ?thesis using assms kinds_from_trans unfolding moved_def by blast
qed

text \<open>A permitted action of the runtime, by \<open>act_step\<close>.\<close>

lemma act_moves:
  assumes reach: "rt_reach (runtime_class E junk) issued U s pend" and laws: "uring_laws E issued n"
    and permitted: "act_ok (runtime_class E junk) a s" and "\<forall>p n. a \<noteq> Make p n"
  shows "\<exists>x s' pend'. rt_act (runtime_class E junk) a s = (x, s') \<and> documented x \<and>
     moved (runtime_class E junk) issued U s pend s' pend'"
proof -
  have inv: "rt_inv (runtime_class E junk) U s" using all_objs.reach_ok [OF reach laws] by simp
  obtain x s' where run: "rt_act (runtime_class E junk) a s = (x, s')" "act_result a x"
      "rt_step (runtime_class E junk) issued U s s' (act_target a) {#}"
    using all_objs.act_step [OF laws inv permitted] by blast
  obtain es where es: "issued (io_ring (fst s')) = issued (io_ring (fst s)) @ es" using run(3) by (auto simp: rt_step_def)
  have "documented x" using run(2) assms(4) by (cases a) (simp_all add: act_result_def)
  then show ?thesis
    using run(1) rt_reach.acted [OF reach permitted run(1) es] act_kinds [OF run(1) assms(4)] es by (auto simp: moved_def)
qed

lemma do_moves:
  assumes "rt_reach (runtime_class E junk) issued U s pend" and "uring_laws E issued n"
    and ok: "act_ok (runtime_class E junk) (Do p c) s"
  shows "\<exists>x s' pend'. rt_act (runtime_class E junk) (Do p c) s = (x, s') \<and> documented x \<and>
     moved (runtime_class E junk) issued U s pend s' pend' \<and> rt_ext (snd s') = rt_ext (snd s)"
proof -
  obtain x s' pend' where run: "rt_act (runtime_class E junk) (Do p c) s = (x, s')" "documented x"
      "moved (runtime_class E junk) issued U s pend s' pend'"
    using act_moves [OF assms] by auto
  moreover have "rt_ext (snd s') = rt_ext (snd s)"
    using rt_exec_ext [where k = 0, OF run(1) [unfolded rt_act_def action.case]] ok by (simp add: act_ok_def held_def)
  ultimately show ?thesis by blast
qed

lemma copy_moves:
  assumes "rt_reach (runtime_class E junk) issued U s pend" and "uring_laws E issued n" and "held p (snd s)"
  shows "\<exists>s' pend'. rt_act (runtime_class E junk) (Copy p) s = (Ret (), s') \<and>
     moved (runtime_class E junk) issued U s pend s' pend' \<and> rt_ext (snd s') = (rt_ext (snd s))(p := rt_ext (snd s) p + 1)"
proof -
  have ok: "act_ok (runtime_class E junk) (Copy p) s" using assms(3) by (simp add: act_ok_def)
  obtain x s' pend' where run: "rt_act (runtime_class E junk) (Copy p) s = (x, s')"
      "moved (runtime_class E junk) issued U s pend s' pend'"
    using act_moves [OF assms(1,2) ok] by auto
  obtain ob where ob: "rt_heap (snd s) p = Some ob" using assms(3) by (auto simp: held_def)
  have "oc_inv (runtime_class E junk) (fst s) ob"
    using all_objs.reach_ok [OF assms(1,2)] all_objs.slot_surplus(1) [where U = U and fr = "fst s" and w = "snd s" and p = p and ob = ob] ob by simp
  then have "fst (oc_copy (runtime_class E junk) (fst s, ob)) = Ret ()" using all_objs.copy [OF assms(2)] by blast
  then have "x = Ret ()" using run(1) ob by (auto simp: rt_act_def rt_exec_def split: prod.splits)
  moreover have "rt_ext (snd s') = (rt_ext (snd s))(p := rt_ext (snd s) p + 1)"
    using rt_exec_ext [where k = 1, OF run(1) [unfolded rt_act_def action.case]] ob by simp
  ultimately show ?thesis using run by blast
qed

lemma free_moves:
  assumes "rt_reach (runtime_class E junk) issued U s pend" and "uring_laws E issued n" and held: "held p (snd s)"
    and a: "a = Release p \<or> a = Drop p"
  shows "\<exists>s' pend'. rt_act (runtime_class E junk) a s = (Ret (), s') \<and>
     moved (runtime_class E junk) issued U s pend s' pend' \<and> rt_ext (snd s') = (rt_ext (snd s))(p := rt_ext (snd s) p - 1)"
proof -
  have ok: "act_ok (runtime_class E junk) a s" and new: "\<forall>p n. a \<noteq> Make p n" using held a by (auto simp: act_ok_def)
  obtain x s' pend' where run: "rt_act (runtime_class E junk) a s = (x, s')"
      "moved (runtime_class E junk) issued U s pend s' pend'"
    using act_moves [OF assms(1,2) ok new] by auto
  have inv: "rt_inv (runtime_class E junk) U s" using all_objs.reach_ok [OF assms(1,2)] by simp
  have "x = Ret ()" using all_objs.releases(1,2) [OF assms(2) inv held] a run(1) by auto
  moreover have ob: "rt_heap (snd s) p \<noteq> None" using held by (simp add: held_def)
  have "rt_ext (snd s') = (rt_ext (snd s))(p := rt_ext (snd s) p - 1)"
    using a
  proof
    assume "a = Release p"
    show ?thesis by (rule rt_free_ext [OF run(1) [unfolded rt_act_def \<open>a = Release p\<close> action.case] ob])
  next
    assume "a = Drop p"
    show ?thesis by (rule rt_free_ext [OF run(1) [unfolded rt_act_def \<open>a = Drop p\<close> action.case] ob])
  qed
  ultimately show ?thesis using run by blast
qed

text \<open>An object that the program has a pointer to is there.\<close>

lemma ext_held:
  assumes "rt_reach (runtime_class E junk) issued U s pend" and "uring_laws E issued n" and "0 < rt_ext (snd s) p"
  shows "held p (snd s)"
proof -
  have "slot_ok (runtime_class E junk) p (fst s) (rt_heap (snd s) p) (rt_ext (snd s) p)"
    using all_objs.reach_ok [OF assms(1,2)] by (simp add: rt_inv_def)
  then show ?thesis using assms(3) by (cases "rt_heap (snd s) p") (simp_all add: slot_ok_def held_def)
qed

subsection \<open>The invariant of the variables\<close>

definition refs :: "(var \<rightharpoonup> handle_class \<times> addr option) \<Rightarrow> addr \<Rightarrow> nat" where
  "refs vs p = card {v. ptr_of (vs v) = Some p}"

definition points_well :: "(addr \<rightharpoonup> any_object) \<Rightarrow> (handle_class \<times> addr option) option \<Rightarrow> bool" where
  "points_well heap x =
     (case x of
        None \<Rightarrow> True
      | Some (c, None) \<Rightarrow> (case cd_dtor (decl c) of Cancel_body f \<Rightarrow> False | _ \<Rightarrow> True)
      | Some (c, Some p) \<Rightarrow> (case heap p of None \<Rightarrow> False | Some ob \<Rightarrow> kind_of ob \<in> set (cd_kinds (decl c))))"

lemma finite_refs: "finite (dom vs) \<Longrightarrow> finite {v. ptr_of (vs v) = Some p}"
  by (rule finite_subset [of _ "dom vs"]) (auto simp: ptr_of_def split: option.splits)

lemma refs_upd:
  assumes "finite (dom vs)"
  shows "refs (vs(v := x)) p + (if ptr_of (vs v) = Some p then 1 else 0) = refs vs p + (if ptr_of x = Some p then 1 else 0)"
proof -
  define S where "S = {u. ptr_of (vs u) = Some p} - {v}"
  have fin: "finite S" "v \<notin> S" using finite_refs [OF assms, of p] by (simp_all add: S_def)
  have "{u. ptr_of ((vs(v := x)) u) = Some p} = (if ptr_of x = Some p then insert v S else S)" by (auto simp: S_def)
  moreover have "{u. ptr_of (vs u) = Some p} = (if ptr_of (vs v) = Some p then insert v S else S)" by (auto simp: S_def)
  ultimately show ?thesis unfolding refs_def by (simp only: split: if_split) (simp add: fin)
qed

lemma refs_pos: "finite (dom vs) \<Longrightarrow> ptr_of (vs v) = Some p \<Longrightarrow> 0 < refs vs p"
  unfolding refs_def using finite_refs [of vs p] by (subst card_gt_0_iff) auto

text \<open>The body of an awaitable's destructor returns, whatever the state of its object.\<close>

lemma cancel_in_flight_Ret: "uring_laws E issued n \<Longrightarrow> fst (cancel_in_flight E u (fr, ob)) = Ret ()"
  by (metis cancel_in_flight_ok fst_conv)

lemma timer_dtor_Ret:
  assumes laws: "uring_laws E issued n"
  shows "fst (timer_awaitable_dtor E (fr, t)) = Ret ()"
proof -
  obtain q where "on_ring (get_sqe E (cancel_sqe (UD (rc_this t) F_timer))) (fr, t) = (Ret (), (fr\<lparr>io_ring := q\<rparr>, t))"
    by (rule on_get_sqe [OF laws])
  moreover obtain r' where "on_ring (submit_ring E) (fr\<lparr>io_ring := q\<rparr>, t) = (Ret (), (fr\<lparr>io_ring := q, io_ring := r'\<rparr>, t))"
    using on_submit_ring [OF laws, of "fr\<lparr>io_ring := q\<rparr>" t] by auto
  ultimately show ?thesis by (auto simp: timer_awaitable_dtor_def op_simps)
qed

lemma dtor_body_Ret:
  assumes laws: "uring_laws E issued n" and inv: "oc_inv (runtime_class E junk) fr ob"
    and f: "cd_dtor (decl c) = Cancel_body f" and kind: "kind_of ob \<in> set (cd_kinds (decl c))"
  shows "\<exists>d. f (kind_of ob) = Some d \<and> oc_call_ok (runtime_class E junk) d (fr, ob) \<and>
     fst (oc_call (runtime_class E junk) d (fr, ob)) = Ret ()"
proof -
  have client: "client_inv fr cl" if "ob = A_client cl" for cl using inv that by (simp add: runtime_class_def)
  show ?thesis
    using f kind
    by (cases c; cases ob rule: kind_of.cases)
      (auto simp: decl_defs on_kind_defs runtime_class_def either_Inl either_Inr call_ok_def client_call_ok_def acceptor_call_ok_def
        file_call_ok_def exec_call_def client_call_run_def acceptor_call_run_def timer_call_run_def file_call_run_def
        send_awaitable_dtor_def accept_awaitable_dtor_def open_awaitable_dtor_def write_awaitable_dtor_def read_awaitable_dtor_def
        with_obj_apply retM_apply cancel_in_flight_Ret [OF laws] timer_dtor_Ret [OF laws] client_class_connect_dtor [OF laws client])
qed

subsection \<open>The special members\<close>

lemma acquire_moves:
  assumes "rt_reach (runtime_class E junk) issued U s pend" and "uring_laws E issued n"
    and "\<And>p. q = Some p \<Longrightarrow> 0 < rt_ext (snd s) p"
  shows "\<exists>s' pend'. acquire (runtime_class E junk) q (s, vs) = (Ret (), (s', vs)) \<and>
     moved (runtime_class E junk) issued U s pend s' pend' \<and>
     (\<forall>p. rt_ext (snd s') p = rt_ext (snd s) p + (if q = Some p then 1 else 0))"
proof (cases q)
  case None
  then show ?thesis using moved_refl [OF assms(1)] by (auto simp: acquire_def retM_apply)
next
  case (Some p)
  then have "held p (snd s)" using ext_held [OF assms(1,2)] assms(3) by simp
  from copy_moves [OF assms(1,2) this] show ?thesis using Some
    by (auto simp: acquire_def on_fst_apply)
qed

lemma discard_moves:
  assumes "rt_reach (runtime_class E junk) issued U s pend" and "uring_laws E issued n"
    and "\<And>p. q = Some p \<Longrightarrow> 0 < rt_ext (snd s) p"
  shows "\<exists>s' pend'. discard (runtime_class E junk) q (s, vs) = (Ret (), (s', vs)) \<and>
     moved (runtime_class E junk) issued U s pend s' pend' \<and>
     (\<forall>p. rt_ext (snd s') p + (if q = Some p then 1 else 0) = rt_ext (snd s) p)"
proof (cases q)
  case None
  then show ?thesis using moved_refl [OF assms(1)] by (auto simp: discard_def retM_apply)
next
  case (Some p)
  then have "held p (snd s)" "0 < rt_ext (snd s) p" using ext_held [OF assms(1,2)] assms(3) by simp_all
  then show ?thesis using Some free_moves [OF assms(1,2), of p "Release p"]
    by (auto simp: discard_def on_fst_apply)
qed

lemma run_dtor_moves:
  assumes reach: "rt_reach (runtime_class E junk) issued U s pend" and laws: "uring_laws E issued n"
    and pos: "\<And>p. q = Some p \<Longrightarrow> 0 < rt_ext (snd s) p" and well: "points_well (rt_heap (snd s)) (Some (c, q))"
  shows "\<exists>s' pend'. run_dtor (runtime_class E junk) (cd_dtor (decl c)) q (s, vs) = (Ret (), (s', vs)) \<and>
     moved (runtime_class E junk) issued U s pend s' pend' \<and>
     (\<forall>p. rt_ext (snd s') p + (if q = Some p then 1 else 0) = rt_ext (snd s) p)"
proof (cases "cd_dtor (decl c)")
  case Members_only
  then show ?thesis using discard_moves [OF reach laws pos] by (simp add: run_dtor_def)
next
  case Handle_body
  show ?thesis
  proof (cases q)
    case None
    then show ?thesis using Handle_body moved_refl [OF reach] by (auto simp: run_dtor_def retM_apply)
  next
    case (Some p)
    then have "held p (snd s)" "0 < rt_ext (snd s) p" using ext_held [OF reach laws] pos by simp_all
    then show ?thesis using Some Handle_body free_moves [OF reach laws, of p "Drop p"]
      by (auto simp: run_dtor_def on_fst_apply)
  qed
next
  case (Cancel_body f)
  obtain p ob where ob: "q = Some p" "rt_heap (snd s) p = Some ob" "kind_of ob \<in> set (cd_kinds (decl c))"
    using well Cancel_body by (auto simp: points_well_def split: option.splits)
  have ext: "0 < rt_ext (snd s) p" using pos ob(1) by simp
  have "oc_inv (runtime_class E junk) (fst s) ob"
    using all_objs.reach_ok [OF reach laws] all_objs.slot_surplus(1) [where U = U and fr = "fst s" and w = "snd s" and p = p and ob = ob] ob
    by simp
  from dtor_body_Ret [OF laws this Cancel_body ob(3)] obtain d where d: "f (kind_of ob) = Some d"
      "oc_call_ok (runtime_class E junk) d (fst s, ob)" "fst (oc_call (runtime_class E junk) d (fst s, ob)) = Ret ()" by blast
  have "act_ok (runtime_class E junk) (Do p d) s" using ob(2) d(2) ext by (simp add: act_ok_def held_def)
  from do_moves [OF reach laws this] obtain x s1 pend1 where s1: "rt_act (runtime_class E junk) (Do p d) s = (x, s1)"
      "moved (runtime_class E junk) issued U s pend s1 pend1" "rt_ext (snd s1) = rt_ext (snd s)" by blast
  have "x = Ret ()" using s1(1) d(3) ob(2) by (auto simp: rt_act_def rt_exec_def split: prod.splits)
  then have body: "cancel_body (runtime_class E junk) f p (s, vs) = (Ret (), (s1, vs))"
    using s1(1) ob(2) d(1) by (simp add: cancel_body_def on_fst_apply)
  have "rt_reach (runtime_class E junk) issued U s1 pend1" using s1(2) by (simp add: moved_def)
  from discard_moves [OF this laws, of "Some p" vs] ext s1(3) obtain s2 pend2 where s2:
      "discard (runtime_class E junk) (Some p) (s1, vs) = (Ret (), (s2, vs))"
      "moved (runtime_class E junk) issued U s1 pend1 s2 pend2"
      "\<forall>r. rt_ext (snd s2) r + (if Some p = Some r then 1 else 0) = rt_ext (snd s1) r" by auto
  then show ?thesis using ob(1) Cancel_body body moved_trans [OF s1(2) s2(2)] s1(3)
    by (auto simp: run_dtor_def thenM_Ret [where m = "cancel_body _ f p", OF body] simp del: thenM_apply)
qed

text \<open>After a statement: the pointers add up, and every variable points to what a variable of the same kind pointed to before.\<close>

definition vars_inv :: "'r program \<Rightarrow> bool" where
  "vars_inv s =
     (finite (dom (snd s)) \<and> (\<forall>p. rt_ext (snd (fst s)) p = refs (snd s) p) \<and>
      (\<forall>v. points_well (rt_heap (snd (fst s))) (snd s v)))"

lemma vars_inv_after:
  assumes reach: "rt_reach (runtime_class E junk) issued U s' pend'" and kinds: "kinds_from s s'" and laws: "uring_laws E issued n"
    and fin: "finite (dom vs')" and ext: "\<And>p. rt_ext (snd s') p = refs vs' p"
    and well: "\<And>v. points_well (rt_heap (snd s)) (vs' v)"
  shows "vars_inv (s', vs')"
proof -
  have "points_well (rt_heap (snd s')) (vs' v)" for v
  proof (cases "ptr_of (vs' v)")
    case None
    then show ?thesis using well [of v] by (auto simp: points_well_def ptr_of_def split: option.splits)
  next
    case (Some p)
    then obtain c where c: "vs' v = Some (c, Some p)" by (auto simp: ptr_of_def split: option.splits)
    have "0 < rt_ext (snd s') p" using refs_pos [OF fin Some] ext by simp
    then obtain ob' where ob': "rt_heap (snd s') p = Some ob'" using ext_held [OF reach laws] by (auto simp: held_def)
    then obtain ob where "rt_heap (snd s) p = Some ob" "kind_of ob' = kind_of ob" using kinds unfolding kinds_from_def by blast
    then show ?thesis using well [of v] c ob' by (simp add: points_well_def)
  qed
  then show ?thesis using fin ext by (simp add: vars_inv_def)
qed

subsection \<open>The statements\<close>

text \<open>A statement that ran: how it ended, and that the runtime only took its steps and the variables are in order again.\<close>

definition ran ::
  "'r any_class \<Rightarrow> ('r \<Rightarrow> sqe list) \<Rightarrow> int set \<Rightarrow> ('r, any_object) rt_state \<Rightarrow> user_data multiset \<Rightarrow> (unit outcome \<Rightarrow> bool) \<Rightarrow>
     unit outcome \<times> 'r program \<Rightarrow> bool" where
  "ran K issued U s pend ok res =
     (ok (fst res) \<and> vars_inv (snd res) \<and>
      (\<exists>es. issued (io_ring (fst (fst (snd res)))) = issued (io_ring (fst s)) @ es \<and>
         rt_reach K issued U (fst (snd res)) (pend + posted es)))"

lemma ranI:
  assumes "res = (x, (s', vs'))" and "ok x" and "moved (runtime_class E junk) issued U s pend s' pend'" and "uring_laws E issued n"
    and "finite (dom vs')" and "\<And>p. rt_ext (snd s') p = refs vs' p" and "\<And>v. points_well (rt_heap (snd s)) (vs' v)"
  shows "ran (runtime_class E junk) issued U s pend ok res"
  using vars_inv_after [OF _ _ assms(4-7)] assms(1-3) by (auto simp: ran_def moved_def)

lemma vars_invD:
  assumes "vars_inv (s, vs)"
  shows "finite (dom vs)" and "\<And>p. rt_ext (snd s) p = refs vs p" and "\<And>v. points_well (rt_heap (snd s)) (vs v)"
    and "\<And>v p. ptr_of (vs v) = Some p \<Longrightarrow> 0 < rt_ext (snd s) p"
  using assms refs_pos [of vs] by (auto simp: vars_inv_def)

lemma ptr_of_simps [simp]: "ptr_of None = None" "ptr_of (Some (c, q)) = q"
  by (simp_all add: ptr_of_def)

lemma copy_init_ran:
  assumes reach: "rt_reach (runtime_class E junk) issued U s pend" and laws: "uring_laws E issued n"
    and inv: "vars_inv (s, vs)" and q: "\<And>p. q = Some p \<Longrightarrow> 0 < rt_ext (snd s) p"
    and new: "vs v = None" and well: "points_well (rt_heap (snd s)) (Some (c, q))" and "ok (Ret ())"
  shows "ran (runtime_class E junk) issued U s pend ok (copy_init (runtime_class E junk) v c q (s, vs))"
proof -
  note I = vars_invD [OF inv]
  obtain s' pend' where s': "acquire (runtime_class E junk) q (s, vs) = (Ret (), (s', vs))"
      "moved (runtime_class E junk) issued U s pend s' pend'"
      "\<And>p. rt_ext (snd s') p = rt_ext (snd s) p + (if q = Some p then 1 else 0)"
    using acquire_moves [OF reach laws q] by blast
  have run: "copy_init (runtime_class E junk) v c q (s, vs) = (Ret (), (s', vs(v \<mapsto> (c, q))))"
    by (simp add: copy_init_def thenM_Ret [where m = "acquire _ q", OF s'(1)] set_var_def del: thenM_apply)
  show ?thesis
  proof (rule ranI [where ok = ok, OF run assms(7) s'(2) laws])
    show "rt_ext (snd s') p = refs (vs(v \<mapsto> (c, q))) p" for p
      using refs_upd [OF I(1), of v "Some (c, q)" p] s'(3) I(2) new by simp
  qed (use I well in auto)
qed

lemma copy_assign_ran:
  assumes reach: "rt_reach (runtime_class E junk) issued U s pend" and laws: "uring_laws E issued n"
    and inv: "vars_inv (s, vs)" and u: "vs u = Some (c, q)" and "ok (Ret ())"
  shows "ran (runtime_class E junk) issued U s pend ok (copy_assign (runtime_class E junk) v c q (s, vs))"
proof -
  note I = vars_invD [OF inv]
  have q: "0 < rt_ext (snd s) p" if "q = Some p" for p using I(4) [of u p] u that by simp
  obtain s1 pend1 where s1: "acquire (runtime_class E junk) q (s, vs) = (Ret (), (s1, vs))"
      "moved (runtime_class E junk) issued U s pend s1 pend1"
      "\<And>p. rt_ext (snd s1) p = rt_ext (snd s) p + (if q = Some p then 1 else 0)"
    using acquire_moves [OF reach laws q] by blast
  have old: "0 < rt_ext (snd s1) p" if "ptr_of (vs v) = Some p" for p using I(4) [OF that] s1(3) by simp
  have "rt_reach (runtime_class E junk) issued U s1 pend1" using s1(2) by (simp add: moved_def)
  from discard_moves [where vs = "vs(v \<mapsto> (c, q))", OF this laws old] obtain s' pend' where s':
      "discard (runtime_class E junk) (ptr_of (vs v)) (s1, vs(v \<mapsto> (c, q))) = (Ret (), (s', vs(v \<mapsto> (c, q))))"
      "moved (runtime_class E junk) issued U s1 pend1 s' pend'"
      "\<And>p. rt_ext (snd s') p + (if ptr_of (vs v) = Some p then 1 else 0) = rt_ext (snd s1) p"
    by blast
  have run: "copy_assign (runtime_class E junk) v c q (s, vs) = (Ret (), (s', vs(v \<mapsto> (c, q))))"
    unfolding copy_assign_def thenM_Ret [where m = "acquire _ q", OF s1(1)] using s'(1) by (simp add: set_var_def op_simps)
  show ?thesis
  proof (rule ranI [where ok = ok, OF run assms(5) moved_trans [OF s1(2) s'(2)] laws])
    show "rt_ext (snd s') p = refs (vs(v \<mapsto> (c, q))) p" for p
      using refs_upd [OF I(1), of v "Some (c, q)" p] s'(3) [of p] s1(3) [of p] I(2) [of p] by simp
  next
    show "points_well (rt_heap (snd s)) ((vs(v \<mapsto> (c, q))) w)" for w
      using I(3) [of w] I(3) [of u] u by simp
  qed (use I in simp)
qed

text \<open>Only a class without such a destructor can be moved from or made without an object.\<close>

lemma null_allowed:
  assumes "cd_move (decl c) \<or> cd_default (decl c)"
  shows "points_well heap (Some (c, None))"
  using assms by (cases c) (simp_all add: points_well_def decl_defs)

lemma move_init_ran:
  assumes reach: "rt_reach (runtime_class E junk) issued U s pend" and laws: "uring_laws E issued n"
    and inv: "vars_inv (s, vs)" and u: "vs u = Some (c, q)" and new: "vs v = None" and move: "cd_move (decl c)" and "ok (Ret ())"
  shows "ran (runtime_class E junk) issued U s pend ok (move_init v u c q (s, vs))"
proof -
  note I = vars_invD [OF inv]
  let ?vs = "vs(u \<mapsto> (c, None), v \<mapsto> (c, q))"
  have run: "move_init v u c q (s, vs) = (Ret (), (s, ?vs))" by (simp add: move_init_def set_var_def op_simps)
  have "u \<noteq> v" using u new by auto
  show ?thesis
  proof (rule ranI [where ok = ok, OF run assms(7) moved_refl [OF reach] laws])
    show "rt_ext (snd s) p = refs ?vs p" for p
      using refs_upd [OF I(1), of u "Some (c, None)" p] refs_upd [of "vs(u \<mapsto> (c, None))" v "Some (c, q)" p] I(1) I(2) [of p] u new \<open>u \<noteq> v\<close>
      by simp
  next
    show "points_well (rt_heap (snd s)) (?vs w)" for w
      using I(3) [of w] I(3) [of u] u null_allowed move by simp
  qed (use I in simp)
qed

lemma move_assign_ran:
  assumes reach: "rt_reach (runtime_class E junk) issued U s pend" and laws: "uring_laws E issued n"
    and inv: "vars_inv (s, vs)" and u: "vs u = Some (c, q)" and move: "cd_move (decl c)" and "ok (Ret ())"
  shows "ran (runtime_class E junk) issued U s pend ok (move_assign (runtime_class E junk) v u c q (s, vs))"
proof -
  note I = vars_invD [OF inv]
  let ?vs1 = "vs(u \<mapsto> (c, None))" and ?vs2 = "vs(u \<mapsto> (c, None), v \<mapsto> (c, q))"
  have old: "0 < rt_ext (snd s) p" if "ptr_of (?vs1 v) = Some p" for p
    using I(4) [of v p] that by (simp split: if_splits)
  obtain s' pend' where s':
      "discard (runtime_class E junk) (ptr_of (?vs1 v)) (s, ?vs2) = (Ret (), (s', ?vs2))"
      "moved (runtime_class E junk) issued U s pend s' pend'"
      "\<And>p. rt_ext (snd s') p + (if ptr_of (?vs1 v) = Some p then 1 else 0) = rt_ext (snd s) p"
    using discard_moves [where vs = ?vs2, OF reach laws old] by blast
  have run: "move_assign (runtime_class E junk) v u c q (s, vs) = (Ret (), (s', ?vs2))"
    using s'(1) by (simp add: move_assign_def set_var_def op_simps split: if_splits)
  show ?thesis
  proof (rule ranI [where ok = ok, OF run assms(6) s'(2) laws])
    show "rt_ext (snd s') p = refs ?vs2 p" for p
      using refs_upd [OF I(1), of u "Some (c, None)" p] refs_upd [of ?vs1 v "Some (c, q)" p] s'(3) [of p] I(1) I(2) [of p] u by simp
  next
    show "points_well (rt_heap (snd s)) (?vs2 w)" for w
      using I(3) [of w] I(3) [of u] u null_allowed move by simp
  qed (use I in simp)
qed

lemma destroy_ran:
  assumes reach: "rt_reach (runtime_class E junk) issued U s pend" and laws: "uring_laws E issued n"
    and inv: "vars_inv (s, vs)" and v: "vs v = Some (c, q)" and "ok (Ret ())"
  shows "ran (runtime_class E junk) issued U s pend ok
     (thenM (run_dtor (runtime_class E junk) (cd_dtor (decl c)) q) (set_var v None) (s, vs))"
proof -
  note I = vars_invD [OF inv]
  have q: "0 < rt_ext (snd s) p" if "q = Some p" for p using I(4) [of v p] v that by simp
  have well: "points_well (rt_heap (snd s)) (Some (c, q))" using I(3) [of v] v by simp
  obtain s' pend' where s':
      "run_dtor (runtime_class E junk) (cd_dtor (decl c)) q (s, vs) = (Ret (), (s', vs))"
      "moved (runtime_class E junk) issued U s pend s' pend'"
      "\<And>p. rt_ext (snd s') p + (if q = Some p then 1 else 0) = rt_ext (snd s) p"
    using run_dtor_moves [OF reach laws q well] by blast
  have run: "thenM (run_dtor (runtime_class E junk) (cd_dtor (decl c)) q) (set_var v None) (s, vs) = (Ret (), (s', vs(v := None)))"
    by (simp add: thenM_Ret [where m = "run_dtor _ _ q", OF s'(1)] set_var_def del: thenM_apply)
  show ?thesis
  proof (rule ranI [where ok = ok, OF run assms(5) s'(2) laws])
    show "rt_ext (snd s') p = refs (vs(v := None)) p" for p
      using refs_upd [OF I(1), of v None p] s'(3) [of p] I(2) [of p] v by simp
  next
    show "points_well (rt_heap (snd s)) ((vs(v := None)) w)" for w using I(3) [of w] by (simp add: points_well_def)
  qed (use I in simp)
qed

text \<open>A call on the object, alone or before an awaitable is made.\<close>

lemma member_ran:
  assumes reach: "rt_reach (runtime_class E junk) issued U s pend" and laws: "uring_laws E issued n"
    and inv: "vars_inv (s, vs)" and "do_ok (runtime_class E junk) q d (s, vs)"
  obtains x s' pend' where "member (runtime_class E junk) q d (s, vs) = (x, (s', vs))" and "documented x"
    and "moved (runtime_class E junk) issued U s pend s' pend'" and "vars_inv (s', vs)" and "rt_ext (snd s') = rt_ext (snd s)"
proof -
  note I = vars_invD [OF inv]
  obtain p where p: "q = Some p" "act_ok (runtime_class E junk) (Do p d) s"
    using assms(4) by (auto simp: do_ok_def split: option.splits)
  obtain x s' pend' where s': "rt_act (runtime_class E junk) (Do p d) s = (x, s')" "documented x"
      "moved (runtime_class E junk) issued U s pend s' pend'" "rt_ext (snd s') = rt_ext (snd s)"
    using do_moves [OF reach laws p(2)] by blast
  have "rt_reach (runtime_class E junk) issued U s' pend'" "kinds_from s s'" using s'(3) by (simp_all add: moved_def)
  from vars_inv_after [OF this laws I(1)] have "vars_inv (s', vs)" using I(2,3) s'(4) by simp
  then show ?thesis using that s' p(1) by (simp add: member_def on_fst_apply)
qed

lemma async_kinds:
  assumes "has_async c a d"
  shows "set (cd_kinds (decl c)) \<subseteq> set (cd_kinds (decl a))"
  using assms
  by (cases c) (auto simp: has_async_def acceptor_async_def stream_async_def client_async_def timer_async_def file_async_def decl_defs
      split: option.splits sum.splits client_call.splits timer_call.splits file_call.splits)

lemma async_well:
  assumes "has_async c a d" and "points_well heap (Some (c, Some p))"
  shows "points_well heap (Some (a, Some p))"
  using assms(2) async_kinds [OF assms(1)] by (auto simp: points_well_def split: option.splits)

lemma async_ran:
  assumes reach: "rt_reach (runtime_class E junk) issued U s pend" and laws: "uring_laws E issued n"
    and inv: "vars_inv (s, vs)" and u: "vs u = Some (c, Some p)" and new: "vs v = None" and kind: "has_async c a d"
    and d: "\<And>e. d = Some e \<Longrightarrow> do_ok (runtime_class E junk) (Some p) e (s, vs)"
  shows "ran (runtime_class E junk) issued U s pend (stmt_result (Async v u a d))
     (make_awaitable (runtime_class E junk) v a (Some p) d (s, vs))"
proof (cases d)
  case None
  have "ran (runtime_class E junk) issued U s pend (stmt_result (Async v u a d)) (copy_init (runtime_class E junk) v a (Some p) (s, vs))"
  proof (rule copy_init_ran [OF reach laws inv _ new])
    show "points_well (rt_heap (snd s)) (Some (a, Some p))"
      using vars_invD(3) [OF inv, of u] u async_well [OF kind] by simp
  qed (use vars_invD(4) [OF inv, of u] u None in \<open>simp_all add: stmt_result_def\<close>)
  then show ?thesis using None by (simp add: make_awaitable_def op_simps)
next
  case (Some e)
  obtain x s1 pend1 where s1: "member (runtime_class E junk) (Some p) e (s, vs) = (x, (s1, vs))" "documented x"
      "moved (runtime_class E junk) issued U s pend s1 pend1" "vars_inv (s1, vs)" "rt_ext (snd s1) = rt_ext (snd s)"
    by (rule member_ran [OF reach laws inv d [OF Some]])
  obtain es where es: "issued (io_ring (fst s1)) = issued (io_ring (fst s)) @ es" "pend1 = pend + posted es"
    using s1(3) by (auto simp: moved_def)
  have reach1: "rt_reach (runtime_class E junk) issued U s1 (pend + posted es)" using s1(3) es(2) by (simp add: moved_def)
  show ?thesis
  proof (cases "x = Ret ()")
    case True
    have "ran (runtime_class E junk) issued U s1 (pend + posted es) (stmt_result (Async v u a d))
        (copy_init (runtime_class E junk) v a (Some p) (s1, vs))"
    proof (rule copy_init_ran [OF reach1 laws s1(4) _ new])
      show "points_well (rt_heap (snd s1)) (Some (a, Some p))"
        using vars_invD(3) [OF s1(4), of u] u async_well [OF kind] by simp
    qed (use vars_invD(4) [OF s1(4), of u] u Some in \<open>simp_all add: stmt_result_def\<close>)
    moreover have "make_awaitable (runtime_class E junk) v a (Some p) d (s, vs) =
        copy_init (runtime_class E junk) v a (Some p) (s1, vs)"
      using Some True s1(1) by (simp add: make_awaitable_def op_simps)
    ultimately show ?thesis unfolding ran_def es(1) by (auto simp: ac_simps)
  next
    case False
    then obtain e' where "x = Throw e'" using s1(2) by (auto simp: documented_def)
    then have "make_awaitable (runtime_class E junk) v a (Some p) d (s, vs) = (x, (s1, vs))"
      using Some s1(1) by (simp add: make_awaitable_def op_simps)
    then show ?thesis using Some s1(2,4) es(1) reach1 by (simp add: ran_def stmt_result_def)
  qed
qed

text \<open>A constructor makes the object at its address, with one pointer, or throws.\<close>

lemma new_kind:
  assumes "oc_new (runtime_class E junk) m p fr = (Ret ob, fr')" and "makes_object c m"
  shows "kind_of ob \<in> set (cd_kinds (decl c))"
  using assms
  by (auto simp: runtime_class_def makes_object_def decl_defs bindM_def retM_def split: sum.splits prod.splits outcome.splits)

lemma rt_new_cases:
  assumes "rt_act K (Make p m) s = (x, s')" and "x = Ret () \<or> (\<exists>e. x = Throw e)"
  obtains (made) ob where "x = Ret ()" and "fst (oc_new K m p (fst s)) = Ret ob" and "rt_heap (snd s') = (rt_heap (snd s))(p \<mapsto> ob)"
    and "rt_ext (snd s') = (rt_ext (snd s))(p := 1)"
  | (thrown) e where "x = Throw e" and "rt_heap (snd s') = rt_heap (snd s)" and "rt_ext (snd s') = rt_ext (snd s)"
  using assms by (auto simp: rt_act_def rt_new_def split: prod.splits outcome.splits)

lemma construct_ran:
  assumes reach: "rt_reach (runtime_class E junk) issued U s pend" and laws: "uring_laws E issued n"
    and inv: "vars_inv (s, vs)" and new: "vs v = None" and kind: "makes_object c m"
    and ok: "act_ok (runtime_class E junk) (Make p m) s"
  shows "ran (runtime_class E junk) issued U s pend (stmt_result (Construct v c p m))
     (thenM (on_fst (rt_act (runtime_class E junk) (Make p m))) (set_var v (Some (c, Some p))) (s, vs))"
proof -
  note I = vars_invD [OF inv]
  have rt: "rt_inv (runtime_class E junk) U s" using all_objs.reach_ok [OF reach laws] by simp
  obtain x s' where run: "rt_act (runtime_class E junk) (Make p m) s = (x, s')" "x = Ret () \<or> (\<exists>e. x = Throw e)"
      "rt_step (runtime_class E junk) issued U s s' p {#}"
    using all_objs.act_step [OF laws rt ok] by (auto simp: act_result_def act_target_def)
  obtain es where es: "issued (io_ring (fst s')) = issued (io_ring (fst s)) @ es" using run(3) by (auto simp: rt_step_def)
  note reach' = rt_reach.acted [OF reach ok run(1) es]
  from run(1,2) show ?thesis
  proof (cases rule: rt_new_cases)
    case (made ob)
    have free: "rt_heap (snd s) p = None" using ok by (simp add: act_ok_def)
    have ext: "rt_ext (snd s) p = 0" using ext_held [OF reach laws, of p] free by (cases "rt_ext (snd s) p") (auto simp: held_def)
    have "rt_ext (snd s') q = refs (vs(v \<mapsto> (c, Some p))) q" for q
      using refs_upd [OF I(1), of v "Some (c, Some p)" q] new made(4) I(2) [of q] ext by (cases "q = p") simp_all
    moreover have "points_well (rt_heap (snd s')) ((vs(v \<mapsto> (c, Some p))) w)" for w
    proof (cases "w = v")
      case True
      have "kind_of ob \<in> set (cd_kinds (decl c))"
        using new_kind [OF _ kind, of E junk p "fst s" ob] made(2) by (metis prod.collapse)
      then show ?thesis using True made(3) by (simp add: points_well_def)
    next
      case False
      then show ?thesis using I(3) [of w] made(3) free by (auto simp: points_well_def split: option.splits)
    qed
    ultimately have "vars_inv (s', vs(v \<mapsto> (c, Some p)))" using I(1) by (simp add: vars_inv_def)
    moreover have "thenM (on_fst (rt_act (runtime_class E junk) (Make p m))) (set_var v (Some (c, Some p))) (s, vs) =
        (Ret (), (s', vs(v \<mapsto> (c, Some p))))"
      using run(1) made(1) by (simp add: set_var_def op_simps)
    ultimately show ?thesis using es reach' by (simp add: ran_def stmt_result_def)
  next
    case (thrown e)
    then have "vars_inv (s', vs)" using I by (simp add: vars_inv_def)
    moreover have "thenM (on_fst (rt_act (runtime_class E junk) (Make p m))) (set_var v (Some (c, Some p))) (s, vs) = (Throw e, (s', vs))"
      using run(1) thrown(1) by (simp add: op_simps)
    ultimately show ?thesis using es reach' by (simp add: ran_def stmt_result_def)
  qed
qed

lemma stmt_ran:
  assumes reach: "rt_reach (runtime_class E junk) issued U s pend" and laws: "uring_laws E issued n"
    and inv: "vars_inv (s, vs)" and ok: "stmt_ok (runtime_class E junk) st (s, vs)"
  shows "ran (runtime_class E junk) issued U s pend (stmt_result st) (exec (runtime_class E junk) st (s, vs))"
proof (cases st)
  case (Construct v c p m)
  then show ?thesis using construct_ran [OF reach laws inv] ok by (simp add: exec_def stmt_ok_def)
next
  case (Default_init v c)
  note I = vars_invD [OF inv]
  have "exec (runtime_class E junk) st (s, vs) = (Ret (), (s, vs(v \<mapsto> (c, None))))" using Default_init by (simp add: exec_def set_var_def)
  moreover have "rt_ext (snd s) p = refs (vs(v \<mapsto> (c, None))) p" for p
    using refs_upd [OF I(1), of v "Some (c, None)" p] I(2) [of p] ok Default_init by (simp add: stmt_ok_def)
  moreover have "points_well (rt_heap (snd s)) ((vs(v \<mapsto> (c, None))) w)" for w
    using I(3) [of w] null_allowed ok Default_init by (simp add: stmt_ok_def)
  ultimately show ?thesis
    using ranI [OF _ _ moved_refl [OF reach] laws, of _ "Ret ()" "vs(v \<mapsto> (c, None))" "stmt_result st"] I(1) Default_init
    by (simp add: stmt_result_def)
next
  case (Copy_init v u)
  obtain c q where u: "vs u = Some (c, q)" "vs v = None" using ok Copy_init by (auto simp: stmt_ok_def split: option.splits)
  have "ran (runtime_class E junk) issued U s pend (stmt_result st) (copy_init (runtime_class E junk) v c q (s, vs))"
    by (rule copy_init_ran [OF reach laws inv]) (use vars_invD(3,4) [OF inv, of u] u Copy_init in \<open>simp_all add: stmt_result_def\<close>)
  then show ?thesis using u Copy_init by (simp add: exec_def)
next
  case (Move_init v u)
  then show ?thesis using move_init_ran [OF reach laws inv, where u = u and v = v and ok = "stmt_result st"] ok
    by (auto simp: exec_def stmt_ok_def stmt_result_def split: option.splits)
next
  case (Copy_assign v u)
  then show ?thesis using copy_assign_ran [OF reach laws inv, where u = u and v = v and ok = "stmt_result st"] ok
    by (auto simp: exec_def stmt_ok_def stmt_result_def split: option.splits)
next
  case (Move_assign v u)
  then show ?thesis using move_assign_ran [OF reach laws inv, where u = u and v = v and ok = "stmt_result st"] ok
    by (auto simp: exec_def stmt_ok_def stmt_result_def split: option.splits)
next
  case (Member v d)
  obtain c q where v: "vs v = Some (c, q)" "do_ok (runtime_class E junk) q d (s, vs)"
    using ok Member by (auto simp: stmt_ok_def split: option.splits)
  obtain x s' pend' where s': "member (runtime_class E junk) q d (s, vs) = (x, (s', vs))" "documented x"
      "moved (runtime_class E junk) issued U s pend s' pend'" "vars_inv (s', vs)"
    by (rule member_ran [OF reach laws inv v(2)])
  then show ?thesis using v(1) Member by (auto simp: exec_def ran_def moved_def stmt_result_def)
next
  case (Async v u a d)
  then obtain c p where u: "vs u = Some (c, Some p)" "has_async c a d" "vs v = None"
      "\<And>e. d = Some e \<Longrightarrow> do_ok (runtime_class E junk) (Some p) e (s, vs)"
    using ok by (auto simp: stmt_ok_def split: option.splits)
  have "ran (runtime_class E junk) issued U s pend (stmt_result (Async v u a d))
      (make_awaitable (runtime_class E junk) v a (Some p) d (s, vs))"
    using async_ran [OF reach laws inv u(1,3,2)] u(4) by blast
  then show ?thesis using u(1) Async by (simp add: exec_def)
next
  case (Destroy v)
  obtain c q where v: "vs v = Some (c, q)" using ok Destroy by (auto simp: stmt_ok_def)
  have "ran (runtime_class E junk) issued U s pend (stmt_result st)
      (thenM (run_dtor (runtime_class E junk) (cd_dtor (decl c)) q) (set_var v None) (s, vs))"
    by (rule destroy_ran [OF reach laws inv v]) (simp add: Destroy stmt_result_def)
  then show ?thesis using v Destroy by (simp add: exec_def del: thenM_apply)
qed

subsection \<open>Completions\<close>

text \<open>A completion leaves the program's pointers as they were.\<close>

lemma complete_one_ran:
  assumes reach: "rt_reach (runtime_class E junk) issued U s pend" and laws: "uring_laws E issued n"
    and inv: "vars_inv (s, vs)" and pend: "UD p t \<in># pend" and adm: "rt_cqe_ok (runtime_class E junk) now p t c s"
  shows "\<exists>s' es. complete_one (runtime_class E junk) now p t c s = (Ret (), s') \<and>
     issued (io_ring (fst s')) = issued (io_ring (fst s)) @ es \<and> vars_inv (s', vs) \<and>
     rt_reach (runtime_class E junk) issued U s' (pend - image_mset (UD p) (completion_tags t c) + posted es)"
proof -
  let ?K = "runtime_class E junk"
  note I = vars_invD [OF inv]
  have rt: "rt_inv ?K U s" and t: "t \<in># active_at ?K s p"
    using all_objs.reach_ok [OF reach laws] pend by (simp_all add: tags_of_mem)
  obtain h s1 where s1: "rt_deliver ?K now p t c s = (Ret h, s1)" "rt_step ?K issued U s s1 p (completion_tags t c)"
      "rt_ext (snd s1) p = rt_ext (snd s) p + 1"
    using all_objs.deliver_step [OF laws rt t adm] by blast
  obtain es1 where es1: "issued (io_ring (fst s1)) = issued (io_ring (fst s)) @ es1" using s1(2) by (auto simp: rt_step_def)
  note reach1 = rt_reach.completed [OF reach pend adm s1(1) es1]
  have there: "rt_heap (snd s) p \<noteq> None" using t by (cases "rt_heap (snd s) p") (simp_all add: active_at_def)
  have deliver: "rt_exec p 1 (oc_cqe_out ?K t c) (thenM (oc_process ?K now t c) (oc_handle ?K t)) s = (Ret h, s1)"
    using s1(1) by (simp add: rt_deliver_def)
  have ext1: "rt_ext (snd s1) = (rt_ext (snd s))(p := rt_ext (snd s) p + 1)" using rt_exec_ext [OF deliver there] .
  have kinds1: "kinds_from s s1" using rt_exec_kinds [OF runtime_keeps_kind(5) deliver] .
  have "held p (snd s1)" using ext_held [OF reach1 laws] s1(3) by simp
  from free_moves [OF reach1 laws this, of "Release p"] obtain s2 pend2 where s2: "rt_act ?K (Release p) s1 = (Ret (), s2)"
      "moved ?K issued U s1 (pend - image_mset (UD p) (completion_tags t c) + posted es1) s2 pend2"
      "rt_ext (snd s2) = (rt_ext (snd s1))(p := rt_ext (snd s1) p - 1)" by auto
  obtain es2 where es2: "issued (io_ring (fst s2)) = issued (io_ring (fst s1)) @ es2"
      "pend2 = pend - image_mset (UD p) (completion_tags t c) + posted es1 + posted es2" and reach2: "rt_reach ?K issued U s2 pend2"
      and kinds2: "kinds_from s1 s2"
    using s2(2) by (auto simp: moved_def)
  have "complete_one ?K now p t c s = (Ret (), s2)" using s1(1) s2(1) by (simp add: complete_one_def op_simps)
  moreover have "rt_ext (snd s2) = rt_ext (snd s)" using s2(3) ext1 by simp
  then have "vars_inv (s2, vs)"
    using vars_inv_after [OF reach2 kinds_from_trans [OF kinds1 kinds2] laws, of vs] I by simp
  moreover have "rt_reach ?K issued U s2 (pend - image_mset (UD p) (completion_tags t c) + posted (es1 @ es2))"
    using reach2 es2(2) by (simp add: ac_simps)
  moreover have "issued (io_ring (fst s2)) = issued (io_ring (fst s)) @ (es1 @ es2)" using es1 es2(1) by simp
  ultimately show ?thesis by blast
qed

text \<open>What holds in every state that a program reaches.\<close>

lemma prog_reach_ok:
  assumes "prog_reach (runtime_class E junk) issued U s pend" and laws: "uring_laws E issued n"
  shows "rt_reach (runtime_class E junk) issued U (fst s) pend \<and> vars_inv s"
  using assms(1)
proof (induction rule: prog_reach.induct)
  case (start fr L)
  have "refs (\<lambda>_. None) p = 0" for p by (simp add: refs_def)
  then show ?case using rt_reach.start [OF start] by (simp add: vars_inv_def points_well_def)
next
  case (executed s pend st x s' es)
  have "ran (runtime_class E junk) issued U (fst s) pend (stmt_result st) (exec (runtime_class E junk) st s)"
    using stmt_ran [of E junk issued U "fst s" pend n "snd s" st] laws executed by simp
  then show ?case using executed(3,4) by (auto simp: ran_def)
next
  case (completed s vs pend p t now c x s' es)
  then show ?case using complete_one_ran [of E junk issued U s pend n vs p t now c] laws by auto
next
  case (interfered fr w vs pend fr')
  then have reach: "rt_reach (runtime_class E junk) issued U (fr', w) pend" by (auto intro: rt_reach.interfered)
  then show ?case using interfered by (simp add: vars_inv_def)
qed

subsection \<open>A stream without variables\<close>

lemma acquire_other:
  assumes "q \<noteq> Some p" and "\<And>r. q = Some r \<Longrightarrow> rt_heap (snd s) r \<noteq> None"
  shows "\<exists>s1. acquire (runtime_class E junk) q (s, vs) = (Ret (), (s1, vs)) \<and> fst s1 = fst s \<and>
     rt_heap (snd s1) p = rt_heap (snd s) p"
proof (cases q)
  case None
  then show ?thesis by (auto simp: acquire_def retM_apply)
next
  case (Some r)
  then obtain ob where ob: "rt_heap (snd s) r = Some ob" "r \<noteq> p" using assms by auto
  have "\<exists>ob'. oc_copy (runtime_class E junk) (fst s, ob) = (Ret (), (fst s, ob'))"
    by (cases ob rule: kind_of.cases) (simp_all add: runtime_class_def either_def add_ref_apply)
  then show ?thesis using Some ob by (auto simp: acquire_def on_fst_def rt_act_def rt_exec_def)
qed

lemma release_kept:
  assumes "rt_heap (snd s) p = Some (A_stream st)" and "1 < rc_count st"
  shows "\<exists>s'. discard (runtime_class E junk) (Some p) (s, vs) = (Ret (), (s', vs)) \<and> fst s' = fst s \<and>
     rt_heap (snd s') p = Some (A_stream (st\<lparr>rc_count := rc_count st - 1\<rparr>))"
  using assms by (auto simp: discard_def on_fst_def rt_act_def rt_free_def runtime_class_def either_def release_apply)

lemma drop_armed:
  assumes laws: "uring_laws E issued n" and inv: "stream_inv fr st" and armed: "tf_initiated (timeout_fr st)"
    and last: "rc_count st = 1 + int (size (active_tags st))"
  shows "\<exists>r' es. stream_dtor E (fr, st) = (Ret False, (fr\<lparr>io_ring := r'\<rparr>,
       st\<lparr>timeout_fr := (timeout_fr st)\<lparr>tf_cancelled := True\<rparr>, rc_count := rc_count st - 1\<rparr>)) \<and>
     issued r' = issued (io_ring fr) @ timeout_remove_sqe (rc_this st) # es"
proof -
  let ?st = "st\<lparr>timeout_fr := (timeout_fr st)\<lparr>tf_cancelled := True\<rparr>\<rparr>"
  obtain q where q: "cancel_timer E (fr, st) = (Ret (), (fr\<lparr>io_ring := q\<rparr>, ?st))"
      "issued q = issued (io_ring fr) @ [timeout_remove_sqe (rc_this st)]"
    by (rule cancel_timer_armed [OF laws armed])
  obtain r' es where r': "cancel_recv E (fr\<lparr>io_ring := q\<rparr>, ?st) = (Ret (), (fr\<lparr>io_ring := r'\<rparr>, ?st))" "issued r' = issued q @ es"
  proof (cases "rf_initiated (recv_fr st)")
    case True
    obtain r' where "cancel_in_flight E (UD (rc_this ?st) F_recv) (fr\<lparr>io_ring := q\<rparr>, ?st) = (Ret (), (fr\<lparr>io_ring := q, io_ring := r'\<rparr>, ?st))"
        "issued r' = issued q @ [cancel_sqe (UD (rc_this st) F_recv)]"
      using cancel_in_flight_ok [OF laws, of "UD (rc_this ?st) F_recv" "fr\<lparr>io_ring := q\<rparr>" ?st] by auto
    then show ?thesis using that [of r' "[cancel_sqe (UD (rc_this st) F_recv)]"] True by (simp add: cancel_recv_def op_simps)
  next
    case False
    then show ?thesis using that [of q "[]"] by (simp add: cancel_recv_def op_simps)
  qed
  have "active_tags st \<noteq> {#}" using armed by (simp add: active_tags_def)
  then have "stream_dtor E (fr, st) = (Ret False, (fr\<lparr>io_ring := r'\<rparr>, ?st\<lparr>rc_count := rc_count st - 1\<rparr>))"
    using stream_drop_ok [OF laws inv] last q(1) r'(1) by (simp add: release_apply op_simps)
  then show ?thesis using q(2) r'(2) by auto
qed

lemma copy_over:
  assumes "rt_heap (snd s) p = Some (A_stream st)" and "1 < rc_count st" and "ptr_of (vs v) = Some p" and "q \<noteq> Some p"
    and "\<And>r. q = Some r \<Longrightarrow> rt_heap (snd s) r \<noteq> None"
  shows "\<exists>s'. copy_assign (runtime_class E junk) v c q (s, vs) = (Ret (), (s', vs(v \<mapsto> (c, q)))) \<and> fst s' = fst s \<and>
     rt_heap (snd s') p = Some (A_stream (st\<lparr>rc_count := rc_count st - 1\<rparr>))"
proof -
  obtain s1 where s1: "acquire (runtime_class E junk) q (s, vs) = (Ret (), (s1, vs))" "fst s1 = fst s"
      "rt_heap (snd s1) p = Some (A_stream st)"
    using acquire_other [where E = E and junk = junk and vs = vs, OF assms(4,5)] assms(1) by auto
  obtain s' where s': "discard (runtime_class E junk) (Some p) (s1, vs(v \<mapsto> (c, q))) = (Ret (), (s', vs(v \<mapsto> (c, q))))" "fst s' = fst s1"
      "rt_heap (snd s') p = Some (A_stream (st\<lparr>rc_count := rc_count st - 1\<rparr>))"
    using release_kept [OF s1(3) assms(2)] by blast
  have "copy_assign (runtime_class E junk) v c q (s, vs) = (Ret (), (s', vs(v \<mapsto> (c, q))))"
    unfolding copy_assign_def thenM_Ret [where m = "acquire _ q", OF s1(1)]
    using s'(1) assms(3) by (simp add: set_var_def op_simps)
  then show ?thesis using s1(2) s'(2,3) by simp
qed

lemma move_over:
  assumes "rt_heap (snd s) p = Some (A_stream st)" and "1 < rc_count st" and "ptr_of (vs v) = Some p" and "v \<noteq> u"
  shows "\<exists>s'. move_assign (runtime_class E junk) v u c q (s, vs) = (Ret (), (s', vs(u \<mapsto> (c, None), v \<mapsto> (c, q)))) \<and> fst s' = fst s \<and>
     rt_heap (snd s') p = Some (A_stream (st\<lparr>rc_count := rc_count st - 1\<rparr>))"
proof -
  let ?vs = "vs(u \<mapsto> (c, None), v \<mapsto> (c, q))"
  obtain s' where s': "discard (runtime_class E junk) (Some p) (s, ?vs) = (Ret (), (s', ?vs))" "fst s' = fst s"
      "rt_heap (snd s') p = Some (A_stream (st\<lparr>rc_count := rc_count st - 1\<rparr>))"
    using release_kept [OF assms(1,2)] by blast
  then show ?thesis using assms(3,4) by (simp add: move_assign_def set_var_def op_simps)
qed

lemma destroy_over:
  assumes laws: "uring_laws E issued n" and st: "rt_heap (snd s) p = Some (A_stream st)" and inv: "stream_inv (fst s) st"
    and "rc_this st = p" and last: "rc_count st = 1 + int (size (active_tags st))" and armed: "tf_initiated (timeout_fr st)"
    and v: "vs v = Some (C_stream, Some p)"
  shows "\<exists>s' es. exec (runtime_class E junk) (Destroy v) (s, vs) = (Ret (), (s', vs(v := None))) \<and>
     issued (io_ring (fst s')) = issued (io_ring (fst s)) @ timeout_remove_sqe p # es"
proof -
  obtain r' es where d: "stream_dtor E (fst s, st) = (Ret False, ((fst s)\<lparr>io_ring := r'\<rparr>,
        st\<lparr>timeout_fr := (timeout_fr st)\<lparr>tf_cancelled := True\<rparr>, rc_count := rc_count st - 1\<rparr>))"
      "issued r' = issued (io_ring (fst s)) @ timeout_remove_sqe p # es"
    using drop_armed [OF laws inv armed last] assms(4) by blast
  obtain s' where s': "rt_act (runtime_class E junk) (Drop p) s = (Ret (), s')" "fst s' = (fst s)\<lparr>io_ring := r'\<rparr>"
    using st d(1) by (auto simp: rt_act_def rt_free_def runtime_class_def either_def)
  have "exec (runtime_class E junk) (Destroy v) (s, vs) = (Ret (), (s', vs(v := None)))"
    using s'(1) v by (simp add: exec_def run_dtor_def decl_defs set_var_def on_fst_apply op_simps)
  then show ?thesis using s'(2) d(2) by simp
qed

text \<open>A variable that is the only pointer to a stream whose timer is armed.\<close>

lemma last_handle:
  assumes reach: "prog_reach (runtime_class E junk) issued U (s, vs) pend" and laws: "uring_laws E issued n"
    and v: "vs v = Some (C_stream, Some p)" and one: "refs vs p = 1" and timer: "UD p F_timeout \<in># pend"
  obtains st where "rt_heap (snd s) p = Some (A_stream st)" and "stream_inv (fst s) st" and "rc_this st = p"
    and "rc_count st = 1 + int (size (active_tags st))" and "tf_initiated (timeout_fr st)" and "1 < rc_count st"
proof -
  have rt: "rt_reach (runtime_class E junk) issued U s pend" and inv: "vars_inv (s, vs)" using prog_reach_ok [OF reach laws] by simp_all
  note I = vars_invD [OF inv]
  have ok: "rt_inv (runtime_class E junk) U s" and tags: "tags_of p pend = active_at (runtime_class E junk) s p"
    using all_objs.reach_ok [OF rt laws] by simp_all
  obtain st where st: "rt_heap (snd s) p = Some (A_stream st)"
    using I(3) [of v] v by (auto simp: points_well_def decl_defs split: option.splits elim: kind_of.elims)
  have obj: "stream_inv (fst s) st" "rc_this st = p" "rc_count st = 1 + int (size (active_tags st))"
    using all_objs.slot_surplus(1-3) [where U = U and fr = "fst s" and w = "snd s" and p = p and ob = "A_stream st"] ok st I(2) [of p] one
    by (simp_all add: runtime_class_def)
  have "F_timeout \<in># active_tags st" using timer tags st by (simp add: tags_of_mem active_at_def runtime_class_def)
  then have "tf_initiated (timeout_fr st)" and "0 < size (active_tags st)" by (auto simp: active_tags_def split: if_splits)
  then show ?thesis using that st obj by simp
qed

lemma only_var:
  assumes "refs vs p = 1" and "ptr_of (vs v) = Some p" and "u \<noteq> v"
  shows "ptr_of (vs u) \<noteq> Some p"
proof -
  have "card {w. ptr_of (vs w) = Some p} = 1" using assms(1) by (simp only: refs_def)
  then obtain w where w: "{w. ptr_of (vs w) = Some p} = {w}" by (rule card_1_singletonE)
  have "v \<in> {w. ptr_of (vs w) = Some p}" using assms(2) by simp
  then show ?thesis using w assms(3) by auto
qed

subsection \<open>An example\<close>

text \<open>A program that has made a stream around descriptor 1 and a second handle without a stream.\<close>

definition ex_prog :: "list_ring program" where
  "ex_prog =
     ((ex_rt_frame\<lparr>io_ring := \<lparr>lr_free = 3, lr_issued = [timeout_sqe 640], lr_cq = []\<rparr>\<rparr>,
       \<lparr>rt_heap = [640 \<mapsto> A_stream (stream_made 640 5 1)], rt_ext = (\<lambda>_. 0)(640 := 1), rt_loose = {}\<rparr>),
      [0 \<mapsto> (C_stream, Some 640), 1 \<mapsto> (C_stream, None)])"

lemma ex_prog_reach: "prog_reach (runtime_class (list_platform 4) (\<lambda>_. 0)) lr_issued {0, 1} ex_prog {#UD 640 F_timeout#}"
proof -
  let ?K = "runtime_class (list_platform 4) (\<lambda>_. 0)"
  let ?s0 = "((ex_rt_frame, \<lparr>rt_heap = (\<lambda>_. None), rt_ext = (\<lambda>_. 0), rt_loose = {1}\<rparr>), (\<lambda>_. None)) :: list_ring program"
  let ?s1 = "(fst ex_prog, [0 \<mapsto> (C_stream, Some 640)])"
  let ?c = "Construct 0 C_stream 640 (A_stream (New_wrapped 5 1))"
  have "num_files (params ex_frame) = 2" by (simp add: ex_frame_def default_params_def)
  then have "frame_ok ex_rt_frame"
    using ex_frame_inv(1,3) by (simp add: frame_ok_def fd_inv_def groups_inv_def ex_rt_frame_def)
  then have r0: "prog_reach ?K lr_issued {0, 1} ?s0 {#}"
    by (intro prog_reach.start) (simp_all add: fd_range_def, simp_all add: ex_rt_frame_def ex_frame_def default_params_def insert_commute)
  have ok: "stmt_ok ?K ?c ?s0" by (simp add: stmt_ok_def makes_object_def act_ok_def runtime_class_def)
  have run: "exec ?K ?c ?s0 = (Ret (), ?s1)"
    by (simp add: exec_def on_fst_def set_var_def rt_act_def rt_new_def runtime_class_def stream_new_run_def stream_from_fd_def construct_def
        stream_impl_ctor_def stream_init_def issue_one_def reserve_sqes_def put_sqe_def stream_made_def stream_fields_def
        op_simps ex_rt_defs ex_prog_def)
  have r1: "prog_reach ?K lr_issued {0, 1} ?s1 ({#} + posted [timeout_sqe 640])"
    by (rule prog_reach.executed [OF r0 ok run]) (simp add: ex_prog_def ex_rt_defs)
  have "prog_reach ?K lr_issued {0, 1} ex_prog ({#} + posted [timeout_sqe 640] + posted [])"
    by (rule prog_reach.executed [OF r1, where st = "Default_init 1 C_stream" and x = "Ret ()"])
      (simp_all add: stmt_ok_def decl_defs exec_def set_var_def ex_prog_def)
  then show ?thesis by simp
qed

subsection \<open>Properties\<close>

text \<open>
  C7: handles are only pointers: a program over the classes of the library takes only the steps of the runtime
  (\<open>rt_reach\<close>), and what holds there holds of it. The pointers that the runtime counts are its variables: the
  count of an object is the number of the handles and awaitables that point to it and of its outstanding completions,
  no variable dangles, each points to an object of a kind that its class is for. Every statement that compiles and
  keeps to the preconditions ends as it should; copies, moves, assignments and destructors never throw.
\<close>

theorem handles_refine_pointers:
  assumes "prog_reach (runtime_class E junk) issued U (s, vs) pend" and "uring_laws E issued n"
  shows "rt_reach (runtime_class E junk) issued U s pend \<and>
     (\<forall>p ob. rt_heap (snd s) p = Some ob \<longrightarrow>
        oc_count (runtime_class E junk) ob = int (card {v. ptr_of (vs v) = Some p}) + int (size (tags_of p pend))) \<and>
     (\<forall>v c p. vs v = Some (c, Some p) \<longrightarrow> (\<exists>ob. rt_heap (snd s) p = Some ob \<and> kind_of ob \<in> set (cd_kinds (decl c)))) \<and>
     (\<forall>a. stmt_ok (runtime_class E junk) a (s, vs) \<longrightarrow> stmt_result a (fst (exec (runtime_class E junk) a (s, vs))))"
proof (intro conjI allI impI)
  have reach: "rt_reach (runtime_class E junk) issued U s pend" and inv: "vars_inv (s, vs)"
    using prog_reach_ok [OF assms] by simp_all
  then show "rt_reach (runtime_class E junk) issued U s pend" by simp
  note I = vars_invD [OF inv]
  have rt: "rt_inv (runtime_class E junk) U s" and tags: "\<And>p. tags_of p pend = active_at (runtime_class E junk) s p"
    using all_objs.reach_ok [OF reach assms(2)] by simp_all
  show "oc_count (runtime_class E junk) ob = int (card {v. ptr_of (vs v) = Some p}) + int (size (tags_of p pend))"
    if "rt_heap (snd s) p = Some ob" for p ob
    using all_objs.slot_surplus(2) [where U = U and fr = "fst s" and w = "snd s" and p = p and ob = ob] rt that tags I(2) [of p]
    by (simp add: active_at_def refs_def)
  show "\<exists>ob. rt_heap (snd s) p = Some ob \<and> kind_of ob \<in> set (cd_kinds (decl c))" if "vs v = Some (c, Some p)" for v c p
    using I(3) [of v] that by (auto simp: points_well_def split: option.splits)
  show "stmt_result a (fst (exec (runtime_class E junk) a (s, vs)))" if "stmt_ok (runtime_class E junk) a (s, vs)" for a
    using stmt_ran [OF reach assms(2) inv that] by (simp add: ran_def)
qed

theorem handles_refine_pointers_witness:
  "stmt_result (Async 2 0 C_recv None) (fst (exec (runtime_class (list_platform 4) (\<lambda>_. 0)) (Async 2 0 C_recv None) ex_prog)) \<and>
   stmt_result (Destroy 0) (fst (exec (runtime_class (list_platform 4) (\<lambda>_. 0)) (Destroy 0) ex_prog)) \<and>
   oc_count (runtime_class (list_platform 4) (\<lambda>_. 0)) (the (rt_heap (snd (fst ex_prog)) 640)) = 2"
proof -
  let ?K = "runtime_class (list_platform 4) (\<lambda>_. 0)"
  note facts = handles_refine_pointers [OF ex_prog_reach [unfolded ex_prog_def] ex_laws, folded ex_prog_def]
  have "{v. ptr_of (snd ex_prog v) = Some 640} = {0}" by (auto simp: ex_prog_def ptr_of_def split: if_splits)
  then have "card {v. ptr_of (snd ex_prog v) = Some 640} = 1" by simp
  moreover have "stmt_ok ?K (Async 2 0 C_recv None) ex_prog" "stmt_ok ?K (Destroy 0) ex_prog"
    by (simp_all add: stmt_ok_def has_async_def stream_async_def ex_prog_def)
  ultimately show ?thesis using facts by (auto simp: ex_prog_def points_to_def tags_of_def)
qed

text \<open>
  C21: assigning to the last handle of a stream leaks it: when a variable is the only pointer to a stream whose timer is
  armed, \<^verbatim>\<open>= default\<close> copy and move assignment release the pointer and nothing else. The timer is not cancelled, nothing is
  submitted, and the stream stays in the heap with its descriptor, for its completions only, without a variable that reaches it.
  The destructor of the same handle submits the removal of the timer, after which the stream can go.
\<close>

theorem overwritten_stream_leaks:
  assumes "prog_reach (runtime_class E junk) issued U (s, vs) pend" and "uring_laws E issued n"
    and "vs v = Some (C_stream, Some p)" and "refs vs p = 1" and "UD p F_timeout \<in># pend"
    and "a \<in> {Copy_assign v u, Move_assign v u}" and "v \<noteq> u" and "stmt_ok (runtime_class E junk) a (s, vs)"
  shows "\<exists>st. rt_heap (snd s) p = Some (A_stream st) \<and>
     (\<exists>s' vs'. exec (runtime_class E junk) a (s, vs) = (Ret (), (s', vs')) \<and> refs vs' p = 0 \<and>
        issued (io_ring (fst s')) = issued (io_ring (fst s)) \<and>
        rt_heap (snd s') p = Some (A_stream (st\<lparr>rc_count := rc_count st - 1\<rparr>))) \<and>
     (\<exists>s' vs' es. exec (runtime_class E junk) (Destroy v) (s, vs) = (Ret (), (s', vs')) \<and> refs vs' p = 0 \<and>
        issued (io_ring (fst s')) = issued (io_ring (fst s)) @ timeout_remove_sqe p # es)"
proof -
  have inv: "vars_inv (s, vs)" using prog_reach_ok [OF assms(1,2)] by simp
  note I = vars_invD [OF inv]
  have v: "ptr_of (vs v) = Some p" using assms(3) by simp
  obtain st where st: "rt_heap (snd s) p = Some (A_stream st)" "stream_inv (fst s) st" "rc_this st = p"
      "rc_count st = 1 + int (size (active_tags st))" "tf_initiated (timeout_fr st)" "1 < rc_count st"
    by (rule last_handle [OF assms(1-5)])
  obtain q where u: "vs u = Some (C_stream, q)" using assms(6,8) by (auto simp: stmt_ok_def assms(3) split: option.splits)
  have q: "q \<noteq> Some p" using only_var [OF assms(4) v assms(7) [symmetric]] u by simp
  have there: "rt_heap (snd s) r \<noteq> None" if "q = Some r" for r using I(3) [of u] u that by (auto simp: points_well_def split: option.splits)
  have gone: "refs (vs(v := x)) p = 0" if "ptr_of x \<noteq> Some p" for x using refs_upd [OF I(1), of v x p] that v assms(4) by simp
  have moved: "refs (vs(u \<mapsto> (C_stream, None), v \<mapsto> (C_stream, q))) p = 0"
    using refs_upd [OF I(1), of u "Some (C_stream, None)" p] refs_upd [of "vs(u \<mapsto> (C_stream, None))" v "Some (C_stream, q)" p]
      I(1) u q v assms(4,7) by simp
  have "\<exists>s' vs'. exec (runtime_class E junk) a (s, vs) = (Ret (), (s', vs')) \<and> refs vs' p = 0 \<and>
      issued (io_ring (fst s')) = issued (io_ring (fst s)) \<and> rt_heap (snd s') p = Some (A_stream (st\<lparr>rc_count := rc_count st - 1\<rparr>))"
    using copy_over [where vs = vs and v = v and q = q and c = C_stream and E = E and junk = junk, OF st(1,6) v q there]
      move_over [where vs = vs and v = v and q = q and c = C_stream and E = E and junk = junk, OF st(1,6) v assms(7)]
      assms(6) u gone [of "Some (C_stream, q)"] q moved
    by (auto simp: exec_def)
  moreover have "\<exists>s' vs' es. exec (runtime_class E junk) (Destroy v) (s, vs) = (Ret (), (s', vs')) \<and> refs vs' p = 0 \<and>
      issued (io_ring (fst s')) = issued (io_ring (fst s)) @ timeout_remove_sqe p # es"
    using destroy_over [where vs = vs and v = v and junk = junk, OF assms(2) st(1-5) assms(3)] gone [of None] by auto
  ultimately show ?thesis using st(1) by blast
qed

theorem overwritten_stream_leaks_witness:
  "\<exists>s' vs'. exec (runtime_class (list_platform 4) (\<lambda>_. 0)) (Move_assign 0 1) ex_prog = (Ret (), (s', vs')) \<and> refs vs' 640 = 0 \<and>
     rt_heap (snd s') 640 \<noteq> None"
proof -
  let ?K = "runtime_class (list_platform 4) (\<lambda>_. 0)"
  have "{v. ptr_of (snd ex_prog v) = Some 640} = {0}" by (auto simp: ex_prog_def ptr_of_def split: if_splits)
  then have "refs (snd ex_prog) 640 = 1" by (simp add: refs_def)
  moreover have "stmt_ok ?K (Move_assign 0 1) ex_prog" by (simp add: stmt_ok_def decl_defs ex_prog_def)
  moreover have "snd ex_prog 0 = Some (C_stream, Some 640)" by (simp add: ex_prog_def)
  moreover have reach: "prog_reach ?K lr_issued {0, 1} (fst ex_prog, snd ex_prog) {#UD 640 F_timeout#}" using ex_prog_reach by simp
  ultimately obtain st s' vs' where "exec ?K (Move_assign 0 1) (fst ex_prog, snd ex_prog) = (Ret (), (s', vs'))" "refs vs' 640 = 0"
      "rt_heap (snd s') 640 = Some (A_stream (st\<lparr>rc_count := rc_count st - 1\<rparr>))"
    using overwritten_stream_leaks [OF reach ex_laws, of 0 640 "Move_assign 0 1" 1] by auto
  then show ?thesis by simp
qed

end
